(* ===== verification/Prelude.thy ===== *)
theory Prelude
  imports Main "HOL-Library.Word"
begin

unbundle bit_operations_syntax

text \<open>
  Shared vocabulary of the Thunix development: the machine integers of the i386 target, the
  error numbers of \<^verbatim>\<open>include/errno-base.h\<close> and the error-in-pointer
  convention of \<^verbatim>\<open>include/err.h\<close>, the little-endian reading of bytes that every
  on-disk structure of the code relies on, and the generic lemmas on words, lists and options
  that the component theories use.
\<close>

section \<open>Machine integers\<close>

text \<open>
  The kernel is compiled with \<^verbatim>\<open>-m32\<close>: \<^verbatim>\<open>int\<close>, \<^verbatim>\<open>long\<close> and pointers have 32 bits.
\<close>

type_synonym u8 = "8 word"
type_synonym u16 = "16 word"
type_synonym u32 = "32 word"

named_theorems word_nat_simps "reading of word operations as operations on nat"

lemma unat_drop3 [word_nat_simps]: "unat (drop_bit 3 (w :: u32)) = unat w div 8"
  by (simp only: unat_drop_bit_eq) (simp add: drop_bit_eq_div)

lemma unat_and7 [word_nat_simps]: "unat ((w :: u32) AND 7) = unat w mod 8"
proof -
  have "w AND 7 = take_bit 3 w"
    by (simp add: take_bit_eq_mask mask_eq_exp_minus_1)
  then show ?thesis
    by (simp only: unsigned_take_bit_eq) (simp add: take_bit_eq_mod)
qed

lemma unat_of_nat_u32 [word_nat_simps]: "n < 2 ^ 32 \<Longrightarrow> unat (word_of_nat n :: u32) = n"
  by (simp add: unat_of_nat)

lemma sint_small: "unat (w :: u32) < 2 ^ 31 \<Longrightarrow> sint w = int (unat w)"
proof -
  assume *: "unat w < 2 ^ 31"
  from * have "int (unat w) < int (2 ^ 31)" by (simp only: of_nat_less_iff)
  then have "uint w < 2 ^ 31" by simp
  then have "signed_take_bit 31 (uint w) = uint w"
    by (intro signed_take_bit_int_eq_self order_trans [OF _ uint_ge_0]) simp_all
  then show ?thesis by (simp add: sint_uint)
qed

lemma word_of_int_sint_small: "word_of_int (int (unat (w :: u32))) = w"
  by simp

lemma unat_word_of_int_small: "0 \<le> i \<Longrightarrow> i < 2 ^ 32 \<Longrightarrow> unat (word_of_int i :: u32) = nat i"
  by (simp add: unat_eq_nat_uint uint_word_of_int)

lemma unat_word_of_pred: "1 \<le> i \<Longrightarrow> nat (i - 1) < 2 ^ 32 \<Longrightarrow> unat (word_of_int (i - 1) :: u32) = nat (i - 1)"
  by (rule unat_word_of_int_small) simp_all

section \<open>Error numbers\<close>

text \<open>The error numbers that the modelled code returns (\<^verbatim>\<open>errno-base.h\<close>, \<^verbatim>\<open>errno.h\<close>).\<close>

datatype errno =
    ENOENT | EIO | EBADF | ENOMEM | EEXIST | ENOTDIR | EINVAL | EFBIG | ENOSPC | ERANGE
  | ENAMETOOLONG | ENOSYS | ENOTEMPTY

fun errno_num :: "errno \<Rightarrow> int" where
  "errno_num ENOENT = 2"
| "errno_num EIO = 5"
| "errno_num EBADF = 9"
| "errno_num ENOMEM = 12"
| "errno_num EEXIST = 17"
| "errno_num ENOTDIR = 20"
| "errno_num EINVAL = 22"
| "errno_num EFBIG = 27"
| "errno_num ENOSPC = 28"
| "errno_num ERANGE = 34"
| "errno_num ENAMETOOLONG = 36"
| "errno_num ENOSYS = 38"
| "errno_num ENOTEMPTY = 39"

lemma errno_num_range: "1 \<le> errno_num e \<and> errno_num e \<le> 4095"
  by (cases e) simp_all

lemma errno_num_inj: "errno_num a = errno_num b \<Longrightarrow> a = b"
  by (cases a; cases b) simp_all

subsection \<open>Errors inside pointers: include/err.h\<close>

definition MAX_ERRNO :: u32 where
  "MAX_ERRNO = 4095"

definition IS_ERR_VALUE :: "u32 \<Rightarrow> bool" where
  "IS_ERR_VALUE x \<longleftrightarrow> - MAX_ERRNO \<le> x"

definition ERR_PTR :: "int \<Rightarrow> u32" where
  "ERR_PTR error = word_of_int error"

definition PTR_ERR :: "u32 \<Rightarrow> int" where
  "PTR_ERR ptr = sint ptr"

definition IS_ERR :: "u32 \<Rightarrow> bool" where
  "IS_ERR ptr \<longleftrightarrow> IS_ERR_VALUE ptr"

definition IS_ERR_OR_NULL :: "u32 \<Rightarrow> bool" where
  "IS_ERR_OR_NULL ptr \<longleftrightarrow> ptr = 0 \<or> IS_ERR_VALUE ptr"

definition ERR_CAST :: "u32 \<Rightarrow> u32" where
  "ERR_CAST ptr = ptr"

lemmas err_ptr_defs = MAX_ERRNO_def IS_ERR_VALUE_def ERR_PTR_def PTR_ERR_def IS_ERR_def
  IS_ERR_OR_NULL_def ERR_CAST_def

lemma PTR_ERR_ERR_PTR: "- (2 ^ 31) \<le> e \<Longrightarrow> e < 2 ^ 31 \<Longrightarrow> PTR_ERR (ERR_PTR e) = e"
  by (simp add: err_ptr_defs signed_of_int signed_take_bit_int_eq_self)

lemma IS_ERR_iff: "IS_ERR p \<longleftrightarrow> 2 ^ 32 - 4095 \<le> unat p"
  by (simp add: err_ptr_defs word_le_nat_alt)

lemma IS_ERR_ERR_PTR:
  assumes "- 4095 \<le> e" and "e < 0"
  shows "IS_ERR (ERR_PTR e)"
proof -
  have "uint (word_of_int e :: u32) = (e + 2 ^ 32) mod 2 ^ 32"
    by (simp only: uint_word_of_int mod_add_self2 len_num1) simp
  also have "\<dots> = e + 2 ^ 32"
    using assms by (intro mod_pos_pos_trivial) simp_all
  finally have "unat (word_of_int e :: u32) = nat (e + 2 ^ 32)"
    by (simp only: unat_eq_nat_uint)
  with assms show ?thesis
    by (simp add: IS_ERR_iff ERR_PTR_def)
qed

section \<open>Little-endian bytes\<close>

text \<open>
  How the i386 stores a 16-bit or 32-bit integer, and how it reads one back. Every on-disk
  structure of the file system is read and written by such accesses.
\<close>

definition le16 :: "u8 \<Rightarrow> u8 \<Rightarrow> u16" where
  "le16 a b = ucast a OR push_bit 8 (ucast b)"

definition le32 :: "u8 \<Rightarrow> u8 \<Rightarrow> u8 \<Rightarrow> u8 \<Rightarrow> u32" where
  "le32 a b c d = ucast a OR push_bit 8 (ucast b) OR push_bit 16 (ucast c) OR push_bit 24 (ucast d)"

definition bytes16 :: "u16 \<Rightarrow> u8 list" where
  "bytes16 w = [ucast w, ucast (drop_bit 8 w)]"

definition bytes32 :: "u32 \<Rightarrow> u8 list" where
  "bytes32 w = [ucast w, ucast (drop_bit 8 w), ucast (drop_bit 16 w), ucast (drop_bit 24 w)]"

lemma length_bytes16 [simp]: "length (bytes16 w) = 2"
  by (simp add: bytes16_def)

lemma length_bytes32 [simp]: "length (bytes32 w) = 4"
  by (simp add: bytes32_def)

lemma bit_le32:
  "bit (le32 a b c d) n \<longleftrightarrow>
     (if n < 8 then bit a n else if n < 16 then bit b (n - 8)
      else if n < 24 then bit c (n - 16) else bit d (n - 24))"
proof -
  have *: "bit (w :: u8) k \<Longrightarrow> k < 8" for w k
    using bit_imp_le_length [of w k] by simp
  show ?thesis
    by (auto simp: le32_def bit_simps dest: *)
qed

lemma bit_le16: "bit (le16 a b) n \<longleftrightarrow> (if n < 8 then bit a n else bit b (n - 8))"
proof -
  have *: "bit (w :: u8) k \<Longrightarrow> k < 8" for w k
    using bit_imp_le_length [of w k] by simp
  show ?thesis
    by (auto simp: le16_def bit_simps dest: *)
qed

lemma le32_bytes32:
  "le32 (ucast w) (ucast (drop_bit 8 w)) (ucast (drop_bit 16 w)) (ucast (drop_bit 24 w)) = w"
  by (rule bit_word_eqI) (auto simp: bit_le32 bit_simps)

lemma le16_bytes16: "le16 (ucast w) (ucast (drop_bit 8 w)) = w"
  by (rule bit_word_eqI) (auto simp: bit_le16 bit_simps)

lemma bytes32_le32: "bytes32 (le32 a b c d) = [a, b, c, d]"
  by (auto simp: bytes32_def intro!: bit_word_eqI) (auto simp: bit_le32 bit_simps)

lemma bytes16_le16: "bytes16 (le16 a b) = [a, b]"
  by (auto simp: bytes16_def intro!: bit_word_eqI) (auto simp: bit_le16 bit_simps)

lemma le32_inject: "le32 a b c d = le32 a' b' c' d' \<longleftrightarrow> a = a' \<and> b = b' \<and> c = c' \<and> d = d'"
proof
  assume "le32 a b c d = le32 a' b' c' d'"
  then have "bytes32 (le32 a b c d) = bytes32 (le32 a' b' c' d')"
    by (rule arg_cong)
  then show "a = a' \<and> b = b' \<and> c = c' \<and> d = d'"
    by (simp only: bytes32_le32 list.inject)
qed (simp only:)

lemma le32_ones: "le32 a b c d = - 1 \<longleftrightarrow> a = - 1 \<and> b = - 1 \<and> c = - 1 \<and> d = - 1"
proof -
  have "le32 (- 1) (- 1) (- 1) (- 1) = - 1"
    by (rule bit_word_eqI) (auto simp: bit_le32)
  then show ?thesis
    by (metis le32_inject)
qed

subsection \<open>Reading and writing a field inside a buffer\<close>

definition slice :: "nat \<Rightarrow> nat \<Rightarrow> 'a list \<Rightarrow> 'a list" where
  "slice off n xs = take n (drop off xs)"

definition splice_at :: "nat \<Rightarrow> 'a list \<Rightarrow> 'a list \<Rightarrow> 'a list" where
  "splice_at off ys xs = take off xs @ ys @ drop (off + length ys) xs"

lemma length_slice [simp]: "off + n \<le> length xs \<Longrightarrow> length (slice off n xs) = n"
  by (simp add: slice_def)

lemma length_splice_at [simp]:
  "off + length ys \<le> length xs \<Longrightarrow> length (splice_at off ys xs) = length xs"
  by (simp add: splice_at_def)

lemma slice_splice_same [simp]:
  "off + length ys \<le> length xs \<Longrightarrow> n = length ys \<Longrightarrow> slice off n (splice_at off ys xs) = ys"
  by (simp add: slice_def splice_at_def)

lemma nth_splice_at:
  "off + length ys \<le> length xs \<Longrightarrow> i < length xs \<Longrightarrow>
   splice_at off ys xs ! i = (if off \<le> i \<and> i < off + length ys then ys ! (i - off) else xs ! i)"
  by (auto simp: splice_at_def nth_append min_def)

lemma slice_splice_other:
  assumes "off + length ys \<le> length xs" and "o2 + n \<le> length xs"
    and "o2 + n \<le> off \<or> off + length ys \<le> o2"
  shows "slice o2 n (splice_at off ys xs) = slice o2 n xs"
proof (rule nth_equalityI)
  show "length (slice o2 n (splice_at off ys xs)) = length (slice o2 n xs)"
    using assms by simp
next
  fix i assume "i < length (slice o2 n (splice_at off ys xs))"
  then have i: "i < n" using assms by simp
  then show "slice o2 n (splice_at off ys xs) ! i = slice o2 n xs ! i"
    using assms by (auto simp: slice_def nth_splice_at)
qed

lemma splice_splice:
  assumes "off + length ys + length zs \<le> length buf" and "m = off + length ys"
  shows "splice_at m zs (splice_at off ys buf) = splice_at off (ys @ zs) buf"
  using assms by (simp add: splice_at_def ac_simps)

section \<open>Lists\<close>

lemma find_append_case:
  "List.find P (xs @ ys) = (case List.find P xs of None \<Rightarrow> List.find P ys | Some x \<Rightarrow> Some x)"
  by (induction xs) auto

end
