(* ===== verification/Bitops.thy ===== *)
theory Bitops
  imports Prelude
begin

text \<open>
  The bit operations of \<^verbatim>\<open>lib/bitopts.c\<close>: bit \<^verbatim>\<open>nr\<close> of a byte buffer is bit \<^verbatim>\<open>nr & 7\<close> of
  byte \<^verbatim>\<open>nr >> 3\<close>. A buffer is the list of its bytes; an access outside it is
  \<^term>\<open>None\<close>. The interface \<open>bit_buffer\<close> states what the allocators of the file
  system rely on.
\<close>

section \<open>The operations\<close>

definition bit_mask :: "u32 \<Rightarrow> u8" where
  "bit_mask nr = push_bit (unat (nr AND 7)) 1"

definition byte_index :: "u32 \<Rightarrow> nat" where
  "byte_index nr = unat (drop_bit 3 nr)"

text \<open>Each returns the masked old value (not 0 or 1) with the new buffer.\<close>

definition set_bit :: "u8 list \<Rightarrow> u32 \<Rightarrow> (u8 \<times> u8 list) option" where
  "set_bit addr nr =
     (let i = byte_index nr; mask = bit_mask nr in
      if i < length addr
      then Some (mask AND addr ! i, addr[i := addr ! i OR mask])
      else None)"

definition clear_bit :: "u8 list \<Rightarrow> u32 \<Rightarrow> (u8 \<times> u8 list) option" where
  "clear_bit addr nr =
     (let i = byte_index nr; mask = bit_mask nr in
      if i < length addr
      then Some (mask AND addr ! i, addr[i := addr ! i AND NOT mask])
      else None)"

definition test_bit :: "u8 list \<Rightarrow> u32 \<Rightarrow> u8 option" where
  "test_bit addr nr =
     (let i = byte_index nr; mask = bit_mask nr in
      if i < length addr then Some (mask AND addr ! i) else None)"

text \<open>
  \<^verbatim>\<open>find_first_zero\<close> reads the buffer 32 bits at a time. The loop reads \<^verbatim>\<open>*p\<close> before
  it compares \<^verbatim>\<open>p\<close> with \<^verbatim>\<open>end\<close>, so a full buffer makes it read the word at
  \<^verbatim>\<open>end\<close>; \<^verbatim>\<open>past\<close> is that word's value.
\<close>

definition word_at :: "u32 \<Rightarrow> u8 list \<Rightarrow> nat \<Rightarrow> u32" where
  "word_at past buf p =
     (if p + 3 < length buf then le32 (buf ! p) (buf ! (p + 1)) (buf ! (p + 2)) (buf ! (p + 3))
      else past)"

function skip_full_words :: "u32 \<Rightarrow> u8 list \<Rightarrow> nat \<Rightarrow> u32 \<Rightarrow> nat \<times> u32" where
  "skip_full_words past buf p block =
     (if word_at past buf p = 0xffffffff \<and> p < length buf
      then skip_full_words past buf (p + 4) (block + 32) else (p, block))"
  by pat_completeness auto
termination
  by (relation "measure (\<lambda>(past, buf, p, block). length buf - p)") auto

declare skip_full_words.simps [simp del]

fun first_zero_below :: "u8 list \<Rightarrow> nat list \<Rightarrow> nat option" where
  "first_zero_below p [] = None"
| "first_zero_below p (i # is) =
     (if test_bit p (word_of_nat i) = Some 0 then Some i else first_zero_below p is)"

definition find_first_zero :: "u32 \<Rightarrow> u8 list \<Rightarrow> u32" where
  "find_first_zero past buf =
     (case skip_full_words past buf 0 0 of (p, block) \<Rightarrow>
        if p \<ge> length buf then - 1
        else (case first_zero_below (drop p buf) [0..<32] of
                Some i \<Rightarrow> block + word_of_nat i
              | None \<Rightarrow> - 1))"

section \<open>The bits of a buffer\<close>

text \<open>The abstraction: which bit numbers are set.\<close>

definition bit_at :: "u8 list \<Rightarrow> nat \<Rightarrow> bool" where
  "bit_at buf n \<longleftrightarrow> bit (buf ! (n div 8)) (n mod 8)"

named_theorems bitops_defs
declare bit_mask_def [bitops_defs] byte_index_def [bitops_defs]

lemma byte_index_nat [simp]: "byte_index nr = unat nr div 8"
  by (simp add: byte_index_def word_nat_simps)

lemma bit_bit_mask: "k < 8 \<Longrightarrow> bit (bit_mask nr) k \<longleftrightarrow> k = unat nr mod 8"
  by (simp add: bit_mask_def word_nat_simps bit_simps)

lemma mask_and_zero: "bit_mask nr AND b = 0 \<longleftrightarrow> \<not> bit b (unat nr mod 8)"
proof -
  have "bit_mask nr AND b = 0 \<longleftrightarrow> (\<forall>k < 8. \<not> (bit (bit_mask nr) k \<and> bit b k))"
    by (auto simp: bit_eq_iff bit_simps)
  also have "\<dots> \<longleftrightarrow> \<not> bit b (unat nr mod 8)"
    by (auto simp: bit_bit_mask)
  finally show ?thesis .
qed

lemma test_bit_Some:
  "unat nr < 8 * length buf \<Longrightarrow> test_bit buf nr = Some (bit_mask nr AND buf ! (unat nr div 8))"
  by (simp add: test_bit_def Let_def)

lemma test_bit_zero_iff:
  "unat nr < 8 * length buf \<Longrightarrow> test_bit buf nr = Some 0 \<longleftrightarrow> \<not> bit_at buf (unat nr)"
  by (simp add: test_bit_Some mask_and_zero bit_at_def)

lemma bit_at_update:
  assumes "i < length buf" and "n < 8 * length buf"
  shows "bit_at (buf[i := v]) n \<longleftrightarrow> (if n div 8 = i then bit v (n mod 8) else bit_at buf n)"
  using assms by (simp add: bit_at_def nth_list_update)

lemma set_bit_Some:
  assumes "set_bit buf nr = Some (r, buf')"
  shows "unat nr < 8 * length buf" and "length buf' = length buf"
    and "r = 0 \<longleftrightarrow> \<not> bit_at buf (unat nr)"
    and "n < 8 * length buf \<Longrightarrow> bit_at buf' n \<longleftrightarrow> n = unat nr \<or> bit_at buf n"
proof -
  from assms have i: "unat nr div 8 < length buf"
    and r: "r = bit_mask nr AND buf ! (unat nr div 8)"
    and b: "buf' = buf[unat nr div 8 := buf ! (unat nr div 8) OR bit_mask nr]"
    by (auto simp: set_bit_def Let_def split: if_splits)
  from i show "unat nr < 8 * length buf" by simp
  from b show "length buf' = length buf" by simp
  from r show "r = 0 \<longleftrightarrow> \<not> bit_at buf (unat nr)" by (simp add: mask_and_zero bit_at_def)
  have same: "n div 8 = unat nr div 8 \<Longrightarrow> n mod 8 = unat nr mod 8 \<Longrightarrow> n = unat nr"
    by (metis div_mult_mod_eq)
  assume "n < 8 * length buf"
  then show "bit_at buf' n \<longleftrightarrow> n = unat nr \<or> bit_at buf n"
    using i same by (auto simp: b bit_at_update bit_or_iff bit_bit_mask) (auto simp: bit_at_def)
qed

lemma clear_bit_Some:
  assumes "clear_bit buf nr = Some (r, buf')"
  shows "unat nr < 8 * length buf" and "length buf' = length buf"
    and "r = 0 \<longleftrightarrow> \<not> bit_at buf (unat nr)"
    and "n < 8 * length buf \<Longrightarrow> bit_at buf' n \<longleftrightarrow> n \<noteq> unat nr \<and> bit_at buf n"
proof -
  from assms have i: "unat nr div 8 < length buf"
    and r: "r = bit_mask nr AND buf ! (unat nr div 8)"
    and b: "buf' = buf[unat nr div 8 := buf ! (unat nr div 8) AND NOT (bit_mask nr)]"
    by (auto simp: clear_bit_def Let_def split: if_splits)
  from i show "unat nr < 8 * length buf" by simp
  from b show "length buf' = length buf" by simp
  from r show "r = 0 \<longleftrightarrow> \<not> bit_at buf (unat nr)" by (simp add: mask_and_zero bit_at_def)
  have same: "n div 8 = unat nr div 8 \<Longrightarrow> n mod 8 = unat nr mod 8 \<Longrightarrow> n = unat nr"
    by (metis div_mult_mod_eq)
  assume "n < 8 * length buf"
  then show "bit_at buf' n \<longleftrightarrow> n \<noteq> unat nr \<and> bit_at buf n"
    using i same
    by (auto simp: b bit_at_update bit_and_iff bit_not_iff bit_bit_mask) (auto simp: bit_at_def)
qed

lemma set_bit_in_range: "unat nr < 8 * length buf \<Longrightarrow> \<exists>r buf'. set_bit buf nr = Some (r, buf')"
  by (simp add: set_bit_def Let_def)

lemma clear_bit_in_range: "unat nr < 8 * length buf \<Longrightarrow> \<exists>r buf'. clear_bit buf nr = Some (r, buf')"
  by (simp add: clear_bit_def Let_def)


section \<open>find_first_zero finds the least clear bit\<close>

lemma div8_mod8:
  fixes i :: nat
  assumes "8 * c \<le> i" and "i < 8 * c + 8"
  shows "(8 * p + i) div 8 = p + c" and "(8 * p + i) mod 8 = i - 8 * c"
proof -
  from assms have "i div 8 = c" by (intro div_nat_eqI) simp_all
  then show "(8 * p + i) div 8 = p + c" and "(8 * p + i) mod 8 = i - 8 * c"
    by (simp_all add: modulo_nat_def)
qed

lemma bit_word_at:
  assumes "p + 3 < length buf" and "i < 32"
  shows "bit (word_at past buf p) i \<longleftrightarrow> bit_at buf (8 * p + i)"
proof -
  consider "i < 8" | "8 \<le> i" "i < 16" | "16 \<le> i" "i < 24" | "24 \<le> i"
    by linarith
  then show ?thesis
  proof cases
    case 1
    with assms div8_mod8 [of 0 i p] show ?thesis by (simp add: word_at_def bit_le32 bit_at_def)
  next
    case 2
    with assms div8_mod8 [of 1 i p] show ?thesis by (simp add: word_at_def bit_le32 bit_at_def)
  next
    case 3
    with assms div8_mod8 [of 2 i p] show ?thesis by (simp add: word_at_def bit_le32 bit_at_def)
  next
    case 4
    with assms div8_mod8 [of 3 i p] show ?thesis by (simp add: word_at_def bit_le32 bit_at_def)
  qed
qed

lemma word_at_full:
  assumes "p + 3 < length buf"
  shows "word_at past buf p = 0xffffffff \<longleftrightarrow> (\<forall>i < 32. bit_at buf (8 * p + i))"
proof -
  have ones: "(0xffffffff :: u32) = - 1" by simp
  have "word_at past buf p = - 1 \<longleftrightarrow> (\<forall>i < 32. bit (word_at past buf p) i)"
    by (auto simp: bit_eq_iff bit_simps)
  then show ?thesis
    unfolding ones using bit_word_at [OF assms] by simp
qed

definition full_upto :: "u8 list \<Rightarrow> nat \<Rightarrow> bool" where
  "full_upto buf n \<longleftrightarrow> (\<forall>k < n. bit_at buf k)"

lemma full_upto_word:
  assumes "full_upto buf (8 * p)" and "\<forall>i < 32. bit_at buf (8 * p + i)"
  shows "full_upto buf (8 * (p + 4))"
  unfolding full_upto_def
proof (intro allI impI)
  fix k assume k: "k < 8 * (p + 4)"
  show "bit_at buf k"
  proof (cases "k < 8 * p")
    case True
    with assms(1) show ?thesis by (simp add: full_upto_def)
  next
    case False
    with k have "k - 8 * p < 32" by simp
    with assms(2) have "bit_at buf (8 * p + (k - 8 * p))" by blast
    with False show ?thesis by simp
  qed
qed

lemma skip_full_words_inv:
  assumes "skip_full_words past buf p block = (q, b)"
    and "4 dvd length buf" and "4 dvd p" and "p \<le> length buf"
    and "full_upto buf (8 * p)" and "block = word_of_nat (8 * p)"
  shows "4 dvd q \<and> q \<le> length buf \<and> full_upto buf (8 * q) \<and> b = word_of_nat (8 * q) \<and>
    (q < length buf \<longrightarrow> (\<exists>i < 32. \<not> bit_at buf (8 * q + i)))"
  using assms
proof (induction past buf p block arbitrary: q b rule: skip_full_words.induct)
  case (1 past buf p block)
  have in_word: "p < length buf \<Longrightarrow> p + 3 < length buf"
    using "1.prems"(2,3) by presburger
  show ?case
  proof (cases "word_at past buf p = 0xffffffff \<and> p < length buf")
    case True
    then have full: "full_upto buf (8 * (p + 4))"
      using "1.prems"(5) in_word word_at_full full_upto_word by blast
    have blk: "block + 32 = word_of_nat (8 * (p + 4))"
      by (simp add: "1.prems"(6))
    have rec: "skip_full_words past buf (p + 4) (block + 32) = (q, b)"
      using "1.prems"(1) True by (subst (asm) skip_full_words.simps) simp
    show ?thesis
    proof (rule "1.IH" [OF True rec "1.prems"(2) _ _ full blk])
      show "4 dvd p + 4" using "1.prems"(3) by simp
      show "p + 4 \<le> length buf" using True in_word by simp
    qed
  next
    case False
    then have "q = p" and "b = block"
      using "1.prems"(1) by (subst (asm) skip_full_words.simps, auto)+
    have "\<exists>i < 32. \<not> bit_at buf (8 * p + i)" if "p < length buf"
      using False that word_at_full [OF in_word [OF that]] by blast
    with "1.prems" show ?thesis
      unfolding \<open>q = p\<close> \<open>b = block\<close> by blast
  qed
qed

lemma first_zero_below_find:
  assumes "\<forall>i \<in> set is. i < 32 \<and> i < 8 * length (drop p buf)"
  shows "first_zero_below (drop p buf) is = List.find (\<lambda>i. \<not> bit_at buf (8 * p + i)) is"
  using assms
proof (induction "is")
  case Nil
  then show ?case by simp
next
  case (Cons i "is")
  from Cons.prems have i: "i < 32" "i < 8 * length (drop p buf)" by auto
  then have u: "unat (word_of_nat i :: u32) = i" by (simp add: unat_of_nat)
  have "p + i div 8 < length buf" using i by simp
  moreover have "(8 * p + i) div 8 = p + i div 8" and "(8 * p + i) mod 8 = i mod 8"
    by simp_all
  ultimately have "bit_at (drop p buf) i = bit_at buf (8 * p + i)"
    by (simp add: bit_at_def)
  with u i have "test_bit (drop p buf) (word_of_nat i) = Some 0 \<longleftrightarrow> \<not> bit_at buf (8 * p + i)"
    using test_bit_zero_iff [of "word_of_nat i" "drop p buf"] by simp
  then show ?case using Cons by simp
qed

text \<open>The specification: the least clear bit, or \<^term>\<open>- 1\<close>.\<close>

definition first_zero_spec :: "u8 list \<Rightarrow> u32" where
  "first_zero_spec buf =
     (case List.find (\<lambda>n. \<not> bit_at buf n) [0..<8 * length buf] of
        None \<Rightarrow> - 1 | Some n \<Rightarrow> word_of_nat n)"

lemma find_upt_skip: "full_upto buf m \<Longrightarrow> m \<le> n \<Longrightarrow>
  List.find (\<lambda>n. \<not> bit_at buf n) [0..<n] = List.find (\<lambda>n. \<not> bit_at buf n) [m..<n]"
proof -
  assume full: "full_upto buf m" and "m \<le> n"
  then have "[0..<n] = [0..<m] @ [m..<n]" using upt_add_eq_append [of 0 m "n - m"] by simp
  moreover have "List.find (\<lambda>n. \<not> bit_at buf n) [0..<m] = None"
    using full by (simp add: find_None_iff full_upto_def)
  ultimately show ?thesis by (simp add: find_append_case)
qed

lemma find_upt_shift:
  "List.find P [m..<m + k] = map_option ((+) m) (List.find (\<lambda>i. P (m + i)) [0..<k])"
proof -
  have "[m..<m + k] = map ((+) m) [0..<k]" by (induction k) simp_all
  moreover have "List.find P (map ((+) m) xs) = map_option ((+) m) (List.find (\<lambda>i. P (m + i)) xs)"
    for xs by (induction xs) auto
  ultimately show ?thesis by simp
qed

lemma find_first_zero_correct:
  assumes dvd: "4 dvd length buf"
  shows "find_first_zero past buf = first_zero_spec buf"
proof -
  obtain q b where qb: "skip_full_words past buf 0 0 = (q, b)" by force
  have "4 dvd q \<and> q \<le> length buf \<and> full_upto buf (8 * q) \<and> b = word_of_nat (8 * q) \<and>
    (q < length buf \<longrightarrow> (\<exists>i < 32. \<not> bit_at buf (8 * q + i)))"
    using qb dvd by (rule skip_full_words_inv) (simp_all add: full_upto_def)
  then have q: "4 dvd q" "q \<le> length buf" "full_upto buf (8 * q)" "b = word_of_nat (8 * q)"
    and stop: "q < length buf \<Longrightarrow> \<exists>i < 32. \<not> bit_at buf (8 * q + i)" by auto
  let ?z = "\<lambda>n. \<not> bit_at buf n"
  have tail: "List.find ?z [0..<8 * length buf] = List.find ?z [8 * q..<8 * length buf]"
    using find_upt_skip [OF q(3)] q(2) by simp
  show ?thesis
  proof (cases "q < length buf")
    case False
    with q(2) tail qb show ?thesis by (simp add: find_first_zero_def first_zero_spec_def)
  next
    case True
    with dvd q(1) have room: "8 * q + 32 \<le> 8 * length buf" by presburger
    then have split: "[8 * q..<8 * length buf] = [8 * q..<8 * q + 32] @ [8 * q + 32..<8 * length buf]"
      using upt_add_eq_append [of "8 * q" "8 * q + 32" "8 * length buf - (8 * q + 32)"] by simp
    from stop [OF True] have "List.find (\<lambda>i. ?z (8 * q + i)) [0..<32] \<noteq> None"
      by (auto simp: find_None_iff)
    then obtain i where i: "List.find (\<lambda>i. ?z (8 * q + i)) [0..<32] = Some i" by auto
    have "\<forall>j \<in> set [0..<32]. j < 32 \<and> j < 8 * length (drop q buf)"
      using room by auto
    then have "first_zero_below (drop q buf) [0..<32] = Some i"
      by (simp only: first_zero_below_find i)
    moreover have "List.find ?z [0..<8 * length buf] = Some (8 * q + i)"
      unfolding tail split find_append_case find_upt_shift i by simp
    ultimately show ?thesis
      using True q(4) qb by (simp add: find_first_zero_def first_zero_spec_def)
  qed
qed

lemma first_zero_spec_cases:
  assumes "8 * length buf < 2 ^ 32"
  shows "first_zero_spec buf = - 1 \<and> full_upto buf (8 * length buf) \<or>
    unat (first_zero_spec buf) < 8 * length buf \<and> \<not> bit_at buf (unat (first_zero_spec buf)) \<and>
    full_upto buf (unat (first_zero_spec buf))"
proof (cases "List.find (\<lambda>n. \<not> bit_at buf n) [0..<8 * length buf]")
  case None
  then have "first_zero_spec buf = - 1" by (simp add: first_zero_spec_def)
  moreover from None have "full_upto buf (8 * length buf)" by (auto simp: find_None_iff full_upto_def)
  ultimately show ?thesis by blast
next
  case (Some n)
  then have n: "n < 8 * length buf" "\<not> bit_at buf n" "\<forall>k < n. bit_at buf k"
    by (auto simp: find_Some_iff)
  moreover have "unat (word_of_nat n :: u32) = n"
    using n(1) assms by (intro unat_of_nat_u32) linarith
  ultimately show ?thesis
    using Some by (simp add: first_zero_spec_def full_upto_def)
qed

section \<open>The interface the allocators use\<close>

text \<open>
  A bit buffer promises that setting or clearing a bit inside it succeeds and changes that bit
  only. What an allocator needs follows from that alone: the count of used bits moves by one and
  a free undoes an allocation.
\<close>

locale bit_buffer =
  fixes set_op :: "'b \<Rightarrow> u32 \<Rightarrow> 'b option"
    and clear_op :: "'b \<Rightarrow> u32 \<Rightarrow> 'b option"
    and nbits :: "'b \<Rightarrow> nat"
    and used :: "'b \<Rightarrow> nat \<Rightarrow> bool"
  assumes set_op_ok: "unat n < nbits b \<Longrightarrow> \<exists>b'. set_op b n = Some b' \<and> nbits b' = nbits b \<and>
      (\<forall>k < nbits b. used b' k \<longleftrightarrow> k = unat n \<or> used b k)"
    and clear_op_ok: "unat n < nbits b \<Longrightarrow> \<exists>b'. clear_op b n = Some b' \<and> nbits b' = nbits b \<and>
      (\<forall>k < nbits b. used b' k \<longleftrightarrow> k \<noteq> unat n \<and> used b k)"
begin

lemma set_then_clear:
  assumes "unat n < nbits b" and "\<not> used b (unat n)"
  obtains b' b'' where "set_op b n = Some b'" and "clear_op b' n = Some b''"
    and "nbits b'' = nbits b" and "\<forall>k < nbits b. used b'' k = used b k"
proof -
  from set_op_ok [OF assms(1)] obtain b' where b': "set_op b n = Some b'" "nbits b' = nbits b"
    "\<forall>k < nbits b. used b' k \<longleftrightarrow> k = unat n \<or> used b k" by blast
  with assms(1) have "unat n < nbits b'" by simp
  from clear_op_ok [OF this] obtain b'' where b'': "clear_op b' n = Some b''"
    "nbits b'' = nbits b'" "\<forall>k < nbits b'. used b'' k \<longleftrightarrow> k \<noteq> unat n \<and> used b' k" by blast
  have "\<forall>k < nbits b. used b'' k = used b k"
    using b'(2,3) b''(3) assms(2) by auto
  with that b' b'' show thesis by simp
qed

lemma card_used_set:
  assumes "unat n < nbits b" and "\<not> used b (unat n)" and "set_op b n = Some b'"
  shows "card {k. k < nbits b' \<and> used b' k} = Suc (card {k. k < nbits b \<and> used b k})"
proof -
  from set_op_ok [OF assms(1)] assms(3) have "nbits b' = nbits b"
    and "\<forall>k < nbits b. used b' k \<longleftrightarrow> k = unat n \<or> used b k" by auto
  then have "{k. k < nbits b' \<and> used b' k} = insert (unat n) {k. k < nbits b \<and> used b k}"
    using assms(1) by auto
  with assms(2) show ?thesis by simp
qed

lemma card_used_clear:
  assumes "unat n < nbits b" and "used b (unat n)" and "clear_op b n = Some b'"
  shows "Suc (card {k. k < nbits b' \<and> used b' k}) = card {k. k < nbits b \<and> used b k}"
proof -
  from clear_op_ok [OF assms(1)] assms(3) have "nbits b' = nbits b"
    and "\<forall>k < nbits b. used b' k \<longleftrightarrow> k \<noteq> unat n \<and> used b k" by auto
  then have "{k. k < nbits b \<and> used b k} = insert (unat n) {k. k < nbits b' \<and> used b' k}"
    and "unat n \<notin> {k. k < nbits b' \<and> used b' k}"
    using assms(1,2) by auto
  then show ?thesis by simp
qed

end

interpretation bitops: bit_buffer
  "\<lambda>b n. map_option snd (set_bit b n)" "\<lambda>b n. map_option snd (clear_bit b n)"
  "\<lambda>b. 8 * length b" bit_at
proof unfold_locales
  fix n :: u32 and b :: "u8 list"
  assume n: "unat n < 8 * length b"
  from set_bit_in_range [OF n] obtain r b' where s: "set_bit b n = Some (r, b')" by blast
  from set_bit_Some(2,4) [OF s] s
  show "\<exists>b'. map_option snd (set_bit b n) = Some b' \<and> 8 * length b' = 8 * length b \<and>
      (\<forall>k < 8 * length b. bit_at b' k \<longleftrightarrow> k = unat n \<or> bit_at b k)" by auto
  from clear_bit_in_range [OF n] obtain r b' where c: "clear_bit b n = Some (r, b')" by blast
  from clear_bit_Some(2,4) [OF c] c
  show "\<exists>b'. map_option snd (clear_bit b n) = Some b' \<and> 8 * length b' = 8 * length b \<and>
      (\<forall>k < 8 * length b. bit_at b' k \<longleftrightarrow> k \<noteq> unat n \<and> bit_at b k)" by auto
qed

section \<open>Properties\<close>

text \<open>
  \<^verbatim>\<open>find_first_zero\<close> gives the least clear bit. On a buffer of whole 32-bit words the result is
  either the number of a clear bit inside the buffer below which every bit is set, or \<open>- 1\<close>, and then
  every bit of the buffer is set; the word behind the buffer, which the loop reads too when the
  buffer is full, never matters.
\<close>

theorem find_first_zero_least:
  assumes "4 dvd length buf" and "8 * length buf < 2 ^ 32"
  shows "find_first_zero past buf = - 1 \<and> full_upto buf (8 * length buf) \<or>
    unat (find_first_zero past buf) < 8 * length buf \<and>
    \<not> bit_at buf (unat (find_first_zero past buf)) \<and>
    full_upto buf (unat (find_first_zero past buf))"
  using first_zero_spec_cases [OF assms(2)] find_first_zero_correct [OF assms(1)] by simp

theorem find_first_zero_least_witness:
  "find_first_zero 0 [255, 255, 255, 255, 7, 0, 0, 0] = 35 \<and>
   \<not> bit_at [255, 255, 255, 255, 7, 0, 0, 0] 35 \<and> full_upto [255, 255, 255, 255, 7, 0, 0, 0] 35"
proof -
  have f: "find_first_zero 0 [255, 255, 255, 255, 7, 0, 0, 0] = 35" by code_simp
  have "4 dvd length [255, 255, 255, 255, 7, 0, 0, 0 :: u8]" by (rule dvdI [of _ _ 2]) simp
  from find_first_zero_least [OF this, of 0] show ?thesis unfolding f by simp
qed

text \<open>
  setting and clearing bits. Inside the buffer \<^verbatim>\<open>set_bit\<close> and \<^verbatim>\<open>clear_bit\<close> return 0 exactly
  when the bit was clear, keep the length and change that one bit; \<^verbatim>\<open>test_bit\<close> sees 0 exactly on a
  clear bit; and clearing a bit that was set when it was clear gives back the same bits.
\<close>

theorem set_clear_bit:
  assumes "unat nr < 8 * length buf"
  shows "\<exists>r buf' r2 buf''. set_bit buf nr = Some (r, buf') \<and> (r = 0 \<longleftrightarrow> \<not> bit_at buf (unat nr)) \<and>
    (test_bit buf nr = Some 0 \<longleftrightarrow> \<not> bit_at buf (unat nr)) \<and> test_bit buf' nr \<noteq> Some 0 \<and>
    (\<forall>k < 8 * length buf. bit_at buf' k \<longleftrightarrow> k = unat nr \<or> bit_at buf k) \<and>
    clear_bit buf' nr = Some (r2, buf'') \<and> r2 \<noteq> 0 \<and> length buf'' = length buf \<and>
    (\<forall>k < 8 * length buf. bit_at buf'' k \<longleftrightarrow> k \<noteq> unat nr \<and> bit_at buf k)"
proof -
  from set_bit_in_range [OF assms] obtain r buf' where s: "set_bit buf nr = Some (r, buf')" by blast
  note s' = set_bit_Some [OF s]
  with assms have "unat nr < 8 * length buf'" by simp
  from clear_bit_in_range [OF this] obtain r2 buf'' where c: "clear_bit buf' nr = Some (r2, buf'')" by blast
  from s s' c clear_bit_Some [OF c] assms test_bit_zero_iff [of nr buf] test_bit_zero_iff [of nr buf']
  show ?thesis by auto
qed

theorem set_clear_bit_witness:
  "\<exists>r buf' r2 buf''. set_bit [0, 9] 11 = Some (r, buf') \<and> clear_bit buf' 11 = Some (r2, buf'') \<and> r2 \<noteq> 0"
  using set_clear_bit [of 11 "[0, 9]"] by auto

end
