(* ===== verification/Cstring.thy ===== *)
theory Cstring
  imports Prelude
begin

text \<open>
  The string and memory functions of \<^verbatim>\<open>lib/string.c\<close>. The functions that only read take what
  their pointer sees, the bytes from it to the end of the object, as a list; running off that end is
  \<^term>\<open>None\<close>. The functions that write work on a store of bytes, where source and destination may
  overlap. \<^verbatim>\<open>char\<close> is signed.
\<close>

section \<open>Reading\<close>

fun strlen :: "u8 list \<Rightarrow> nat option" where
  "strlen [] = None"
| "strlen (c # s) = (if c = 0 then Some 0 else map_option Suc (strlen s))"

fun strcmp :: "u8 list \<Rightarrow> u8 list \<Rightarrow> int option" where
  "strcmp (a # s) (b # t) = (if a = b \<and> a \<noteq> 0 then strcmp s t else Some (sint a - sint b))"
| "strcmp _ _ = None"

text \<open>The count is decremented before it is tested, so a count of 0 never stops the loop.\<close>

fun strncmp :: "u8 list \<Rightarrow> u8 list \<Rightarrow> int \<Rightarrow> int option" where
  "strncmp (a # s) (b # t) n =
     (let n = n - 1 in
      if n \<noteq> 0 \<and> a = b \<and> a \<noteq> 0 then strncmp s t n else Some (sint a - sint b))"
| "strncmp _ _ _ = None"

text \<open>The result is the offset of the byte, or \<^term>\<open>Some None\<close> for the null pointer.\<close>

fun strchr :: "u8 list \<Rightarrow> int \<Rightarrow> nat option option" where
  "strchr [] c = None"
| "strchr (x # s) c =
     (if x = 0 then Some None
      else if sint x = c then Some (Some 0)
      else map_option (map_option Suc) (strchr s c))"

text \<open>
  \<^verbatim>\<open>strrchr\<close> walks back from the last byte. It reads the byte before the string before it sees that
  it has left it; whatever is there, the loop stops and the result is the null pointer.
\<close>

fun strrchr_down :: "u8 list \<Rightarrow> int \<Rightarrow> nat \<Rightarrow> nat option" where
  "strrchr_down s c 0 = None"
| "strrchr_down s c (Suc k) = (if sint (s ! k) = c then Some k else strrchr_down s c k)"

definition strrchr :: "u8 list \<Rightarrow> int \<Rightarrow> nat option option" where
  "strrchr s c = map_option (strrchr_down s c) (strlen s)"

fun memcmp :: "u8 list \<Rightarrow> u8 list \<Rightarrow> nat \<Rightarrow> int option" where
  "memcmp cs ct 0 = Some 0"
| "memcmp (a # cs) (b # ct) (Suc count) =
     (let res = int (unat a) - int (unat b) in if res \<noteq> 0 then Some res else memcmp cs ct count)"
| "memcmp _ _ (Suc _) = None"

section \<open>Writing\<close>

type_synonym mem = "nat \<Rightarrow> u8"

fun memset :: "mem \<Rightarrow> nat \<Rightarrow> u8 \<Rightarrow> nat \<Rightarrow> mem" where
  "memset m xs c 0 = m"
| "memset m xs c (Suc count) = memset (m(xs := c)) (xs + 1) c count"

fun memset_word :: "mem \<Rightarrow> nat \<Rightarrow> u16 \<Rightarrow> nat \<Rightarrow> mem" where
  "memset_word m xs word 0 = m"
| "memset_word m xs word (Suc count) =
     memset_word (m(xs := ucast word, xs + 1 := ucast (drop_bit 8 word))) (xs + 2) word count"

fun memcpy :: "mem \<Rightarrow> nat \<Rightarrow> nat \<Rightarrow> nat \<Rightarrow> mem" where
  "memcpy m tmp s 0 = m"
| "memcpy m tmp s (Suc count) = memcpy (m(tmp := m s)) (tmp + 1) (s + 1) count"

text \<open>The second loop of \<^verbatim>\<open>memmove\<close>: \<open>tmp\<close> and \<open>s\<close> point behind the bytes left to copy.\<close>

fun memcpy_back :: "mem \<Rightarrow> nat \<Rightarrow> nat \<Rightarrow> nat \<Rightarrow> mem" where
  "memcpy_back m tmp s 0 = m"
| "memcpy_back m tmp s (Suc count) = memcpy_back (m(tmp - 1 := m (s - 1))) (tmp - 1) (s - 1) count"

definition memmove :: "mem \<Rightarrow> nat \<Rightarrow> nat \<Rightarrow> nat \<Rightarrow> mem" where
  "memmove m dest src count =
     (if dest \<le> src then memcpy m dest src count
      else memcpy_back m (dest + count) (src + count) count)"

text \<open>\<^verbatim>\<open>memcpy\<close> between memory and an array that is kept as a list.\<close>

definition put_bytes :: "mem \<Rightarrow> nat \<Rightarrow> u8 list \<Rightarrow> mem" where
  "put_bytes m p xs = (\<lambda>a. if p \<le> a \<and> a < p + length xs then xs ! (a - p) else m a)"

definition get_bytes :: "mem \<Rightarrow> nat \<Rightarrow> nat \<Rightarrow> u8 list" where
  "get_bytes m p n = map (\<lambda>k. m (p + k)) [0..<n]"

lemma put_bytes_at: "put_bytes m p xs (p + i) = (if i < length xs then xs ! i else m (p + i))"
  by (simp add: put_bytes_def)

text \<open>Loops that a missing terminator keeps going: no result then.\<close>

partial_function (option) strcpy :: "mem \<Rightarrow> nat \<Rightarrow> nat \<Rightarrow> mem option" where
  "strcpy m dest src =
     (let c = m src; m = m(dest := c) in
      if c \<noteq> 0 then strcpy m (dest + 1) (src + 1) else Some m)"

partial_function (option) str_end :: "mem \<Rightarrow> nat \<Rightarrow> nat option" where
  "str_end m dest = (if m dest \<noteq> 0 then str_end m (dest + 1) else Some dest)"

definition strcat :: "mem \<Rightarrow> nat \<Rightarrow> nat \<Rightarrow> mem option" where
  "strcat m dest src = Option.bind (str_end m dest) (\<lambda>dest. strcpy m dest src)"

text \<open>\<^verbatim>\<open>strdup\<close>, given the address \<open>s\<close> that \<^verbatim>\<open>malloc\<close> returned (0 when it failed).\<close>

definition strdup :: "mem \<Rightarrow> nat \<Rightarrow> nat \<Rightarrow> (nat \<times> mem) option" where
  "strdup m s str = (if s = 0 then Some (0, m) else map_option (Pair s) (strcpy m s str))"

section \<open>Strings\<close>

text \<open>A list that begins with the string \<open>s\<close> and its terminator; a store that has it at \<open>p\<close>.\<close>

definition is_str :: "u8 list \<Rightarrow> u8 list \<Rightarrow> bool" where
  "is_str buf s \<longleftrightarrow> 0 \<notin> set s \<and> (\<exists>rest. buf = s @ 0 # rest)"

definition str_at :: "mem \<Rightarrow> nat \<Rightarrow> u8 list \<Rightarrow> bool" where
  "str_at m p s \<longleftrightarrow> 0 \<notin> set s \<and> (\<forall>i < length s. m (p + i) = s ! i) \<and> m (p + length s) = 0"

lemma str_at_Nil [simp]: "str_at m p [] \<longleftrightarrow> m p = 0"
  by (simp add: str_at_def)

lemma str_at_Cons [simp]: "str_at m p (c # s) \<longleftrightarrow> m p = c \<and> c \<noteq> 0 \<and> str_at m (Suc p) s"
  by (auto simp: str_at_def All_less_Suc2)

lemma str_at_cong: "str_at m p s \<Longrightarrow> (\<And>x. p \<le> x \<Longrightarrow> x \<le> p + length s \<Longrightarrow> m' x = m x) \<Longrightarrow> str_at m' p s"
  by (auto simp: str_at_def)

lemma is_str_Nil [simp]: "is_str [] s \<longleftrightarrow> False"
  by (simp add: is_str_def)

lemma is_str_Cons: "is_str (c # buf) s \<longleftrightarrow> (if c = 0 then s = [] else \<exists>t. s = c # t \<and> is_str buf t)"
  by (cases s) (auto simp: is_str_def)

lemma str_at_append:
  "0 \<notin> set t \<Longrightarrow> \<forall>i < length t. m (d + i) = t ! i \<Longrightarrow> str_at m (d + length t) u \<Longrightarrow> str_at m d (t @ u)"
  by (induction t arbitrary: d) (auto simp: All_less_Suc2)

lemma strlen_is_str: "is_str buf s \<Longrightarrow> strlen buf = Some (length s)"
  by (induction buf arbitrary: s) (auto simp: is_str_Cons split: if_splits)

lemma strlen_Some: "strlen buf = Some n \<Longrightarrow> is_str buf (take n buf) \<and> n < length buf"
proof (induction buf arbitrary: n)
  case Nil
  then show ?case by simp
next
  case (Cons c buf)
  then show ?case by (cases n) (auto simp: is_str_Cons split: if_splits)
qed

lemma sint_eq_iff [simp]: "sint (a :: u8) = sint b \<longleftrightarrow> a = b"
  by (auto intro: signed_word_eqI)

lemma strcmp_is_str: "is_str a s \<Longrightarrow> is_str b t \<Longrightarrow> \<exists>r. strcmp a b = Some r \<and> (r = 0 \<longleftrightarrow> s = t)"
proof (induction a b arbitrary: s t rule: strcmp.induct)
  case (1 x a y b)
  then show ?case using sint_eq_iff [of x 0] sint_eq_iff [of 0 y] by (auto simp: is_str_Cons split: if_splits)
qed auto

lemma strncmp_is_str:
  "is_str a s \<Longrightarrow> is_str b t \<Longrightarrow> 0 < n \<Longrightarrow>
   \<exists>r. strncmp a b n = Some r \<and> (r = 0 \<longleftrightarrow> take (nat n) s = take (nat n) t)"
proof (induction a b n arbitrary: s t rule: strncmp.induct)
  case (1 x a y b n)
  show ?case
  proof (cases "n = 1")
    case True
    with 1 show ?thesis
      using sint_eq_iff [of x 0] sint_eq_iff [of 0 y] by (auto simp: is_str_Cons Let_def split: if_splits)
  next
    case False
    then have n: "nat n = Suc (nat (n - 1))" "n - 1 \<noteq> 0" "0 < n - 1" using "1.prems"(3) by linarith+
    with 1 show ?thesis
      using sint_eq_iff [of x 0] sint_eq_iff [of 0 y] by (auto simp: is_str_Cons Let_def split: if_splits)
  qed
qed auto

lemma strrchr_down_cases:
  "case strrchr_down s c n of
     None \<Rightarrow> \<forall>k < n. sint (s ! k) \<noteq> c
   | Some j \<Rightarrow> j < n \<and> sint (s ! j) = c \<and> (\<forall>k < n. sint (s ! k) = c \<longrightarrow> k \<le> j)"
  by (induction n) (auto simp: less_Suc_eq split: option.splits)

lemma strchr_cases:
  "is_str a s \<Longrightarrow> \<exists>r. strchr a c = Some r \<and> (case r of
     None \<Rightarrow> \<forall>k < length s. sint (s ! k) \<noteq> c
   | Some i \<Rightarrow> i < length s \<and> sint (s ! i) = c \<and> (\<forall>k < length s. sint (s ! k) = c \<longrightarrow> i \<le> k))"
proof (induction a arbitrary: s)
  case Nil
  then show ?case by simp
next
  case (Cons x a)
  show ?case
  proof (cases "x = 0")
    case True
    with Cons.prems show ?thesis by (simp add: is_str_Cons)
  next
    case False
    with Cons.prems obtain t where t: "s = x # t" "is_str a t" by (auto simp: is_str_Cons)
    from Cons.IH [OF t(2)] obtain r where r: "strchr a c = Some r" "case r of
        None \<Rightarrow> \<forall>k < length t. sint (t ! k) \<noteq> c
      | Some i \<Rightarrow> i < length t \<and> sint (t ! i) = c \<and> (\<forall>k < length t. sint (t ! k) = c \<longrightarrow> i \<le> k)" by blast
    show ?thesis
    proof (cases "sint x = c")
      case True
      with t False show ?thesis by simp
    next
      case ne: False
      with r False t show ?thesis
        by (cases r) (auto simp: All_less_Suc2)
    qed
  qed
qed

section \<open>Copying\<close>

lemma memcpy_outside: "x < d \<or> d + n \<le> x \<Longrightarrow> memcpy m d s n x = m x"
  by (induction m d s n rule: memcpy.induct) auto

lemma memcpy_inside:
  "d \<le> s \<or> s + n \<le> d \<Longrightarrow> k < n \<Longrightarrow> memcpy m d s n (d + k) = m (s + k)"
proof (induction n arbitrary: m d s k)
  case (Suc n)
  show ?case
  proof (cases k)
    case 0
    then show ?thesis by (simp add: memcpy_outside)
  next
    case (Suc j)
    have "memcpy (m(d := m s)) (d + 1) (s + 1) n (d + 1 + j) = (m(d := m s)) (s + 1 + j)"
      using Suc.prems Suc by (intro Suc.IH) auto
    with Suc Suc.prems show ?thesis by auto
  qed
qed simp

lemma memcpy_back_eq:
  "s \<le> d \<Longrightarrow> memcpy_back m (d + n) (s + n) n x = (if d \<le> x \<and> x < d + n then m (s + (x - d)) else m x)"
proof (induction n arbitrary: m)
  case (Suc n)
  have "memcpy_back m (d + Suc n) (s + Suc n) (Suc n) x = memcpy_back (m(d + n := m (s + n))) (d + n) (s + n) n x"
    by simp
  also have "\<dots> = (if d \<le> x \<and> x < d + n then (m(d + n := m (s + n))) (s + (x - d)) else (m(d + n := m (s + n))) x)"
    by (rule Suc.IH [OF Suc.prems])
  also have "\<dots> = (if d \<le> x \<and> x < d + Suc n then m (s + (x - d)) else m x)"
    using Suc.prems by auto
  finally show ?case .
qed auto

lemma memmove_correct:
  "memmove m d s n = (\<lambda>x. if d \<le> x \<and> x < d + n then m (s + (x - d)) else m x)"
proof
  fix x
  consider "x < d \<or> d + n \<le> x" | k where "x = d + k" "k < n"
    by (metis le_iff_add nat_add_left_cancel_less not_le)
  then show "memmove m d s n x = (if d \<le> x \<and> x < d + n then m (s + (x - d)) else m x)"
  proof cases
    case 1
    then show ?thesis by (auto simp: memmove_def memcpy_outside memcpy_back_eq)
  next
    case 2
    then show ?thesis
      using memcpy_inside [of d s n k m] by (simp add: memmove_def memcpy_back_eq)
  qed
qed

lemma strcpy_correct:
  assumes "str_at m src s" and "dest + length s < src \<or> src + length s < dest"
  shows "strcpy m dest src = Some (memcpy m dest src (length s + 1))"
  using assms
proof (induction s arbitrary: m dest src)
  case Nil
  then show ?case by (subst strcpy.simps) (simp add: Let_def)
next
  case (Cons c s)
  have "str_at (m(dest := c)) (Suc src) s"
    using Cons.prems by (auto elim!: str_at_cong)
  then have "strcpy (m(dest := c)) (Suc dest) (Suc src) =
      Some (memcpy (m(dest := c)) (Suc dest) (Suc src) (length s + 1))"
    by (rule Cons.IH) (use Cons.prems(2) in auto)
  moreover have "m src = c" "c \<noteq> 0" using Cons.prems by auto
  ultimately show ?case by (subst strcpy.simps) (simp add: Let_def del: fun_upd_apply)
qed

lemma str_end_correct: "str_at m p s \<Longrightarrow> str_end m p = Some (p + length s)"
  by (induction s arbitrary: p) (subst str_end.simps; simp)+

lemma str_at_memcpy:
  assumes "str_at m src s" and "dest + length s < src \<or> src + length s < dest"
  shows "str_at (memcpy m dest src (length s + 1)) dest s"
proof -
  have in_s: "memcpy m dest src (length s + 1) (dest + k) = m (src + k)" if "k \<le> length s" for k
    using memcpy_inside [of dest src "length s + 1" k m] assms(2) that by auto
  from assms(1) in_s show ?thesis by (auto simp: str_at_def)
qed

lemma strncmp_nonpos:
  "is_str a s \<Longrightarrow> is_str b t \<Longrightarrow> n \<le> 0 \<Longrightarrow> \<exists>r. strncmp a b n = Some r \<and> (r = 0 \<longleftrightarrow> s = t)"
proof (induction a b n arbitrary: s t rule: strncmp.induct)
  case (1 x a y b n)
  then show ?case
    using sint_eq_iff [of x 0] sint_eq_iff [of 0 y] by (auto simp: is_str_Cons Let_def split: if_splits)
qed auto

lemma strcat_correct:
  assumes t: "str_at m d t" and u: "str_at m s u"
    and dis: "d + length t + length u < s \<or> s + length u < d"
  shows "strcat m d s = Some (memcpy m (d + length t) s (length u + 1))"
  using strcpy_correct [OF u, of "d + length t"] dis by (auto simp: strcat_def str_end_correct [OF t])

section \<open>Properties\<close>

text \<open>
  \<^verbatim>\<open>memmove\<close> copies, whatever overlaps. Afterwards the destination has the bytes the source had
  before the call and every other byte is unchanged. \<^verbatim>\<open>memcpy\<close> does the same, unless the destination
  begins inside the source.
\<close>

theorem memmove_copies:
  "memmove m d s n = (\<lambda>x. if d \<le> x \<and> x < d + n then m (s + (x - d)) else m x) \<and>
   (memcpy m d s n = memmove m d s n \<or> s < d \<and> d < s + n)"
proof (intro conjI)
  show "memmove m d s n = (\<lambda>x. if d \<le> x \<and> x < d + n then m (s + (x - d)) else m x)"
    by (rule memmove_correct)
  show "memcpy m d s n = memmove m d s n \<or> s < d \<and> d < s + n"
  proof (cases "s < d \<and> d < s + n")
    case False
    have "memcpy m d s n x = memmove m d s n x" for x
    proof (cases "d \<le> x \<and> x < d + n")
      case True
      then show ?thesis using memcpy_inside [of d s n "x - d" m] False by (auto simp: memmove_correct)
    next
      case False
      then show ?thesis by (auto simp: memmove_correct memcpy_outside)
    qed
    then show ?thesis by blast
  qed simp
qed

text \<open>
  \<^verbatim>\<open>strcat\<close> appends. If the two strings do not overlap, and the second one not with the room
  behind the first either, the call ends, the destination holds both strings one after the other,
  and no byte outside the room changes.
\<close>

theorem strcat_appends:
  assumes "str_at m d t" and "str_at m s u"
    and "d + length t + length u < s \<or> s + length u < d"
  shows "\<exists>m'. strcat m d s = Some m' \<and> str_at m' d (t @ u) \<and>
    (\<forall>x. x < d + length t \<or> d + length t + length u < x \<longrightarrow> m' x = m x)"
proof -
  let ?m = "memcpy m (d + length t) s (length u + 1)"
  have dis: "d + length t + length u < s \<or> s + length u < d + length t" using assms(3) by auto
  have frame: "?m x = m x" if "x < d + length t \<or> d + length t + length u < x" for x
    using that by (intro memcpy_outside) auto
  note sub = str_at_memcpy [OF assms(2) dis]
  have "str_at ?m d (t @ u)"
    by (rule str_at_append [OF _ _ sub]) (use assms(1) frame in \<open>auto simp: str_at_def simp del: memcpy.simps\<close>)
  with strcat_correct [OF assms] frame show ?thesis by blast
qed

definition ab_mem :: mem where
  "ab_mem x = (if x = 0 then 97 else if x = 10 then 98 else 0)"

theorem strcat_appends_witness:
  "\<exists>m'. strcat ab_mem 0 10 = Some m' \<and> str_at m' 0 [97, 98]"
proof -
  have "str_at ab_mem 0 [97]" "str_at ab_mem 10 [98]" "0 + length [97 :: u8] + length [98 :: u8] < 10 \<or> 10 + length [98 :: u8] < 0"
    by (simp_all add: ab_mem_def)
  from strcat_appends [OF this] show ?thesis by auto
qed

text \<open>
  the comparisons decide equality. On terminated strings \<^verbatim>\<open>strlen\<close> is the length, \<^verbatim>\<open>strcmp\<close> is 0
  exactly on equal strings and \<^verbatim>\<open>strncmp\<close> exactly when the first \<^verbatim>\<open>n\<close> bytes agree; for a count that is
  not positive it compares the whole strings. All of them stop inside the strings.
\<close>

theorem string_comparisons:
  assumes "is_str a s" and "is_str b t"
  shows "strlen a = Some (length s) \<and> (\<exists>r. strcmp a b = Some r \<and> (r = 0 \<longleftrightarrow> s = t)) \<and>
    (\<exists>r. strncmp a b n = Some r \<and> (r = 0 \<longleftrightarrow> (if 0 < n then take (nat n) s = take (nat n) t else s = t)))"
  using strlen_is_str [OF assms(1)] strcmp_is_str [OF assms] strncmp_is_str [OF assms, of n]
    strncmp_nonpos [OF assms, of n] by (cases "0 < n") auto

theorem string_comparisons_witness:
  "\<exists>r. strncmp [97, 98, 0, 7] [97, 99, 0] 1 = Some r \<and> r = 0"
proof -
  have "is_str [97, 98, 0, 7] [97, 98]" "is_str [97, 99, 0] [97, 99]" by (simp_all add: is_str_Cons)
  from string_comparisons [OF this, of 1] show ?thesis by auto
qed

text \<open>
  searching a byte. On a terminated string \<^verbatim>\<open>strchr\<close> finds the first and \<^verbatim>\<open>strrchr\<close> the last
  occurrence of a byte other than the terminator, or both give the null pointer when there is none.
\<close>

theorem character_search:
  assumes "is_str a s"
  shows "case (strchr a c, strrchr a c) of
      (Some (Some i), Some (Some j)) \<Rightarrow> i \<le> j \<and> j < length s \<and> sint (s ! i) = c \<and> sint (s ! j) = c \<and>
        (\<forall>k < length s. sint (s ! k) = c \<longrightarrow> i \<le> k \<and> k \<le> j)
    | (Some None, Some None) \<Rightarrow> \<forall>k < length s. sint (s ! k) \<noteq> c
    | _ \<Rightarrow> False"
proof -
  obtain rest where a: "a = s @ 0 # rest" using assms by (auto simp: is_str_def)
  have l: "strrchr a c = Some (strrchr_down a c (length s))"
    by (simp add: strrchr_def strlen_is_str [OF assms])
  have n: "k < length s \<Longrightarrow> a ! k = s ! k" for k by (simp add: a nth_append)
  obtain r where r: "strchr a c = Some r" "case r of
      None \<Rightarrow> \<forall>k < length s. sint (s ! k) \<noteq> c
    | Some i \<Rightarrow> i < length s \<and> sint (s ! i) = c \<and> (\<forall>k < length s. sint (s ! k) = c \<longrightarrow> i \<le> k)"
    using strchr_cases [OF assms] by blast
  show ?thesis
    using r(2) strrchr_down_cases [where s = a and c = c and n = "length s"] n
    unfolding r(1) l by (auto split: option.splits)
qed

theorem character_search_witness:
  "case (strchr [47, 97, 47, 98, 0] 47, strrchr [47, 97, 47, 98, 0] 47) of
      (Some (Some i), Some (Some j)) \<Rightarrow> i = 0 \<and> j = 2 \<and> i \<le> j
    | _ \<Rightarrow> False"
proof -
  have "is_str [47, 97, 47, 98, 0] [47, 97, 47, 98]" by (simp add: is_str_Cons)
  moreover have "strchr [47, 97, 47, 98, 0] 47 = Some (Some 0)" "strrchr [47, 97, 47, 98, 0] 47 = Some (Some 2)"
    by code_simp+
  ultimately show ?thesis
    using character_search [of "[47, 97, 47, 98, 0]" "[47, 97, 47, 98]" 47] by auto
qed

end
