(* ===== verification/Floppy.thy ===== *)
theory Floppy
  imports Prelude
begin

text \<open>
  The sector interface of the floppy driver \<^verbatim>\<open>kernel/fd.c\<close>: the translation of a linear sector
  number into head, track and sector, one transfer with its outcome, and the loops over several
  sectors. The controller and the medium are outside the program: a \<open>disk\<close> gives the content of
  each sector, whether a seek to a track succeeds and the three status bytes the controller
  replies with. A transfer whose status bytes report an error leaves the medium unchanged. The
  port traffic that starts the motor and programs the DMA chip is not part of the model, nor is the
  endless loop after a disk change.
\<close>

section \<open>Geometry\<close>

record floppy_struct =
  fl_size :: nat
  fl_sector :: nat
  fl_head :: nat
  fl_track :: nat

definition floppy :: floppy_struct where
  "floppy = \<lparr>fl_size = 2880, fl_sector = 18, fl_head = 2, fl_track = 80\<rparr>"

definition lba_to_chs :: "nat \<Rightarrow> nat \<times> nat \<times> nat" where
  "lba_to_chs line_sector =
     (let sector = line_sector mod fl_sector floppy + 1;
          line_sector = line_sector div fl_sector floppy;
          head = line_sector mod fl_head floppy;
          track = line_sector div fl_head floppy
      in (head, track, sector))"

definition chs_to_lba :: "nat \<times> nat \<times> nat \<Rightarrow> nat" where
  "chs_to_lba = (\<lambda>(head, track, sector). (track * fl_head floppy + head) * fl_sector floppy + (sector - 1))"

lemma chs_to_lba_to_chs: "chs_to_lba (lba_to_chs s) = s"
proof -
  have "(s div 18 div 2 * 2 + s div 18 mod 2) * 18 + s mod 18 = s"
    unfolding div_mult_mod_eq by (rule refl)
  then show ?thesis
    unfolding chs_to_lba_def lba_to_chs_def floppy_def Let_def
    by (simp only: prod.case floppy_struct.select_convs add_diff_cancel_right')
qed

lemma lba_to_chs_range:
  "lba_to_chs s = (head, track, sector) \<Longrightarrow> s < fl_size floppy \<Longrightarrow>
   head < fl_head floppy \<and> track < fl_track floppy \<and> 1 \<le> sector \<and> sector \<le> fl_sector floppy"
  by (auto simp: lba_to_chs_def floppy_def Let_def)

section \<open>Transfers\<close>

datatype fd_command = FD_READ | FD_WRITE

record disk =
  sec :: "nat \<Rightarrow> u8 list"
  seek_ok :: "nat \<Rightarrow> bool"
  st :: "nat \<Rightarrow> u8 \<times> u8 \<times> u8"

definition sector_size :: nat where "sector_size = 512"

text \<open>The test on the status bytes at the end of \<^verbatim>\<open>floppy_rw\<close>.\<close>

definition bad_status :: "u8 \<times> u8 \<times> u8 \<Rightarrow> bool" where
  "bad_status = (\<lambda>(st0, st1, st2). st0 AND 0xf8 \<noteq> 0 \<or> st1 AND 0xbf \<noteq> 0 \<or> st2 AND 0x73 \<noteq> 0)"

text \<open>
  \<open>bounce\<close> tells whether the buffer lies above what the DMA chip reaches; the transfer then goes
  through \<^verbatim>\<open>tmp_dma_buffer\<close> and is copied only when it succeeded. A failed seek returns
  \<^verbatim>\<open>FALSE\<close>, which is 0.
\<close>

definition floppy_rw :: "bool \<Rightarrow> disk \<Rightarrow> nat \<Rightarrow> u8 list \<Rightarrow> fd_command \<Rightarrow> int \<times> u8 list \<times> disk" where
  "floppy_rw bounce d sector buf command =
     (case lba_to_chs sector of (head, track, _) \<Rightarrow>
        if \<not> seek_ok d track then (0, buf, d)
        else let bad = bad_status (st d sector) in
          (case command of
             FD_READ \<Rightarrow>
               (if bad then - errno_num EIO else 0,
                if bad \<and> bounce then buf else sec d sector, d)
           | FD_WRITE \<Rightarrow>
               (if bad then - errno_num EIO else 0, buf,
                if bad then d else d\<lparr>sec := (sec d)(sector := buf)\<rparr>)))"

definition floppy_read :: "bool \<Rightarrow> disk \<Rightarrow> nat \<Rightarrow> u8 list \<Rightarrow> int \<times> u8 list" where
  "floppy_read bounce d sector buf =
     (case floppy_rw bounce d sector buf FD_READ of (res, buf, _) \<Rightarrow> (res, buf))"

definition floppy_write :: "bool \<Rightarrow> disk \<Rightarrow> nat \<Rightarrow> u8 list \<Rightarrow> int \<times> disk" where
  "floppy_write bounce d sector buf =
     (case floppy_rw bounce d sector buf FD_WRITE of (res, _, d) \<Rightarrow> (res, d))"

text \<open>
  The loops over sectors; \<open>off\<close> is how far \<^verbatim>\<open>buf\<close> has advanced and \<open>res\<close> the result of the
  last transfer.
\<close>

fun floppy_reads_from :: "bool \<Rightarrow> disk \<Rightarrow> nat \<Rightarrow> nat \<Rightarrow> u8 list \<Rightarrow> nat \<Rightarrow> int \<Rightarrow> int \<times> u8 list" where
  "floppy_reads_from bounce d sector off buf 0 res = (res, buf)"
| "floppy_reads_from bounce d sector off buf (Suc sectors) res =
     (case floppy_read bounce d sector (slice off sector_size buf) of (res, chunk) \<Rightarrow>
        let buf = splice_at off chunk buf in
        if res < 0 then (res, buf)
        else floppy_reads_from bounce d (sector + 1) (off + sector_size) buf sectors res)"

definition floppy_reads :: "bool \<Rightarrow> disk \<Rightarrow> nat \<Rightarrow> u8 list \<Rightarrow> nat \<Rightarrow> int \<times> u8 list" where
  "floppy_reads bounce d sector buf sectors = floppy_reads_from bounce d sector 0 buf sectors 0"

fun floppy_writes_from :: "bool \<Rightarrow> disk \<Rightarrow> nat \<Rightarrow> nat \<Rightarrow> u8 list \<Rightarrow> nat \<Rightarrow> int \<Rightarrow> int \<times> disk" where
  "floppy_writes_from bounce d sector off buf 0 res = (res, d)"
| "floppy_writes_from bounce d sector off buf (Suc sectors) res =
     (case floppy_write bounce d sector (slice off sector_size buf) of (res, d) \<Rightarrow>
        if res < 0 then (res, d)
        else floppy_writes_from bounce d (sector + 1) (off + sector_size) buf sectors res)"

definition floppy_writes :: "bool \<Rightarrow> disk \<Rightarrow> nat \<Rightarrow> u8 list \<Rightarrow> nat \<Rightarrow> int \<times> disk" where
  "floppy_writes bounce d sector buf sectors = floppy_writes_from bounce d sector 0 buf sectors 0"

section \<open>What the loops do\<close>

text \<open>A disk whose sectors hold 512 bytes, and a run of sectors that transfers without error.\<close>

definition disk_ok :: "disk \<Rightarrow> bool" where
  "disk_ok d \<longleftrightarrow> (\<forall>s. length (sec d s) = sector_size)"

definition good_sector :: "disk \<Rightarrow> nat \<Rightarrow> bool" where
  "good_sector d s \<longleftrightarrow> seek_ok d (fst (snd (lba_to_chs s))) \<and> \<not> bad_status (st d s)"

definition good_run :: "disk \<Rightarrow> nat \<Rightarrow> nat \<Rightarrow> bool" where
  "good_run d s n \<longleftrightarrow> (\<forall>k < n. good_sector d (s + k))"

definition read_run :: "disk \<Rightarrow> nat \<Rightarrow> nat \<Rightarrow> u8 list" where
  "read_run d s n = concat (map (\<lambda>k. sec d (s + k)) [0..<n])"

lemma floppy_rw_good:
  "good_sector d s \<Longrightarrow> floppy_rw bounce d s buf FD_READ = (0, sec d s, d)"
  "good_sector d s \<Longrightarrow> floppy_rw bounce d s buf FD_WRITE = (0, buf, d\<lparr>sec := (sec d)(s := buf)\<rparr>)"
  by (auto simp: floppy_rw_def good_sector_def Let_def split: prod.splits)

lemma good_run_Suc: "good_run d s (Suc n) \<longleftrightarrow> good_sector d s \<and> good_run d (Suc s) n"
  by (auto simp: good_run_def less_Suc_eq_0_disj)

lemma read_run_Suc: "read_run d s (Suc n) = sec d s @ read_run d (Suc s) n"
proof -
  have "[0..<Suc n] = 0 # map Suc [0..<n]" by (simp add: map_Suc_upt upt_conv_Cons)
  then show ?thesis by (simp add: read_run_def comp_def del: upt_Suc)
qed

lemma length_read_run: "disk_ok d \<Longrightarrow> length (read_run d s n) = n * sector_size"
  by (induction n arbitrary: s) (simp_all add: read_run_Suc disk_ok_def read_run_def [of _ _ 0])

lemma floppy_reads_from_good:
  assumes "disk_ok d" and "good_run d s n" and "off + n * sector_size \<le> length buf"
  shows "floppy_reads_from bounce d s off buf n 0 = (0, splice_at off (read_run d s n) buf)"
  using assms(2,3)
proof (induction n arbitrary: s off buf)
  case 0
  then show ?case by (simp add: read_run_def splice_at_def)
next
  case (Suc n)
  then have g: "good_sector d s" "good_run d (Suc s) n" by (simp_all add: good_run_Suc)
  let ?b = "splice_at off (sec d s) buf"
  have l: "length (sec d s) = sector_size" using assms(1) by (simp add: disk_ok_def)
  with Suc.prems have "off + sector_size + n * sector_size \<le> length ?b" by simp
  from Suc.IH [OF g(2) this]
  have "floppy_reads_from bounce d s off buf (Suc n) 0 =
      (0, splice_at (off + sector_size) (read_run d (Suc s) n) ?b)"
    by (simp add: floppy_read_def floppy_rw_good [OF g(1)])
  moreover have "splice_at (off + sector_size) (read_run d (Suc s) n) ?b =
      splice_at off (sec d s @ read_run d (Suc s) n) buf"
    using Suc.prems l length_read_run [OF assms(1), of "Suc s" n]
    by (intro splice_splice) simp_all
  ultimately show ?case by (simp only: read_run_Suc)
qed


definition write_run :: "disk \<Rightarrow> nat \<Rightarrow> nat \<Rightarrow> nat \<Rightarrow> u8 list \<Rightarrow> disk" where
  "write_run d s off n buf =
     d\<lparr>sec := (\<lambda>t. if s \<le> t \<and> t < s + n then slice (off + (t - s) * sector_size) sector_size buf
                 else sec d t)\<rparr>"

lemma good_sector_sec [simp]: "good_sector (d\<lparr>sec := f\<rparr>) s = good_sector d s"
  by (simp add: good_sector_def)

lemma good_run_sec [simp]: "good_run (d\<lparr>sec := f\<rparr>) s n = good_run d s n"
  by (simp add: good_run_def)

lemma floppy_writes_from_good:
  assumes "good_run d s n"
  shows "floppy_writes_from bounce d s off buf n 0 = (0, write_run d s off n buf)"
  using assms
proof (induction n arbitrary: d s off)
  case 0
  then show ?case by (auto simp: write_run_def fun_eq_iff intro!: disk.equality)
next
  case (Suc n)
  then have g: "good_sector d s" "good_run d (Suc s) n" by (simp_all add: good_run_Suc)
  let ?d = "d\<lparr>sec := (sec d)(s := slice off sector_size buf)\<rparr>"
  have "floppy_writes_from bounce d s off buf (Suc n) 0 =
      floppy_writes_from bounce ?d (Suc s) (off + sector_size) buf n 0"
    by (simp add: floppy_write_def floppy_rw_good [OF g(1)])
  also have "\<dots> = (0, write_run ?d (Suc s) (off + sector_size) n buf)"
    using g(2) by (intro Suc.IH) simp
  also have "write_run ?d (Suc s) (off + sector_size) n buf = write_run d s off (Suc n) buf"
  proof -
    have "off + sector_size + (t - Suc s) * sector_size = off + (t - s) * sector_size"
      if "Suc s \<le> t" for t
    proof -
      have "t - s = Suc (t - Suc s)" using that by simp
      then show ?thesis by simp
    qed
    then show ?thesis
      by (intro disk.equality) (auto simp: write_run_def fun_eq_iff Suc_le_eq not_less add.assoc dest: le_antisym)
  qed
  finally show ?case .
qed

lemma disk_ok_write_run:
  assumes "disk_ok d" and "off + n * sector_size \<le> length buf"
  shows "disk_ok (write_run d s off n buf)"
proof -
  have "length (slice (off + (t - s) * sector_size) sector_size buf) = sector_size"
    if "s \<le> t" "t < s + n" for t
  proof -
    have "Suc (t - s) * sector_size \<le> n * sector_size" using that by (intro mult_le_mono1) simp
    with assms(2) have "off + (t - s) * sector_size + sector_size \<le> length buf" by simp
    then show ?thesis by (rule length_slice)
  qed
  with assms(1) show ?thesis by (simp add: disk_ok_def write_run_def)
qed

lemma read_run_write_run:
  assumes "length buf = n * sector_size"
  shows "read_run (write_run d s 0 n buf) s n = buf"
proof -
  have "concat (map (\<lambda>k. slice (k * sector_size) sector_size buf) [0..<m]) = take (m * sector_size) buf"
    if "m \<le> n" for m
    using that
  proof (induction m)
    case 0
    then show ?case by simp
  next
    case (Suc m)
    then have "m * sector_size + sector_size \<le> length buf"
      using assms mult_le_mono1 [of "Suc m" n sector_size] by simp
    moreover have "take (Suc m * sector_size) buf =
        take (m * sector_size) buf @ take sector_size (drop (m * sector_size) buf)"
      by (simp only: mult_Suc add.commute [of sector_size] take_add)
    ultimately show ?case using Suc by (simp add: slice_def)
  qed
  from this [of n] have "concat (map (\<lambda>k. slice (k * sector_size) sector_size buf) [0..<n]) = buf"
    using assms by simp
  moreover have "map (\<lambda>k. sec (write_run d s 0 n buf) (s + k)) [0..<n] =
      map (\<lambda>k. slice (k * sector_size) sector_size buf) [0..<n]"
    by (rule map_cong) (simp_all add: write_run_def)
  ultimately show ?thesis by (simp only: read_run_def)
qed

lemma read_run_write_other:
  assumes "s' + m \<le> s \<or> s + n \<le> s'"
  shows "read_run (write_run d s off n buf) s' m = read_run d s' m"
  using assms by (auto simp: read_run_def write_run_def intro!: arg_cong [of _ _ concat])

section \<open>Properties\<close>

text \<open>
  the sector translation loses nothing. For every sector of the disk the head, track and sector
  lie inside the geometry and determine the linear sector number.
\<close>

theorem lba_to_chs_roundtrip:
  assumes "s < fl_size floppy"
  shows "case lba_to_chs s of (head, track, sector) \<Rightarrow>
    head < fl_head floppy \<and> track < fl_track floppy \<and> 1 \<le> sector \<and> sector \<le> fl_sector floppy \<and>
    chs_to_lba (head, track, sector) = s"
  using lba_to_chs_range [OF _ assms] chs_to_lba_to_chs [of s] by (cases "lba_to_chs s") auto

theorem lba_to_chs_roundtrip_witness:
  "case lba_to_chs 833 of (head, track, sector) \<Rightarrow>
    head < fl_head floppy \<and> track < fl_track floppy \<and> 1 \<le> sector \<and> sector \<le> fl_sector floppy \<and>
    chs_to_lba (head, track, sector) = 833"
  by (rule lba_to_chs_roundtrip) (simp add: floppy_def)

text \<open>
  what is written is read back. Over sectors that transfer without error, writing a buffer of
  whole sectors and reading the same run returns success and the buffer, and leaves every other
  sector as it was.
\<close>

theorem floppy_write_read:
  assumes "disk_ok d" and "good_run d s n" and "length buf = n * sector_size"
    and "length buf' = n * sector_size"
  shows "\<exists>d'. floppy_writes bounce d s buf n = (0, d') \<and>
    floppy_reads bounce' d' s buf' n = (0, buf) \<and>
    (\<forall>t. t < s \<or> s + n \<le> t \<longrightarrow> sec d' t = sec d t)"
proof (intro exI conjI)
  let ?d = "write_run d s 0 n buf"
  show "floppy_writes bounce d s buf n = (0, ?d)"
    using floppy_writes_from_good [OF assms(2)] by (simp add: floppy_writes_def)
  have "disk_ok ?d" using assms by (intro disk_ok_write_run) simp_all
  moreover have "good_run ?d s n" using assms(2) by (simp add: write_run_def)
  ultimately show "floppy_reads bounce' ?d s buf' n = (0, buf)"
    using assms read_run_write_run [OF assms(3)]
    by (simp add: floppy_reads_def floppy_reads_from_good splice_at_def)
  show "\<forall>t. t < s \<or> s + n \<le> t \<longrightarrow> sec ?d t = sec d t" by (auto simp: write_run_def)
qed

definition blank_disk :: disk where
  "blank_disk = \<lparr>sec = (\<lambda>_. replicate 512 0), seek_ok = (\<lambda>_. True), st = (\<lambda>_. (0, 0, 0))\<rparr>"

lemma blank_disk_ok: "disk_ok blank_disk" "good_run blank_disk s n"
  by (simp_all add: disk_ok_def blank_disk_def sector_size_def good_run_def good_sector_def bad_status_def)

theorem floppy_write_read_witness:
  "\<exists>d'. floppy_writes False blank_disk 5 (replicate 1024 7) 2 = (0, d') \<and>
    floppy_reads True d' 5 (replicate 1024 0) 2 = (0, replicate 1024 7) \<and>
    (\<forall>t. t < 5 \<or> 5 + 2 \<le> t \<longrightarrow> sec d' t = sec blank_disk t)"
  by (rule floppy_write_read) (simp_all add: blank_disk_ok sector_size_def)

end
