(* ===== verification/Fdc.thy ===== *)
theory Fdc
  imports Floppy Cstring
begin

text \<open>
  Below the sectors: how \<^verbatim>\<open>kernel/fd.c\<close> talks to the floppy controller and the DMA chip. The
  state holds the static variables of the file and the bytes written to ports, newest last. What
  the hardware does is a parameter of a run: \<open>inp n\<close> is the value of the \<open>n\<close>-th port read, \<open>intr n\<close>
  tells whether the \<open>n\<close>-th wait ended by an interrupt or by its count-down, and the argument \<open>dma\<close>
  of a transfer what it does to memory. \<^verbatim>\<open>sleep\<close> only passes time.
\<close>

unbundle bit_operations_syntax

section \<open>State and ports\<close>

definition MAX_REPLIES :: nat where
  "MAX_REPLIES = 7"

record fdc =
  reply_buffer :: "u8 list"
  done_flag :: bool
  motoron :: bool
  changed :: bool
  sr0 :: u8
  fdc_track :: u8
  fd_times :: int
  fd_outs :: "(u8 \<times> u16) list"
  inp :: "nat \<Rightarrow> u8"
  reads :: nat
  intr :: "nat \<Rightarrow> bool"
  waits :: nat

definition FD_STATUS :: u16 where "FD_STATUS = 0x3f4"
definition FD_DATA :: u16 where "FD_DATA = 0x3f5"
definition FD_DOR :: u16 where "FD_DOR = 0x3f2"
definition FD_DCR :: u16 where "FD_DCR = 0x3f7"
definition STATUS_BUSY :: u8 where "STATUS_BUSY = 0x10"
definition STATUS_DIR :: u8 where "STATUS_DIR = 0x40"
definition STATUS_READY :: u8 where "STATUS_READY = 0x80"
definition FD_RECALIBRATE :: u8 where "FD_RECALIBRATE = 0x07"
definition FD_SEEK :: u8 where "FD_SEEK = 0x0F"
definition FD_SENSEI :: u8 where "FD_SENSEI = 0x08"
definition FD_SPECIFY :: u8 where "FD_SPECIFY = 0x03"
definition DMA_READ :: u8 where "DMA_READ = 0x46"
definition DMA_WRITE :: u8 where "DMA_WRITE = 0x4A"

lemmas fd_ports = FD_STATUS_def FD_DATA_def FD_DOR_def FD_DCR_def
lemmas fd_status_bits = STATUS_BUSY_def STATUS_DIR_def STATUS_READY_def

fun command_byte :: "fd_command \<Rightarrow> u8" where
  "command_byte FD_READ = 0xE6"
| "command_byte FD_WRITE = 0xC5"

definition fd_out :: "u8 \<Rightarrow> u16 \<Rightarrow> fdc \<Rightarrow> fdc" where
  "fd_out b p s = s\<lparr>fd_outs := fd_outs s @ [(b, p)]\<rparr>"

definition fd_in :: "fdc \<Rightarrow> u8 \<times> fdc" where
  "fd_in s = (inp s (reads s), s\<lparr>reads := reads s + 1\<rparr>)"

section \<open>Bytes to and from the controller\<close>

text \<open>The loops of at most 1000 rounds; the argument counts those left.\<close>

fun send_loop :: "nat \<Rightarrow> u8 \<Rightarrow> fdc \<Rightarrow> fdc" where
  "send_loop 0 byte s = s"
| "send_loop (Suc n) byte s =
     (case fd_in s of
        (v, s) \<Rightarrow>
          if v AND (STATUS_READY OR STATUS_DIR) = STATUS_READY then fd_out byte FD_DATA s
          else send_loop n byte s)"

definition send_byte :: "u8 \<Rightarrow> fdc \<Rightarrow> fdc" where
  "send_byte byte s = send_loop 1000 byte s"

definition has_data :: "u8 \<Rightarrow> bool" where
  "has_data v \<longleftrightarrow>
     v AND (STATUS_DIR OR STATUS_READY OR STATUS_BUSY) = STATUS_DIR OR STATUS_READY OR STATUS_BUSY"

fun get_byte_loop :: "nat \<Rightarrow> fdc \<Rightarrow> int \<times> fdc" where
  "get_byte_loop 0 s = (- 1, s)"
| "get_byte_loop (Suc n) s =
     (case fd_in s of
        (v, s) \<Rightarrow>
          if has_data v then (case fd_in s of (b, s) \<Rightarrow> (int (unat b), s))
          else get_byte_loop n s)"

definition get_byte :: "fdc \<Rightarrow> int \<times> fdc" where
  "get_byte s = get_byte_loop 1000 s"

fun get_result_loop :: "nat \<Rightarrow> nat \<Rightarrow> fdc \<Rightarrow> int \<times> fdc" where
  "get_result_loop 0 i s = (- 1, s)"
| "get_result_loop (Suc n) i s =
     (case fd_in s of
        (v, s) \<Rightarrow>
          if v AND (STATUS_DIR OR STATUS_READY OR STATUS_BUSY) = STATUS_READY then (int i, s)
          else if has_data v then
            (if i \<ge> MAX_REPLIES then (- 1, s)
             else (case fd_in s of
                     (b, s) \<Rightarrow>
                       get_result_loop n (i + 1) (s\<lparr>reply_buffer := (reply_buffer s)[i := b]\<rparr>)))
          else get_result_loop n i s)"

definition get_result :: "fdc \<Rightarrow> int \<times> fdc" where
  "get_result s = get_result_loop 1000 0 s"

text \<open>
  The wait for the interrupt: \<^verbatim>\<open>count_down\<close> is 1, and still is after the loop when the interrupt
  came. \<open>time_out\<close> tells that it has run out.
\<close>

definition wait_fdc :: "bool \<Rightarrow> fdc \<Rightarrow> bool \<times> fdc" where
  "wait_fdc sensei s =
     (let (time_out, s) =
            (if done_flag s then (False, s) else (\<not> intr s (waits s), s\<lparr>waits := waits s + 1\<rparr>));
          s = s\<lparr>reply_buffer := replicate MAX_REPLIES 0\<rparr>;
          (_, s) = get_result s;
          s = (if sensei then
                 let s = send_byte FD_SENSEI s;
                     (a, s) = get_byte s;
                     s = s\<lparr>sr0 := word_of_int a\<rparr>;
                     (b, s) = get_byte s
                 in s\<lparr>fdc_track := word_of_int b\<rparr>
               else s)
      in (\<not> time_out, s\<lparr>done_flag := False\<rparr>))"

section \<open>Motor and head\<close>

definition motor_on :: "fdc \<Rightarrow> fdc" where
  "motor_on s = (if \<not> motoron s then (fd_out 0x1c FD_DOR s)\<lparr>motoron := True\<rparr> else s)"

definition motor_off :: "fdc \<Rightarrow> fdc" where
  "motor_off s = (if motoron s then (fd_out 0x0c FD_DOR s)\<lparr>motoron := False\<rparr> else s)"

definition recalibrate :: "fdc \<Rightarrow> fdc" where
  "recalibrate s =
     (let s = motor_on s; s = send_byte FD_RECALIBRATE s; s = send_byte 0 s
      in snd (wait_fdc True s))"

definition seek :: "nat \<Rightarrow> nat \<Rightarrow> fdc \<Rightarrow> bool \<times> fdc" where
  "seek track head s =
     (if unat (fdc_track s) = track then (True, s)
      else
        let s = send_byte FD_SEEK s;
            s = send_byte (word_of_nat (4 * head)) s;
            s = send_byte (word_of_nat track) s;
            (_, s) = wait_fdc True s
        in (\<not> (sr0 s AND 0xF8 \<noteq> 0x20 \<or> unat (fdc_track s) \<noteq> track), s))"

definition fd_reset :: "fdc \<Rightarrow> fdc" where
  "fd_reset s =
     (let s = fd_out 0x0c FD_DOR s;
          s = fd_out 0 FD_DCR s;
          s = fd_out 0x1c FD_DOR s;
          s = s\<lparr>done_flag := True\<rparr>;
          (_, s) = wait_fdc True s;
          s = send_byte FD_SPECIFY s;
          s = send_byte 0xdf s;
          s = send_byte 0x06 s
      in recalibrate s)"

section \<open>Transfers\<close>

definition setup_DMA :: "u32 \<Rightarrow> fd_command \<Rightarrow> fdc \<Rightarrow> fdc" where
  "setup_DMA addr command s =
     (let cmd = (if command = FD_READ then DMA_READ else DMA_WRITE);
          count = 512 - 1 :: u32;
          s = fd_out (4 OR 2) 0x0a s;
          s = fd_out 0 0x0c s;
          s = fd_out cmd 0x0b s;
          s = fd_out (ucast addr) 4 s;
          addr = drop_bit 8 addr;
          s = fd_out (ucast addr) 4 s;
          addr = drop_bit 8 addr;
          s = fd_out (ucast addr) 0x81 s;
          s = fd_out (ucast (count AND 0xff)) 5 s;
          s = fd_out (ucast (drop_bit 8 count)) 5 s
      in fd_out (0 OR 2) 10 s)"

definition send_rw :: "fd_command \<Rightarrow> nat \<Rightarrow> nat \<Rightarrow> nat \<Rightarrow> fdc \<Rightarrow> fdc" where
  "send_rw command head track sector s =
     (let s = send_byte (command_byte command) s;
          s = send_byte (word_of_nat (4 * head)) s;
          s = send_byte (word_of_nat track) s;
          s = send_byte (word_of_nat head) s;
          s = send_byte (word_of_nat sector) s;
          s = send_byte 2 s;
          s = send_byte (word_of_nat (fl_sector floppy)) s;
          s = send_byte 0 s
      in send_byte 0xFF s)"

definition status_bytes :: "fdc \<Rightarrow> u8 \<times> u8 \<times> u8" where
  "status_bytes s = (reply_buffer s ! 0, reply_buffer s ! 1, reply_buffer s ! 2)"

text \<open>
  \<^verbatim>\<open>floppy_rw\<close> on the store \<open>m\<close>; \<open>tmp\<close> is the address of \<^verbatim>\<open>tmp_dma_buffer\<close>, \<open>dma\<close> what the DMA
  chip does to memory for the address programmed. No result: the disk was changed, and \<^verbatim>\<open>pause\<close>
  does not return.
\<close>

definition fd_rw :: "(u32 \<Rightarrow> mem \<Rightarrow> mem) \<Rightarrow> u32 \<Rightarrow> nat \<Rightarrow> u32 \<Rightarrow> fd_command \<Rightarrow> fdc \<Rightarrow> mem \<Rightarrow>
    (int \<times> fdc \<times> mem) option" where
  "fd_rw dma tmp sector buf command s m =
     (let (head, track, sector) = lba_to_chs sector;
          s = motor_on s;
          (dir, s) = fd_in s in
      if dir AND 0x80 \<noteq> 0 then None
      else
        let (ok, s) = seek track head s in
        if \<not> ok then Some (0, motor_off s, m)
        else
          let bounce = buf \<ge> 0xff000;
              dma_buffer = (if bounce then tmp else buf);
              m = (if bounce \<and> command = FD_WRITE then memcpy m (unat tmp) (unat buf) 512 else m);
              s = setup_DMA dma_buffer command s;
              s = send_rw command head track sector s;
              m = dma dma_buffer m;
              (_, s) = wait_fdc False s;
              s = motor_off s
          in if bad_status (status_bytes s) then Some (- errno_num EIO, s, m)
             else Some (0, s,
               if bounce \<and> command = FD_READ then memcpy m (unat buf) (unat tmp) 512 else m))"

text \<open>The interrupt handler.\<close>

definition do_floppy :: "fdc \<Rightarrow> fdc" where
  "do_floppy s = fd_out 0x20 0x20 (s\<lparr>fd_times := fd_times s + 1, done_flag := True\<rparr>)"

section \<open>What goes over the data port\<close>

text \<open>The bytes that a list of port writes has for the data register, and for the DMA address.\<close>

definition port_bytes :: "u16 \<Rightarrow> (u8 \<times> u16) list \<Rightarrow> u8 list" where
  "port_bytes p outs = map fst (filter (\<lambda>(b, q). q = p) outs)"

lemma port_bytes_simps [simp]:
  "port_bytes p [] = []" "port_bytes p (xs @ ys) = port_bytes p xs @ port_bytes p ys"
  "port_bytes p ((b, q) # xs) = (if q = p then [b] else []) @ port_bytes p xs"
  by (simp_all add: port_bytes_def)

lemma fd_out_simps [simp]:
  "fd_outs (fd_out b p s) = fd_outs s @ [(b, p)]" "inp (fd_out b p s) = inp s"
  "reads (fd_out b p s) = reads s" "fdc_track (fd_out b p s) = fdc_track s"
  "motoron (fd_out b p s) = motoron s" "reply_buffer (fd_out b p s) = reply_buffer s"
  by (simp_all add: fd_out_def)

lemma fd_in_simps [simp]:
  "fst (fd_in s) = inp s (reads s)" "snd (fd_in s) = s\<lparr>reads := reads s + 1\<rparr>"
  by (simp_all add: fd_in_def)

text \<open>The controller waits for a byte.\<close>

definition ready :: "u8 \<Rightarrow> bool" where
  "ready v \<longleftrightarrow> v AND (STATUS_READY OR STATUS_DIR) = STATUS_READY"

lemma send_byte_ready:
  assumes "ready (inp s (reads s))"
  shows "send_byte b s = fd_out b FD_DATA (s\<lparr>reads := reads s + 1\<rparr>)"
proof -
  have "(1000 :: nat) = Suc 999"
    by simp
  then show ?thesis
    unfolding send_byte_def using assms by (simp only: send_loop.simps) (simp add: fd_in_def ready_def)
qed

lemma send_rw_ready:
  assumes "\<forall>k < 9. ready (inp s (reads s + k))"
  shows "send_rw command head track sector s =
    s\<lparr>reads := reads s + 9, fd_outs := fd_outs s @ map (\<lambda>b. (b, FD_DATA))
      [command_byte command, word_of_nat (4 * head), word_of_nat track, word_of_nat head,
       word_of_nat sector, 2, 18, 0, 0xFF]\<rparr>"
proof -
  have r: "ready (inp s (reads s))" "ready (inp s (Suc (reads s)))"
      "ready (inp s (Suc (Suc (reads s))))" "ready (inp s (Suc (Suc (Suc (reads s)))))"
      "ready (inp s (Suc (Suc (Suc (Suc (reads s))))))"
      "ready (inp s (Suc (Suc (Suc (Suc (Suc (reads s)))))))"
      "ready (inp s (Suc (Suc (Suc (Suc (Suc (Suc (reads s))))))))"
      "ready (inp s (Suc (Suc (Suc (Suc (Suc (Suc (Suc (reads s)))))))))"
      "ready (inp s (Suc (Suc (Suc (Suc (Suc (Suc (Suc (Suc (reads s))))))))))"
    using assms [rule_format, of 0] assms [rule_format, of 1] assms [rule_format, of 2]
      assms [rule_format, of 3] assms [rule_format, of 4] assms [rule_format, of 5]
      assms [rule_format, of 6] assms [rule_format, of 7] assms [rule_format, of 8]
    by (simp_all add: eval_nat_numeral)
  show ?thesis
    by (simp add: send_rw_def send_byte_ready r Let_def fd_out_def floppy_def)
qed

text \<open>Reading the results writes nothing to a port.\<close>

lemma get_result_loop_outs:
  "fd_outs (snd (get_result_loop n i s)) = fd_outs s \<and> motoron (snd (get_result_loop n i s)) = motoron s"
  by (induction n arbitrary: i s) (simp_all add: fd_in_def)

lemma wait_fdc_outs:
  "fd_outs (snd (wait_fdc False s)) = fd_outs s \<and> motoron (snd (wait_fdc False s)) = motoron s"
  using get_result_loop_outs
  by (simp add: wait_fdc_def get_result_def Let_def split: prod.split) (simp add: prod_eq_iff)

lemma motor_off_status [simp]: "status_bytes (motor_off s) = status_bytes s"
  by (simp add: motor_off_def status_bytes_def)

lemma motor_data [simp]:
  "port_bytes FD_DATA (fd_outs (motor_on s)) = port_bytes FD_DATA (fd_outs s)"
  "port_bytes FD_DATA (fd_outs (motor_off s)) = port_bytes FD_DATA (fd_outs s)"
  "port_bytes 4 (fd_outs (motor_on s)) = port_bytes 4 (fd_outs s)"
  "port_bytes 4 (fd_outs (motor_off s)) = port_bytes 4 (fd_outs s)"
  "port_bytes 0x81 (fd_outs (motor_on s)) = port_bytes 0x81 (fd_outs s)"
  "port_bytes 0x81 (fd_outs (motor_off s)) = port_bytes 0x81 (fd_outs s)"
  "inp (motor_on s) = inp s" "reads (motor_on s) = reads s" "fdc_track (motor_on s) = fdc_track s"
  by (simp_all add: motor_on_def motor_off_def fd_ports)

lemma setup_DMA_simps:
  "inp (setup_DMA a c s) = inp s" "reads (setup_DMA a c s) = reads s"
  "port_bytes FD_DATA (fd_outs (setup_DMA a c s)) = port_bytes FD_DATA (fd_outs s)"
  "port_bytes 4 (fd_outs (setup_DMA a c s)) = port_bytes 4 (fd_outs s) @ [ucast a, ucast (drop_bit 8 a)]"
  "port_bytes 0x81 (fd_outs (setup_DMA a c s)) = port_bytes 0x81 (fd_outs s) @ [ucast (drop_bit 16 a)]"
  by (simp_all add: setup_DMA_def Let_def fd_ports drop_bit_drop_bit)


definition fdc0 :: fdc where
  "fdc0 = \<lparr>reply_buffer = replicate MAX_REPLIES 0, done_flag = False, motoron = False,
     changed = False, sr0 = 0, fdc_track = 255, fd_times = 0, fd_outs = [],
     inp = (\<lambda>n. if n = 0 then 0 else 0x80), reads = 0, intr = (\<lambda>_. True), waits = 0\<rparr>"


section \<open>The sector interface\<close>

text \<open>The head movement of a transfer, and the status bytes left, as a disk of the sector interface.\<close>

definition seeks :: "fdc \<Rightarrow> nat \<Rightarrow> bool" where
  "seeks s sector =
     (case lba_to_chs sector of (head, track, _) \<Rightarrow> fst (seek track head (snd (fd_in (motor_on s)))))"


lemma wait_fdc_ready:
  assumes "inp s (reads s) = 0x80"
  shows "status_bytes (snd (wait_fdc False s)) = (0, 0, 0)"
proof -
  have k: "(1000 :: nat) = Suc 999"
    by simp
  have "get_result t = (0, t\<lparr>reads := reads t + 1\<rparr>)" if "inp t (reads t) = 0x80" for t
    unfolding get_result_def k using that
    by (simp only: get_result_loop.simps) (simp add: fd_in_def fd_status_bits)
  with assms show ?thesis
    by (simp add: wait_fdc_def Let_def status_bytes_def MAX_REPLIES_def numeral_2_eq_2 eval_nat_numeral)
qed


section \<open>A controller that does not answer\<close>

lemma get_result_loop_silent:
  "\<forall>n. \<not> has_data (inp s n) \<Longrightarrow>
   reply_buffer (snd (get_result_loop k i s)) = reply_buffer s"
  by (induction k arbitrary: i s) (simp_all add: fd_in_def)

text \<open>
  The replies are cleared before they are read, the result of the reading and the time-out are
  ignored, and a cleared status is a good one: a command that is never answered has succeeded.
\<close>

lemma silent_controller_succeeds:
  assumes "\<forall>n. \<not> has_data (inp s n)"
  shows "\<not> bad_status (status_bytes (snd (wait_fdc False s)))"
proof -
  have "reply_buffer (snd (get_result t)) = replicate MAX_REPLIES 0"
    if "reply_buffer t = replicate MAX_REPLIES 0" "inp t = inp s" for t
    using get_result_loop_silent [of t 1000 0] assms that by (simp add: get_result_def)
  then have "reply_buffer (snd (wait_fdc False s)) = replicate MAX_REPLIES 0"
    by (simp add: wait_fdc_def Let_def split: prod.split) (simp add: prod_eq_iff)
  then show ?thesis
    by (simp add: status_bytes_def bad_status_def MAX_REPLIES_def)
qed

end
