(* ===== verification/Tfs_Super.thy ===== *)
theory Tfs_Super
  imports Floppy
begin

text \<open>
  Mounting a TFS volume (\<^verbatim>\<open>fs/tfs/super.c\<close>) and moving its blocks
  (\<^verbatim>\<open>fs/tfs/tfs_diskio.c\<close>): a block is a run of sectors behind the kernel image. The
  interface \<open>block_dev\<close> states what the buffer cache relies on.
\<close>

section \<open>The superblock\<close>

definition le32_at :: "u8 list \<Rightarrow> nat \<Rightarrow> u32" where
  "le32_at buf off = le32 (buf ! off) (buf ! (off + 1)) (buf ! (off + 2)) (buf ! (off + 3))"

definition le16_at :: "u8 list \<Rightarrow> nat \<Rightarrow> u16" where
  "le16_at buf off = le16 (buf ! off) (buf ! (off + 1))"

record tfs_super_block =
  sb_inodes_count :: u32
  sb_blocks_count :: u32
  sb_free_blocks_count :: u32
  sb_free_inodes_count :: u32
  sb_magic :: u32
  sb_block_shift :: u32
  sb_inode_bitmap :: u32
  sb_block_bitmap :: u32
  sb_inode_table :: u32
  sb_data_area :: u32
  sb_offset :: u32

text \<open>The fields of the structure in the order and at the offsets of the declaration.\<close>

definition read_super :: "u8 list \<Rightarrow> tfs_super_block" where
  "read_super s =
     \<lparr>sb_inodes_count = le32_at s 0, sb_blocks_count = le32_at s 4,
      sb_free_blocks_count = le32_at s 8, sb_free_inodes_count = le32_at s 12,
      sb_magic = le32_at s 16, sb_block_shift = le32_at s 20,
      sb_inode_bitmap = le32_at s 24, sb_block_bitmap = le32_at s 28,
      sb_inode_table = le32_at s 32, sb_data_area = le32_at s 36, sb_offset = le32_at s 40\<rparr>"

record tfs_sb_info =
  s_inodes_count :: u32
  s_blocks_count :: u32
  s_free_blocks_count :: u32
  s_free_inodes_count :: u32
  s_block_shift :: u32
  s_block_size :: u32
  s_inode_bitmap :: u32
  s_inode_bitmap_count :: u32
  s_block_bitmap :: u32
  s_block_bitmap_count :: u32
  s_inode_table :: u32
  s_inode_table_count :: u32
  s_data_area :: u32
  s_offset :: u32
  s_inodes_per_block :: u32

definition TFS_FS_SECTOR :: u32 where "TFS_FS_SECTOR = 832"
definition TFS_SB_SECTOR :: u32 where "TFS_SB_SECTOR = TFS_FS_SECTOR + 1"
definition TFS_MAGIC :: u32 where "TFS_MAGIC = 0x4c534654"
definition tfs_inode_size :: nat where "tfs_inode_size = 64"

text \<open>
  \<^verbatim>\<open>tfs_mount\<close>. The result of \<^verbatim>\<open>floppy_read\<close> is not looked at: \<open>garbage\<close> is what the
  structure on the stack held before. \<open>room\<close> tells whether \<^verbatim>\<open>malloc\<close> gave memory.
\<close>

definition tfs_mount :: "bool \<Rightarrow> bool \<Rightarrow> disk \<Rightarrow> u8 list \<Rightarrow> tfs_sb_info option" where
  "tfs_mount bounce room d garbage =
     (case floppy_read bounce d (unat TFS_SB_SECTOR) garbage of (_, buf) \<Rightarrow>
        let sb = read_super buf in
        if sb_magic sb \<noteq> TFS_MAGIC then None
        else if \<not> room then None
        else let size = push_bit (unat (sb_block_shift sb)) 1 in
          Some \<lparr>s_inodes_count = sb_inodes_count sb, s_blocks_count = sb_blocks_count sb,
                s_free_blocks_count = sb_free_blocks_count sb,
                s_free_inodes_count = sb_free_inodes_count sb,
                s_block_shift = sb_block_shift sb, s_block_size = size,
                s_inode_bitmap = sb_inode_bitmap sb,
                s_inode_bitmap_count = sb_block_bitmap sb - sb_inode_bitmap sb,
                s_block_bitmap = sb_block_bitmap sb,
                s_block_bitmap_count = sb_inode_table sb - sb_block_bitmap sb,
                s_inode_table = sb_inode_table sb,
                s_inode_table_count = sb_data_area sb - sb_inode_table sb,
                s_data_area = sb_data_area sb, s_offset = sb_offset sb,
                s_inodes_per_block = size div word_of_nat tfs_inode_size\<rparr>)"

definition tfs_get_blk_shift :: "tfs_sb_info \<Rightarrow> u32" where
  "tfs_get_blk_shift sb = s_block_shift sb"

section \<open>Block transfers\<close>

definition block_sector :: "tfs_sb_info \<Rightarrow> u32 \<Rightarrow> u32" where
  "block_sector sbi block =
     push_bit (unat (s_block_shift sbi - 9)) block + s_offset sbi + TFS_FS_SECTOR"

definition block_sectors :: "tfs_sb_info \<Rightarrow> nat" where
  "block_sectors sbi = unat (push_bit (unat (s_block_shift sbi - 9)) (1 :: u32))"

definition tfs_bread :: "tfs_sb_info \<Rightarrow> disk \<Rightarrow> u32 \<Rightarrow> u8 list \<Rightarrow> int \<times> u8 list" where
  "tfs_bread sbi d block buf =
     floppy_reads False d (unat (block_sector sbi block)) buf (block_sectors sbi)"

definition tfs_bwrite :: "tfs_sb_info \<Rightarrow> disk \<Rightarrow> u32 \<Rightarrow> u8 list \<Rightarrow> int \<times> disk" where
  "tfs_bwrite sbi d block buf =
     floppy_writes False d (unat (block_sector sbi block)) buf (block_sectors sbi)"

section \<open>The volume\<close>

text \<open>The bytes of a block on the disk.\<close>

definition disk_block :: "tfs_sb_info \<Rightarrow> disk \<Rightarrow> u32 \<Rightarrow> u8 list" where
  "disk_block sbi d block = read_run d (unat (block_sector sbi block)) (block_sectors sbi)"

definition bsize :: "tfs_sb_info \<Rightarrow> nat" where
  "bsize sbi = 2 ^ unat (s_block_shift sbi)"

text \<open>A sensible block size; the shift is at least that of a sector.\<close>

definition sbi_ok :: "tfs_sb_info \<Rightarrow> bool" where
  "sbi_ok sbi \<longleftrightarrow> 9 \<le> unat (s_block_shift sbi) \<and> unat (s_block_shift sbi) \<le> 14 \<and>
     s_block_size sbi = word_of_nat (bsize sbi) \<and>
     s_inodes_per_block sbi = word_of_nat (bsize sbi div tfs_inode_size)"

text \<open>A block whose sectors have numbers that fit an \<^verbatim>\<open>int\<close> and transfer without error.\<close>

definition block_ok :: "tfs_sb_info \<Rightarrow> disk \<Rightarrow> u32 \<Rightarrow> bool" where
  "block_ok sbi d b \<longleftrightarrow> unat b < 2 ^ 20 \<and>
     good_run d (unat (block_sector sbi b)) (block_sectors sbi)"

definition volume_ok :: "tfs_sb_info \<Rightarrow> disk \<Rightarrow> bool" where
  "volume_ok sbi d \<longleftrightarrow> sbi_ok sbi \<and> unat (s_offset sbi) < 2 ^ 20 \<and> disk_ok d"

lemma block_sectors_eq: "sbi_ok sbi \<Longrightarrow> block_sectors sbi = 2 ^ (unat (s_block_shift sbi) - 9)"
proof -
  assume *: "sbi_ok sbi"
  then have "unat (s_block_shift sbi - 9) = unat (s_block_shift sbi) - 9"
    by (simp add: sbi_ok_def unat_sub word_le_nat_alt)
  moreover have "unat (push_bit n (1 :: u32)) = 2 ^ n" if "n \<le> 5" for n
  proof -
    have "n < 32" using that by simp
    moreover from this have "(2 :: nat) ^ n < 2 ^ 32" by (intro power_strict_increasing) simp_all
    ultimately show ?thesis
      unfolding unsigned_push_bit_eq by (simp add: push_bit_eq_mult take_bit_nat_eq_self)
  qed
  moreover have "unat (s_block_shift sbi) - 9 \<le> 5" using * unfolding sbi_ok_def by linarith
  ultimately show ?thesis by (simp add: block_sectors_def)
qed

lemma bsize_sectors: "sbi_ok sbi \<Longrightarrow> bsize sbi = block_sectors sbi * sector_size"
proof -
  assume *: "sbi_ok sbi"
  then have "unat (s_block_shift sbi) = (unat (s_block_shift sbi) - 9) + 9"
    by (simp add: sbi_ok_def)
  then have "2 ^ unat (s_block_shift sbi) = 2 ^ (unat (s_block_shift sbi) - 9) * (2 :: nat) ^ 9"
    by (metis power_add)
  then show ?thesis using * by (simp add: bsize_def block_sectors_eq sector_size_def)
qed

lemma block_sector_eq:
  assumes "sbi_ok sbi" and "unat b < 2 ^ 20" and "unat (s_offset sbi) < 2 ^ 20"
  shows "unat (block_sector sbi b) = unat b * block_sectors sbi + unat (s_offset sbi) + 832"
proof -
  define k where "k = unat (s_block_shift sbi) - 9"
  have k: "unat (s_block_shift sbi - 9) = k" "k \<le> 5"
    using assms(1) unfolding k_def sbi_ok_def by (simp add: unat_sub word_le_nat_alt, linarith)
  have "(2 :: nat) ^ k \<le> 2 ^ 5" using k(2) by (intro power_increasing) simp_all
  then have "unat b * 2 ^ k \<le> unat b * 2 ^ 5" by (rule mult_le_mono2)
  also have "\<dots> < 2 ^ 25" using assms(2) by simp
  finally have m: "unat b * 2 ^ k < 2 ^ 25" .
  then have p: "unat (push_bit k b) = unat b * 2 ^ k"
    unfolding unsigned_push_bit_eq by (simp add: push_bit_eq_mult take_bit_nat_eq_self)
  have "unat (block_sector sbi b) = unat b * 2 ^ k + unat (s_offset sbi) + 832"
    unfolding block_sector_def k TFS_FS_SECTOR_def
    using m assms(3) by (simp add: unat_word_ariths p)
  then show ?thesis using assms(1) by (simp add: block_sectors_eq k_def)
qed

lemma block_runs_disjoint:
  assumes "unat b \<noteq> unat c"
  shows "unat b * n + k + n \<le> unat c * n + k \<or> unat c * n + k + n \<le> unat b * n + (k :: nat)"
proof (cases "unat b < unat c")
  case True
  then have "Suc (unat b) * n \<le> unat c * n" by (intro mult_le_mono1) simp
  then show ?thesis by simp
next
  case False
  with assms have "Suc (unat c) * n \<le> unat b * n" by (intro mult_le_mono1) simp
  then show ?thesis by simp
qed

lemma length_disk_block: "volume_ok sbi d \<Longrightarrow> length (disk_block sbi d b) = bsize sbi"
  by (simp add: volume_ok_def disk_block_def length_read_run bsize_sectors)

lemma tfs_bread_ok:
  assumes "volume_ok sbi d" and "block_ok sbi d b" and "length buf = bsize sbi"
  shows "tfs_bread sbi d b buf = (0, disk_block sbi d b)"
proof -
  have "floppy_reads False d (unat (block_sector sbi b)) buf (block_sectors sbi) =
      (0, splice_at 0 (disk_block sbi d b) buf)"
    using assms unfolding floppy_reads_def disk_block_def
    by (intro floppy_reads_from_good) (simp_all add: volume_ok_def block_ok_def bsize_sectors)
  then show ?thesis
    using assms length_disk_block [OF assms(1), of b] by (simp add: tfs_bread_def splice_at_def)
qed

lemma tfs_bwrite_ok:
  assumes v: "volume_ok sbi d" and b: "block_ok sbi d b" and l: "length buf = bsize sbi"
  obtains d' where "tfs_bwrite sbi d b buf = (0, d')" and "volume_ok sbi d'"
    and "\<And>c. block_ok sbi d' c = block_ok sbi d c" and "disk_block sbi d' b = buf"
    and "\<And>c. block_ok sbi d c \<Longrightarrow> c \<noteq> b \<Longrightarrow> disk_block sbi d' c = disk_block sbi d c"
proof -
  let ?n = "block_sectors sbi" and ?s = "unat (block_sector sbi b)"
  let ?d = "write_run d ?s 0 ?n buf"
  have ok: "sbi_ok sbi" "unat (s_offset sbi) < 2 ^ 20" "disk_ok d" using v by (simp_all add: volume_ok_def)
  have len: "length buf = ?n * sector_size" using l ok by (simp add: bsize_sectors)
  have "tfs_bwrite sbi d b buf = (0, ?d)"
    using b by (simp add: tfs_bwrite_def floppy_writes_def floppy_writes_from_good block_ok_def)
  moreover have "volume_ok sbi ?d"
    using ok disk_ok_write_run [OF ok(3), of 0 ?n buf] len by (simp add: volume_ok_def)
  moreover have "block_ok sbi ?d c = block_ok sbi d c" for c
    by (simp add: block_ok_def write_run_def)
  moreover have "disk_block sbi ?d b = buf"
    using len by (simp add: disk_block_def read_run_write_run)
  moreover have "disk_block sbi ?d c = disk_block sbi d c" if "block_ok sbi d c" "c \<noteq> b" for c
  proof -
    have "unat b \<noteq> unat c" using that(2) by (simp add: word_unat_eq_iff)
    moreover have "unat c < 2 ^ 20" "unat b < 2 ^ 20" using that b by (simp_all add: block_ok_def)
    ultimately show ?thesis
      using block_runs_disjoint [of b c ?n "unat (s_offset sbi) + 832"]
        block_sector_eq [OF ok(1) _ ok(2)]
      unfolding disk_block_def by (intro read_run_write_other) auto
  qed
  ultimately show thesis by (rule that)
qed

section \<open>The interface of a block device\<close>

text \<open>
  What the buffer cache relies on: reading a valid block gives its content, writing one changes
  that content only. The device \<open>'d\<close> carries its mount information with it.
\<close>

locale block_dev =
  fixes bread :: "'d \<Rightarrow> u32 \<Rightarrow> u8 list \<Rightarrow> int \<times> u8 list"
    and bwrite :: "'d \<Rightarrow> u32 \<Rightarrow> u8 list \<Rightarrow> int \<times> 'd"
    and content :: "'d \<Rightarrow> u32 \<Rightarrow> u8 list"
    and blen :: "'d \<Rightarrow> nat"
    and dev_ok :: "'d \<Rightarrow> bool"
    and valid :: "'d \<Rightarrow> u32 \<Rightarrow> bool"
  assumes bread_content: "dev_ok d \<Longrightarrow> valid d b \<Longrightarrow> length buf = blen d \<Longrightarrow>
      bread d b buf = (0, content d b)"
    and content_length: "dev_ok d \<Longrightarrow> length (content d b) = blen d"
    and bwrite_content: "dev_ok d \<Longrightarrow> valid d b \<Longrightarrow> length buf = blen d \<Longrightarrow>
      \<exists>d'. bwrite d b buf = (0, d') \<and> dev_ok d' \<and> blen d' = blen d \<and>
        (\<forall>c. valid d' c = valid d c) \<and> content d' b = buf \<and>
        (\<forall>c. valid d c \<longrightarrow> c \<noteq> b \<longrightarrow> content d' c = content d c)"
    and valid_not_minus_one: "valid d b \<Longrightarrow> b \<noteq> - 1"

interpretation tfs_dev: block_dev
  "\<lambda>(sbi, d). tfs_bread sbi d"
  "\<lambda>(sbi, d) b buf. map_prod id (Pair sbi) (tfs_bwrite sbi d b buf)"
  "\<lambda>(sbi, d). disk_block sbi d" "\<lambda>(sbi, d). bsize sbi"
  "\<lambda>(sbi, d). volume_ok sbi d" "\<lambda>(sbi, d). block_ok sbi d"
proof unfold_locales
  fix vd :: "tfs_sb_info \<times> disk" and b :: u32 and buf :: "u8 list"
  obtain sbi d where vd: "vd = (sbi, d)" by force
  assume "case vd of (sbi, d) \<Rightarrow> volume_ok sbi d"
  then have v: "volume_ok sbi d" by (simp add: vd)
  then show "length ((case vd of (sbi, d) \<Rightarrow> disk_block sbi d) b) = (case vd of (sbi, d) \<Rightarrow> bsize sbi)"
    by (simp add: vd length_disk_block)
  assume "(case vd of (sbi, d) \<Rightarrow> block_ok sbi d) b"
    and "length buf = (case vd of (sbi, d) \<Rightarrow> bsize sbi)"
  then have b: "block_ok sbi d b" and l: "length buf = bsize sbi" by (simp_all add: vd)
  show "(case vd of (sbi, d) \<Rightarrow> tfs_bread sbi d) b buf = (0, (case vd of (sbi, d) \<Rightarrow> disk_block sbi d) b)"
    using v b l by (simp add: vd tfs_bread_ok)
  show "\<exists>vd'. (case vd of (sbi, d) \<Rightarrow> \<lambda>b buf. map_prod id (Pair sbi) (tfs_bwrite sbi d b buf)) b buf = (0, vd') \<and>
      (case vd' of (sbi, d) \<Rightarrow> volume_ok sbi d) \<and>
      (case vd' of (sbi, d) \<Rightarrow> bsize sbi) = (case vd of (sbi, d) \<Rightarrow> bsize sbi) \<and>
      (\<forall>c. (case vd' of (sbi, d) \<Rightarrow> block_ok sbi d) c = (case vd of (sbi, d) \<Rightarrow> block_ok sbi d) c) \<and>
      (case vd' of (sbi, d) \<Rightarrow> disk_block sbi d) b = buf \<and>
      (\<forall>c. (case vd of (sbi, d) \<Rightarrow> block_ok sbi d) c \<longrightarrow> c \<noteq> b \<longrightarrow>
        (case vd' of (sbi, d) \<Rightarrow> disk_block sbi d) c = (case vd of (sbi, d) \<Rightarrow> disk_block sbi d) c)"
    using tfs_bwrite_ok [OF v b l] by (fastforce simp: vd)
next
  fix vd :: "tfs_sb_info \<times> disk" and b :: u32
  assume "(case vd of (sbi, d) \<Rightarrow> block_ok sbi d) b"
  then have "unat b < 2 ^ 20" by (auto simp: block_ok_def split: prod.splits)
  moreover have "unat (- 1 :: u32) = 2 ^ 32 - 1"
    by (simp add: unsigned_minus_1_eq_mask mask_eq_exp_minus_1)
  ultimately show "b \<noteq> - 1" by auto
qed

end
