(* ===== verification/Cache.thy ===== *)
theory Cache
  imports Tfs_Super
begin

text \<open>
  The buffer cache \<^verbatim>\<open>fs/cache.c\<close>: a ring of \<^verbatim>\<open>struct cache_struct\<close> around
  \<^verbatim>\<open>cache_head\<close>, least recently used first. The model keeps the two pointers of every node
  and follows the pointer updates of the code; \<open>ring\<close> relates them to the list of entries in the
  order of use, and \<open>lru_access\<close> is what \<^verbatim>\<open>get_cache_block\<close> does to that list.
\<close>

section \<open>State\<close>

datatype node = Head | Ent nat

record cache =
  cache_entries :: nat
  nxt :: "node \<Rightarrow> node"
  prv :: "node \<Rightarrow> node"
  blk :: "node \<Rightarrow> u32"
  dat :: "node \<Rightarrow> u8 list"

definition CACHE_SIZE :: nat where "CACHE_SIZE = 32768"
definition MAX_CACHE_ENTRIES :: nat where "MAX_CACHE_ENTRIES = 64"

text \<open>
  \<^verbatim>\<open>cache_init\<close> links the entries one after the other behind \<^verbatim>\<open>cache_head\<close> and gives each its
  part of \<^verbatim>\<open>cache_data\<close>, whose bytes are the argument \<open>data\<close>; the bytes stay what they were.
\<close>

fun link_entries :: "nat \<Rightarrow> node \<Rightarrow> u8 list \<Rightarrow> nat list \<Rightarrow> cache \<Rightarrow> cache" where
  "link_entries bs prev data [] c = c"
| "link_entries bs prev data (i # is) c =
     (let cur = Ent i;
          c = c\<lparr>blk := (blk c)(cur := - 1)\<rparr>;
          c = c\<lparr>prv := (prv c)(cur := prev)\<rparr>;
          c = c\<lparr>nxt := (nxt c)(prev := cur)\<rparr>;
          c = c\<lparr>dat := (dat c)(cur := take bs data)\<rparr>;
          data = drop bs data
      in link_entries bs cur data is c)"

definition cache_init :: "nat \<Rightarrow> u8 list \<Rightarrow> cache \<Rightarrow> cache" where
  "cache_init block_shift cache_data c =
     (let n = min (CACHE_SIZE div 2 ^ block_shift) MAX_CACHE_ENTRIES;
          c = c\<lparr>cache_entries := n\<rparr>;
          c = c\<lparr>prv := (prv c)(Head := Ent (n - 1))\<rparr>;
          c = c\<lparr>nxt := (nxt c)(prv c Head := Head)\<rparr>
      in link_entries (2 ^ block_shift) Head cache_data [0..<n] c)"

text \<open>\<^verbatim>\<open>print_cache\<close>: the block numbers it prints, following \<^verbatim>\<open>next\<close> from the head.\<close>

fun print_from :: "cache \<Rightarrow> node \<Rightarrow> nat \<Rightarrow> u32 list" where
  "print_from c cs 0 = []"
| "print_from c cs (Suc i) = blk c (nxt c cs) # print_from c (nxt c cs) i"

definition print_cache :: "cache \<Rightarrow> u32 list" where
  "print_cache c = print_from c Head (cache_entries c)"

text \<open>
  The search of \<^verbatim>\<open>get_cache_block\<close>: at most \<open>i\<close> steps back from \<open>cs\<close>; \<^term>\<open>None\<close> is
  \<^verbatim>\<open>i == cache_entries\<close>, a miss.
\<close>

fun find_back :: "cache \<Rightarrow> u32 \<Rightarrow> node \<Rightarrow> nat \<Rightarrow> node option" where
  "find_back c block cs 0 = None"
| "find_back c block cs (Suc i) =
     (if blk c cs = block then Some cs else find_back c block (prv c cs) i)"

text \<open>Take \<open>cs\<close> out of the ring and put it back just before the head.\<close>

definition move_to_end :: "cache \<Rightarrow> node \<Rightarrow> node \<Rightarrow> cache" where
  "move_to_end c lst cs =
     (let c = c\<lparr>nxt := (nxt c)(prv c cs := nxt c cs)\<rparr>;
          c = c\<lparr>prv := (prv c)(nxt c cs := prv c cs)\<rparr>;
          c = c\<lparr>nxt := (nxt c)(lst := cs)\<rparr>;
          c = c\<lparr>prv := (prv c)(cs := lst)\<rparr>;
          c = c\<lparr>prv := (prv c)(Head := cs)\<rparr>
      in c\<lparr>nxt := (nxt c)(cs := Head)\<rparr>)"

text \<open>
  \<^verbatim>\<open>get_cache_block\<close>; \<open>bread\<close> is \<^verbatim>\<open>tfs_bread(fs->sb, ...)\<close>. The test
  \<^verbatim>\<open>block < 0\<close> of the source is never true of an unsigned number. On a failed read the data
  buffer keeps what the transfer put there.
\<close>

definition get_cache_block ::
    "(u32 \<Rightarrow> u8 list \<Rightarrow> int \<times> u8 list) \<Rightarrow> cache \<Rightarrow> u32 \<Rightarrow> node option \<times> cache" where
  "get_cache_block bread c block =
     (let lst = prv c Head; cs = prv c Head in
      if blk c cs = block then (Some cs, c)
      else (case find_back c block cs (cache_entries c) of
              Some cs \<Rightarrow> (Some cs, move_to_end c lst cs)
            | None \<Rightarrow>
                let cs = nxt c Head in
                (case bread block (dat c cs) of (res, buf) \<Rightarrow>
                   let c = c\<lparr>dat := (dat c)(cs := buf)\<rparr> in
                   if res \<noteq> 0 then (None, c)
                   else let c = c\<lparr>blk := (blk c)(cs := block)\<rparr> in
                        (Some cs, move_to_end c lst cs))))"

section \<open>The ring as a list\<close>

fun links :: "(node \<Rightarrow> node) \<Rightarrow> (node \<Rightarrow> node) \<Rightarrow> node \<Rightarrow> nat list \<Rightarrow> node \<Rightarrow> bool" where
  "links n p a [] b \<longleftrightarrow> n a = b \<and> p b = a"
| "links n p a (x # xs) b \<longleftrightarrow> n a = Ent x \<and> p (Ent x) = a \<and> links n p (Ent x) xs b"

definition ring :: "cache \<Rightarrow> nat list \<Rightarrow> bool" where
  "ring c xs \<longleftrightarrow> distinct xs \<and> length xs = cache_entries c \<and> links (nxt c) (prv c) Head xs Head"

lemma links_unique: "links n p a xs b \<Longrightarrow> links n p a ys b' \<Longrightarrow> length xs = length ys \<Longrightarrow> xs = ys"
proof (induction xs arbitrary: a ys)
  case (Cons x xs)
  then show ?case by (cases ys) auto
qed simp

lemma ring_unique: "ring c xs \<Longrightarrow> ring c ys \<Longrightarrow> xs = ys"
  unfolding ring_def using links_unique [of "nxt c" "prv c" Head xs Head ys Head] by simp

definition last_node :: "node \<Rightarrow> nat list \<Rightarrow> node" where
  "last_node a xs = (if xs = [] then a else Ent (last xs))"

lemma last_node_simps [simp]:
  "last_node a [] = a" "last_node a (x # xs) = last_node (Ent x) xs"
  "last_node a (xs @ [x]) = Ent x"
  by (simp_all add: last_node_def)

lemma links_append:
  "links n p a (xs @ y # ys) b \<longleftrightarrow> links n p a xs (Ent y) \<and> links n p (Ent y) ys b"
  by (induction xs arbitrary: a) auto

lemma links_end: "links n p a xs b \<Longrightarrow> n (last_node a xs) = b \<and> p b = last_node a xs"
  by (induction xs arbitrary: a) auto

lemma links_cong:
  assumes "links n p a xs b"
    and "\<And>x. x = a \<or> x \<in> Ent ` set xs \<Longrightarrow> n' x = n x"
    and "\<And>x. x = b \<or> x \<in> Ent ` set xs \<Longrightarrow> p' x = p x"
  shows "links n' p' a xs b"
  using assms by (induction xs arbitrary: a) auto

text \<open>Redirecting the far end of a segment.\<close>

lemma links_relink:
  assumes "links n p a xs b" and "distinct xs" and "a \<notin> Ent ` set xs"
    and "\<And>x. x = a \<or> x \<in> Ent ` set xs \<Longrightarrow> x \<noteq> last_node a xs \<Longrightarrow> n' x = n x"
    and "\<And>x. x \<in> Ent ` set xs \<Longrightarrow> p' x = p x"
    and "n' (last_node a xs) = v" and "p' v = last_node a xs"
  shows "links n' p' a xs v"
  using assms
proof (induction xs arbitrary: a)
  case Nil
  then show ?case by simp
next
  case (Cons x xs)
  have "a \<noteq> last_node (Ent x) xs"
    using Cons.prems(3) by (auto simp: last_node_def)
  moreover have "links n' p' (Ent x) xs v"
    using Cons.prems by (intro Cons.IH) auto
  ultimately show ?case using Cons.prems by simp
qed

lemma links_first: "links n p a (x # xs) b \<Longrightarrow> n a = Ent x" by simp

lemma move_to_end_ring:
  assumes r: "ring c (xs @ e # ys)" and ys: "ys \<noteq> []"
  shows "ring (move_to_end c (Ent (last ys)) (Ent e)) (xs @ ys @ [e])"
proof -
  let ?n = "nxt c" and ?p = "prv c"
  obtain y ys2 where y: "ys = y # ys2" using ys by (cases ys) auto
  have d: "distinct (xs @ e # y # ys2)" and len: "length (xs @ e # ys) = cache_entries c"
    and l: "links ?n ?p Head (xs @ e # y # ys2) Head"
    using r by (simp_all add: ring_def y)
  let ?a = "last_node Head xs" and ?l = "last_node (Ent y) ys2"
  have l1: "links ?n ?p Head xs (Ent e)" and l2: "?n (Ent e) = Ent y" "?p (Ent y) = Ent e"
    and l3: "links ?n ?p (Ent y) ys2 Head"
    using l by (auto simp: links_append)
  have pe: "?p (Ent e) = ?a" using links_end [OF l1] by simp
  have l_eq: "Ent (last ys) = ?l" by (simp add: y last_node_def)
  have a_ne: "?a \<noteq> Ent e" "?a \<noteq> ?l" "?a = Head \<or> ?a \<in> Ent ` set xs"
    using d last_in_set [of xs] last_in_set [of ys2]
    unfolding last_node_def distinct_append by (auto split: if_splits) (metis last_in_set disjoint_iff)
  have l_ne: "?l \<noteq> Ent e" "?l \<in> Ent ` set (y # ys2)"
    using d by (auto simp: last_node_def)
  define n' where "n' = ?n(?a := Ent y, ?l := Ent e, Ent e := Head)"
  define p' where "p' = ?p(Ent y := ?a, Ent e := ?l, Head := Ent e)"
  have m: "move_to_end c (Ent (last ys)) (Ent e) = c\<lparr>nxt := n', prv := p'\<rparr>"
    using a_ne l_ne d by (simp add: move_to_end_def Let_def l_eq pe l2 n'_def p'_def)
  have "links n' p' Head xs (Ent y)"
  proof (rule links_relink [OF l1])
    show "n' x = ?n x" if "x = Head \<or> x \<in> Ent ` set xs" "x \<noteq> ?a" for x
      using that d l_ne by (auto simp: n'_def)
    show "p' x = ?p x" if "x \<in> Ent ` set xs" for x using that d by (auto simp: p'_def)
    show "n' ?a = Ent y" using a_ne by (simp add: n'_def)
    show "p' (Ent y) = ?a" using d by (auto simp: p'_def)
  qed (use d in auto)
  moreover have "links n' p' (Ent y) ys2 (Ent e)"
  proof (rule links_relink [OF l3])
    show "n' x = ?n x" if "x = Ent y \<or> x \<in> Ent ` set ys2" "x \<noteq> ?l" for x
      using that d a_ne by (auto simp: n'_def)
    show "p' x = ?p x" if "x \<in> Ent ` set ys2" for x using that d by (auto simp: p'_def)
    show "n' ?l = Ent e" using l_ne by (simp add: n'_def)
    show "p' (Ent e) = ?l" by (simp add: p'_def)
  qed (use d in auto)
  moreover have "n' (Ent e) = Head" "p' Head = Ent e" by (simp_all add: n'_def p'_def)
  ultimately have "links n' p' Head (xs @ ys @ [e]) Head"
    using d by (auto simp: y links_append p'_def)
  then have "ring (c\<lparr>nxt := n', prv := p'\<rparr>) (xs @ ys @ [e])"
    using d len by (auto simp: ring_def y)
  then show ?thesis by (simp only: m)
qed

lemma find_back_ring:
  assumes "links n p a xs b" and "n = nxt c" and "p = prv c"
  shows "find_back c block (last_node a xs) (length xs) =
    map_option Ent (List.find (\<lambda>i. blk c (Ent i) = block) (rev xs))"
  using assms
proof (induction xs arbitrary: b rule: rev_induct)
  case Nil
  then show ?case by simp
next
  case (snoc x xs)
  then have l: "links n p a xs (Ent x)" by (simp add: links_append)
  have "prv c (Ent x) = last_node a xs" using links_end [OF l] snoc.prems by simp
  with snoc.IH [OF l snoc.prems(2,3)] show ?case by simp
qed

section \<open>Least recently used\<close>

text \<open>
  The abstract cache: entries in order of use with the block number each holds. An access moves
  the entry that holds the block to the end; a miss reuses the first entry.
\<close>

definition lru_find :: "cache \<Rightarrow> nat list \<Rightarrow> u32 \<Rightarrow> nat option" where
  "lru_find c xs block = List.find (\<lambda>i. blk c (Ent i) = block) (rev xs)"

definition lru_order :: "nat list \<Rightarrow> nat \<Rightarrow> nat list" where
  "lru_order xs e = remove1 e xs @ [e]"

lemma lru_find_Some: "lru_find c xs block = Some e \<Longrightarrow> e \<in> set xs \<and> blk c (Ent e) = block"
  by (auto simp: lru_find_def find_Some_iff) (metis length_rev nth_mem set_rev)

lemma lru_find_None: "lru_find c xs block = None \<longleftrightarrow> (\<forall>e \<in> set xs. blk c (Ent e) \<noteq> block)"
  by (auto simp: lru_find_def find_None_iff)

lemma ring_last: "ring c xs \<Longrightarrow> xs \<noteq> [] \<Longrightarrow> prv c Head = Ent (last xs)"
  using links_end [of "nxt c" "prv c" Head xs Head] by (auto simp: ring_def last_node_def)

lemma move_to_end_lru:
  assumes "ring c xs" and "e \<in> set xs" and "e \<noteq> last xs"
  shows "ring (move_to_end c (Ent (last xs)) (Ent e)) (lru_order xs e)"
proof -
  from assms(2) obtain us vs where xs: "xs = us @ e # vs" by (auto dest: split_list)
  with assms(1) have "e \<notin> set us" by (auto simp: ring_def)
  moreover have "vs \<noteq> []" using assms(3) xs by auto
  ultimately show ?thesis
    using move_to_end_ring [of c us e vs] assms(1) xs
    by (simp add: lru_order_def remove1_append)
qed

lemma move_to_end_frame [simp]:
  "blk (move_to_end c l e) = blk c" "dat (move_to_end c l e) = dat c"
  "cache_entries (move_to_end c l e) = cache_entries c"
  by (simp_all add: move_to_end_def Let_def)

lemma ring_frame [simp]:
  "ring (c\<lparr>dat := f\<rparr>) xs = ring c xs" "ring (c\<lparr>blk := g\<rparr>) xs = ring c xs"
  by (simp_all add: ring_def)

lemma lru_order_last: "xs \<noteq> [] \<Longrightarrow> distinct xs \<Longrightarrow> lru_order xs (last xs) = xs"
  by (cases xs rule: rev_cases) (auto simp: lru_order_def remove1_append)

text \<open>A hit.\<close>

lemma get_cache_block_hit:
  assumes r: "ring c xs" and hit: "lru_find c xs block = Some e"
  obtains c' where "get_cache_block bread c block = (Some (Ent e), c')"
    and "ring c' (lru_order xs e)" and "blk c' = blk c" and "dat c' = dat c"
proof -
  from hit have e: "e \<in> set xs" "blk c (Ent e) = block" by (auto dest: lru_find_Some)
  then have ne: "xs \<noteq> []" by auto
  note pl = ring_last [OF r ne]
  have d: "distinct xs" and len: "length xs = cache_entries c" and l: "links (nxt c) (prv c) Head xs Head"
    using r by (simp_all add: ring_def)
  show thesis
  proof (cases "blk c (Ent (last xs)) = block")
    case True
    have "rev xs = last xs # rev (butlast xs)" using ne by (cases xs rule: rev_cases) auto
    with hit True have "e = last xs" by (simp add: lru_find_def)
    with True pl lru_order_last [OF ne d] r show thesis
      by (intro that [of c]) (simp_all add: get_cache_block_def)
  next
    case False
    have fb: "find_back c block (Ent (last xs)) (cache_entries c) = Some (Ent e)"
      using find_back_ring [OF l refl refl, of block] hit ne len
      by (simp add: lru_find_def last_node_def)
    have "e \<noteq> last xs" using False e by auto
    from move_to_end_lru [OF r e(1) this] show thesis
      using False fb pl by (intro that [of "move_to_end c (Ent (last xs)) (Ent e)"])
        (simp_all add: get_cache_block_def)
  qed
qed

text \<open>A miss: the least recently used entry is loaded, or its data is spoilt and NULL returned.\<close>

lemma get_cache_block_miss:
  assumes r: "ring c xs" and two: "2 \<le> length xs" and miss: "lru_find c xs block = None"
    and read: "bread block (dat c (Ent (hd xs))) = (res, buf)"
  shows "res \<noteq> 0 \<Longrightarrow> get_cache_block bread c block = (None, c\<lparr>dat := (dat c)(Ent (hd xs) := buf)\<rparr>)"
    and "res = 0 \<Longrightarrow> \<exists>c'. get_cache_block bread c block = (Some (Ent (hd xs)), c') \<and>
      ring c' (lru_order xs (hd xs)) \<and> blk c' = (blk c)(Ent (hd xs) := block) \<and>
      dat c' = (dat c)(Ent (hd xs) := buf)"
proof -
  from two have ne: "xs \<noteq> []" by auto
  note pl = ring_last [OF r ne]
  have d: "distinct xs" and len: "length xs = cache_entries c" and l: "links (nxt c) (prv c) Head xs Head"
    using r by (simp_all add: ring_def)
  have first: "nxt c Head = Ent (hd xs)" using l ne by (cases xs) auto
  have nl: "blk c (Ent (last xs)) \<noteq> block" using miss ne by (simp add: lru_find_None)
  have fb: "find_back c block (Ent (last xs)) (cache_entries c) = None"
    using find_back_ring [OF l refl refl, of block] miss ne len
    by (simp add: lru_find_def last_node_def)
  show "res \<noteq> 0 \<Longrightarrow> get_cache_block bread c block = (None, c\<lparr>dat := (dat c)(Ent (hd xs) := buf)\<rparr>)"
    using pl nl fb first read by (simp add: get_cache_block_def Let_def)
  let ?c = "c\<lparr>dat := (dat c)(Ent (hd xs) := buf), blk := (blk c)(Ent (hd xs) := block)\<rparr>"
  have "hd xs \<noteq> last xs" using two d by (cases xs) (auto simp: last_conv_nth)
  then have "ring (move_to_end ?c (Ent (last xs)) (Ent (hd xs))) (lru_order xs (hd xs))"
    using r ne by (intro move_to_end_lru) auto
  then show "res = 0 \<Longrightarrow> \<exists>c'. get_cache_block bread c block = (Some (Ent (hd xs)), c') \<and>
      ring c' (lru_order xs (hd xs)) \<and> blk c' = (blk c)(Ent (hd xs) := block) \<and>
      dat c' = (dat c)(Ent (hd xs) := buf)"
    using pl nl fb first read by (simp add: get_cache_block_def Let_def)
qed

section \<open>Coherence with the device\<close>

text \<open>
  A coherent cache: a ring whose used entries hold valid blocks, each once, with the bytes the
  device has for them.
\<close>

definition coherent :: "(u32 \<Rightarrow> u8 list) \<Rightarrow> (u32 \<Rightarrow> bool) \<Rightarrow> nat \<Rightarrow> cache \<Rightarrow> nat list \<Rightarrow> bool" where
  "coherent cont val len c xs \<longleftrightarrow>
     ring c xs \<and> 2 \<le> length xs \<and>
     (\<forall>e \<in> set xs. length (dat c (Ent e)) = len) \<and>
     (\<forall>e \<in> set xs. blk c (Ent e) \<noteq> - 1 \<longrightarrow>
        val (blk c (Ent e)) \<and> dat c (Ent e) = cont (blk c (Ent e))) \<and>
     (\<forall>e \<in> set xs. \<forall>f \<in> set xs. blk c (Ent e) = blk c (Ent f) \<longrightarrow> blk c (Ent e) \<noteq> - 1 \<longrightarrow> e = f)"

lemma set_lru_order [simp]: "e \<in> set xs \<Longrightarrow> set (lru_order xs e) = set xs"
  by (auto simp: lru_order_def dest: in_set_remove1 [THEN iffD2, rotated] set_remove1_subset [THEN subsetD])

lemma length_lru_order [simp]: "e \<in> set xs \<Longrightarrow> length (lru_order xs e) = length xs"
  using length_pos_if_in_set [of e xs] by (simp add: lru_order_def length_remove1)

lemma last_lru_order [simp]: "last (lru_order xs e) = e"
  by (simp add: lru_order_def)

context block_dev
begin

lemma get_coherent:
  assumes d: "dev_ok d" and c: "coherent (content d) (valid d) (blen d) c xs" and b: "valid d b"
  obtains e c' where "get_cache_block (bread d) c b = (Some (Ent e), c')" and "e \<in> set xs"
    and "coherent (content d) (valid d) (blen d) c' (lru_order xs e)"
    and "dat c' (Ent e) = content d b" and "blk c' (Ent e) = b"
    and "\<forall>f. f \<noteq> Ent (hd xs) \<longrightarrow> dat c' f = dat c f \<and> blk c' f = blk c f"
proof (cases "lru_find c xs b")
  case (Some e)
  from lru_find_Some [OF this] have e: "e \<in> set xs" "blk c (Ent e) = b" by auto
  have r: "ring c xs" using c by (simp add: coherent_def)
  from get_cache_block_hit [OF r Some, of "bread d"] obtain c' where
    g: "get_cache_block (bread d) c b = (Some (Ent e), c')" "ring c' (lru_order xs e)"
    "blk c' = blk c" "dat c' = dat c" by auto
  have "coherent (content d) (valid d) (blen d) c' (lru_order xs e)"
    using c g e by (simp add: coherent_def)
  moreover have "dat c (Ent e) = content d b"
    using c e valid_not_minus_one [OF b] by (auto simp: coherent_def)
  ultimately show thesis using g e by (intro that [of e c']) auto
next
  case None
  let ?e = "hd xs"
  have r: "ring c xs" and two: "2 \<le> length xs" and len: "\<forall>f \<in> set xs. length (dat c (Ent f)) = blen d"
    using c by (simp_all add: coherent_def)
  then have e: "?e \<in> set xs" by (cases xs) auto
  have rd: "bread d b (dat c (Ent ?e)) = (0, content d b)"
    using d b len e by (intro bread_content) auto
  from get_cache_block_miss(2) [OF r two None, of "bread d" 0 "content d b"] rd obtain c' where
    g: "get_cache_block (bread d) c b = (Some (Ent ?e), c')" "ring c' (lru_order xs ?e)"
    "blk c' = (blk c)(Ent ?e := b)" "dat c' = (dat c)(Ent ?e := content d b)" by auto
  have "coherent (content d) (valid d) (blen d) c' (lru_order xs ?e)"
    using c g e b None content_length [OF d] unfolding coherent_def lru_find_None
    by (auto split: if_splits)
  with g e show thesis by (intro that [of "?e" c']) auto
qed

lemma write_coherent:
  assumes d: "dev_ok d" and c: "coherent (content d) (valid d) (blen d) c xs" and e: "e \<in> set xs"
    and b: "blk c (Ent e) = b" "valid d b" and l: "length buf = blen d"
  obtains d' where "bwrite d b buf = (0, d')" and "dev_ok d'" and "blen d' = blen d"
    and "\<And>c. valid d' c = valid d c" and "content d' b = buf"
    and "\<And>c. valid d c \<Longrightarrow> c \<noteq> b \<Longrightarrow> content d' c = content d c"
    and "coherent (content d') (valid d') (blen d') (c\<lparr>dat := (dat c)(Ent e := buf)\<rparr>) xs"
proof -
  from bwrite_content [OF d b(2) l] obtain d' where
    w: "bwrite d b buf = (0, d')" "dev_ok d'" "blen d' = blen d" "\<forall>c. valid d' c = valid d c"
      "content d' b = buf" "\<forall>c. valid d c \<longrightarrow> c \<noteq> b \<longrightarrow> content d' c = content d c" by blast
  have one: "f = e" if "f \<in> set xs" "blk c (Ent f) = b" for f
    using c that e b valid_not_minus_one [OF b(2)] by (auto simp: coherent_def)
  let ?c = "c\<lparr>dat := (dat c)(Ent e := buf)\<rparr>"
  have f: "valid d' (blk ?c (Ent f)) \<and> dat ?c (Ent f) = content d' (blk ?c (Ent f))"
    if "f \<in> set xs" "blk ?c (Ent f) \<noteq> - 1" for f
  proof (cases "f = e")
    case True
    with w b show ?thesis by simp
  next
    case False
    with that one have "blk c (Ent f) \<noteq> b" by blast
    with c that w False show ?thesis by (simp add: coherent_def)
  qed
  moreover have "ring ?c xs" "2 \<le> length xs" using c by (simp_all add: coherent_def)
  moreover have "\<forall>f \<in> set xs. length (dat ?c (Ent f)) = blen d'"
    using c l w(3) by (simp add: coherent_def)
  moreover have "\<forall>f \<in> set xs. \<forall>g \<in> set xs. blk ?c (Ent f) = blk ?c (Ent g) \<longrightarrow>
      blk ?c (Ent f) \<noteq> - 1 \<longrightarrow> f = g"
    using c by (simp add: coherent_def)
  ultimately have "coherent (content d') (valid d') (blen d') ?c xs"
    unfolding coherent_def by blast
  with w show thesis by (intro that [of d']) auto
qed

end

section \<open>cache_init\<close>

lemma link_entries_frame:
  "cache_entries (link_entries bs a data is c) = cache_entries c"
  "x \<notin> Ent ` set is \<Longrightarrow> blk (link_entries bs a data is c) x = blk c x"
  "x \<notin> Ent ` set is \<Longrightarrow> prv (link_entries bs a data is c) x = prv c x"
  "x \<notin> Ent ` set is \<Longrightarrow> dat (link_entries bs a data is c) x = dat c x"
  "x \<noteq> a \<Longrightarrow> x \<notin> Ent ` set is \<Longrightarrow> nxt (link_entries bs a data is c) x = nxt c x"
  by (induction "is" arbitrary: a data c) (auto simp: Let_def)

lemma link_entries_data:
  "distinct is \<Longrightarrow> i \<in> set is \<Longrightarrow> length is * bs \<le> length data \<Longrightarrow>
   blk (link_entries bs a data is c) (Ent i) = - 1 \<and>
   length (dat (link_entries bs a data is c) (Ent i)) = bs"
proof (induction "is" arbitrary: a data c)
  case Nil
  then show ?case by simp
next
  case (Cons j "is")
  show ?case
  proof (cases "i = j")
    case True
    with Cons.prems(1) have "Ent i \<notin> Ent ` set is" by auto
    with True Cons.prems(3) show ?thesis by (simp add: Let_def link_entries_frame)
  next
    case False
    with Cons show ?thesis by (simp add: Let_def)
  qed
qed

lemma link_entries_links:
  assumes "distinct is" and "a \<notin> Ent ` set is" 
    and "nxt c (last_node a is) = b" and "prv c b = last_node a is" and "b \<notin> Ent ` set is"
  shows "links (nxt (link_entries bs a data is c)) (prv (link_entries bs a data is c)) a is b"
  using assms
proof (induction "is" arbitrary: a data c)
  case Nil
  then show ?case by simp
next
  case (Cons i "is")
  let ?c = "c\<lparr>blk := (blk c)(Ent i := - 1), prv := (prv c)(Ent i := a), nxt := (nxt c)(a := Ent i),
    dat := (dat c)(Ent i := take bs data)\<rparr>" and ?d = "drop bs data"
  have ne: "last_node (Ent i) is \<noteq> a" using Cons.prems(2) by (auto simp: last_node_def)
  have "links (nxt (link_entries bs (Ent i) ?d is ?c)) (prv (link_entries bs (Ent i) ?d is ?c)) (Ent i) is b"
    using Cons.prems ne by (intro Cons.IH) auto
  moreover have "Ent i \<notin> Ent ` set is" "a \<notin> Ent ` set is" "a \<noteq> Ent i"
    using Cons.prems(1,2) by auto
  ultimately show ?case
    by (simp add: Let_def link_entries_frame)
qed

definition cache_count :: "nat \<Rightarrow> nat" where
  "cache_count shift = min (CACHE_SIZE div 2 ^ shift) MAX_CACHE_ENTRIES"

lemma cache_count_ge: "shift \<le> 14 \<Longrightarrow> 2 \<le> cache_count shift"
proof -
  assume "shift \<le> 14"
  then have "(2 :: nat) ^ shift \<le> 2 ^ 14" by (intro power_increasing) simp_all
  then show ?thesis
    using div_le_mono2 [of "2 ^ shift" "2 ^ 14" 32768]
    by (simp add: cache_count_def CACHE_SIZE_def MAX_CACHE_ENTRIES_def)
qed

lemma cache_init_is_coherent:
  assumes "shift \<le> 14" and "length data = CACHE_SIZE"
  shows "coherent cont val (2 ^ shift) (cache_init shift data c) [0..<cache_count shift]"
proof -
  let ?n = "cache_count shift"
  let ?c = "c\<lparr>cache_entries := ?n, prv := (prv c)(Head := Ent (?n - 1)),
    nxt := (nxt c)(Ent (?n - 1) := Head)\<rparr>"
  note n = cache_count_ge [OF assms(1)]
  have i: "cache_init shift data c = link_entries (2 ^ shift) Head data [0..<?n] ?c"
    by (simp add: cache_init_def Let_def cache_count_def)
  have ln: "last_node Head [0..<?n] = Ent (?n - 1)"
    using n by (simp add: last_node_def del: upt_Suc)
  have "links (nxt (cache_init shift data c)) (prv (cache_init shift data c)) Head [0..<?n] Head"
    unfolding i by (rule link_entries_links) (auto simp: ln)
  then have "ring (cache_init shift data c) [0..<?n]"
    by (simp add: ring_def i link_entries_frame)
  moreover have "?n * 2 ^ shift \<le> length data"
    unfolding assms(2) cache_count_def
    by (rule order_trans [OF mult_le_mono1 [OF min.cobounded1] div_times_less_eq_dividend])
  ultimately show ?thesis
    using n unfolding coherent_def i by (auto simp: link_entries_data)
qed

lemma cache_init_blk:
  assumes "shift \<le> 14" and "length data = CACHE_SIZE" and "e < cache_count shift"
  shows "blk (cache_init shift data c) (Ent e) = - 1"
proof -
  have "cache_count shift * 2 ^ shift \<le> length data"
    unfolding assms(2) cache_count_def
    by (rule order_trans [OF mult_le_mono1 [OF min.cobounded1] div_times_less_eq_dividend])
  then show ?thesis
    using assms(3) by (simp add: cache_init_def Let_def link_entries_data flip: cache_count_def)
qed

lemma cache_init_entries: "cache_entries (cache_init shift data c) = cache_count shift"
  by (simp add: cache_init_def Let_def link_entries_frame cache_count_def)

lemma print_from_links:
  "links (nxt c) p a xs b \<Longrightarrow> print_from c a (length xs) = map (\<lambda>e. blk c (Ent e)) xs"
  by (induction xs arbitrary: a) auto

section \<open>Properties\<close>

text \<open>
  C3: \<^verbatim>\<open>get_cache_block\<close> is a least-recently-used cache. On a ring in the order \<open>xs\<close>, a hit
  returns the entry that holds the block and makes it the most recently used, touching no block
  number and no data. A miss loads the block into the least recently used entry and makes it the
  most recently used; when the read fails the result is NULL, the order is kept and only the data
  of that entry changes. Both kinds of access leave the pointers a well-formed ring.
\<close>

theorem get_cache_block_lru:
  assumes "ring c xs" and "2 \<le> length xs"
  shows "case lru_find c xs block of
      Some e \<Rightarrow> \<exists>c'. get_cache_block bread c block = (Some (Ent e), c') \<and>
        ring c' (lru_order xs e) \<and> blk c' = blk c \<and> dat c' = dat c
    | None \<Rightarrow> (case bread block (dat c (Ent (hd xs))) of (res, buf) \<Rightarrow>
        \<exists>c'. get_cache_block bread c block = (if res = 0 then Some (Ent (hd xs)) else None, c') \<and>
          ring c' (if res = 0 then lru_order xs (hd xs) else xs) \<and>
          blk c' = (if res = 0 then (blk c)(Ent (hd xs) := block) else blk c) \<and>
          dat c' = (dat c)(Ent (hd xs) := buf))"
proof (cases "lru_find c xs block")
  case None
  obtain res buf where rd: "bread block (dat c (Ent (hd xs))) = (res, buf)" by force
  note miss = get_cache_block_miss [where bread = bread, OF assms None rd]
  show ?thesis
  proof (cases "res = 0")
    case True
    with miss(2) None rd show ?thesis by auto
  next
    case False
    with miss(1) assms(1) None rd show ?thesis by simp
  qed
next
  case (Some e)
  from get_cache_block_hit [OF assms(1) Some, of bread] obtain c' where
    "get_cache_block bread c block = (Some (Ent e), c')" "ring c' (lru_order xs e)"
    "blk c' = blk c" "dat c' = dat c" by auto
  with Some show ?thesis by auto
qed

definition fresh_cache :: cache where
  "fresh_cache = cache_init 14 (replicate CACHE_SIZE 0)
     \<lparr>cache_entries = 0, nxt = (\<lambda>_. Head), prv = (\<lambda>_. Head), blk = (\<lambda>_. 0), dat = (\<lambda>_. [])\<rparr>"

lemma fresh_cache_coherent: "coherent cont val (2 ^ 14) fresh_cache [0, 1]"
proof -
  have "[0..<cache_count 14] = [0, 1]"
    by (simp add: cache_count_def CACHE_SIZE_def MAX_CACHE_ENTRIES_def upt_rec)
  then show ?thesis
    using cache_init_is_coherent [of 14 "replicate CACHE_SIZE 0" cont val]
    by (simp add: fresh_cache_def)
qed

lemma fresh_cache_blk: "blk fresh_cache (Ent 0) = - 1" "blk fresh_cache (Ent 1) = - 1"
  using cache_init_blk [of 14 "replicate CACHE_SIZE 0"] cache_count_ge [of 14]
  by (simp_all add: fresh_cache_def)

lemma fresh_cache_ring: "ring fresh_cache [0, 1]"
  using fresh_cache_coherent [of undefined undefined] by (simp add: coherent_def)

theorem get_cache_block_lru_witness:
  "case lru_find fresh_cache [0, 1] 7 of
      Some e \<Rightarrow> \<exists>c'. get_cache_block (\<lambda>_ _. (0, [])) fresh_cache 7 = (Some (Ent e), c') \<and>
        ring c' (lru_order [0, 1] e) \<and> blk c' = blk fresh_cache \<and> dat c' = dat fresh_cache
    | None \<Rightarrow> (case (\<lambda>_ _. (0, [])) (7 :: u32) (dat fresh_cache (Ent (hd [0, 1]))) of (res :: int, buf) \<Rightarrow>
        \<exists>c'. get_cache_block (\<lambda>_ _. (0, [])) fresh_cache 7 = (if res = 0 then Some (Ent (hd [0, 1])) else None, c') \<and>
          ring c' (if res = 0 then lru_order [0, 1] (hd [0, 1]) else [0, 1]) \<and>
          blk c' = (if res = 0 then (blk fresh_cache)(Ent (hd [0, 1]) := 7) else blk fresh_cache) \<and>
          dat c' = (dat fresh_cache)(Ent (hd [0, 1]) := buf))"
  by (rule get_cache_block_lru [OF fresh_cache_ring]) simp

text \<open>
  C4: the cache never lies about the disk. On a good volume and a coherent cache, asking for a
  valid block always succeeds and gives an entry whose data is that block of the disk; the entry
  is then the most recently used one and the cache is coherent again.
\<close>

theorem get_cache_block_coherent:
  assumes "volume_ok sbi d" and "coherent (disk_block sbi d) (block_ok sbi d) (bsize sbi) c xs"
    and "block_ok sbi d b"
  shows "\<exists>e c'. get_cache_block (tfs_bread sbi d) c b = (Some (Ent e), c') \<and>
    dat c' (Ent e) = disk_block sbi d b \<and> blk c' (Ent e) = b \<and>
    coherent (disk_block sbi d) (block_ok sbi d) (bsize sbi) c' (lru_order xs e)"
  using tfs_dev.get_coherent [of "(sbi, d)" c xs b] assms by (simp, metis)

definition big_block_sbi :: tfs_sb_info where
  "big_block_sbi = \<lparr>s_inodes_count = 100, s_blocks_count = 100, s_free_blocks_count = 90,
     s_free_inodes_count = 90, s_block_shift = 14, s_block_size = 16384, s_inode_bitmap = 1,
     s_inode_bitmap_count = 1, s_block_bitmap = 2, s_block_bitmap_count = 1, s_inode_table = 3,
     s_inode_table_count = 1, s_data_area = 4, s_offset = 2, s_inodes_per_block = 256\<rparr>"

lemma big_block_volume: "volume_ok big_block_sbi blank_disk" "unat b < 2 ^ 20 \<Longrightarrow> block_ok big_block_sbi blank_disk b"
  "bsize big_block_sbi = 2 ^ 14"
  by (simp_all add: volume_ok_def sbi_ok_def big_block_sbi_def bsize_def tfs_inode_size_def
      blank_disk_ok block_ok_def)

theorem get_cache_block_coherent_witness:
  "\<exists>e c'. get_cache_block (tfs_bread big_block_sbi blank_disk) fresh_cache 5 = (Some (Ent e), c') \<and>
    dat c' (Ent e) = disk_block big_block_sbi blank_disk 5 \<and> blk c' (Ent e) = 5 \<and>
    coherent (disk_block big_block_sbi blank_disk) (block_ok big_block_sbi blank_disk)
      (bsize big_block_sbi) c' (lru_order [0, 1] e)"
  by (rule get_cache_block_coherent)
    (simp_all only: big_block_volume fresh_cache_coherent, simp_all add: big_block_volume)

text \<open>
  C5: writing an entry's data to the disk keeps the cache coherent. When the code changes the data
  of the entry of a valid block and writes it with \<^verbatim>\<open>tfs_bwrite\<close>, the write succeeds, the disk
  holds the new bytes for that block and the old ones for every other, and every entry of the
  cache still has the bytes of the disk.
\<close>

theorem write_through_coherent:
  assumes "volume_ok sbi d" and "coherent (disk_block sbi d) (block_ok sbi d) (bsize sbi) c xs"
    and "e \<in> set xs" and "block_ok sbi d (blk c (Ent e))" and "length buf = bsize sbi"
  shows "\<exists>d'. tfs_bwrite sbi d (blk c (Ent e)) buf = (0, d') \<and> volume_ok sbi d' \<and>
    disk_block sbi d' (blk c (Ent e)) = buf \<and>
    (\<forall>b. block_ok sbi d b \<longrightarrow> b \<noteq> blk c (Ent e) \<longrightarrow> disk_block sbi d' b = disk_block sbi d b) \<and>
    coherent (disk_block sbi d') (block_ok sbi d') (bsize sbi) (c\<lparr>dat := (dat c)(Ent e := buf)\<rparr>) xs"
proof -
  obtain r d' where w: "tfs_bwrite sbi d (blk c (Ent e)) buf = (r, d')" by force
  show ?thesis
    by (rule tfs_dev.write_coherent [of "(sbi, d)" c xs e "blk c (Ent e)" buf]) (use assms w in auto)
qed

text \<open>A cache that holds block 5 in its first entry.\<close>

definition loaded_cache :: "(u32 \<Rightarrow> u8 list) \<Rightarrow> cache" where
  "loaded_cache cont = fresh_cache\<lparr>blk := (blk fresh_cache)(Ent 0 := 5),
     dat := (dat fresh_cache)(Ent 0 := cont 5)\<rparr>"

lemma loaded_cache_coherent:
  assumes "val 5" and "length (cont 5) = 2 ^ 14"
  shows "coherent cont val (2 ^ 14) (loaded_cache cont) [0, 1]"
  using fresh_cache_coherent [of cont val] fresh_cache_blk assms
  by (simp add: coherent_def loaded_cache_def)

theorem write_through_coherent_witness:
  "\<exists>d'. tfs_bwrite big_block_sbi blank_disk 5 (replicate (2 ^ 14) 1) = (0, d') \<and> volume_ok big_block_sbi d' \<and>
    disk_block big_block_sbi d' 5 = replicate (2 ^ 14) 1 \<and>
    (\<forall>b. block_ok big_block_sbi blank_disk b \<longrightarrow> b \<noteq> 5 \<longrightarrow>
      disk_block big_block_sbi d' b = disk_block big_block_sbi blank_disk b)"
proof -
  let ?c = "loaded_cache (disk_block big_block_sbi blank_disk)"
  have b: "blk ?c (Ent 0) = 5" by (simp add: loaded_cache_def)
  have l: "length (disk_block big_block_sbi blank_disk 5) = 2 ^ 14"
    using length_disk_block [OF big_block_volume(1), of 5] by (simp only: big_block_volume(3))
  have c: "coherent (disk_block big_block_sbi blank_disk) (block_ok big_block_sbi blank_disk)
      (bsize big_block_sbi) ?c [0, 1]"
    unfolding big_block_volume(3) 
    by (rule loaded_cache_coherent) (rule big_block_volume(2), simp, rule l)
  have v: "block_ok big_block_sbi blank_disk (blk ?c (Ent 0))" and e: "0 \<in> set [0, 1 :: nat]"
    and len: "length (replicate (2 ^ 14) 1 :: u8 list) = bsize big_block_sbi"
    using big_block_volume(2) [of 5] by (simp_all only: b big_block_volume(3) length_replicate) simp_all
  from write_through_coherent [OF big_block_volume(1) c e v len] show ?thesis
    unfolding b by blast
qed

text \<open>
  a failed read poisons the cache. The entry that was to be replaced keeps its old block
  number although its data is what the failed transfer left: the next request for the old block
  is a hit that returns those bytes without looking at the disk.
\<close>

theorem failed_read_spoils_entry:
  assumes "coherent cont val len c xs" and "lru_find c xs b = None"
    and "bread b (dat c (Ent (hd xs))) = (res, junk)" and "res \<noteq> 0"
    and "blk c (Ent (hd xs)) = old" and "old \<noteq> - 1"
  shows "\<exists>c' c''. get_cache_block bread c b = (None, c') \<and>
    get_cache_block bread' c' old = (Some (Ent (hd xs)), c'') \<and> dat c'' (Ent (hd xs)) = junk"
proof -
  have r: "ring c xs" and two: "2 \<le> length xs"
    and uniq: "\<forall>e \<in> set xs. \<forall>f \<in> set xs. blk c (Ent e) = blk c (Ent f) \<longrightarrow> blk c (Ent e) \<noteq> - 1 \<longrightarrow> e = f"
    using assms(1) by (simp_all add: coherent_def)
  let ?c = "c\<lparr>dat := (dat c)(Ent (hd xs) := junk)\<rparr>"
  have g: "get_cache_block bread c b = (None, ?c)"
    using get_cache_block_miss(1) [where bread = bread, OF r two assms(2,3,4)] .
  have hd: "hd xs \<in> set xs" using two by (cases xs) auto
  have "lru_find ?c xs old = Some (hd xs)"
  proof (cases "lru_find ?c xs old")
    case None
    with hd assms(5) show ?thesis by (simp add: lru_find_None)
  next
    case (Some e)
    with lru_find_Some [OF Some] uniq hd assms(5,6) show ?thesis by simp
  qed
  from get_cache_block_hit [OF _ this, of bread'] r obtain c'' where
    "get_cache_block bread' ?c old = (Some (Ent (hd xs)), c'')" "dat c'' = dat ?c" by auto
  with g show ?thesis by auto
qed

theorem failed_read_spoils_entry_witness:
  "\<exists>c' c''. get_cache_block (\<lambda>_ _. (- 5, [9])) (loaded_cache (\<lambda>_. replicate (2 ^ 14) 1)) 6 = (None, c') \<and>
    get_cache_block (\<lambda>_ _. (0, [])) c' 5 = (Some (Ent (hd [0, 1])), c'') \<and> dat c'' (Ent (hd [0, 1])) = [9]"
proof (rule failed_read_spoils_entry [where res = "- 5"])
  show "coherent (\<lambda>_. replicate (2 ^ 14) 1) (\<lambda>_. True) (2 ^ 14) (loaded_cache (\<lambda>_. replicate (2 ^ 14) 1)) [0, 1]"
    by (rule loaded_cache_coherent) (simp_all only: length_replicate)
  show "lru_find (loaded_cache (\<lambda>_. replicate (2 ^ 14) 1)) [0, 1] 6 = None"
    using fresh_cache_blk by (simp add: lru_find_None loaded_cache_def)
qed (simp_all add: loaded_cache_def)

text \<open>
  \<^verbatim>\<open>cache_init\<close> builds a coherent cache for every block size up to 16 kilobytes: the entries
  form a ring in the order of the array, none holds a block, and each has one block's worth of
  \<^verbatim>\<open>cache_data\<close>. Between two and 64 entries fit.
\<close>

theorem cache_init_coherent:
  assumes "shift \<le> 14" and "length data = CACHE_SIZE"
  shows "coherent cont val (2 ^ shift) (cache_init shift data c) [0..<cache_entries (cache_init shift data c)] \<and>
    cache_entries (cache_init shift data c) = min (32768 div 2 ^ shift) 64 \<and>
    (\<forall>e. e < cache_entries (cache_init shift data c) \<longrightarrow> blk (cache_init shift data c) (Ent e) = - 1)"
  using cache_init_is_coherent [OF assms] cache_init_blk [OF assms]
  by (simp only: cache_init_entries) (simp add: cache_count_def CACHE_SIZE_def MAX_CACHE_ENTRIES_def)

theorem cache_init_coherent_witness:
  "coherent (\<lambda>_. []) (\<lambda>_. False) (2 ^ 9) (cache_init 9 (replicate CACHE_SIZE 0) fresh_cache)
     [0..<cache_entries (cache_init 9 (replicate CACHE_SIZE 0) fresh_cache)]"
  by (rule cache_init_coherent [THEN conjunct1]) simp_all

text \<open>
  \<^verbatim>\<open>print_cache\<close> lists the cached block numbers from the least to the most recently used.
\<close>

theorem print_cache_order:
  assumes "ring c xs"
  shows "print_cache c = map (\<lambda>e. blk c (Ent e)) xs"
  using assms print_from_links [of c "prv c" Head xs Head] by (simp add: ring_def print_cache_def)

theorem print_cache_order_witness:
  "print_cache fresh_cache = map (\<lambda>e. blk fresh_cache (Ent e)) [0, 1]"
  by (rule print_cache_order [OF fresh_cache_ring])

end
