(* ===== verification/Tfs_Fs.thy ===== *)
theory Tfs_Fs
  imports Cache
begin

text \<open>
  The state the TFS code works on, one mounted volume: the mount information, the disk and the
  buffer cache, with the accesses through the cache. The interface \<open>block_cache\<close> is what the
  allocators, the inode and the directory code rely on: a block that is asked for comes with the
  bytes of the volume, and changing and writing it changes that block only.
\<close>

section \<open>State\<close>

text \<open>
  \<open>sbi\<close> is what \<^verbatim>\<open>fs->sb\<close> points to. \<open>stray\<close> is what the memory at the address
  \<^verbatim>\<open>sbi->s_inodes_count\<close> reads as when it is taken for a \<^verbatim>\<open>struct tfs_sb_info\<close>: the two
  allocators use \<^verbatim>\<open>container_of(sbi, struct fs, sb)\<close>, but \<^verbatim>\<open>sb\<close> is a pointer to the mount
  information, not the information itself. What they take for \<^verbatim>\<open>fs->sb\<close> is the first word of
  \<^verbatim>\<open>*sbi\<close>, the number of inodes. \<open>room\<close> says how the next calls of \<^verbatim>\<open>malloc\<close> end, and \<open>behind\<close>
  is the word of memory behind an \<^verbatim>\<open>i_data\<close> array, which the directory code reads when all eight
  blocks are in use.
\<close>

record tfs =
  sbi :: tfs_sb_info
  stray :: tfs_sb_info
  dsk :: disk
  cch :: cache
  room :: "bool list"
  behind :: u32

definition malloc_ok :: "tfs \<Rightarrow> bool \<times> tfs" where
  "malloc_ok f = (case room f of [] \<Rightarrow> (True, f) | r # rs \<Rightarrow> (r, f\<lparr>room := rs\<rparr>))"

text \<open>\<^verbatim>\<open>get_cache_block\<close> with the mount information \<open>s\<close> behind its \<^verbatim>\<open>fs\<close> argument.\<close>

definition cache_get_with :: "tfs_sb_info \<Rightarrow> tfs \<Rightarrow> u32 \<Rightarrow> node option \<times> tfs" where
  "cache_get_with s f block =
     (case get_cache_block (tfs_bread s (dsk f)) (cch f) block of (r, c) \<Rightarrow> (r, f\<lparr>cch := c\<rparr>))"

definition cache_get :: "tfs \<Rightarrow> u32 \<Rightarrow> node option \<times> tfs" where
  "cache_get f block = cache_get_with (sbi f) f block"

text \<open>Change the data of an entry in memory; write a buffer to the disk.\<close>

definition data_of :: "tfs \<Rightarrow> node \<Rightarrow> u8 list" where
  "data_of f cs = dat (cch f) cs"

definition set_data :: "tfs \<Rightarrow> node \<Rightarrow> u8 list \<Rightarrow> tfs" where
  "set_data f cs buf = f\<lparr>cch := (cch f)\<lparr>dat := (dat (cch f))(cs := buf)\<rparr>\<rparr>"

definition write_block :: "tfs \<Rightarrow> u32 \<Rightarrow> u8 list \<Rightarrow> int \<times> tfs" where
  "write_block f block buf =
     (case tfs_bwrite (sbi f) (dsk f) block buf of (r, d) \<Rightarrow> (r, f\<lparr>dsk := d\<rparr>))"

definition fblock :: "tfs \<Rightarrow> u32 \<Rightarrow> u8 list" where
  "fblock f b = disk_block (sbi f) (dsk f) b"

definition fvalid :: "tfs \<Rightarrow> u32 \<Rightarrow> bool" where
  "fvalid f b \<longleftrightarrow> block_ok (sbi f) (dsk f) b"

definition fs_ring :: "tfs \<Rightarrow> nat list \<Rightarrow> bool" where
  "fs_ring f xs \<longleftrightarrow> volume_ok (sbi f) (dsk f) \<and>
     coherent (disk_block (sbi f) (dsk f)) (block_ok (sbi f) (dsk f)) (bsize (sbi f)) (cch f) xs"

definition fs_ok :: "tfs \<Rightarrow> bool" where
  "fs_ok f \<longleftrightarrow> (\<exists>xs. fs_ring f xs)"

text \<open>The entry \<open>cs\<close> of the ring holds the block \<open>b\<close>.\<close>

definition holds :: "tfs \<Rightarrow> node \<Rightarrow> u32 \<Rightarrow> bool" where
  "holds f cs b \<longleftrightarrow> (\<exists>xs e. fs_ring f xs \<and> cs = Ent e \<and> e \<in> set xs \<and> blk (cch f) cs = b)"

text \<open>The parts of the state that the cache and the disk accesses never touch.\<close>

definition same_mount :: "tfs \<Rightarrow> tfs \<Rightarrow> bool" where
  "same_mount f f' \<longleftrightarrow> sbi f' = sbi f \<and> stray f' = stray f \<and> room f' = room f \<and>
     behind f' = behind f \<and> fvalid f' = fvalid f"

definition stray_agrees :: "tfs \<Rightarrow> bool" where
  "stray_agrees f \<longleftrightarrow> s_block_shift (stray f) = s_block_shift (sbi f) \<and>
     s_offset (stray f) = s_offset (sbi f)"

lemma tfs_bread_geometry:
  "s_block_shift s = s_block_shift t \<Longrightarrow> s_offset s = s_offset t \<Longrightarrow> tfs_bread s = tfs_bread t"
  by (simp add: tfs_bread_def block_sector_def block_sectors_def fun_eq_iff)

lemma cache_get_stray: "stray_agrees f \<Longrightarrow> cache_get_with (stray f) f = cache_get f"
  by (simp add: stray_agrees_def cache_get_def cache_get_with_def fun_eq_iff
      tfs_bread_geometry [of "stray f" "sbi f"])

section \<open>The interface of the cached volume\<close>

locale block_cache =
  fixes get :: "'s \<Rightarrow> u32 \<Rightarrow> 'e option \<times> 's"
    and entry_data :: "'s \<Rightarrow> 'e \<Rightarrow> u8 list"
    and store :: "'s \<Rightarrow> 'e \<Rightarrow> u8 list \<Rightarrow> 's"
    and flush :: "'s \<Rightarrow> u32 \<Rightarrow> u8 list \<Rightarrow> int \<times> 's"
    and content :: "'s \<Rightarrow> u32 \<Rightarrow> u8 list"
    and valid :: "'s \<Rightarrow> u32 \<Rightarrow> bool"
    and has :: "'s \<Rightarrow> 'e \<Rightarrow> u32 \<Rightarrow> bool"
    and same :: "'s \<Rightarrow> 's \<Rightarrow> bool"
    and len :: "'s \<Rightarrow> nat"
    and ok :: "'s \<Rightarrow> bool"
  assumes get_law: "ok s \<Longrightarrow> valid s b \<Longrightarrow> \<exists>e s'. get s b = (Some e, s') \<and> ok s' \<and> same s s' \<and>
      content s' = content s \<and> has s' e b \<and> entry_data s' e = content s b"
    and put_law: "ok s \<Longrightarrow> has s e b \<Longrightarrow> valid s b \<Longrightarrow> length buf = len s \<Longrightarrow>
      \<exists>s'. flush (store s e buf) b buf = (0, s') \<and> ok s' \<and> same s s' \<and> content s' b = buf \<and>
        (\<forall>c. valid s c \<longrightarrow> c \<noteq> b \<longrightarrow> content s' c = content s c) \<and>
        (\<forall>x c. has s x c \<longrightarrow> has s' x c)"
    and has_data: "ok s \<Longrightarrow> has s e b \<Longrightarrow> valid s b \<Longrightarrow> entry_data s e = content s b"
    and content_len: "ok s \<Longrightarrow> length (content s b) = len s"
    and same_valid: "same s s' \<Longrightarrow> valid s' = valid s"
    and same_len: "same s s' \<Longrightarrow> len s' = len s"
    and same_trans: "same s t \<Longrightarrow> same t u \<Longrightarrow> same s u"
begin

text \<open>Read a block; whatever buffer is then stored and written becomes the block.\<close>

lemma get_then_put:
  assumes "ok s" and b: "valid s b"
  obtains e s1 where "get s b = (Some e, s1)" and "entry_data s1 e = content s b" and "ok s1"
    and "content s1 = content s" and "same s s1" and "has s1 e b"
    and "\<And>buf. length buf = len s \<Longrightarrow> \<exists>s2. flush (store s1 e buf) b buf = (0, s2) \<and>
      ok s2 \<and> same s s2 \<and> content s2 b = buf \<and>
      (\<forall>c. valid s c \<longrightarrow> c \<noteq> b \<longrightarrow> content s2 c = content s c) \<and> (\<forall>x c. has s1 x c \<longrightarrow> has s2 x c)"
proof -
  from get_law [OF assms(1) b] obtain e s1 where
    1: "get s b = (Some e, s1)" "ok s1" "same s s1" "content s1 = content s" "has s1 e b"
      "entry_data s1 e = content s b" by blast
  have v: "valid s1 = valid s" "len s1 = len s" using 1 same_valid same_len by blast+
  have "\<exists>s2. flush (store s1 e buf) b buf = (0, s2) \<and> ok s2 \<and> same s s2 \<and> content s2 b = buf \<and>
      (\<forall>c. valid s c \<longrightarrow> c \<noteq> b \<longrightarrow> content s2 c = content s c) \<and> (\<forall>x c. has s1 x c \<longrightarrow> has s2 x c)"
    if "length buf = len s" for buf
    using put_law [OF 1(2,5), of buf] that b v 1(4) same_trans [OF 1(3)] by (simp, blast)
  then show thesis
    by (rule that [OF 1(1,6,2,4,3,5)])
qed

end

interpretation fsc: block_cache cache_get data_of set_data write_block fblock fvalid holds same_mount
  "\<lambda>f. bsize (sbi f)" fs_ok
proof unfold_locales
  fix f b assume "fs_ok f" and b: "fvalid f b"
  then obtain xs where r: "fs_ring f xs" by (auto simp: fs_ok_def)
  obtain e c where g: "get_cache_block (tfs_bread (sbi f) (dsk f)) (cch f) b = (Some (Ent e), c)"
    "e \<in> set xs" "coherent (disk_block (sbi f) (dsk f)) (block_ok (sbi f) (dsk f)) (bsize (sbi f)) c (lru_order xs e)"
    "dat c (Ent e) = disk_block (sbi f) (dsk f) b" "blk c (Ent e) = b"
    by (rule tfs_dev.get_coherent [of "(sbi f, dsk f)" "cch f" xs b])
      (use r b in \<open>auto simp: fs_ring_def fvalid_def\<close>)
  let ?f = "f\<lparr>cch := c\<rparr>"
  have "fs_ring ?f (lru_order xs e)" using r g by (simp add: fs_ring_def)
  then have "fs_ok ?f" "holds ?f (Ent e) b"
    using g by (auto simp: fs_ok_def holds_def)
  then show "\<exists>e f'. cache_get f b = (Some e, f') \<and> fs_ok f' \<and> same_mount f f' \<and> fblock f' = fblock f \<and>
      holds f' e b \<and> data_of f' e = fblock f b"
    using g by (intro exI [of _ "Ent e"] exI [of _ ?f])
      (simp add: cache_get_def cache_get_with_def same_mount_def fvalid_def fblock_def data_of_def fun_eq_iff)
next
  fix f cs b and buf :: "u8 list"
  assume "fs_ok f" and h: "holds f cs b" and b: "fvalid f b" and l: "length buf = bsize (sbi f)"
  from h obtain xs e where r: "fs_ring f xs" and e: "cs = Ent e" "e \<in> set xs" "blk (cch f) (Ent e) = b"
    by (auto simp: holds_def)
  let ?c = "(cch f)\<lparr>dat := (dat (cch f))(Ent e := buf)\<rparr>"
  obtain d where w: "tfs_bwrite (sbi f) (dsk f) b buf = (0, d)" "volume_ok (sbi f) d"
    "\<And>c. block_ok (sbi f) d c = block_ok (sbi f) (dsk f) c" "disk_block (sbi f) d b = buf"
    "\<And>c. block_ok (sbi f) (dsk f) c \<Longrightarrow> c \<noteq> b \<Longrightarrow> disk_block (sbi f) d c = disk_block (sbi f) (dsk f) c"
    "coherent (disk_block (sbi f) d) (block_ok (sbi f) d) (bsize (sbi f)) ?c xs"
  proof -
    obtain r d where rd: "tfs_bwrite (sbi f) (dsk f) b buf = (r, d)" by force
    show thesis
      by (rule tfs_dev.write_coherent [of "(sbi f, dsk f)" "cch f" xs e b buf])
        (use r e b l rd that in \<open>auto simp: fs_ring_def fvalid_def\<close>)
  qed
  let ?f = "f\<lparr>cch := ?c, dsk := d\<rparr>"
  have wr: "write_block (set_data f cs buf) b buf = (0, ?f)"
    using w(1) by (simp add: write_block_def set_data_def e)
  have ring: "fs_ring ?f xs" using w r by (simp add: fs_ring_def)
  have val: "fvalid ?f = fvalid f" using w(3) by (simp add: fvalid_def fun_eq_iff)
  have hold: "holds ?f x c" if "holds f x c" for x c
  proof -
    from that obtain ys g where "fs_ring f ys" "x = Ent g" "g \<in> set ys" "blk (cch f) x = c"
      by (auto simp: holds_def)
    moreover from this r have "ys = xs"
      using ring_unique [of "cch f" ys xs] by (simp add: fs_ring_def coherent_def)
    ultimately show ?thesis using ring by (auto simp: holds_def)
  qed
  show "\<exists>f'. write_block (set_data f cs buf) b buf = (0, f') \<and> fs_ok f' \<and> same_mount f f' \<and> fblock f' b = buf \<and>
      (\<forall>c. fvalid f c \<longrightarrow> c \<noteq> b \<longrightarrow> fblock f' c = fblock f c) \<and>
      (\<forall>x c. holds f x c \<longrightarrow> holds f' x c)"
    using w(4,5) ring val hold
    by (intro exI [of _ ?f] conjI wr) (auto simp: fs_ok_def same_mount_def fblock_def fvalid_def)
next
  fix f cs b assume "fs_ok f" "holds f cs b" "fvalid f b"
  then show "data_of f cs = fblock f b"
    using tfs_dev.valid_not_minus_one [of "(sbi f, dsk f)" b]
    by (auto simp: holds_def fs_ring_def coherent_def data_of_def fblock_def fvalid_def)
next
  fix f b assume "fs_ok f"
  then show "length (fblock f b) = bsize (sbi f)"
    by (auto simp: fs_ok_def fs_ring_def fblock_def length_disk_block)
qed (auto simp: same_mount_def)

lemma same_mount_refl [simp]: "same_mount f f"
  by (simp add: same_mount_def)

lemma same_mountD [simp]:
  "same_mount f f' \<Longrightarrow> sbi f' = sbi f" "same_mount f f' \<Longrightarrow> stray f' = stray f"
  "same_mount f f' \<Longrightarrow> fvalid f' = fvalid f" "same_mount f f' \<Longrightarrow> room f' = room f"
  "same_mount f f' \<Longrightarrow> behind f' = behind f"
  by (simp_all add: same_mount_def)

lemma set_data_simps [simp]:
  "sbi (set_data f cs buf) = sbi f" "stray (set_data f cs buf) = stray f"
  "dsk (set_data f cs buf) = dsk f" "room (set_data f cs buf) = room f"
  by (simp_all add: set_data_def)

lemma fs_ok_sbi: "fs_ok f \<Longrightarrow> sbi_ok (sbi f)"
  by (auto simp: fs_ok_def fs_ring_def volume_ok_def)

lemma bsize_range:
  assumes "sbi_ok s"
  shows "512 \<le> bsize s" "bsize s \<le> 16384" "unat (s_block_size s) = bsize s" "512 dvd bsize s"
proof -
  have r: "9 \<le> unat (s_block_shift s)" "unat (s_block_shift s) \<le> 14"
    using assms unfolding sbi_ok_def by blast+
  have "(2 :: nat) ^ 9 \<le> bsize s" unfolding bsize_def by (rule power_increasing [OF r(1)]) simp
  then show "512 \<le> bsize s" by simp
  have "bsize s \<le> 2 ^ 14" unfolding bsize_def by (rule power_increasing [OF r(2)]) simp
  then show le: "bsize s \<le> 16384" by simp
  have "s_block_size s = word_of_nat (bsize s)" using assms unfolding sbi_ok_def by blast
  then show "unat (s_block_size s) = bsize s" using le by (simp add: unat_of_nat_u32)
  have "(2 :: nat) ^ 9 dvd bsize s" unfolding bsize_def by (rule le_imp_power_dvd [OF r(1)])
  then show "512 dvd bsize s" by simp
qed

end
