(* ===== verification/Tfs_Alloc.thy ===== *)
theory Tfs_Alloc
  imports Tfs_Fs Bitops
begin

text \<open>
  The block and the inode allocator of TFS (\<^verbatim>\<open>fs/tfs/balloc.c\<close>, \<^verbatim>\<open>fs/tfs/ialloc.c\<close>): one bitmap
  block each, changed in the cache and written through. A bit number outside the bitmap block
  would touch the data of another cache entry; such a call has no result here.
\<close>

section \<open>Blocks\<close>

definition tfs_read_block_bitmap :: "tfs \<Rightarrow> node option \<times> tfs" where
  "tfs_read_block_bitmap f = cache_get_with (stray f) f (s_block_bitmap (sbi f))"

definition tfs_free_block :: "tfs \<Rightarrow> u32 \<Rightarrow> (int \<times> tfs) option" where
  "tfs_free_block f block =
     (case tfs_read_block_bitmap f of
        (None, f) \<Rightarrow> Some (- errno_num EIO, f)
      | (Some cs, f) \<Rightarrow>
          (case clear_bit (data_of f cs) block of
             None \<Rightarrow> None
           | Some (old, bitmap) \<Rightarrow>
               let f = set_data f cs bitmap in
               if old = 0 then Some (0, f)
               else Some (write_block f (s_block_bitmap (sbi f)) bitmap)))"

text \<open>
  \<^verbatim>\<open>tfs_alloc_block\<close>; the result is the block number as an \<^verbatim>\<open>int\<close>. The word behind the bitmap
  that \<^verbatim>\<open>find_first_zero\<close> reads is given as 0, its value never matters (\<open>find_first_zero_correct\<close>).
\<close>

definition tfs_alloc_block :: "tfs \<Rightarrow> u32 \<Rightarrow> (int \<times> tfs) option" where
  "tfs_alloc_block f block =
     (case tfs_read_block_bitmap f of
        (None, f) \<Rightarrow> Some (- errno_num EIO, f)
      | (Some cs, f) \<Rightarrow>
          let bitmap = data_of f cs in
          (case test_bit bitmap block of
             None \<Rightarrow> None
           | Some t \<Rightarrow>
               let block = (if t \<noteq> 0
                            then find_first_zero 0 (take (unat (s_block_size (sbi f))) bitmap)
                            else block) in
               if block \<noteq> - 1
               then (case set_bit bitmap block of
                       None \<Rightarrow> None
                     | Some (_, bitmap) \<Rightarrow>
                         (case write_block (set_data f cs bitmap) (s_block_bitmap (sbi f)) bitmap of
                            (res, f) \<Rightarrow> if res < 0 then Some (res, f) else Some (sint block, f)))
               else Some (- errno_num ENOSPC, f)))"

section \<open>Inodes\<close>

definition tfs_read_inode_bitmap :: "tfs \<Rightarrow> node option \<times> tfs" where
  "tfs_read_inode_bitmap f = cache_get_with (stray f) f (s_inode_bitmap (sbi f))"

definition tfs_free_inode :: "tfs \<Rightarrow> int \<Rightarrow> (int \<times> tfs) option" where
  "tfs_free_inode f inr =
     (case tfs_read_inode_bitmap f of
        (None, f) \<Rightarrow> Some (- errno_num EIO, f)
      | (Some cs, f) \<Rightarrow>
          (case clear_bit (data_of f cs) (word_of_int (inr - 1)) of
             None \<Rightarrow> None
           | Some (old, bitmap) \<Rightarrow>
               let f = set_data f cs bitmap in
               if old = 0 then Some (0, f)
               else Some (write_block f (s_inode_bitmap (sbi f)) bitmap)))"

definition tfs_alloc_inode :: "tfs \<Rightarrow> int \<Rightarrow> (int \<times> tfs) option" where
  "tfs_alloc_inode f inr =
     (if inr < 1 then Some (- errno_num EINVAL, f)
      else let inr = inr - 1 in
        (case tfs_read_inode_bitmap f of
           (None, f) \<Rightarrow> Some (- errno_num EIO, f)
         | (Some cs, f) \<Rightarrow>
             let bitmap = data_of f cs in
             (case test_bit bitmap (word_of_int inr) of
                None \<Rightarrow> None
              | Some t \<Rightarrow>
                  let inr = (if t = 1
                             then sint (find_first_zero 0 (take (unat (s_block_size (sbi f))) bitmap))
                             else inr) in
                  if inr \<ge> 0
                  then (case set_bit bitmap (word_of_int inr) of
                          None \<Rightarrow> None
                        | Some (_, bitmap) \<Rightarrow>
                            (case write_block (set_data f cs bitmap) (s_inode_bitmap (sbi f)) bitmap of
                               (err, f) \<Rightarrow>
                                 if err \<noteq> 0
                                 then (case clear_bit (data_of f cs) (word_of_int inr) of
                                         None \<Rightarrow> None
                                       | Some (_, bitmap) \<Rightarrow> Some (err, set_data f cs bitmap))
                                 else Some (inr + 1, f)))
                  else Some (- errno_num ENOSPC, f))))"

section \<open>A mounted volume\<close>

definition block_used :: "tfs \<Rightarrow> nat \<Rightarrow> bool" where
  "block_used f k \<longleftrightarrow> bit_at (fblock f (s_block_bitmap (sbi f))) k"

definition inode_used :: "tfs \<Rightarrow> nat \<Rightarrow> bool" where
  "inode_used f k \<longleftrightarrow> bit_at (fblock f (s_inode_bitmap (sbi f))) k"

definition bitmap_bits :: "tfs \<Rightarrow> nat" where
  "bitmap_bits f = 8 * bsize (sbi f)"

definition mounted :: "tfs \<Rightarrow> bool" where
  "mounted f \<longleftrightarrow> fs_ok f \<and> stray_agrees f \<and>
     fvalid f (s_block_bitmap (sbi f)) \<and> fvalid f (s_inode_bitmap (sbi f))"

lemma mounted_same: "mounted f \<Longrightarrow> fs_ok f' \<Longrightarrow> same_mount f f' \<Longrightarrow> mounted f'"
  by (simp add: mounted_def stray_agrees_def)

lemma bitmap_size: 
  assumes "fs_ok f" and "length bm = bsize (sbi f)"
  shows "4 dvd length bm" "8 * length bm < 2 ^ 32" "8 * length bm \<le> 2 ^ 17"
proof -
  note b = bsize_range [OF fs_ok_sbi [OF assms(1)]]
  show "4 dvd length bm" using dvd_trans [of 4 512 "bsize (sbi f)"] b(4) assms(2) by simp
  show "8 * length bm < 2 ^ 32" "8 * length bm \<le> 2 ^ 17" using b(2) assms(2) by simp_all
qed

text \<open>The bit an allocation picks.\<close>

definition picked :: "u8 list \<Rightarrow> u32 \<Rightarrow> u32" where
  "picked bm goal = (if bit_at bm (unat goal) then first_zero_spec bm else goal)"

lemma index_small:
  assumes "unat (w :: u32) < 2 ^ 17"
  shows "w \<noteq> - 1" and "sint w = int (unat w)"
proof -
  have "unat (- 1 :: u32) = 2 ^ 32 - 1" by (simp add: unsigned_minus_1_eq_mask mask_eq_exp_minus_1)
  then show "w \<noteq> - 1" using assms by auto
  show "sint w = int (unat w)" using assms by (intro sint_small) simp
qed

lemma picked_full: "full_upto bm (8 * length bm) \<Longrightarrow> unat goal < 8 * length bm \<Longrightarrow> picked bm goal = - 1"
  by (auto simp: picked_def full_upto_def first_zero_spec_def find_None_iff split: option.splits
      simp: find_Some_iff)

lemma picked_free:
  assumes "\<not> full_upto bm (8 * length bm)" "8 * length bm < 2 ^ 32" and "unat goal < 8 * length bm"
  shows "unat (picked bm goal) < 8 * length bm" "\<not> bit_at bm (unat (picked bm goal))"
    "bit_at bm (unat goal) \<Longrightarrow> full_upto bm (unat (picked bm goal))"
    "\<not> bit_at bm (unat goal) \<Longrightarrow> picked bm goal = goal"
  using first_zero_spec_cases [OF assms(2)] assms(1,3) by (auto simp: picked_def)

section \<open>What the allocators do\<close>

text \<open>The state after a bitmap block got its bit \<open>n\<close> set to \<open>v\<close>.\<close>

definition bit_written :: "tfs \<Rightarrow> u32 \<Rightarrow> nat \<Rightarrow> bool \<Rightarrow> tfs \<Rightarrow> bool" where
  "bit_written f b n v f' \<longleftrightarrow> fs_ok f' \<and> same_mount f f' \<and>
     (\<forall>k < bitmap_bits f. bit_at (fblock f' b) k \<longleftrightarrow> (if k = n then v else bit_at (fblock f b) k)) \<and>
     (\<forall>c. fvalid f c \<longrightarrow> c \<noteq> b \<longrightarrow> fblock f' c = fblock f c)"

lemma bit_written_mount:
  assumes "mounted f" and "bit_written f b n v f'"
  shows "mounted f' \<and> sbi f' = sbi f \<and> bitmap_bits f' = bitmap_bits f \<and> fvalid f' = fvalid f"
proof -
  have "fs_ok f'" "same_mount f f'" using assms(2) by (simp_all add: bit_written_def)
  then show ?thesis using mounted_same [OF assms(1)] by (simp add: bitmap_bits_def)
qed

lemma bitmap_access:
  assumes m: "mounted f" and b: "fvalid f b"
  obtains cs f1 where "cache_get_with (stray f) f b = (Some cs, f1)" and "sbi f1 = sbi f"
    and "fs_ok f1" and "same_mount f f1" and "fblock f1 = fblock f" and "holds f1 cs b" 
    and "data_of f1 cs = fblock f b" and "length (fblock f b) = bsize (sbi f)"
    and "\<And>n r bm. set_bit (fblock f b) n = Some (r, bm) \<Longrightarrow>
      \<exists>f2. write_block (set_data f1 cs bm) b bm = (0, f2) \<and> bit_written f b (unat n) True f2"
    and "\<And>n r bm. clear_bit (fblock f b) n = Some (r, bm) \<Longrightarrow>
      \<exists>f2. write_block (set_data f1 cs bm) b bm = (0, f2) \<and> bit_written f b (unat n) False f2"
proof -
  have ok: "fs_ok f" using m by (simp add: mounted_def)
  obtain cs f1 where g: "cache_get f b = (Some cs, f1)" "data_of f1 cs = fblock f b" "fs_ok f1"
      "fblock f1 = fblock f" "same_mount f f1" "holds f1 cs b"
    and p: "\<And>buf. length buf = bsize (sbi f) \<Longrightarrow> \<exists>f2. write_block (set_data f1 cs buf) b buf = (0, f2) \<and>
      fs_ok f2 \<and> same_mount f f2 \<and> fblock f2 b = buf \<and>
      (\<forall>c. fvalid f c \<longrightarrow> c \<noteq> b \<longrightarrow> fblock f2 c = fblock f c) \<and> (\<forall>x c. holds f1 x c \<longrightarrow> holds f2 x c)"
    using fsc.get_then_put [OF ok b] by metis
  have l: "length (fblock f b) = bsize (sbi f)" by (rule fsc.content_len [OF ok])
  have s: "\<exists>f2. write_block (set_data f1 cs bm) b bm = (0, f2) \<and> bit_written f b (unat n) True f2"
    if "set_bit (fblock f b) n = Some (r, bm)" for n r bm
    using p [of bm] set_bit_Some [OF that] l by (auto simp: bit_written_def bitmap_bits_def)
  have c: "\<exists>f2. write_block (set_data f1 cs bm) b bm = (0, f2) \<and> bit_written f b (unat n) False f2"
    if "clear_bit (fblock f b) n = Some (r, bm)" for n r bm
    using p [of bm] clear_bit_Some [OF that] l by (auto simp: bit_written_def bitmap_bits_def)
  have "cache_get_with (stray f) f b = (Some cs, f1)"
    using g(1) m by (simp add: cache_get_stray mounted_def)
  with g s c l show thesis by (intro that) simp_all
qed

lemma alloc_block_ok:
  assumes m: "mounted f" and goal: "unat goal < bitmap_bits f"
  defines "bm \<equiv> fblock f (s_block_bitmap (sbi f))"
  defines "n \<equiv> unat (picked bm goal)"
  obtains r f' where "tfs_alloc_block f goal = Some (r, f')"
    and "full_upto bm (bitmap_bits f) \<longrightarrow> r = - errno_num ENOSPC \<and> fs_ok f' \<and> same_mount f f' \<and> fblock f' = fblock f"
    and "\<not> full_upto bm (bitmap_bits f) \<longrightarrow> r = int n \<and> n < bitmap_bits f \<and> \<not> bit_at bm n \<and>
      bit_written f (s_block_bitmap (sbi f)) n True f'"
proof -
  let ?b = "s_block_bitmap (sbi f)"
  have v: "fvalid f ?b" "fs_ok f" using m by (simp_all add: mounted_def)
  obtain cs f1 where a: "cache_get_with (stray f) f ?b = (Some cs, f1)" "sbi f1 = sbi f" "fs_ok f1"
      "same_mount f f1" "fblock f1 = fblock f" "data_of f1 cs = bm" "length bm = bsize (sbi f)"
    and s: "\<And>n r bm'. set_bit bm n = Some (r, bm') \<Longrightarrow>
      \<exists>f2. write_block (set_data f1 cs bm') ?b bm' = (0, f2) \<and> bit_written f ?b (unat n) True f2"
    using bitmap_access [OF m v(1)] unfolding bm_def by metis
  note sz = bitmap_size [OF v(2) a(7)]
  have goal': "unat goal < 8 * length bm" using goal a(7) by (simp add: bitmap_bits_def)
  have ts: "take (unat (s_block_size (sbi f))) bm = bm"
    using bsize_range(3) [OF fs_ok_sbi [OF v(2)]] a(7) by simp
  obtain t where t: "test_bit bm goal = Some t" "t \<noteq> 0 \<longleftrightarrow> bit_at bm (unat goal)"
    using test_bit_Some [OF goal'] test_bit_zero_iff [OF goal'] by auto
  have pick: "(if t \<noteq> 0 then find_first_zero 0 bm else goal) = picked bm goal"
    using t(2) find_first_zero_correct [OF sz(1)] by (simp add: picked_def)
  note unfold = tfs_alloc_block_def tfs_read_block_bitmap_def a(1) prod.case option.case Let_def a(2,6) ts t(1) pick
  show thesis
  proof (cases "full_upto bm (8 * length bm)")
    case True
    then have "tfs_alloc_block f goal = Some (- errno_num ENOSPC, f1)"
      unfolding unfold using picked_full [OF True goal'] by simp
    then show thesis by (rule that) (use True a in \<open>simp_all add: bitmap_bits_def\<close>)
  next
    case False
    note pf = picked_free [OF False sz(2) goal']
    obtain r bm' where sb: "set_bit bm (picked bm goal) = Some (r, bm')" using set_bit_in_range [OF pf(1)] by blast
    obtain f2 where f2: "write_block (set_data f1 cs bm') ?b bm' = (0, f2)" "bit_written f ?b n True f2"
      using s [OF sb] unfolding n_def by blast
    have "unat (picked bm goal) < 2 ^ 17" using pf(1) sz(3) by linarith
    note sm = index_small [OF this]
    have "tfs_alloc_block f goal = Some (int n, f2)"
      unfolding unfold sb f2(1) using sm by (simp add: n_def)
    then show thesis by (rule that) (use False a f2 pf in \<open>simp_all add: bitmap_bits_def n_def\<close>)
  qed
qed

lemma free_block_ok:
  assumes m: "mounted f" and b: "unat block < bitmap_bits f" and u: "block_used f (unat block)"
  obtains f' where "tfs_free_block f block = Some (0, f')"
    and "bit_written f (s_block_bitmap (sbi f)) (unat block) False f'"
proof -
  let ?b = "s_block_bitmap (sbi f)" and ?bm = "fblock f (s_block_bitmap (sbi f))"
  have v: "fvalid f ?b" using m by (simp add: mounted_def)
  obtain cs f1 where a: "cache_get_with (stray f) f ?b = (Some cs, f1)" "sbi f1 = sbi f" "data_of f1 cs = ?bm"
      "length ?bm = bsize (sbi f)"
    and c: "\<And>n r bm'. clear_bit ?bm n = Some (r, bm') \<Longrightarrow>
      \<exists>f2. write_block (set_data f1 cs bm') ?b bm' = (0, f2) \<and> bit_written f ?b (unat n) False f2"
    using bitmap_access [OF m v] by metis
  have "unat block < 8 * length ?bm" using b a(4) by (simp add: bitmap_bits_def)
  from clear_bit_in_range [OF this] obtain r bm' where cb: "clear_bit ?bm block = Some (r, bm')" by blast
  moreover have "r \<noteq> 0" using clear_bit_Some(3) [OF cb] u by (simp add: block_used_def)
  ultimately show thesis
    using c [OF cb] a that by (auto simp: tfs_free_block_def tfs_read_block_bitmap_def Let_def)
qed

text \<open>
  The inode allocator compares the masked bit with 1, so it notices that its goal is in use only
  when the goal is the first bit of a byte.
\<close>

definition inode_picked :: "u8 list \<Rightarrow> u32 \<Rightarrow> u32" where
  "inode_picked bm goal = (if unat goal mod 8 = 0 then picked bm goal else goal)"

lemma mask_is_one: "bit_mask nr AND b = 1 \<longleftrightarrow> unat nr mod 8 = 0 \<and> bit b 0"
proof -
  have "bit_mask nr AND b = 1 \<longleftrightarrow> (\<forall>k < 8. bit (bit_mask nr) k \<and> bit b k \<longleftrightarrow> k = 0)"
    by (auto simp: bit_eq_iff bit_simps)
  also have "\<dots> \<longleftrightarrow> unat nr mod 8 = 0 \<and> bit b 0"
    by (auto simp: bit_bit_mask) (metis mod_less_divisor zero_less_numeral)+
  finally show ?thesis .
qed

lemma masked_bit_is_one:
  "bit_mask nr AND bm ! (unat nr div 8) = 1 \<longleftrightarrow> unat nr mod 8 = 0 \<and> bit_at bm (unat nr)"
  using mask_is_one [of nr "bm ! (unat nr div 8)"] by (auto simp: bit_at_def)

lemma inode_picked_range:
  assumes "unat g < 8 * length bm" and "8 * length bm < 2 ^ 32" and "inode_picked bm g \<noteq> - 1"
  shows "unat (inode_picked bm g) < 8 * length bm"
proof (cases "unat g mod 8 = 0 \<and> bit_at bm (unat g)")
  case True
  then have "\<not> full_upto bm (8 * length bm)"
    using assms(3) picked_full [OF _ assms(1)] by (auto simp: inode_picked_def)
  from picked_free(1) [OF this assms(2,1)] True show ?thesis by (simp add: inode_picked_def)
next
  case False
  with assms(1) show ?thesis by (auto simp: inode_picked_def picked_def)
qed

lemma alloc_inode_ok:
  assumes m: "mounted f" and inr: "1 \<le> inr" and goal: "nat (inr - 1) < bitmap_bits f"
  defines "bm \<equiv> fblock f (s_inode_bitmap (sbi f))"
  defines "n \<equiv> inode_picked bm (word_of_int (inr - 1))"
  obtains r f' where "tfs_alloc_inode f inr = Some (r, f')"
    and "n = - 1 \<longrightarrow> r = - errno_num ENOSPC \<and> fs_ok f' \<and> same_mount f f' \<and> fblock f' = fblock f"
    and "n \<noteq> - 1 \<longrightarrow> r = int (unat n) + 1 \<and> unat n < bitmap_bits f \<and>
      bit_written f (s_inode_bitmap (sbi f)) (unat n) True f'"
proof -
  let ?b = "s_inode_bitmap (sbi f)" and ?g = "word_of_int (inr - 1) :: u32"
  have v: "fvalid f ?b" "fs_ok f" using m by (simp_all add: mounted_def)
  obtain cs f1 where a: "cache_get_with (stray f) f ?b = (Some cs, f1)" "sbi f1 = sbi f" "fs_ok f1"
      "same_mount f f1" "fblock f1 = fblock f" "data_of f1 cs = bm" "length bm = bsize (sbi f)"
    and s: "\<And>n r bm'. set_bit bm n = Some (r, bm') \<Longrightarrow>
      \<exists>f2. write_block (set_data f1 cs bm') ?b bm' = (0, f2) \<and> bit_written f ?b (unat n) True f2"
    using bitmap_access [OF m v(1)] unfolding bm_def by metis
  note sz = bitmap_size [OF v(2) a(7)]
  have bits: "8 * length bm = bitmap_bits f" using a(7) by (simp add: bitmap_bits_def)
  have un: "unat ?g = nat (inr - 1)"
    by (rule unat_word_of_pred [OF inr less_trans [OF goal sz(2) [unfolded bits]]])
  have goal': "unat ?g < 8 * length bm" using goal bits un by simp
  have "unat ?g < 2 ^ 17" using goal' sz(3) by linarith
  note gs = index_small [OF this]
  have ts: "take (unat (s_block_size (sbi f))) bm = bm"
    using bsize_range(3) [OF fs_ok_sbi [OF v(2)]] a(7) by simp
  define t where "t = bit_mask ?g AND bm ! (unat ?g div 8)"
  have t: "test_bit bm ?g = Some t" "t = 1 \<longleftrightarrow> unat ?g mod 8 = 0 \<and> bit_at bm (unat ?g)"
    unfolding t_def by (rule test_bit_Some [OF goal'], rule masked_bit_is_one)
  have sg: "sint ?g = inr - 1" unfolding gs(2) un using inr by simp
  have pick: "(if t = 1 then sint (find_first_zero 0 bm) else inr - 1) = sint n"
    using t(2) find_first_zero_correct [OF sz(1)] sg by (auto simp: picked_def n_def inode_picked_def)
  have inr': "\<not> inr < 1" using inr by simp
  note unfold = tfs_alloc_inode_def tfs_read_inode_bitmap_def if_not_P [OF inr'] a(1) prod.case
    option.case Let_def a(2,6) ts t(1) pick
  show thesis
  proof (cases "n = - 1")
    case True
    have "tfs_alloc_inode f inr = Some (- errno_num ENOSPC, f1)"
      unfolding unfold using True by simp
    then show thesis by (rule that) (use True a in simp_all)
  next
    case False
    have lt: "unat n < 8 * length bm" using inode_picked_range [OF goal' sz(2)] False by (simp add: n_def)
    obtain r bm' where sb: "set_bit bm n = Some (r, bm')" using set_bit_in_range [OF lt] by blast
    obtain f2 where f2: "write_block (set_data f1 cs bm') ?b bm' = (0, f2)" "bit_written f ?b (unat n) True f2"
      using s [OF sb] by blast
    have "unat n < 2 ^ 17" using lt sz(3) by linarith
    note sm = index_small [OF this]
    have "tfs_alloc_inode f inr = Some (int (unat n) + 1, f2)"
      unfolding unfold using sm sb f2(1) by simp
    then show thesis by (rule that) (use False a f2 lt bits in simp_all)
  qed
qed

lemma free_inode_ok:
  assumes m: "mounted f" and i: "1 \<le> inr" "nat (inr - 1) < bitmap_bits f" and u: "inode_used f (nat (inr - 1))"
  obtains f' where "tfs_free_inode f inr = Some (0, f')"
    and "bit_written f (s_inode_bitmap (sbi f)) (nat (inr - 1)) False f'"
proof -
  let ?b = "s_inode_bitmap (sbi f)" and ?bm = "fblock f (s_inode_bitmap (sbi f))"
    and ?g = "word_of_int (inr - 1) :: u32"
  have v: "fvalid f ?b" "fs_ok f" using m by (simp_all add: mounted_def)
  obtain cs f1 where a: "cache_get_with (stray f) f ?b = (Some cs, f1)" "sbi f1 = sbi f" "data_of f1 cs = ?bm"
      "length ?bm = bsize (sbi f)"
    and c: "\<And>n r bm'. clear_bit ?bm n = Some (r, bm') \<Longrightarrow>
      \<exists>f2. write_block (set_data f1 cs bm') ?b bm' = (0, f2) \<and> bit_written f ?b (unat n) False f2"
    using bitmap_access [OF m v(1)] by metis
  note sz = bitmap_size [OF v(2) a(4)]
  have un: "unat ?g = nat (inr - 1)"
    by (rule unat_word_of_pred [OF i(1) less_trans [OF i(2) sz(2) [unfolded a(4), folded bitmap_bits_def]]])
  have "unat ?g < 8 * length ?bm" using i(2) a(4) un by (simp add: bitmap_bits_def)
  from clear_bit_in_range [OF this] obtain r bm' where cb: "clear_bit ?bm ?g = Some (r, bm')" by blast
  moreover have "r \<noteq> 0" using clear_bit_Some(3) [OF cb] u un by (simp add: inode_used_def)
  ultimately show thesis
    using c [OF cb] a that un by (auto simp: tfs_free_inode_def tfs_read_inode_bitmap_def Let_def)
qed

section \<open>A volume for the witnesses\<close>

definition demo_fs :: tfs where
  "demo_fs = \<lparr>sbi = big_block_sbi, stray = big_block_sbi, dsk = blank_disk, cch = fresh_cache, room = [],
    behind = 0\<rparr>"

lemma demo_mounted: "mounted demo_fs" "bitmap_bits demo_fs = 8 * 2 ^ 14"
proof -
  have "fs_ring demo_fs [0, 1]"
    using fresh_cache_coherent by (simp add: fs_ring_def demo_fs_def big_block_volume del: power_numeral_even)
  then show "mounted demo_fs"
    using big_block_volume(2) by (auto simp: mounted_def fs_ok_def stray_agrees_def fvalid_def demo_fs_def big_block_sbi_def)
  show "bitmap_bits demo_fs = 8 * 2 ^ 14"
    by (simp only: bitmap_bits_def demo_fs_def tfs.select_convs big_block_volume(3))
qed

lemma read_run_const: "sec d = (\<lambda>_. replicate 512 v) \<Longrightarrow> read_run d s n = replicate (n * 512) v"
proof (induction n arbitrary: s)
  case 0
  then show ?case by (simp add: read_run_def)
next
  case (Suc n)
  then show ?case by (simp add: read_run_Suc flip: replicate_add)
qed

lemma read_run_blank: "read_run blank_disk s n = replicate (n * 512) 0"
  by (rule read_run_const) (simp add: blank_disk_def)

lemma demo_block_zero: "fblock demo_fs b = replicate (2 ^ 14) 0"
proof -
  have "block_sectors big_block_sbi * 512 = 2 ^ 14"
    using bsize_sectors [of big_block_sbi] big_block_volume by (simp add: volume_ok_def sector_size_def)
  then show ?thesis
    by (simp only: fblock_def disk_block_def demo_fs_def tfs.select_convs read_run_blank)
qed

lemma demo_unused: "k < bitmap_bits demo_fs \<Longrightarrow> \<not> block_used demo_fs k \<and> \<not> inode_used demo_fs k"
  by (simp only: block_used_def inode_used_def demo_block_zero bit_at_def demo_mounted(2))
    (simp add: less_mult_imp_div_less)

section \<open>Properties\<close>

text \<open>
  C8: \<^verbatim>\<open>tfs_alloc_block\<close> allocates a free block. On a mounted volume, with a goal inside the
  bitmap: when every bit is set the result is \<open>-ENOSPC\<close> and nothing changes on the volume; otherwise
  the result is the number of a block that was free, the goal itself when that was free and else the
  least free one; on the disk exactly that bit of the bitmap is set and no other block changes, and
  the cache agrees with the disk again.
\<close>

theorem tfs_alloc_block_spec:
  assumes "mounted f" and "unat goal < bitmap_bits f"
  shows "\<exists>r f'. tfs_alloc_block f goal = Some (r, f') \<and> fs_ok f' \<and>
    (if \<forall>k < bitmap_bits f. block_used f k then r = - errno_num ENOSPC \<and> fblock f' = fblock f
     else 0 \<le> r \<and> nat r < bitmap_bits f \<and> \<not> block_used f (nat r) \<and>
       (if block_used f (unat goal) then \<forall>k < nat r. block_used f k else r = int (unat goal)) \<and>
       (\<forall>k < bitmap_bits f. block_used f' k \<longleftrightarrow> k = nat r \<or> block_used f k) \<and>
       (\<forall>c. fvalid f c \<longrightarrow> c \<noteq> s_block_bitmap (sbi f) \<longrightarrow> fblock f' c = fblock f c))"
proof -
  let ?bm = "fblock f (s_block_bitmap (sbi f))"
  have ok: "fs_ok f" using assms by (simp add: mounted_def)
  have l: "length ?bm = bsize (sbi f)" by (rule fsc.content_len [OF ok])
  have full: "(\<forall>k < bitmap_bits f. block_used f k) \<longleftrightarrow> full_upto ?bm (bitmap_bits f)"
    by (simp add: full_upto_def block_used_def)
  obtain r f' where a: "tfs_alloc_block f goal = Some (r, f')"
    "full_upto ?bm (bitmap_bits f) \<longrightarrow> r = - errno_num ENOSPC \<and> fs_ok f' \<and> same_mount f f' \<and> fblock f' = fblock f"
    "\<not> full_upto ?bm (bitmap_bits f) \<longrightarrow> r = int (unat (picked ?bm goal)) \<and> unat (picked ?bm goal) < bitmap_bits f \<and>
      \<not> bit_at ?bm (unat (picked ?bm goal)) \<and> bit_written f (s_block_bitmap (sbi f)) (unat (picked ?bm goal)) True f'"
    by (rule alloc_block_ok [OF assms])
  show ?thesis
  proof (cases "full_upto ?bm (bitmap_bits f)")
    case True
    with a full show ?thesis by auto
  next
    case False
    then have nf: "\<not> full_upto ?bm (8 * length ?bm)" "unat goal < 8 * length ?bm"
      using l assms(2) by (simp_all add: bitmap_bits_def)
    from picked_free(3,4) [OF nf(1) bitmap_size(2) [OF ok l] nf(2)] a(3) False
    show ?thesis unfolding full a(1)
      by (auto simp: bit_written_def block_used_def full_upto_def split: if_splits)
  qed
qed

theorem tfs_alloc_block_spec_witness:
  "\<exists>r f'. tfs_alloc_block demo_fs 4 = Some (r, f') \<and> fs_ok f' \<and> r = 4 \<and> block_used f' 4 \<and>
     (\<forall>k < bitmap_bits demo_fs. k \<noteq> 4 \<longrightarrow> \<not> block_used f' k)"
proof -
  have g: "unat (4 :: u32) < bitmap_bits demo_fs" by (simp only: demo_mounted(2)) simp
  then have "\<not> (\<forall>k < bitmap_bits demo_fs. block_used demo_fs k)" "\<not> block_used demo_fs (unat (4 :: u32))"
    using demo_unused by blast+
  with tfs_alloc_block_spec [OF demo_mounted(1) g] obtain r f' where r:
    "tfs_alloc_block demo_fs 4 = Some (r, f')" "fs_ok f'" "r = int (unat (4 :: u32))"
    "\<forall>k < bitmap_bits demo_fs. block_used f' k \<longleftrightarrow> k = nat r \<or> block_used demo_fs k"
    by (simp only: if_False) blast
  then show ?thesis
    using demo_unused g by (intro exI [of _ r] exI [of _ f']) auto
qed

text \<open>
  freeing a block undoes its allocation. If the volume has a free block, allocating one and
  freeing it succeeds, and afterwards every bit of the bitmap and every other block of the volume is
  what it was.
\<close>

theorem tfs_alloc_then_free_block:
  assumes "mounted f" and "unat goal < bitmap_bits f" and "\<exists>k < bitmap_bits f. \<not> block_used f k"
  shows "\<exists>r f1 f2. tfs_alloc_block f goal = Some (r, f1) \<and> 0 \<le> r \<and>
    tfs_free_block f1 (word_of_int r) = Some (0, f2) \<and> mounted f2 \<and>
    (\<forall>k < bitmap_bits f. block_used f2 k = block_used f k) \<and>
    (\<forall>c. fvalid f c \<longrightarrow> c \<noteq> s_block_bitmap (sbi f) \<longrightarrow> fblock f2 c = fblock f c)"
proof -
  let ?b = "s_block_bitmap (sbi f)"
  let ?w = "picked (fblock f ?b) goal"
  have nf: "\<not> full_upto (fblock f ?b) (bitmap_bits f)"
    using assms(3) by (auto simp: full_upto_def block_used_def)
  obtain r f1 where a: "tfs_alloc_block f goal = Some (r, f1)"
    "r = int (unat ?w)" "unat ?w < bitmap_bits f" "\<not> bit_at (fblock f ?b) (unat ?w)"
    "bit_written f ?b (unat ?w) True f1"
    using alloc_block_ok [OF assms(1,2)] nf by metis
  have m: "mounted f1" "sbi f1 = sbi f" "bitmap_bits f1 = bitmap_bits f" "fvalid f1 = fvalid f"
    using bit_written_mount [OF assms(1) a(5)] by simp_all
  have u: "block_used f1 (unat ?w)" using a(3,5) m(2) by (auto simp: block_used_def bit_written_def)
  obtain f2 where f: "tfs_free_block f1 ?w = Some (0, f2)" "bit_written f1 ?b (unat ?w) False f2"
    using free_block_ok [OF m(1) _ u] a(3) m by metis
  have "mounted f2" using bit_written_mount [OF m(1) f(2)] by simp
  moreover have "\<forall>k < bitmap_bits f. block_used f2 k = block_used f k"
    using a(4,5) f(2) m by (auto simp: bit_written_def block_used_def split: if_splits)
  moreover have "\<forall>c. fvalid f c \<longrightarrow> c \<noteq> ?b \<longrightarrow> fblock f2 c = fblock f c"
    using a(5) f(2) m by (auto simp: bit_written_def)
  ultimately show ?thesis
    using a(1,2) f(1) by (intro exI [of _ r] exI [of _ f1] exI [of _ f2]) simp
qed

theorem tfs_alloc_then_free_block_witness:
  "\<exists>r f1 f2. tfs_alloc_block demo_fs 4 = Some (r, f1) \<and> tfs_free_block f1 (word_of_int r) = Some (0, f2) \<and>
    (\<forall>k < bitmap_bits demo_fs. block_used f2 k = block_used demo_fs k)"
proof -
  have g: "unat (4 :: u32) < bitmap_bits demo_fs" by (simp only: demo_mounted(2)) simp
  then have "\<exists>k < bitmap_bits demo_fs. \<not> block_used demo_fs k" using demo_unused by blast
  from tfs_alloc_then_free_block [OF demo_mounted(1) g this] show ?thesis by blast
qed

text \<open>
  a new inode number is fresh. Started from the root inode, as \<^verbatim>\<open>tfs_new_inode\<close> does,
  \<^verbatim>\<open>tfs_alloc_inode\<close> gives the least free inode number (counted from 1) and sets exactly its bit on
  the disk, or \<open>-ENOSPC\<close> when none is free; freeing that number restores the bitmap.
\<close>

theorem tfs_alloc_inode_fresh:
  assumes "mounted f"
  shows "\<exists>r f'. tfs_alloc_inode f 1 = Some (r, f') \<and>
    (if \<forall>k < bitmap_bits f. inode_used f k then r = - errno_num ENOSPC \<and> fblock f' = fblock f
     else 1 \<le> r \<and> nat (r - 1) < bitmap_bits f \<and> \<not> inode_used f (nat (r - 1)) \<and>
       (\<forall>k < nat (r - 1). inode_used f k) \<and>
       (\<forall>k < bitmap_bits f. inode_used f' k \<longleftrightarrow> k = nat (r - 1) \<or> inode_used f k) \<and>
       (\<exists>f''. tfs_free_inode f' r = Some (0, f'') \<and>
          (\<forall>k < bitmap_bits f. inode_used f'' k = inode_used f k)))"
proof -
  let ?b = "s_inode_bitmap (sbi f)"
  let ?bm = "fblock f ?b"
  let ?w = "picked ?bm 0"
  have ok: "fs_ok f" using assms by (simp add: mounted_def)
  have l: "length ?bm = bsize (sbi f)" by (rule fsc.content_len [OF ok])
  have pos: "0 < bitmap_bits f" using bsize_range(1) [OF fs_ok_sbi [OF ok]] by (simp add: bitmap_bits_def)
  have full: "(\<forall>k < bitmap_bits f. inode_used f k) \<longleftrightarrow> full_upto ?bm (bitmap_bits f)"
    by (simp add: full_upto_def inode_used_def)
  have w: "inode_picked ?bm (word_of_int (1 - 1)) = ?w" by (simp add: inode_picked_def)
  obtain r f' where a: "tfs_alloc_inode f 1 = Some (r, f')"
    "?w = - 1 \<longrightarrow> r = - errno_num ENOSPC \<and> fs_ok f' \<and> same_mount f f' \<and> fblock f' = fblock f"
    "?w \<noteq> - 1 \<longrightarrow> r = int (unat ?w) + 1 \<and> unat ?w < bitmap_bits f \<and> bit_written f ?b (unat ?w) True f'"
    using alloc_inode_ok [OF assms, of 1] pos unfolding w by auto
  show ?thesis
  proof (cases "full_upto ?bm (bitmap_bits f)")
    case True
    then have "?w = - 1" using picked_full [of ?bm 0] l pos by (simp add: bitmap_bits_def)
    with a True full show ?thesis by auto
  next
    case False
    have nf: "\<not> full_upto ?bm (8 * length ?bm)" using l False by (simp add: bitmap_bits_def)
    have z: "unat (0 :: u32) < 8 * length ?bm" using l pos by (simp add: bitmap_bits_def)
    note pf = picked_free [OF nf bitmap_size(2) [OF ok l] z]
    have "unat ?w < 2 ^ 17" using pf(1) bitmap_size(3) [OF ok l] by linarith
    then have n1: "?w \<noteq> - 1" by (rule index_small)
    have below: "full_upto ?bm (unat ?w)" using pf(3,4) by (cases "bit_at ?bm 0") (auto simp: full_upto_def)
    from a n1 have b: "r = int (unat ?w) + 1" "unat ?w < bitmap_bits f" "bit_written f ?b (unat ?w) True f'" by blast+
    have m: "mounted f'" "sbi f' = sbi f" "bitmap_bits f' = bitmap_bits f"
        using bit_written_mount [OF assms b(3)] by simp_all
    have idx: "nat (r - 1) = unat ?w" "1 \<le> r" using b(1) by simp_all
    have u: "inode_used f' (nat (r - 1))" using b idx m(2) by (auto simp: inode_used_def bit_written_def)
    obtain f'' where f'': "tfs_free_inode f' r = Some (0, f'')"
      "bit_written f' (s_inode_bitmap (sbi f')) (nat (r - 1)) False f''"
      using free_inode_ok [OF m(1) idx(2) _ u] b(2) m(3) idx(1) by metis
    have "\<forall>k < bitmap_bits f. inode_used f'' k = inode_used f k"
      using f''(2) b(3) pf(2) m idx by (auto simp: inode_used_def bit_written_def split: if_splits)
    moreover have "\<forall>k < bitmap_bits f. inode_used f' k \<longleftrightarrow> k = nat (r - 1) \<or> inode_used f k"
      using b(3) idx m by (auto simp: inode_used_def bit_written_def split: if_splits)
    moreover have "\<not> inode_used f (nat (r - 1))" "\<forall>k < nat (r - 1). inode_used f k"
      using pf(2) below idx by (simp_all add: inode_used_def full_upto_def)
    ultimately show ?thesis
      using a(1) b(2) f''(1) idx False unfolding full by simp
  qed
qed

theorem tfs_alloc_inode_fresh_witness:
  "\<exists>r f'. tfs_alloc_inode demo_fs 1 = Some (r, f') \<and> r = 1"
proof -
  have pos: "0 < bitmap_bits demo_fs" by (simp only: demo_mounted(2)) simp
  then have nf: "\<not> (\<forall>k < bitmap_bits demo_fs. inode_used demo_fs k)" using demo_unused by blast
  from tfs_alloc_inode_fresh [OF demo_mounted(1)] nf obtain r f' where
    "tfs_alloc_inode demo_fs 1 = Some (r, f')" "1 \<le> r" "\<forall>k < nat (r - 1). inode_used demo_fs k"
    by (simp only: if_False) blast
  moreover from this pos demo_unused [of 0] have "nat (r - 1) = 0" by blast
  ultimately show ?thesis by auto
qed

text \<open>
  with any other goal the inode allocator may hand out an inode that is in use.
  \<^verbatim>\<open>test_bit\<close> returns the masked bit, not 0 or 1, and the comparison with 1 misses every bit that is
  not the first of its byte: a used goal is then returned as if it had been allocated, and the volume
  is left as it was.
\<close>

theorem tfs_alloc_inode_hands_out_used:
  assumes "mounted f" and "1 \<le> inr" and "nat (inr - 1) < bitmap_bits f"
    and "inode_used f (nat (inr - 1))" and "(inr - 1) mod 8 \<noteq> 0"
  shows "\<exists>f'. tfs_alloc_inode f inr = Some (inr, f') \<and>
    (\<forall>k < bitmap_bits f. inode_used f' k = inode_used f k)"
proof -
  let ?b = "s_inode_bitmap (sbi f)" and ?g = "word_of_int (inr - 1) :: u32"
  have ok: "fs_ok f" using assms by (simp add: mounted_def)
  have l: "length (fblock f ?b) = bsize (sbi f)" by (rule fsc.content_len [OF ok])
  have lt: "nat (inr - 1) < 2 ^ 17"
    using assms(3) bitmap_size(3) [OF ok l] unfolding l bitmap_bits_def by (rule order.strict_trans2)
  have un: "unat ?g = nat (inr - 1)" by (rule unat_word_of_pred [OF assms(2) less_trans [OF lt power_strict_increasing]]) simp_all
  have n1: "?g \<noteq> - 1" by (rule index_small) (simp only: un lt)
  have "nat (inr - 1) mod 8 = nat ((inr - 1) mod 8)" using assms(2) by (simp add: nat_mod_distrib)
  moreover have "0 < (inr - 1) mod 8" using assms(5) pos_mod_sign [of 8 "inr - 1"] by linarith
  ultimately have "nat (inr - 1) mod 8 \<noteq> 0" by simp
  then have p: "inode_picked (fblock f ?b) ?g = ?g" by (simp only: inode_picked_def un if_False)
  obtain r f' where "tfs_alloc_inode f inr = Some (r, f')"
    "r = int (unat ?g) + 1" "bit_written f ?b (unat ?g) True f'"
    using alloc_inode_ok [OF assms(1-3)] n1 unfolding p by metis
  then show ?thesis
    using assms(2,4) unfolding un by (auto simp: bit_written_def inode_used_def split: if_splits)
qed

theorem tfs_alloc_inode_hands_out_used_witness:
  "\<exists>f f'. mounted f \<and> inode_used f 1 \<and> tfs_alloc_inode f 2 = Some (2, f')"
proof -
  let ?b = "s_inode_bitmap (sbi demo_fs)"
  have g: "nat (2 - 1) < bitmap_bits demo_fs" by (simp only: demo_mounted(2)) simp
  have "inode_picked (fblock demo_fs ?b) (word_of_int (2 - 1)) = 1" by (simp add: inode_picked_def)
  with alloc_inode_ok [of demo_fs 2] demo_mounted(1) g
  obtain r f where "1 \<noteq> (- 1 :: u32) \<longrightarrow> bit_written demo_fs ?b (unat (1 :: u32)) True f" by (metis one_le_numeral)
  then have w: "bit_written demo_fs ?b 1 True f" by simp
  then have m: "mounted f" "sbi f = sbi demo_fs" "bitmap_bits f = bitmap_bits demo_fs" and u: "inode_used f 1"
    using bit_written_mount [OF demo_mounted(1) w] w g by (auto simp: bit_written_def inode_used_def)
  have "nat (2 - 1) < bitmap_bits f" "inode_used f (nat (2 - 1))" "(2 - 1) mod 8 \<noteq> (0 :: int)"
    using g m u by simp_all
  from tfs_alloc_inode_hands_out_used [OF m(1) _ this] m u show ?thesis by auto
qed

text \<open>
  the bitmaps are read through a stray pointer. When the block bitmap is not in the cache,
  \<^verbatim>\<open>tfs_read_block_bitmap\<close> loads it with the geometry found at the address
  \<^verbatim>\<open>sbi->s_inodes_count\<close>: if a transfer with it works at all, what the allocator takes for the
  bitmap is the block of that other volume, whatever the mounted volume holds.
\<close>

theorem block_bitmap_read_through_stray:
  assumes "ring (cch f) xs" and "2 \<le> length xs"
    and "lru_find (cch f) xs (s_block_bitmap (sbi f)) = None"
    and "volume_ok (stray f) (dsk f)" and "block_ok (stray f) (dsk f) (s_block_bitmap (sbi f))"
    and "length (dat (cch f) (Ent (hd xs))) = bsize (stray f)"
  shows "\<exists>cs f'. tfs_read_block_bitmap f = (Some cs, f') \<and>
    data_of f' cs = disk_block (stray f) (dsk f) (s_block_bitmap (sbi f))"
proof -
  let ?b = "s_block_bitmap (sbi f)"
  have rd: "tfs_bread (stray f) (dsk f) ?b (dat (cch f) (Ent (hd xs))) = (0, disk_block (stray f) (dsk f) ?b)"
    using assms(4-6) by (rule tfs_bread_ok)
  from get_cache_block_miss(2) [where bread = "tfs_bread (stray f) (dsk f)", OF assms(1-3) rd]
  show ?thesis by (auto simp: tfs_read_block_bitmap_def cache_get_with_def data_of_def)
qed

lemma nth_read_run: "0 < n \<Longrightarrow> sec d s \<noteq> [] \<Longrightarrow> read_run d s n ! 0 = sec d s ! 0"
  by (cases n) (simp_all add: read_run_Suc nth_append)

text \<open>A volume whose bitmap sector is marked, and a stray geometry one sector further on.\<close>

definition stray_fs :: tfs where
  "stray_fs = demo_fs\<lparr>stray := big_block_sbi\<lparr>s_offset := 66\<rparr>,
     dsk := blank_disk\<lparr>sec := (\<lambda>s. replicate 512 (if s < 900 then 0 else 255))\<rparr>\<rparr>"

theorem block_bitmap_read_through_stray_witness:
  "\<exists>cs f'. tfs_read_block_bitmap stray_fs = (Some cs, f') \<and>
    data_of f' cs \<noteq> fblock stray_fs (s_block_bitmap (sbi stray_fs))"
proof -
  let ?t = "stray stray_fs" and ?d = "dsk stray_fs"
  have c: "cch stray_fs = fresh_cache" "sbi stray_fs = big_block_sbi" by (simp_all add: stray_fs_def demo_fs_def)
  have s: "bsize ?t = 2 ^ 14" "block_sectors ?t = block_sectors big_block_sbi"
    by (simp_all add: stray_fs_def big_block_sbi_def bsize_def block_sectors_def)
  have v: "volume_ok ?t ?d" "block_ok ?t ?d 2"
    by (simp_all add: volume_ok_def sbi_ok_def bsize_def stray_fs_def demo_fs_def big_block_sbi_def disk_ok_def
        sector_size_def tfs_inode_size_def block_ok_def blank_disk_ok)
  have two: "s_block_bitmap (sbi stray_fs) = 2" by (simp add: c big_block_sbi_def)
  have "\<exists>cs f'. tfs_read_block_bitmap stray_fs = (Some cs, f') \<and>
      data_of f' cs = disk_block ?t ?d (s_block_bitmap (sbi stray_fs))"
  proof (rule block_bitmap_read_through_stray)
    show "ring (cch stray_fs) [0, 1]" unfolding c by (rule fresh_cache_ring)
    show "lru_find (cch stray_fs) [0, 1] (s_block_bitmap (sbi stray_fs)) = None"
      using fresh_cache_blk unfolding two c(1) by (simp add: lru_find_None)
    show "length (dat (cch stray_fs) (Ent (hd [0, 1]))) = bsize ?t"
      using fresh_cache_coherent [of undefined undefined] unfolding c s by (simp add: coherent_def)
  qed (use v two in simp_all)
  moreover have "disk_block ?t ?d 2 \<noteq> disk_block big_block_sbi ?d 2"
  proof -
    have n: "0 < block_sectors big_block_sbi" by (simp add: block_sectors_def big_block_sbi_def)
    have "disk_block ?t ?d 2 ! 0 = 255"
      unfolding disk_block_def s using n
      by (simp add: nth_read_run stray_fs_def demo_fs_def block_sector_def big_block_sbi_def TFS_FS_SECTOR_def)
    moreover have "disk_block big_block_sbi ?d 2 ! 0 = 0"
      unfolding disk_block_def using n
      by (simp add: nth_read_run stray_fs_def demo_fs_def block_sector_def big_block_sbi_def TFS_FS_SECTOR_def)
    ultimately show ?thesis by auto
  qed
  ultimately show ?thesis by (auto simp: fblock_def c two [unfolded c])
qed

end
