(* ===== verification/Tfs_Inode.thy ===== *)
theory Tfs_Inode
  imports Tfs_Alloc "HOL-Library.Signed_Division"
begin

text \<open>
  Inodes: the part of \<^verbatim>\<open>fs/inode.c\<close> that makes them and \<^verbatim>\<open>fs/tfs/inode.c\<close>, which reads, writes,
  creates and releases them. An inode in memory is a value; a pointer that may be an error number is
  a sum, and an access that leaves its object or goes through a null pointer has no result.
\<close>

section \<open>State\<close>

definition TFS_N_BLOCKS :: nat where "TFS_N_BLOCKS = 8"
definition TFS_ROOT_INODE :: int where "TFS_ROOT_INODE = 1"
definition TFS_FILE :: int where "TFS_FILE = 1"
definition TFS_DIR :: int where "TFS_DIR = 2"
definition current_time :: u32 where "current_time = 0"

text \<open>\<^verbatim>\<open>struct inode\<close> without the pointers to the volume and the operations.\<close>

record inode =
  i_mode :: int
  i_size :: u32
  i_ino :: u32
  i_atime :: u32
  i_mtime :: u32
  i_ctime :: u32
  i_dtime :: u32
  i_data :: "u32 list"
  i_flags :: u32
  i_blksize :: int

text \<open>\<^verbatim>\<open>struct tfs_inode\<close>, the inode on the disk.\<close>

record tfs_inode =
  t_mode :: u16
  t_uid :: u16
  t_size :: u32
  t_atime :: u32
  t_ctime :: u32
  t_mtime :: u32
  t_dtime :: u32
  t_block :: "u32 list"
  t_flags :: u32
  t_reserved :: u32

definition read_tinode :: "u8 list \<Rightarrow> nat \<Rightarrow> tfs_inode" where
  "read_tinode b off =
     \<lparr>t_mode = le16_at b off, t_uid = le16_at b (off + 2), t_size = le32_at b (off + 4),
      t_atime = le32_at b (off + 8), t_ctime = le32_at b (off + 12), t_mtime = le32_at b (off + 16),
      t_dtime = le32_at b (off + 20),
      t_block = map (\<lambda>k. le32_at b (off + 24 + 4 * k)) [0..<TFS_N_BLOCKS],
      t_flags = le32_at b (off + 56), t_reserved = le32_at b (off + 60)\<rparr>"

definition bytes_tinode :: "tfs_inode \<Rightarrow> u8 list" where
  "bytes_tinode t =
     bytes16 (t_mode t) @ bytes16 (t_uid t) @ bytes32 (t_size t) @ bytes32 (t_atime t) @
     bytes32 (t_ctime t) @ bytes32 (t_mtime t) @ bytes32 (t_dtime t) @
     concat (map bytes32 (t_block t)) @ bytes32 (t_flags t) @ bytes32 (t_reserved t)"

section \<open>Operations\<close>

text \<open>\<^verbatim>\<open>new_inode\<close>: two allocations; \<^term>\<open>None\<close> is the null pointer.\<close>

definition new_inode :: "tfs \<Rightarrow> int \<Rightarrow> nat \<Rightarrow> inode option \<times> tfs" where
  "new_inode f mode data_size =
     (case malloc_ok f of
        (False, f) \<Rightarrow> (None, f)
      | (True, f) \<Rightarrow>
          (case malloc_ok f of
             (False, f) \<Rightarrow> (None, f)
           | (True, f) \<Rightarrow>
               (Some \<lparr>i_mode = mode, i_size = 0, i_ino = 0, i_atime = current_time,
                      i_mtime = current_time, i_ctime = current_time, i_dtime = 0,
                      i_data = replicate (data_size div 4) 0, i_flags = 0, i_blksize = 0\<rparr>, f)))"

definition tfs_bmap :: "inode \<Rightarrow> int \<Rightarrow> u32 option" where
  "tfs_bmap inode index =
     (if index \<ge> int TFS_N_BLOCKS then Some 0
      else if index < 0 then None
      else Some (i_data inode ! nat index))"

text \<open>
  \<^verbatim>\<open>tfs_release_inode\<close>. A negative number of the freeing loop ends it; so does block 0.
\<close>

function release_blocks :: "tfs \<Rightarrow> inode \<Rightarrow> nat \<Rightarrow> int \<Rightarrow> (int \<times> tfs) option" where
  "release_blocks f inode index res =
     (case tfs_bmap inode (int index) of
        None \<Rightarrow> None
      | Some block \<Rightarrow>
          if block = 0 then Some (res, f)
          else (case tfs_free_block f block of
                  None \<Rightarrow> None
                | Some (res, f) \<Rightarrow>
                    if res < 0 then Some (res, f)
                    else release_blocks f inode (index + 1) res))"
  by pat_completeness auto
termination
  by (relation "measure (\<lambda>(f, inode, index, res). TFS_N_BLOCKS - index)")
    (auto simp: tfs_bmap_def split: if_splits)

declare release_blocks.simps [simp del]

definition tfs_release_inode :: "tfs \<Rightarrow> inode \<Rightarrow> (int \<times> tfs) option" where
  "tfs_release_inode f inode =
     (case tfs_free_inode f (sint (i_ino inode)) of
        None \<Rightarrow> None
      | Some (res, f) \<Rightarrow> if res < 0 then Some (res, f) else release_blocks f inode 0 res)"

definition tfs_new_inode :: "tfs \<Rightarrow> inode \<Rightarrow> int \<Rightarrow> nat \<Rightarrow> ((int + inode) \<times> tfs) option" where
  "tfs_new_inode f dir mode data_size =
     (case new_inode f mode data_size of
        (None, f) \<Rightarrow> Some (Inl (- errno_num ENOMEM), f)
      | (Some inode, f) \<Rightarrow>
          (case tfs_alloc_inode f TFS_ROOT_INODE of
             None \<Rightarrow> None
           | Some (inr, f) \<Rightarrow>
               if inr < 0 then Some (Inl inr, f)
               else Some (Inr (inode\<lparr>i_ino := word_of_int inr, i_blksize := i_blksize dir\<rparr>), f)))"

definition tfs_fill_inode :: "inode \<Rightarrow> tfs_inode \<Rightarrow> inode" where
  "tfs_fill_inode inode tinode =
     inode\<lparr>i_mode := int (unat (t_mode tinode)), i_size := t_size tinode,
       i_atime := t_atime tinode, i_ctime := t_ctime tinode, i_mtime := t_mtime tinode,
       i_dtime := t_dtime tinode, i_flags := t_flags tinode, i_data := t_block tinode\<rparr>"

text \<open>
  \<^verbatim>\<open>tfs_read_inode\<close>. \<^verbatim>\<open>IS_ERR(cs)\<close> does not catch the null pointer that \<^verbatim>\<open>get_cache_block\<close>
  returns on an error, and the code copies from behind it: no result.
\<close>

definition tfs_read_inode :: "tfs \<Rightarrow> int \<Rightarrow> (tfs_inode \<times> tfs) option" where
  "tfs_read_inode f inr =
     (let ipb = sint (s_inodes_per_block (sbi f)) in
      if ipb = 0 then None
      else let inode_block = s_inode_table (sbi f) + word_of_int ((inr - 1) sdiv ipb) in
        (case cache_get f inode_block of
           (None, f) \<Rightarrow> None
         | (Some cs, f) \<Rightarrow>
             let off = (inr - 1) smod ipb * int tfs_inode_size in
             if off < 0 then None else Some (read_tinode (data_of f cs) (nat off), f)))"

definition tfs_iget_by_inr :: "tfs \<Rightarrow> int \<Rightarrow> ((int + inode) \<times> tfs) option" where
  "tfs_iget_by_inr f inr =
     (case tfs_read_inode f inr of
        None \<Rightarrow> None
      | Some (tinode, f) \<Rightarrow>
          (case new_inode f 0 (TFS_N_BLOCKS * 4) of
             (None, f) \<Rightarrow> Some (Inl (- errno_num ENOMEM), f)
           | (Some inode, f) \<Rightarrow>
               Some (Inr (tfs_fill_inode inode tinode
                            \<lparr>i_blksize := sint (push_bit (unat (s_block_shift (sbi f))) (1 :: u32)),
                             i_ino := word_of_int inr\<rparr>), f)))"

definition tfs_iget_root :: "tfs \<Rightarrow> ((int + inode) \<times> tfs) option" where
  "tfs_iget_root f = tfs_iget_by_inr f TFS_ROOT_INODE"

definition tfs_write_inode :: "tfs_inode \<Rightarrow> inode \<Rightarrow> tfs_inode" where
  "tfs_write_inode tinode inode =
     tinode\<lparr>t_mode := word_of_int (i_mode inode), t_size := i_size inode, t_atime := i_atime inode,
       t_ctime := i_ctime inode, t_mtime := i_mtime inode, t_dtime := i_dtime inode,
       t_flags := i_flags inode, t_block := i_data inode, t_reserved := 0\<rparr>"

text \<open>\<^verbatim>\<open>tfs_iwrite\<close>; \<^verbatim>\<open>i_ino\<close> is unsigned, so is the arithmetic on it.\<close>

definition tfs_iwrite :: "tfs \<Rightarrow> inode \<Rightarrow> (int \<times> tfs) option" where
  "tfs_iwrite f inode =
     (let ipb = s_inodes_per_block (sbi f) in
      if ipb = 0 then None
      else let inode_block = s_inode_table (sbi f) + (i_ino inode - 1) div ipb in
        (case cache_get f inode_block of
           (None, f) \<Rightarrow> Some (- errno_num EIO, f)
         | (Some cs, f) \<Rightarrow>
             let off = unat ((i_ino inode - 1) mod ipb) * tfs_inode_size;
                 tinode = read_tinode (data_of f cs) off;
                 buf = splice_at off (bytes_tinode (tfs_write_inode tinode inode)) (data_of f cs);
                 f = set_data f cs buf
             in Some (write_block f inode_block buf)))"

section \<open>The inode on the disk\<close>

lemma nth_slice: "off + n \<le> length b \<Longrightarrow> k < n \<Longrightarrow> slice off n b ! k = b ! (off + k)"
  by (simp add: slice_def)

lemma le_at_slice:
  "off + n \<le> length b \<Longrightarrow> k + 3 < n \<Longrightarrow> le32_at (slice off n b) k = le32_at b (off + k)"
  "off + n \<le> length b \<Longrightarrow> k + 1 < n \<Longrightarrow> le16_at (slice off n b) k = le16_at b (off + k)"
  by (simp_all add: le32_at_def le16_at_def nth_slice add.assoc)

lemma read_tinode_slice:
  "off + tfs_inode_size \<le> length b \<Longrightarrow> read_tinode b off = read_tinode (slice off tfs_inode_size b) 0"
  by (simp add: read_tinode_def TFS_N_BLOCKS_def tfs_inode_size_def le_at_slice upt_rec add.commute)

lemma le_at_behind:
  assumes "length ys \<le> n"
  shows "le32_at (ys @ xs) n = le32_at xs (n - length ys)" "le16_at (ys @ xs) n = le16_at xs (n - length ys)"
  using assms by (simp_all add: le32_at_def le16_at_def nth_append Suc_diff_le)

lemma le_at_append:
  "le32_at (bytes32 w @ xs) 0 = w" "le16_at (bytes16 v @ xs) 0 = v" "le32_at (bytes32 w) 0 = w"
  "2 \<le> n \<Longrightarrow> le32_at (bytes16 v @ xs) n = le32_at xs (n - 2)"
  "2 \<le> n \<Longrightarrow> le16_at (bytes16 v @ xs) n = le16_at xs (n - 2)"
  "4 \<le> n \<Longrightarrow> le32_at (bytes32 w @ xs) n = le32_at xs (n - 4)"
  by (simp_all add: le_at_behind) (simp_all add: le32_at_def le16_at_def bytes32_def bytes16_def le32_bytes32 le16_bytes16)

lemma list_of_8: "length xs = 8 \<Longrightarrow> \<exists>a b c d e f g h. xs = [a, b, c, d, e, f, g, h]"
  by (auto simp: numeral_eq_Suc length_Suc_conv)

lemma read_bytes_tinode:
  assumes "length (t_block t) = TFS_N_BLOCKS"
  shows "read_tinode (bytes_tinode t) 0 = t" "length (bytes_tinode t) = tfs_inode_size"
proof -
  from assms obtain a b c d e f g h where t: "t_block t = [a, b, c, d, e, f, g, h]"
    using list_of_8 unfolding TFS_N_BLOCKS_def by blast
  show "length (bytes_tinode t) = tfs_inode_size"
    by (simp add: bytes_tinode_def t tfs_inode_size_def)
  show "read_tinode (bytes_tinode t) 0 = t"
    by (intro tfs_inode.equality)
      (simp_all add: bytes_tinode_def t read_tinode_def TFS_N_BLOCKS_def upt_rec le_at_append)
qed

text \<open>The offset and the block of an inode number.\<close>

definition ipb :: "tfs \<Rightarrow> nat" where "ipb f = bsize (sbi f) div tfs_inode_size"

definition inode_block :: "tfs \<Rightarrow> int \<Rightarrow> u32" where
  "inode_block f inr = s_inode_table (sbi f) + word_of_nat (nat (inr - 1) div ipb f)"

definition inode_off :: "tfs \<Rightarrow> int \<Rightarrow> nat" where
  "inode_off f inr = nat (inr - 1) mod ipb f * tfs_inode_size"

definition tinode_of :: "tfs \<Rightarrow> int \<Rightarrow> tfs_inode" where
  "tinode_of f inr = read_tinode (fblock f (inode_block f inr)) (inode_off f inr)"

lemma ipb_range:
  assumes "fs_ok f"
  shows "8 \<le> ipb f" "ipb f \<le> 256" "unat (s_inodes_per_block (sbi f)) = ipb f"
    "sint (s_inodes_per_block (sbi f)) = int (ipb f)" "ipb f * tfs_inode_size = bsize (sbi f)"
proof -
  note r = bsize_range [OF fs_ok_sbi [OF assms]]
  have d: "64 dvd bsize (sbi f)" using dvd_trans [of 64 512 "bsize (sbi f)"] r(4) by simp
  then show e: "ipb f * tfs_inode_size = bsize (sbi f)" by (simp add: ipb_def tfs_inode_size_def)
  then show g: "8 \<le> ipb f" "ipb f \<le> 256" using r(1,2) by (simp_all add: tfs_inode_size_def)
  have "s_inodes_per_block (sbi f) = word_of_nat (ipb f)"
    using fs_ok_sbi [OF assms] by (simp add: sbi_ok_def ipb_def)
  then show u: "unat (s_inodes_per_block (sbi f)) = ipb f" using g(2) by (simp add: unat_of_nat_u32)
  have "unat (s_inodes_per_block (sbi f)) < 2 ^ 31" unfolding u using g(2) by simp
  from sint_small [OF this] show "sint (s_inodes_per_block (sbi f)) = int (ipb f)" by (simp only: u)
qed

lemma inode_off_room:
  assumes "fs_ok f"
  shows "inode_off f inr + tfs_inode_size \<le> bsize (sbi f)"
proof -
  have "nat (inr - 1) mod ipb f < ipb f" using ipb_range(1) [OF assms] by simp
  then have "Suc (nat (inr - 1) mod ipb f) * tfs_inode_size \<le> ipb f * tfs_inode_size"
    by (intro mult_le_mono1) simp
  then show ?thesis using ipb_range(5) [OF assms] by (simp add: inode_off_def)
qed

lemma read_inode_ok:
  assumes "fs_ok f" and "1 \<le> inr" and v: "fvalid f (inode_block f inr)"
  obtains f' where "tfs_read_inode f inr = Some (tinode_of f inr, f')" and "fs_ok f'" 
    and "same_mount f f'" and "fblock f' = fblock f"
proof -
  note p = ipb_range [OF assms(1)]
  have i: "inr - 1 = int (nat (inr - 1))" using assms(2) by simp
  have sd: "(inr - 1) sdiv int (ipb f) = int (nat (inr - 1) div ipb f)"
    by (subst i) (simp add: signed_divide_int_def zdiv_int sgn_if)
  have sm: "(inr - 1) smod int (ipb f) = int (nat (inr - 1) mod ipb f)"
    by (subst i) (simp add: signed_modulo_int_def zmod_int sgn_if)
  from fsc.get_law [OF assms(1) v] obtain cs f' where g: "cache_get f (inode_block f inr) = (Some cs, f')"
    "fs_ok f'" "same_mount f f'" "fblock f' = fblock f" "data_of f' cs = fblock f (inode_block f inr)" by blast
  have b: "s_inode_table (sbi f) + word_of_int (int (nat (inr - 1) div ipb f)) = inode_block f inr"
    by (simp add: inode_block_def)
  have "tfs_read_inode f inr = Some (tinode_of f inr, f')"
    unfolding tfs_read_inode_def Let_def p(4) sd sm b g(1) prod.case option.case g(5) tinode_of_def inode_off_def
    using p(1) by (simp add: nat_mult_distrib not_less del: of_nat_mod of_nat_mult)
  with g that show thesis by blast
qed

text \<open>The number of an inode as the \<^verbatim>\<open>int\<close> the code passes around.\<close>

definition inr_of :: "inode \<Rightarrow> int" where "inr_of inode = int (unat (i_ino inode))"

lemma read_tinode_splice_same:
  assumes "off + tfs_inode_size \<le> length b" and "length (t_block t) = TFS_N_BLOCKS"
  shows "read_tinode (splice_at off (bytes_tinode t) b) off = t"
  using assms read_bytes_tinode [OF assms(2)] by (simp add: read_tinode_slice)

lemma read_tinode_splice_other:
  assumes "off + tfs_inode_size \<le> length b" and "o2 + tfs_inode_size \<le> length b"
    and "o2 + tfs_inode_size \<le> off \<or> off + tfs_inode_size \<le> o2" and "length ys = tfs_inode_size"
  shows "read_tinode (splice_at off ys b) o2 = read_tinode b o2"
  using assms by (simp add: read_tinode_slice [of o2] slice_splice_other)

lemma same_inode_place:
  assumes "fs_ok f" and "inode_block f i = inode_block f j" and "1 \<le> i" "i < 2 ^ 32" "1 \<le> j" "j < 2 ^ 32"
    and "i \<noteq> j"
  shows "inode_off f i + tfs_inode_size \<le> inode_off f j \<or> inode_off f j + tfs_inode_size \<le> inode_off f i"
proof -
  let ?a = "nat (i - 1)" and ?b = "nat (j - 1)" and ?n = "ipb f"
  have "?a < 2 ^ 32" "?b < 2 ^ 32" using assms by (simp_all add: nat_less_iff)
  then have "?a div ?n < 2 ^ 32" "?b div ?n < 2 ^ 32" by (meson div_le_dividend order_le_less_trans)+
  then have "unat (word_of_nat (?a div ?n) :: u32) = ?a div ?n" "unat (word_of_nat (?b div ?n) :: u32) = ?b div ?n"
    by (auto intro: unat_of_nat_u32)
  moreover have "(word_of_nat (?a div ?n) :: u32) = word_of_nat (?b div ?n)"
    using assms(2) by (simp add: inode_block_def)
  ultimately have "?a div ?n = ?b div ?n" by metis
  moreover have "?a \<noteq> ?b" using assms by simp
  ultimately have ne: "?a mod ?n \<noteq> ?b mod ?n" by (metis div_mult_mod_eq)
  show ?thesis
  proof (cases "?a mod ?n < ?b mod ?n")
    case True
    then have "Suc (?a mod ?n) * tfs_inode_size \<le> ?b mod ?n * tfs_inode_size" by (intro mult_le_mono1) simp
    then show ?thesis by (simp add: inode_off_def)
  next
    case False
    with ne have "Suc (?b mod ?n) * tfs_inode_size \<le> ?a mod ?n * tfs_inode_size" by (intro mult_le_mono1) simp
    then show ?thesis by (simp add: inode_off_def)
  qed
qed

lemma tinode_of_same: "same_mount f f' \<Longrightarrow> inode_block f' = inode_block f \<and> inode_off f' = inode_off f \<and> ipb f' = ipb f"
  by (auto simp: inode_block_def inode_off_def ipb_def fun_eq_iff)

lemma length_t_block [simp]: "length (t_block (read_tinode b off)) = TFS_N_BLOCKS"
  by (simp add: read_tinode_def)

text \<open>What \<^verbatim>\<open>tfs_iwrite\<close> leaves: \<open>inr\<close>'s inode is \<open>t\<close>, nothing else changed.\<close>

definition inode_written :: "tfs \<Rightarrow> int \<Rightarrow> tfs_inode \<Rightarrow> tfs \<Rightarrow> bool" where
  "inode_written f inr t f' \<longleftrightarrow> fs_ok f' \<and> same_mount f f' \<and> tinode_of f' inr = t \<and>
     (\<forall>j. 1 \<le> j \<and> j < 2 ^ 32 \<and> j \<noteq> inr \<and> fvalid f (inode_block f j) \<longrightarrow> tinode_of f' j = tinode_of f j) \<and>
     (\<forall>c. fvalid f c \<longrightarrow> c \<noteq> inode_block f inr \<longrightarrow> fblock f' c = fblock f c)"

text \<open>The place where \<^verbatim>\<open>tfs_iwrite\<close> looks for an inode.\<close>

lemma inode_place:
  assumes ok: "fs_ok f" and ino: "i_ino inode \<noteq> 0"
  shows "1 \<le> inr_of inode" "inr_of inode < 2 ^ 32" "s_inodes_per_block (sbi f) \<noteq> 0"
    "s_inode_table (sbi f) + (i_ino inode - 1) div s_inodes_per_block (sbi f) = inode_block f (inr_of inode)"
    "unat ((i_ino inode - 1) mod s_inodes_per_block (sbi f)) * tfs_inode_size = inode_off f (inr_of inode)"
proof -
  let ?i = "inr_of inode" and ?w = "s_inodes_per_block (sbi f)"
  note p = ipb_range [OF ok]
  have pos: "0 < unat (i_ino inode)" using ino by (simp add: unat_gt_0)
  show "1 \<le> ?i" using pos unfolding inr_of_def by linarith
  show "?i < 2 ^ 32" using uint_lt2p [of "i_ino inode"] by (simp add: inr_of_def)
  show "?w \<noteq> 0" using p(1,3) by auto
  have n: "nat (?i - 1) = unat (i_ino inode - 1)"
    unfolding inr_of_def unat_minus_one [OF ino] using pos by linarith
  have "(i_ino inode - 1) div ?w = word_of_nat (unat ((i_ino inode - 1) div ?w))" by simp
  also have "unat ((i_ino inode - 1) div ?w) = nat (?i - 1) div ipb f" by (simp only: unat_div n p(3))
  finally show "s_inode_table (sbi f) + (i_ino inode - 1) div ?w = inode_block f ?i"
    by (simp add: inode_block_def)
  show "unat ((i_ino inode - 1) mod ?w) * tfs_inode_size = inode_off f ?i"
    by (simp add: inode_off_def unat_mod n p(3))
qed

text \<open>An inode put into its block changes no other inode.\<close>

lemma inode_put:
  assumes ok: "fs_ok f" and i: "1 \<le> i" "i < 2 ^ 32" and l: "length (t_block t) = TFS_N_BLOCKS"
    and f2: "fs_ok f2" "same_mount f f2"
      "fblock f2 (inode_block f i) = splice_at (inode_off f i) (bytes_tinode t) (fblock f (inode_block f i))"
      "\<forall>c. fvalid f c \<longrightarrow> c \<noteq> inode_block f i \<longrightarrow> fblock f2 c = fblock f c"
  shows "inode_written f i t f2"
proof -
  let ?old = "fblock f (inode_block f i)"
  note len = fsc.content_len [OF ok, of "inode_block f i"] and room = inode_off_room [OF ok]
  have same: "tinode_of f2 j = read_tinode (fblock f2 (inode_block f j)) (inode_off f j)" for j
    using tinode_of_same [OF f2(2)] by (simp add: tinode_of_def)
  have "tinode_of f2 i = t"
    unfolding same f2(3) using room [of i] len l by (intro read_tinode_splice_same) simp_all
  moreover have "tinode_of f2 j = tinode_of f j" if j: "1 \<le> j \<and> j < 2 ^ 32 \<and> j \<noteq> i \<and> fvalid f (inode_block f j)" for j
  proof (cases "inode_block f j = inode_block f i")
    case True
    have "inode_off f j + tfs_inode_size \<le> inode_off f i \<or> inode_off f i + tfs_inode_size \<le> inode_off f j"
      using same_inode_place [OF ok True] j i by blast
    then have "read_tinode (splice_at (inode_off f i) (bytes_tinode t) ?old) (inode_off f j) = read_tinode ?old (inode_off f j)"
      using room [of i] room [of j] len read_bytes_tinode(2) [OF l] by (intro read_tinode_splice_other) simp_all
    then show ?thesis unfolding same True f2(3) by (simp add: tinode_of_def True)
  next
    case False
    then have "fblock f2 (inode_block f j) = fblock f (inode_block f j)" using f2(4) j by blast
    then show ?thesis unfolding same by (simp add: tinode_of_def)
  qed
  ultimately show ?thesis using f2 by (simp add: inode_written_def)
qed

lemma iwrite_ok:
  assumes ok: "fs_ok f" and ino: "i_ino inode \<noteq> 0" and v: "fvalid f (inode_block f (inr_of inode))"
    and l: "length (i_data inode) = TFS_N_BLOCKS"
  obtains f' where "tfs_iwrite f inode = Some (0, f')"
    and "inode_written f (inr_of inode) (tfs_write_inode (tinode_of f (inr_of inode)) inode) f'"
    and "\<And>f1 cs b. cache_get f (inode_block f (inr_of inode)) = (Some cs, f1) \<Longrightarrow> holds f1 cs b \<Longrightarrow> holds f' cs b"
proof -
  let ?i = "inr_of inode"
  let ?t = "tfs_write_inode (tinode_of f ?i) inode" and ?old = "fblock f (inode_block f ?i)"
  note place = inode_place [OF ok ino]
  obtain cs f1 where g: "cache_get f (inode_block f ?i) = (Some cs, f1)" "data_of f1 cs = ?old" "fs_ok f1" "same_mount f f1"
    and put: "\<And>buf. length buf = bsize (sbi f) \<Longrightarrow> \<exists>f2. write_block (set_data f1 cs buf) (inode_block f ?i) buf = (0, f2) \<and>
      fs_ok f2 \<and> same_mount f f2 \<and> fblock f2 (inode_block f ?i) = buf \<and>
      (\<forall>c. fvalid f c \<longrightarrow> c \<noteq> inode_block f ?i \<longrightarrow> fblock f2 c = fblock f c) \<and> (\<forall>x c. holds f1 x c \<longrightarrow> holds f2 x c)"
    using fsc.get_then_put [OF ok v] by metis
  let ?buf = "splice_at (inode_off f ?i) (bytes_tinode ?t) ?old"
  have lt: "length (t_block ?t) = TFS_N_BLOCKS" using l by (simp add: tfs_write_inode_def)
  have "length ?buf = bsize (sbi f)"
    using fsc.content_len [OF ok] inode_off_room [OF ok, of ?i] read_bytes_tinode(2) [OF lt] by simp
  then obtain f2 where f2: "write_block (set_data f1 cs ?buf) (inode_block f ?i) ?buf = (0, f2)"
      "fs_ok f2" "same_mount f f2" "fblock f2 (inode_block f ?i) = ?buf"
      "\<forall>c. fvalid f c \<longrightarrow> c \<noteq> inode_block f ?i \<longrightarrow> fblock f2 c = fblock f c" "\<forall>x c. holds f1 x c \<longrightarrow> holds f2 x c"
    using put by blast
  have "tfs_iwrite f inode = Some (0, f2)"
    unfolding tfs_iwrite_def Let_def if_not_P [OF place(3)] place(4,5) g(1,2) prod.case option.case
    using f2(1) by (simp add: tinode_of_def)
  then show thesis
    by (rule that [OF _ inode_put [OF ok place(1,2) lt f2(2-5)]]) (use f2(6) g in auto)
qed

lemma iget_ok:
  assumes "fs_ok f" and "1 \<le> inr" and "fvalid f (inode_block f inr)" and "room f = []"
  obtains f' inode where "tfs_iget_by_inr f inr = Some (Inr inode, f')" and "fs_ok f'"
    and "same_mount f f'" and "fblock f' = fblock f"
    and "inode = tfs_fill_inode inode (tinode_of f inr)" and "i_ino inode = word_of_int inr"
    and "i_blksize inode = sint (push_bit (unat (s_block_shift (sbi f))) (1 :: u32))"
proof -
  from read_inode_ok [OF assms(1-3)] obtain f1 where r: "tfs_read_inode f inr = Some (tinode_of f inr, f1)"
    "fs_ok f1" "same_mount f f1" "fblock f1 = fblock f" .
  have "room f1 = []" using r(3) assms(4) by simp
  then show thesis
    using r by (intro that [of _ f1]) (auto simp: tfs_iget_by_inr_def new_inode_def malloc_ok_def tfs_fill_inode_def)
qed

text \<open>The blocks of a file: its block numbers up to the first 0.\<close>

definition file_blocks :: "inode \<Rightarrow> u32 list" where
  "file_blocks inode = takeWhile (\<lambda>b. b \<noteq> 0) (i_data inode)"

lemma release_blocks_ok:
  assumes "mounted f" and l: "length (i_data inode) = TFS_N_BLOCKS" and "index \<le> TFS_N_BLOCKS"
    and "distinct (takeWhile (\<lambda>b. b \<noteq> 0) (drop index (i_data inode)))"
    and "\<forall>b \<in> set (takeWhile (\<lambda>b. b \<noteq> 0) (drop index (i_data inode))). unat b < bitmap_bits f \<and> block_used f (unat b)"
  shows "\<exists>f'. release_blocks f inode index 0 = Some (0, f') \<and> mounted f' \<and> same_mount f f' \<and>
    (\<forall>k < bitmap_bits f. block_used f' k \<longleftrightarrow>
       block_used f k \<and> k \<notin> unat ` set (takeWhile (\<lambda>b. b \<noteq> 0) (drop index (i_data inode)))) \<and>
    (\<forall>c. fvalid f c \<longrightarrow> c \<noteq> s_block_bitmap (sbi f) \<longrightarrow> fblock f' c = fblock f c)"
  using assms(1,3-5)
proof (induction "TFS_N_BLOCKS - index" arbitrary: f index)
  case 0
  then have "index = TFS_N_BLOCKS" by simp
  then have "release_blocks f inode index 0 = Some (0, f)"
    by (subst release_blocks.simps) (simp add: tfs_bmap_def)
  moreover have "drop index (i_data inode) = []" using \<open>index = TFS_N_BLOCKS\<close> l by simp
  ultimately show ?case using "0.prems"(1) by simp
next
  case (Suc m)
  then have i: "index < TFS_N_BLOCKS" by simp
  let ?b = "i_data inode ! index" and ?rest = "takeWhile (\<lambda>b. b \<noteq> 0) (drop (Suc index) (i_data inode))"
  have d: "drop index (i_data inode) = ?b # drop (Suc index) (i_data inode)"
    using i l by (simp add: Cons_nth_drop_Suc)
  have bm: "tfs_bmap inode (int index) = Some ?b" using i by (simp add: tfs_bmap_def)
  show ?case
  proof (cases "?b = 0")
    case True
    then have "release_blocks f inode index 0 = Some (0, f)"
      by (subst release_blocks.simps) (simp add: bm)
    then show ?thesis using True Suc.prems(1) by (simp add: d)
  next
    case False
    then have tw: "takeWhile (\<lambda>b. b \<noteq> 0) (drop index (i_data inode)) = ?b # ?rest" by (simp add: d)
    have b: "unat ?b < bitmap_bits f" "block_used f (unat ?b)" and ni: "?b \<notin> set ?rest" and dr: "distinct ?rest"
      and rest: "\<forall>b \<in> set ?rest. unat b < bitmap_bits f \<and> block_used f (unat b)"
      using Suc.prems(3,4) unfolding tw by auto
    obtain f1 where f1: "tfs_free_block f ?b = Some (0, f1)" "bit_written f (s_block_bitmap (sbi f)) (unat ?b) False f1"
      using free_block_ok [OF Suc.prems(1) b] .
    note m1 = bit_written_mount [OF Suc.prems(1) f1(2)]
    have u1: "k < bitmap_bits f \<Longrightarrow> block_used f1 k \<longleftrightarrow> k \<noteq> unat ?b \<and> block_used f k" for k
      using f1(2) m1 by (auto simp: bit_written_def block_used_def split: if_splits)
    have "unat b \<noteq> unat ?b" if "b \<in> set ?rest" for b
      using that ni by (metis word_unat_eq_iff)
    then have "\<forall>b \<in> set ?rest. unat b < bitmap_bits f1 \<and> block_used f1 (unat b)"
      using rest m1 u1 by simp
    moreover have "m = TFS_N_BLOCKS - Suc index" "Suc index \<le> TFS_N_BLOCKS" using Suc.hyps(2) i by simp_all
    ultimately obtain f2 where f2: "release_blocks f1 inode (Suc index) 0 = Some (0, f2)" "mounted f2" "same_mount f1 f2"
      "\<forall>k < bitmap_bits f1. block_used f2 k \<longleftrightarrow> block_used f1 k \<and> k \<notin> unat ` set ?rest"
      "\<forall>c. fvalid f1 c \<longrightarrow> c \<noteq> s_block_bitmap (sbi f1) \<longrightarrow> fblock f2 c = fblock f1 c"
      using Suc.hyps(1) [of "Suc index" f1] m1 dr by blast
    have "release_blocks f inode index 0 = Some (0, f2)"
      using False f1(1) f2(1) by (subst release_blocks.simps) (simp add: bm)
    moreover have "same_mount f f2" using f1(2) f2(3) fsc.same_trans by (auto simp: bit_written_def)
    moreover have "\<forall>k < bitmap_bits f. block_used f2 k \<longleftrightarrow> block_used f k \<and> k \<notin> unat ` set (?b # ?rest)"
      using f2(4) u1 m1 by auto
    moreover have "\<forall>c. fvalid f c \<longrightarrow> c \<noteq> s_block_bitmap (sbi f) \<longrightarrow> fblock f2 c = fblock f c"
      using f2(5) f1(2) m1 by (simp add: bit_written_def)
    ultimately show ?thesis using f2(2) unfolding tw by blast
  qed
qed

section \<open>Properties\<close>

text \<open>
  C9: an inode that is written is read back. On a sound volume \<^verbatim>\<open>tfs_iwrite\<close> succeeds, and
  \<^verbatim>\<open>tfs_iget_by_inr\<close> of its number then gives an inode with the same mode, size, times, flags and
  block numbers. Every other inode of the volume is what it was, also those in the same block, and
  so is every block outside the inode's own.
\<close>

theorem tfs_iwrite_then_iget:
  assumes "fs_ok f" and "i_ino inode \<noteq> 0" and "fvalid f (inode_block f (inr_of inode))"
    and "length (i_data inode) = TFS_N_BLOCKS" and "0 \<le> i_mode inode" and "i_mode inode < 2 ^ 16"
    and "room f = []"
  shows "\<exists>f1 f2 copy. tfs_iwrite f inode = Some (0, f1) \<and> fs_ok f1 \<and>
    tfs_iget_by_inr f1 (inr_of inode) = Some (Inr copy, f2) \<and>
    copy = inode\<lparr>i_blksize := i_blksize copy\<rparr> \<and>
    (\<forall>j. 1 \<le> j \<and> j < 2 ^ 32 \<and> j \<noteq> inr_of inode \<and> fvalid f (inode_block f j) \<longrightarrow>
       tinode_of f1 j = tinode_of f j) \<and>
    (\<forall>c. fvalid f c \<longrightarrow> c \<noteq> inode_block f (inr_of inode) \<longrightarrow> fblock f1 c = fblock f c)"
proof -
  let ?i = "inr_of inode"
  obtain f1 where w: "tfs_iwrite f inode = Some (0, f1)"
    "inode_written f ?i (tfs_write_inode (tinode_of f ?i) inode) f1"
    using iwrite_ok [OF assms(1-4)] by metis
  have f1: "fs_ok f1" "same_mount f f1" "tinode_of f1 ?i = tfs_write_inode (tinode_of f ?i) inode"
    using w(2) by (simp_all add: inode_written_def)
  have "0 < unat (i_ino inode)" using assms(2) by (simp add: unat_gt_0)
  then have one: "1 \<le> ?i" unfolding inr_of_def by linarith
  have "fvalid f1 (inode_block f1 ?i)" "room f1 = []"
    using assms(3,7) f1(2) tinode_of_same [OF f1(2)] by simp_all
  then obtain f2 copy where c: "tfs_iget_by_inr f1 ?i = Some (Inr copy, f2)"
    "copy = tfs_fill_inode copy (tinode_of f1 ?i)" "i_ino copy = word_of_int ?i"
    using iget_ok [OF f1(1) one] by metis
  have m: "uint (word_of_int (i_mode inode) :: u16) = i_mode inode"
    using assms(5,6) by (simp add: uint_word_of_int)
  have "i_mode copy = i_mode inode" "i_size copy = i_size inode" "i_atime copy = i_atime inode"
    "i_mtime copy = i_mtime inode" "i_ctime copy = i_ctime inode" "i_dtime copy = i_dtime inode"
    "i_data copy = i_data inode" "i_flags copy = i_flags inode"
    using arg_cong [OF c(2), of i_mode] arg_cong [OF c(2), of i_size] arg_cong [OF c(2), of i_atime]
      arg_cong [OF c(2), of i_mtime] arg_cong [OF c(2), of i_ctime] arg_cong [OF c(2), of i_dtime]
      arg_cong [OF c(2), of i_data] arg_cong [OF c(2), of i_flags]
    by (simp_all add: f1(3) tfs_fill_inode_def tfs_write_inode_def m)
  moreover have "i_ino copy = i_ino inode" using c(3) by (simp add: inr_of_def)
  ultimately have "copy = inode\<lparr>i_blksize := i_blksize copy\<rparr>" by (intro inode.equality) simp_all
  with w f1 c(1) show ?thesis unfolding inode_written_def by blast
qed

definition demo_inode :: inode where
  "demo_inode = \<lparr>i_mode = TFS_FILE, i_size = 5, i_ino = 3, i_atime = 1, i_mtime = 2, i_ctime = 3,
     i_dtime = 0, i_data = [9, 10, 0, 0, 0, 0, 0, 0], i_flags = 0, i_blksize = 16384\<rparr>"

lemma demo_inode_place: "inr_of demo_inode = 3" "inode_block demo_fs 3 = 3" "fvalid demo_fs 3"
  "sbi demo_fs = big_block_sbi" "room demo_fs = []"
proof -
  show s: "sbi demo_fs = big_block_sbi" "room demo_fs = []" by (simp_all add: demo_fs_def)
  show "inr_of demo_inode = 3" by (simp add: inr_of_def demo_inode_def)
  show "inode_block demo_fs 3 = 3"
    unfolding inode_block_def ipb_def s big_block_volume(3) by (simp add: big_block_sbi_def tfs_inode_size_def)
  show "fvalid demo_fs 3" using big_block_volume(2) [of 3] by (simp add: fvalid_def demo_fs_def)
qed

theorem tfs_iwrite_then_iget_witness:
  "\<exists>f1 f2 copy. tfs_iwrite demo_fs demo_inode = Some (0, f1) \<and>
    tfs_iget_by_inr f1 3 = Some (Inr copy, f2) \<and> i_size copy = 5 \<and> i_data copy = [9, 10, 0, 0, 0, 0, 0, 0]"
proof -
  have "fs_ok demo_fs" using demo_mounted(1) by (simp add: mounted_def)
  moreover have "fvalid demo_fs (inode_block demo_fs (inr_of demo_inode))"
    by (simp only: demo_inode_place)
  moreover have "i_ino demo_inode \<noteq> 0" "length (i_data demo_inode) = TFS_N_BLOCKS" "0 \<le> i_mode demo_inode"
    "i_mode demo_inode < 2 ^ 16" by (simp_all add: demo_inode_def TFS_N_BLOCKS_def TFS_FILE_def)
  ultimately obtain f1 f2 copy where r: "tfs_iwrite demo_fs demo_inode = Some (0, f1)"
    "tfs_iget_by_inr f1 (inr_of demo_inode) = Some (Inr copy, f2)"
    "copy = demo_inode\<lparr>i_blksize := i_blksize copy\<rparr>"
    using tfs_iwrite_then_iget [of demo_fs demo_inode] demo_inode_place(5) by blast
  have "i_size copy = 5" "i_data copy = [9, 10, 0, 0, 0, 0, 0, 0]"
    by (subst r(3), simp add: demo_inode_def)+
  with r show ?thesis unfolding demo_inode_place by blast
qed

text \<open>
  C10: releasing an inode frees exactly what it owns. If the inode's number and the blocks of its file
  are allocated, the blocks are distinct and the two bitmaps are different blocks,
  \<^verbatim>\<open>tfs_release_inode\<close> succeeds and clears the bit of the number and of each of these blocks; all
  other bits of both bitmaps and all other blocks keep their values.
\<close>

theorem tfs_release_inode_frees:
  assumes "mounted f" and "i_ino inode \<noteq> 0" and "nat (inr_of inode - 1) < bitmap_bits f"
    and "inode_used f (nat (inr_of inode - 1))" and "length (i_data inode) = TFS_N_BLOCKS"
    and "distinct (file_blocks inode)"
    and "\<forall>b \<in> set (file_blocks inode). unat b < bitmap_bits f \<and> block_used f (unat b)"
    and "s_inode_bitmap (sbi f) \<noteq> s_block_bitmap (sbi f)"
  shows "\<exists>f'. tfs_release_inode f inode = Some (0, f') \<and> mounted f' \<and>
    (\<forall>k < bitmap_bits f. inode_used f' k \<longleftrightarrow> inode_used f k \<and> k \<noteq> nat (inr_of inode - 1)) \<and>
    (\<forall>k < bitmap_bits f. block_used f' k \<longleftrightarrow> block_used f k \<and> k \<notin> unat ` set (file_blocks inode)) \<and>
    (\<forall>c. fvalid f c \<longrightarrow> c \<noteq> s_block_bitmap (sbi f) \<longrightarrow> c \<noteq> s_inode_bitmap (sbi f) \<longrightarrow>
       fblock f' c = fblock f c)"
proof -
  let ?i = "inr_of inode"
  have ok: "fs_ok f" and vb: "fvalid f (s_block_bitmap (sbi f))" and vi: "fvalid f (s_inode_bitmap (sbi f))"
    using assms(1) by (simp_all add: mounted_def)
  have "bitmap_bits f \<le> 2 ^ 17"
    using bitmap_size(3) [OF ok fsc.content_len [OF ok]] fsc.content_len [OF ok] by (simp add: bitmap_bits_def)
  then have "nat (?i - 1) < 2 ^ 17" using assms(3) by simp
  then have "unat (i_ino inode) \<le> 2 ^ 17" unfolding inr_of_def by linarith
  then have "unat (i_ino inode) < 2 ^ 31" by simp
  then have si: "sint (i_ino inode) = ?i" using sint_small by (simp only: inr_of_def)
  have "0 < unat (i_ino inode)" using assms(2) by (simp add: unat_gt_0)
  then have one: "1 \<le> ?i" unfolding inr_of_def by linarith
  obtain f1 where f1: "tfs_free_inode f ?i = Some (0, f1)"
    "bit_written f (s_inode_bitmap (sbi f)) (nat (?i - 1)) False f1"
    using free_inode_ok [OF assms(1) one assms(3,4)] .
  note m1 = bit_written_mount [OF assms(1) f1(2)]
  have bb: "block_used f1 = block_used f"
    using f1(2) m1 vb assms(8) by (auto simp: block_used_def bit_written_def fun_eq_iff)
  have "\<forall>b \<in> set (takeWhile (\<lambda>b. b \<noteq> 0) (drop 0 (i_data inode))). unat b < bitmap_bits f1 \<and> block_used f1 (unat b)"
    using assms(7) m1 bb by (simp add: file_blocks_def)
  moreover have "distinct (takeWhile (\<lambda>b. b \<noteq> 0) (drop 0 (i_data inode)))"
    using assms(6) by (simp add: file_blocks_def)
  ultimately obtain f2 where f2: "release_blocks f1 inode 0 0 = Some (0, f2)" "mounted f2" "same_mount f1 f2"
    "\<forall>k < bitmap_bits f1. block_used f2 k \<longleftrightarrow> block_used f1 k \<and> k \<notin> unat ` set (file_blocks inode)"
    "\<forall>c. fvalid f1 c \<longrightarrow> c \<noteq> s_block_bitmap (sbi f1) \<longrightarrow> fblock f2 c = fblock f1 c"
    using release_blocks_ok [OF _ assms(5), of f1 0] m1 unfolding file_blocks_def by auto
  have "tfs_release_inode f inode = Some (0, f2)" using f1(1) f2(1) by (simp add: tfs_release_inode_def si)
  moreover have "\<forall>k < bitmap_bits f. inode_used f2 k \<longleftrightarrow> inode_used f k \<and> k \<noteq> nat (?i - 1)"
    using f1(2) f2(3,5) m1 vi assms(8) by (auto simp: inode_used_def bit_written_def split: if_splits)
  moreover have "\<forall>k < bitmap_bits f. block_used f2 k \<longleftrightarrow> block_used f k \<and> k \<notin> unat ` set (file_blocks inode)"
    using f2(4) m1 bb by simp
  moreover have "\<forall>c. fvalid f c \<longrightarrow> c \<noteq> s_block_bitmap (sbi f) \<longrightarrow> c \<noteq> s_inode_bitmap (sbi f) \<longrightarrow> fblock f2 c = fblock f c"
    using f1(2) f2(5) m1 by (simp add: bit_written_def)
  ultimately show ?thesis using f2(2) by blast
qed

text \<open>A volume on which everything is allocated.\<close>

definition full_fs :: tfs where
  "full_fs = demo_fs\<lparr>dsk := blank_disk\<lparr>sec := (\<lambda>_. replicate 512 255)\<rparr>\<rparr>"

lemma full_mounted: "mounted full_fs" "bitmap_bits full_fs = 8 * 2 ^ 14"
proof -
  have f: "sbi full_fs = big_block_sbi" "stray full_fs = big_block_sbi" "cch full_fs = fresh_cache"
    by (simp_all add: full_fs_def demo_fs_def)
  have "volume_ok big_block_sbi (dsk full_fs)"
    using big_block_volume(1) by (simp add: volume_ok_def full_fs_def disk_ok_def sector_size_def)
  then have "fs_ring full_fs [0, 1]"
    unfolding fs_ring_def f big_block_volume(3) using fresh_cache_coherent by blast
  moreover have "fvalid full_fs 2" "fvalid full_fs 1"
    by (simp_all add: fvalid_def f block_ok_def full_fs_def blank_disk_ok)
  ultimately show "mounted full_fs"
    by (auto simp: mounted_def fs_ok_def stray_agrees_def f big_block_sbi_def)
  show "bitmap_bits full_fs = 8 * 2 ^ 14" by (simp only: bitmap_bits_def f big_block_volume(3))
qed

lemma full_used: "k < bitmap_bits full_fs \<Longrightarrow> block_used full_fs k \<and> inode_used full_fs k"
proof -
  assume k: "k < bitmap_bits full_fs"
  have "block_sectors big_block_sbi * 512 = 2 ^ 14"
    using bsize_sectors [of big_block_sbi] big_block_volume by (simp add: volume_ok_def sector_size_def)
  moreover have "read_run (dsk full_fs) s n = replicate (n * 512) 255" for s n
    by (rule read_run_const) (simp add: full_fs_def)
  moreover have "sbi full_fs = big_block_sbi" by (simp add: full_fs_def demo_fs_def)
  ultimately have "fblock full_fs b = replicate (2 ^ 14) 255" for b
    by (simp only: fblock_def disk_block_def)
  moreover have "k div 8 < 2 ^ 14" using k by (simp add: full_mounted(2) less_mult_imp_div_less)
  moreover have "bit (255 :: u8) (k mod 8)"
  proof -
    have "(255 :: u8) = - 1" by simp
    then show ?thesis by (simp only: bit_minus_1_iff) simp
  qed
  ultimately show ?thesis by (simp only: block_used_def inode_used_def bit_at_def nth_replicate)
qed

theorem tfs_release_inode_frees_witness:
  "\<exists>f'. tfs_release_inode full_fs demo_inode = Some (0, f') \<and> \<not> inode_used f' 2 \<and> \<not> block_used f' 9 \<and>
    \<not> block_used f' 10 \<and> block_used f' 11"
proof -
  have n: "nat (inr_of demo_inode - 1) = 2" by (simp add: demo_inode_place)
  have b: "2 < bitmap_bits full_fs" "9 < bitmap_bits full_fs" "10 < bitmap_bits full_fs" "11 < bitmap_bits full_fs"
    by (simp_all only: full_mounted(2)) simp_all
  have fb: "file_blocks demo_inode = [9, 10]" by (simp add: file_blocks_def demo_inode_def)
  have u: "\<forall>b \<in> set (file_blocks demo_inode). unat b < bitmap_bits full_fs \<and> block_used full_fs (unat b)"
    unfolding fb using b full_used by simp
  have s: "s_inode_bitmap (sbi full_fs) \<noteq> s_block_bitmap (sbi full_fs)"
    by (simp add: full_fs_def demo_fs_def big_block_sbi_def)
  have "i_ino demo_inode \<noteq> 0" "length (i_data demo_inode) = TFS_N_BLOCKS" "distinct (file_blocks demo_inode)"
    unfolding fb by (simp_all add: demo_inode_def TFS_N_BLOCKS_def)
  from tfs_release_inode_frees [OF full_mounted(1) this(1) _ _ this(2,3) u s] obtain f' where
    "tfs_release_inode full_fs demo_inode = Some (0, f')"
    "\<forall>k < bitmap_bits full_fs. inode_used f' k \<longleftrightarrow> inode_used full_fs k \<and> k \<noteq> 2"
    "\<forall>k < bitmap_bits full_fs. block_used f' k \<longleftrightarrow> block_used full_fs k \<and> k \<notin> unat ` set [9, 10 :: u32]"
    unfolding n fb using b full_used by blast
  then show ?thesis using b full_used by (intro exI [of _ f']) auto
qed

end
