(* ===== verification/Tfs_Dir.thy ===== *)
theory Tfs_Dir
  imports Tfs_Inode Cstring
begin

text \<open>
  Directories (\<^verbatim>\<open>fs/tfs/dir.c\<close>) and the making of files (\<^verbatim>\<open>tfs_mknod\<close>, \<^verbatim>\<open>tfs_iget\<close> of
  \<^verbatim>\<open>fs/tfs/inode.c\<close>). A pointer to a directory entry is the cache entry its block is in with the
  offset inside the block. Names are the bytes from the pointer on.
\<close>

section \<open>Entries\<close>

definition TFS_NAME_LEN :: nat where "TFS_NAME_LEN = 28"
definition dirent_size :: nat where "dirent_size = 32"

definition d_inode :: "u8 list \<Rightarrow> nat \<Rightarrow> u32" where
  "d_inode b off = le32_at b off"

definition d_name :: "u8 list \<Rightarrow> nat \<Rightarrow> u8 list" where
  "d_name b off = drop (off + 4) b"

definition tfs_match_entry :: "u8 list \<Rightarrow> u8 list \<Rightarrow> nat \<Rightarrow> bool option" where
  "tfs_match_entry name b off =
     (if d_inode b off = 0 then Some False
      else case (strlen name, strlen (d_name b off)) of
        (Some n, Some m) \<Rightarrow>
          if n \<noteq> m \<and> n \<noteq> TFS_NAME_LEN then Some False
          else map_option (\<lambda>r. r = 0) (strncmp name (d_name b off) (int n))
      | _ \<Rightarrow> None)"

section \<open>Looking up\<close>

datatype find_res = Not_found | Find_err int | Found node nat

text \<open>\<^verbatim>\<open>inode->i_data[index]\<close>, the word behind the array included.\<close>

definition data_word :: "tfs \<Rightarrow> inode \<Rightarrow> nat \<Rightarrow> u32 option" where
  "data_word f inode index =
     (if index < TFS_N_BLOCKS then Some (i_data inode ! index)
      else if index = TFS_N_BLOCKS then Some (behind f) else None)"

text \<open>The loop of \<^verbatim>\<open>tfs_find_entry\<close>; \<open>s\<close> is its \<^verbatim>\<open>sbi\<close>.\<close>

function find_from ::
    "tfs_sb_info \<Rightarrow> tfs \<Rightarrow> inode \<Rightarrow> u8 list \<Rightarrow> node \<Rightarrow> nat \<Rightarrow> nat \<Rightarrow> (find_res \<times> tfs) option" where
  "find_from s f inode dname cs off index =
     (if off \<ge> unat (s_block_size s)
      then (case data_word f inode index of
              None \<Rightarrow> None
            | Some block \<Rightarrow>
                if block < s_data_area s then Some (Not_found, f)
                else (case cache_get f block of
                        (None, f) \<Rightarrow> Some (Find_err (- errno_num EIO), f)
                      | (Some cs, f) \<Rightarrow> find_from s f inode dname cs 0 (index + 1)))
      else if d_inode (data_of f cs) off = 0
      then find_from s f inode dname cs (off + dirent_size) index
      else (case tfs_match_entry dname (data_of f cs) off of
              None \<Rightarrow> None
            | Some True \<Rightarrow> Some (Found cs off, f)
            | Some False \<Rightarrow> find_from s f inode dname cs (off + dirent_size) index))"
  by pat_completeness auto
termination
  by (relation "measures [\<lambda>(s, f, inode, dname, cs, off, index). Suc TFS_N_BLOCKS - index,
      \<lambda>(s, f, inode, dname, cs, off, index). unat (s_block_size s) - off]")
    (auto simp: data_word_def dirent_size_def split: if_splits)

declare find_from.simps [simp del]

definition tfs_find_entry :: "tfs \<Rightarrow> inode \<Rightarrow> u8 list \<Rightarrow> (find_res \<times> tfs) option" where
  "tfs_find_entry f inode dname =
     (let block = i_data inode ! 0 in
      if block = 0 then Some (Not_found, f)
      else (case cache_get f block of
              (None, f) \<Rightarrow> Some (Find_err (- errno_num EIO), f)
            | (Some cs, f) \<Rightarrow> find_from (sbi f) f inode dname cs 0 1))"

definition tfs_iget :: "tfs \<Rightarrow> u8 list \<Rightarrow> inode \<Rightarrow> ((int + inode) \<times> tfs) option" where
  "tfs_iget f dname dir =
     (case tfs_find_entry f dir dname of
        None \<Rightarrow> None
      | Some (Not_found, f) \<Rightarrow> Some (Inl (- errno_num ENOENT), f)
      | Some (Find_err e, f) \<Rightarrow> Some (Inl e, f)
      | Some (Found cs off, f) \<Rightarrow> tfs_iget_by_inr f (sint (d_inode (data_of f cs) off)))"

section \<open>Adding an entry\<close>

text \<open>
  The search for a free slot: \<open>Inl\<close> an error; \<open>Inr (block, cs, off, index)\<close>, with block 0 when
  the directory ends before one is found.
\<close>

function free_slot ::
    "tfs_sb_info \<Rightarrow> tfs \<Rightarrow> inode \<Rightarrow> u32 \<Rightarrow> node \<Rightarrow> nat \<Rightarrow> nat \<Rightarrow> ((int + u32 \<times> node \<times> nat \<times> nat) \<times> tfs) option" where
  "free_slot s f dir block cs off index =
     (if off \<ge> unat (s_block_size s)
      then (case data_word f dir index of
              None \<Rightarrow> None
            | Some block \<Rightarrow>
                if block = 0 then Some (Inr (0, cs, off, index + 1), f)
                else (case cache_get f block of
                        (None, f) \<Rightarrow> Some (Inl (- errno_num EIO), f)
                      | (Some cs, f) \<Rightarrow> free_slot s f dir block cs 0 (index + 1)))
      else if d_inode (data_of f cs) off = 0 then Some (Inr (block, cs, off, index), f)
      else free_slot s f dir block cs (off + dirent_size) index)"
  by pat_completeness auto
termination
  by (relation "measures [\<lambda>(s, f, dir, block, cs, off, index). Suc TFS_N_BLOCKS - index,
      \<lambda>(s, f, dir, block, cs, off, index). unat (s_block_size s) - off]")
    (auto simp: data_word_def dirent_size_def split: if_splits)

declare free_slot.simps [simp del]

text \<open>The entry as \<^verbatim>\<open>memset\<close>, the assignment and \<^verbatim>\<open>memcpy\<close> leave it.\<close>

definition entry_bytes :: "int \<Rightarrow> u8 list \<Rightarrow> u8 list" where
  "entry_bytes inr name =
     splice_at 4 name (splice_at 0 (bytes32 (word_of_int inr)) (replicate dirent_size 0))"

text \<open>The end of \<^verbatim>\<open>tfs_add_entry\<close>: write the entry at \<open>off\<close> of \<open>cs\<close>, then the block.\<close>

definition put_entry ::
    "tfs \<Rightarrow> inode \<Rightarrow> u8 list \<Rightarrow> int \<Rightarrow> u32 \<Rightarrow> node \<Rightarrow> nat \<Rightarrow> int \<times> inode \<times> bool \<times> tfs" where
  "put_entry f dir name inr block cs off =
     (let dir = dir\<lparr>i_size := i_size dir + word_of_nat dirent_size\<rparr>;
          buf = splice_at off (entry_bytes inr name) (data_of f cs);
          f = set_data f cs buf
      in case write_block f block buf of
           (res, f) \<Rightarrow> (if res \<noteq> 0 then - errno_num EIO else 0, dir, True, f))"

text \<open>
  \<^verbatim>\<open>alloc_new_block\<close>. The block number is unsigned, so the test for an error of
  \<^verbatim>\<open>tfs_alloc_block\<close> never holds and \<open>-ENOSPC\<close> or \<open>-EIO\<close> goes on as a block number. The block is
  allocated before the size of the directory is tested.
\<close>

definition add_block ::
    "tfs \<Rightarrow> inode \<Rightarrow> u8 list \<Rightarrow> int \<Rightarrow> nat \<Rightarrow> bool \<Rightarrow> (int \<times> inode \<times> bool \<times> tfs) option" where
  "add_block f dir name inr index dirty =
     (case tfs_alloc_block f (s_data_area (sbi f)) of
        None \<Rightarrow> None
      | Some (res, f) \<Rightarrow>
          let block = word_of_int res :: u32 in
          if index > TFS_N_BLOCKS then Some (- errno_num EFBIG, dir, dirty, f)
          else let dir = dir\<lparr>i_data := (i_data dir)[index - 1 := block]\<rparr> in
            (case cache_get f block of
               (None, f) \<Rightarrow> Some (- errno_num EIO, dir, dirty, f)
             | (Some cs, f) \<Rightarrow>
                 let size = unat (s_block_size (sbi f));
                     f = set_data f cs (replicate size 0 @ drop size (data_of f cs))
                 in Some (put_entry f dir name inr block cs 0)))"

text \<open>
  \<^verbatim>\<open>tfs_add_entry\<close>: the result, the directory's inode and \<^verbatim>\<open>*dirty\<close> after the call.
\<close>

definition tfs_add_entry ::
    "tfs \<Rightarrow> inode \<Rightarrow> u8 list \<Rightarrow> int \<Rightarrow> bool \<Rightarrow> (int \<times> inode \<times> bool \<times> tfs) option" where
  "tfs_add_entry f dir name inr dirty =
     (case strlen name of
        None \<Rightarrow> None
      | Some n \<Rightarrow>
          if n > TFS_NAME_LEN then Some (- errno_num ENAMETOOLONG, dir, dirty, f)
          else let name = take n name; block = i_data dir ! 0 in
            if block = 0 then add_block f dir name inr 1 dirty
            else (case cache_get f block of
                    (None, f) \<Rightarrow> Some (- errno_num EIO, dir, dirty, f)
                  | (Some cs, f) \<Rightarrow>
                      (case free_slot (sbi f) f dir block cs 0 1 of
                         None \<Rightarrow> None
                       | Some (Inl e, f) \<Rightarrow> Some (e, dir, dirty, f)
                       | Some (Inr (block, cs, off, index), f) \<Rightarrow>
                           if block = 0 then add_block f dir name inr index False
                           else Some (put_entry f dir name inr block cs off))))"

section \<open>Making files and directories\<close>

text \<open>
  \<^verbatim>\<open>tfs_mknod\<close>, with the directory's inode after the call. An error of the lookup counts as not
  found; a failure after the inode number was allocated leaves it allocated.
\<close>

definition tfs_mknod ::
    "tfs \<Rightarrow> inode \<Rightarrow> u8 list \<Rightarrow> int \<Rightarrow> ((int + inode) \<times> inode \<times> tfs) option" where
  "tfs_mknod f dir dname mode =
     (case tfs_find_entry f dir dname of
        None \<Rightarrow> None
      | Some (Found _ _, f) \<Rightarrow> Some (Inl (- errno_num EEXIST), dir, f)
      | Some (_, f) \<Rightarrow>
          (case tfs_new_inode f dir mode (TFS_N_BLOCKS * 4) of
             None \<Rightarrow> None
           | Some (Inl e, f) \<Rightarrow> Some (Inl e, dir, f)
           | Some (Inr inode, f) \<Rightarrow>
               let inode = inode\<lparr>i_mtime := current_time, i_atime := current_time\<rparr> in
               (case tfs_iwrite f inode of
                  None \<Rightarrow> None
                | Some (res, f) \<Rightarrow>
                    if res \<noteq> 0 then Some (Inl (- errno_num EIO), dir, f)
                    else (case tfs_add_entry f dir dname (sint (i_ino inode)) False of
                            None \<Rightarrow> None
                          | Some (err, dir, dirty, f) \<Rightarrow>
                              if err \<noteq> 0 then Some (Inl err, dir, f)
                              else if dirty
                              then (case tfs_iwrite f dir of
                                      None \<Rightarrow> None
                                    | Some (res, f) \<Rightarrow>
                                        if res \<noteq> 0 then Some (Inl (- errno_num EIO), dir, f)
                                        else Some (Inr inode, dir, f))
                              else Some (Inr inode, dir, f)))))"

text \<open>
  \<^verbatim>\<open>tfs_mkdir\<close>, with the parent's inode after the call. The variable \<^verbatim>\<open>dirty\<close> is not initialised;
  a successful \<^verbatim>\<open>tfs_add_entry\<close> always sets it.
\<close>

definition dot :: "u8 list" where "dot = [46, 0]"
definition dotdot :: "u8 list" where "dotdot = [46, 46, 0]"

definition tfs_mkdir :: "tfs \<Rightarrow> inode \<Rightarrow> u8 list \<Rightarrow> (int \<times> inode \<times> tfs) option" where
  "tfs_mkdir f parent_dir dname =
     (case tfs_mknod f parent_dir dname TFS_DIR of
        None \<Rightarrow> None
      | Some (Inl e, parent_dir, f) \<Rightarrow> Some (e, parent_dir, f)
      | Some (Inr dir, parent_dir, f) \<Rightarrow>
          (case tfs_add_entry f dir dot (sint (i_ino dir)) False of
             None \<Rightarrow> None
           | Some (err, dir, dirty, f) \<Rightarrow>
               if err \<noteq> 0 then Some (err, parent_dir, f)
               else (case tfs_add_entry f dir dotdot (sint (i_ino parent_dir)) dirty of
                       None \<Rightarrow> None
                     | Some (err, dir, dirty, f) \<Rightarrow>
                         if err < 0 then Some (err, parent_dir, f)
                         else if dirty
                         then map_option (\<lambda>(err, f). (err, parent_dir, f)) (tfs_iwrite f dir)
                         else Some (err, parent_dir, f))))"

section \<open>Removing\<close>

definition is_empty_dir :: "inode \<Rightarrow> int" where
  "is_empty_dir dir =
     (if unat (i_size dir) > 2 * dirent_size then 0
      else if unat (i_size dir) < 2 * dirent_size then - 1 else 1)"

text \<open>
  The common end of \<^verbatim>\<open>tfs_rmdir\<close> and \<^verbatim>\<open>tfs_unlink\<close>: shrink and write the directory, clear the
  entry's inode number, write the block that the cache entry holds, release the inode.
\<close>

definition remove_entry ::
    "tfs \<Rightarrow> inode \<Rightarrow> node \<Rightarrow> nat \<Rightarrow> inode \<Rightarrow> (int \<times> inode \<times> tfs) option" where
  "remove_entry f dir cs off inode =
     (let dir = dir\<lparr>i_size := i_size dir - word_of_nat dirent_size\<rparr> in
      case tfs_iwrite f dir of
        None \<Rightarrow> None
      | Some (err, f) \<Rightarrow>
          if err \<noteq> 0 then Some (err, dir, f)
          else let buf = splice_at off (bytes32 0) (data_of f cs); f = set_data f cs buf in
            (case write_block f (blk (cch f) cs) buf of
               (err, f) \<Rightarrow>
                 if err \<noteq> 0 then Some (err, dir, f)
                 else map_option (\<lambda>(err, f). (err, dir, f)) (tfs_release_inode f inode)))"

definition tfs_rmdir :: "tfs \<Rightarrow> inode \<Rightarrow> u8 list \<Rightarrow> (int \<times> inode \<times> tfs) option" where
  "tfs_rmdir f dir dname =
     (case tfs_find_entry f dir dname of
        None \<Rightarrow> None
      | Some (Not_found, f) \<Rightarrow> Some (- errno_num ENOENT, dir, f)
      | Some (Find_err e, f) \<Rightarrow> Some (e, dir, f)
      | Some (Found cs off, f) \<Rightarrow>
          (case tfs_iget_by_inr f (sint (d_inode (data_of f cs) off)) of
             None \<Rightarrow> None
           | Some (Inl e, f) \<Rightarrow> Some (e, dir, f)
           | Some (Inr inode, f) \<Rightarrow>
               if i_mode inode \<noteq> TFS_DIR then Some (- errno_num ENOTDIR, dir, f)
               else if is_empty_dir inode = 0 then Some (- errno_num ENOTEMPTY, dir, f)
               else if is_empty_dir inode = - 1 then Some (- errno_num EINVAL, dir, f)
               else remove_entry f dir cs off inode))"

text \<open>
  In \<^verbatim>\<open>tfs_unlink\<close> the result for something that is not a file is an uninitialised variable, the
  argument \<open>junk\<close>.
\<close>

definition tfs_unlink :: "int \<Rightarrow> tfs \<Rightarrow> inode \<Rightarrow> u8 list \<Rightarrow> (int \<times> inode \<times> tfs) option" where
  "tfs_unlink junk f dir dname =
     (case tfs_find_entry f dir dname of
        None \<Rightarrow> None
      | Some (Not_found, f) \<Rightarrow> Some (- errno_num ENOENT, dir, f)
      | Some (Find_err e, f) \<Rightarrow> Some (e, dir, f)
      | Some (Found cs off, f) \<Rightarrow>
          (case tfs_iget_by_inr f (sint (d_inode (data_of f cs) off)) of
             None \<Rightarrow> None
           | Some (Inl e, f) \<Rightarrow> Some (e, dir, f)
           | Some (Inr inode, f) \<Rightarrow>
               if i_mode inode \<noteq> TFS_FILE then Some (junk, dir, f)
               else remove_entry f dir cs off inode))"

section \<open>Reading a directory\<close>

record tfile =
  f_inode :: inode
  f_offset :: u32

record dirent =
  de_ino :: u32
  de_off :: u32
  de_reclen :: u16
  de_type :: u16
  de_name :: "u8 list"

text \<open>
  \<^verbatim>\<open>tfs_readdir\<close>; the inner \<^term>\<open>None\<close> is the null pointer. It calls itself to skip a free entry.
  The result of \<^verbatim>\<open>get_cache_block\<close> is not checked.
\<close>

partial_function (option) tfs_readdir :: "tfs \<Rightarrow> tfile \<Rightarrow> (dirent option \<times> tfile \<times> tfs) option" where
  "tfs_readdir f file =
     (case tfs_bmap (f_inode file) (int (unat (drop_bit (unat (s_block_shift (sbi f))) (f_offset file)))) of
        None \<Rightarrow> None
      | Some block \<Rightarrow>
          if block = 0 then Some (None, file, f)
          else (case cache_get f block of
                  (None, f) \<Rightarrow> None
                | (Some cs, f) \<Rightarrow>
                    let off = unat (f_offset file AND (s_block_size (sbi f) - 1)) in
                    (case malloc_ok f of (got, f) \<Rightarrow>
                       if \<not> got then Some (None, file, f)
                       else let b = data_of f cs;
                             dirent = \<lparr>de_ino = d_inode b off, de_off = f_offset file,
                               de_reclen = word_of_nat dirent_size, de_type = 0,
                               de_name = take TFS_NAME_LEN (d_name b off) @ replicate (256 - TFS_NAME_LEN) 0\<rparr>;
                             file = file\<lparr>f_offset := f_offset file + word_of_nat dirent_size\<rparr>
                         in if d_inode b off = 0 then tfs_readdir f file
                            else Some (Some dirent, file, f))))"

section \<open>The entries of a directory\<close>

definition entry_name :: "u8 list \<Rightarrow> nat \<Rightarrow> u8 list" where
  "entry_name b off = takeWhile (\<lambda>c. c \<noteq> 0) (slice (off + 4) TFS_NAME_LEN b)"

text \<open>A used entry whose name ends inside its 28 bytes.\<close>

definition entry_ok :: "u8 list \<Rightarrow> nat \<Rightarrow> bool" where
  "entry_ok b off \<longleftrightarrow> d_inode b off \<noteq> 0 \<longrightarrow> 0 \<in> set (slice (off + 4) TFS_NAME_LEN b)"

definition slots :: "tfs \<Rightarrow> nat" where "slots f = bsize (sbi f) div dirent_size"

text \<open>The blocks the lookup visits: the first, then the rest up to one outside the data area.\<close>

definition dir_blocks :: "tfs \<Rightarrow> inode \<Rightarrow> u32 list" where
  "dir_blocks f dir =
     (if i_data dir ! 0 = 0 then []
      else i_data dir ! 0 # takeWhile (\<lambda>b. s_data_area (sbi f) \<le> b) (tl (i_data dir)))"

text \<open>The used entries of a list of blocks, as block and offset, and the first with a given name.\<close>

definition entries_of :: "tfs \<Rightarrow> u32 list \<Rightarrow> (u32 \<times> nat) list" where
  "entries_of f bs =
     concat (map (\<lambda>b. map (Pair b) (filter (\<lambda>off. d_inode (fblock f b) off \<noteq> 0)
       (map (\<lambda>k. k * dirent_size) [0..<slots f]))) bs)"

definition lookup_in :: "tfs \<Rightarrow> u32 list \<Rightarrow> u8 list \<Rightarrow> (u32 \<times> nat) option" where
  "lookup_in f bs n = List.find (\<lambda>(b, off). entry_name (fblock f b) off = n) (entries_of f bs)"

definition dir_lookup :: "tfs \<Rightarrow> inode \<Rightarrow> u8 list \<Rightarrow> (u32 \<times> nat) option" where
  "dir_lookup f dir n = lookup_in f (dir_blocks f dir) n"

text \<open>A directory all of whose blocks are good and whose entries are well formed.\<close>

definition dir_ok :: "tfs \<Rightarrow> inode \<Rightarrow> bool" where
  "dir_ok f dir \<longleftrightarrow> length (i_data dir) = TFS_N_BLOCKS \<and> behind f < s_data_area (sbi f) \<and>
     (\<forall>b \<in> set (dir_blocks f dir). fvalid f b \<and> (\<forall>k < slots f. entry_ok (fblock f b) (k * dirent_size)))"

lemma slots_size: "fs_ok f \<Longrightarrow> slots f * dirent_size = bsize (sbi f) \<and> 16 \<le> slots f"
proof -
  assume ok: "fs_ok f"
  note r = bsize_range [OF fs_ok_sbi [OF ok]]
  have "32 dvd bsize (sbi f)" using dvd_trans [of 32 512 "bsize (sbi f)"] r(4) by simp
  then have "slots f * dirent_size = bsize (sbi f)" by (simp add: slots_def dirent_size_def)
  with r(1) show ?thesis by (simp add: dirent_size_def)
qed

lemma slot_room: "fs_ok f \<Longrightarrow> k < slots f \<Longrightarrow> k * dirent_size + dirent_size \<le> bsize (sbi f)"
  using slots_size [of f] mult_le_mono1 [of "Suc k" "slots f" dirent_size] by simp

lemma entry_name_is_str:
  assumes "off + dirent_size \<le> length b" and "0 \<in> set (slice (off + 4) TFS_NAME_LEN b)"
  shows "is_str (d_name b off) (entry_name b off)" "length (entry_name b off) < TFS_NAME_LEN"
proof -
  let ?n = "slice (off + 4) TFS_NAME_LEN b"
  have d: "d_name b off = ?n @ drop TFS_NAME_LEN (d_name b off)"
    unfolding d_name_def slice_def by (rule append_take_drop_id [symmetric])
  obtain xs ys where n: "?n = xs @ 0 # ys" "0 \<notin> set xs" using split_list_first [OF assms(2)] by blast
  then have e: "entry_name b off = xs" unfolding entry_name_def n by (auto simp: takeWhile_tail)
  then show "is_str (d_name b off) (entry_name b off)"
    using n by (subst d) (simp add: is_str_def)
  have "length ?n = TFS_NAME_LEN" using assms(1) by (simp add: dirent_size_def TFS_NAME_LEN_def)
  with n e show "length (entry_name b off) < TFS_NAME_LEN" by (metis add_less_cancel_left length_append length_Cons less_add_same_cancel1 zero_less_Suc)
qed

lemma match_entry_ok:
  assumes "is_str dname n" and "length n < TFS_NAME_LEN" and "off + dirent_size \<le> length b" and "entry_ok b off"
  shows "tfs_match_entry dname b off = Some (d_inode b off \<noteq> 0 \<and> entry_name b off = n)"
proof (cases "d_inode b off = 0")
  case True
  then show ?thesis by (simp add: tfs_match_entry_def)
next
  case False
  with assms(4) have "0 \<in> set (slice (off + 4) TFS_NAME_LEN b)" by (simp add: entry_ok_def)
  note m = entry_name_is_str [OF assms(3) this]
  let ?m = "entry_name b off"
  have "\<exists>r. strncmp dname (d_name b off) (int (length n)) = Some r \<and>
      (length n = length ?m \<longrightarrow> (r = 0 \<longleftrightarrow> n = ?m))"
  proof (cases "n = []")
    case True
    with strncmp_nonpos [OF assms(1) m(1), of 0] show ?thesis by auto
  next
    case False
    with strncmp_is_str [OF assms(1) m(1), of "int (length n)"]
    obtain r where "strncmp dname (d_name b off) (int (length n)) = Some r"
      "r = 0 \<longleftrightarrow> n = take (length n) ?m" by auto
    then show ?thesis by auto
  qed
  then obtain r where r: "strncmp dname (d_name b off) (int (length n)) = Some r"
    "length n = length ?m \<longrightarrow> (r = 0 \<longleftrightarrow> n = ?m)" by blast
  show ?thesis
    using False assms(2) r strlen_is_str [OF assms(1)] strlen_is_str [OF m(1)]
    by (auto simp: tfs_match_entry_def)
qed

lemma find_map_filter:
  "List.find P (map g (filter Q xs)) = map_option g (List.find (\<lambda>x. Q x \<and> P (g x)) xs)"
  by (induction xs) auto

text \<open>The slots of one block.\<close>

lemma find_in_block:
  assumes ok: "fs_ok f" and h: "holds f cs b" "fvalid f b" and n: "is_str dname n" "length n < TFS_NAME_LEN"
    and e: "\<forall>k < slots f. entry_ok (fblock f b) (k * dirent_size)" and "i \<le> slots f"
  shows "find_from (sbi f) f dir dname cs (i * dirent_size) index =
    (case List.find (\<lambda>k. d_inode (fblock f b) (k * dirent_size) \<noteq> 0 \<and>
          entry_name (fblock f b) (k * dirent_size) = n) [i..<slots f] of
       Some k \<Rightarrow> Some (Found cs (k * dirent_size), f)
     | None \<Rightarrow> find_from (sbi f) f dir dname cs (bsize (sbi f)) index)"
  using assms(7)
proof (induction "slots f - i" arbitrary: i)
  case 0
  then have "i = slots f" by simp
  then show ?case using slots_size [OF ok] by simp
next
  case (Suc m)
  then have i: "i < slots f" by simp
  let ?off = "i * dirent_size" and ?b = "fblock f b"
  have room: "?off + dirent_size \<le> bsize (sbi f)" by (rule slot_room [OF ok i])
  have d: "data_of f cs = ?b" by (rule fsc.has_data [OF ok h])
  have l: "length ?b = bsize (sbi f)" by (rule fsc.content_len [OF ok])
  have sz: "unat (s_block_size (sbi f)) = bsize (sbi f)" by (rule bsize_range [OF fs_ok_sbi [OF ok]])
  have lt: "\<not> unat (s_block_size (sbi f)) \<le> ?off" using room sz by (simp add: dirent_size_def)
  have mt: "tfs_match_entry dname ?b ?off = Some (d_inode ?b ?off \<noteq> 0 \<and> entry_name ?b ?off = n)"
    using e i room l by (intro match_entry_ok [OF n]) simp_all
  have upt: "[i..<slots f] = i # [Suc i..<slots f]" using i by (rule upt_conv_Cons)
  have IH: "find_from (sbi f) f dir dname cs (?off + dirent_size) index =
    (case List.find (\<lambda>k. d_inode ?b (k * dirent_size) \<noteq> 0 \<and> entry_name ?b (k * dirent_size) = n) [Suc i..<slots f] of
       Some k \<Rightarrow> Some (Found cs (k * dirent_size), f)
     | None \<Rightarrow> find_from (sbi f) f dir dname cs (bsize (sbi f)) index)"
    using Suc.hyps(1) [of "Suc i"] Suc.hyps(2) i by (simp add: add.commute)
  show ?case
  proof (cases "d_inode ?b ?off = 0")
    case True
    then show ?thesis
      unfolding upt by (subst find_from.simps) (simp add: lt d IH)
  next
    case False
    then show ?thesis
      unfolding upt by (subst find_from.simps) (simp add: lt d IH mt)
  qed
qed

definition slot_of :: "tfs \<Rightarrow> u32 \<Rightarrow> u8 list \<Rightarrow> nat option" where
  "slot_of f b n = List.find (\<lambda>k. d_inode (fblock f b) (k * dirent_size) \<noteq> 0 \<and>
     entry_name (fblock f b) (k * dirent_size) = n) [0..<slots f]"

lemma lookup_in_Nil: "lookup_in f [] n = None"
  by (simp add: lookup_in_def entries_of_def)

lemma lookup_in_Cons:
  "lookup_in f (b # bs) n =
     (case slot_of f b n of Some k \<Rightarrow> Some (b, k * dirent_size) | None \<Rightarrow> lookup_in f bs n)"
  by (simp add: lookup_in_def entries_of_def slot_of_def find_append_case find_map_filter filter_map comp_def
      split: option.splits)

text \<open>What a lookup found, against the specification.\<close>

definition find_agrees :: "tfs \<Rightarrow> (u32 \<times> nat) option \<Rightarrow> find_res \<Rightarrow> bool" where
  "find_agrees f spec r \<longleftrightarrow> (case spec of
     None \<Rightarrow> r = Not_found
   | Some (b, off) \<Rightarrow> \<exists>cs. r = Found cs off \<and> holds f cs b)"

text \<open>The state is the same up to the order of the cache.\<close>

definition same_volume :: "tfs \<Rightarrow> tfs \<Rightarrow> bool" where
  "same_volume f f' \<longleftrightarrow> fs_ok f' \<and> same_mount f f' \<and> fblock f' = fblock f"

lemma same_volume_views:
  assumes "same_volume f f'"
  shows "slots f' = slots f" "lookup_in f' = lookup_in f" "dir_blocks f' = dir_blocks f" "slot_of f' = slot_of f"
proof -
  have *: "sbi f' = sbi f" "fblock f' = fblock f" using assms by (auto simp: same_volume_def)
  show s: "slots f' = slots f" by (simp add: slots_def *)
  show "lookup_in f' = lookup_in f" "dir_blocks f' = dir_blocks f" "slot_of f' = slot_of f"
    by (simp_all add: fun_eq_iff lookup_in_def entries_of_def dir_blocks_def slot_of_def s *)
qed

lemma same_volume_trans: "same_volume f g \<Longrightarrow> same_volume g h \<Longrightarrow> same_volume f h"
  using fsc.same_trans by (auto simp: same_volume_def)

lemma find_block_then:
  assumes ok: "fs_ok f" and h: "holds f cs b" "fvalid f b" and n: "is_str dname n" "length n < TFS_NAME_LEN"
    and e: "\<forall>k < slots f. entry_ok (fblock f b) (k * dirent_size)"
    and rest: "\<exists>r f'. find_from (sbi f) f dir dname cs (bsize (sbi f)) index = Some (r, f') \<and>
      same_volume f f' \<and> find_agrees f' (lookup_in f bs n) r"
  shows "\<exists>r f'. find_from (sbi f) f dir dname cs 0 index = Some (r, f') \<and>
      same_volume f f' \<and> find_agrees f' (lookup_in f (b # bs) n) r"
proof -
  note fb = find_in_block [OF ok h n e le0, of dir index, folded slot_of_def, simplified]
  show ?thesis
  proof (cases "slot_of f b n")
    case None
    with rest show ?thesis by (simp add: fb lookup_in_Cons)
  next
    case (Some k)
    with ok h show ?thesis by (simp add: fb lookup_in_Cons same_volume_def find_agrees_def)
  qed
qed

lemma find_rest:
  assumes "fs_ok f" and "length (i_data dir) = TFS_N_BLOCKS" and "behind f < s_data_area (sbi f)"
    and n: "is_str dname n" "length n < TFS_NAME_LEN" and "index \<le> TFS_N_BLOCKS"
    and "\<forall>b \<in> set (takeWhile (\<lambda>b. s_data_area (sbi f) \<le> b) (drop index (i_data dir))).
      fvalid f b \<and> (\<forall>k < slots f. entry_ok (fblock f b) (k * dirent_size))"
  shows "\<exists>r f'. find_from (sbi f) f dir dname cs (bsize (sbi f)) index = Some (r, f') \<and> same_volume f f' \<and>
    find_agrees f' (lookup_in f (takeWhile (\<lambda>b. s_data_area (sbi f) \<le> b) (drop index (i_data dir))) n) r"
  using assms(1,3,6,7)
proof (induction "TFS_N_BLOCKS - index" arbitrary: f index cs)
  case 0
  then have i: "index = TFS_N_BLOCKS" by simp
  have sz: "unat (s_block_size (sbi f)) = bsize (sbi f)" by (rule bsize_range [OF fs_ok_sbi [OF "0.prems"(1)]])
  have "find_from (sbi f) f dir dname cs (bsize (sbi f)) index = Some (Not_found, f)"
    using "0.prems"(2) by (subst find_from.simps) (simp add: sz i data_word_def)
  moreover have "drop index (i_data dir) = []" using i assms(2) by simp
  ultimately show ?case using "0.prems"(1) by (simp add: lookup_in_Nil find_agrees_def same_volume_def)
next
  case (Suc m)
  then have i: "index < TFS_N_BLOCKS" by simp
  let ?b = "i_data dir ! index" and ?P = "\<lambda>b. s_data_area (sbi f) \<le> b"
  have d: "drop index (i_data dir) = ?b # drop (Suc index) (i_data dir)"
    using i assms(2) by (simp add: Cons_nth_drop_Suc)
  have sz: "unat (s_block_size (sbi f)) = bsize (sbi f)" by (rule bsize_range [OF fs_ok_sbi [OF Suc.prems(1)]])
  have dw: "data_word f dir index = Some ?b" using i by (simp add: data_word_def)
  show ?case
  proof (cases "?P ?b")
    case False
    then have "find_from (sbi f) f dir dname cs (bsize (sbi f)) index = Some (Not_found, f)"
      by (subst find_from.simps) (simp add: sz dw not_le)
    with False show ?thesis
      using Suc.prems(1) by (simp add: d lookup_in_Nil find_agrees_def same_volume_def)
  next
    case True
    let ?rest = "takeWhile ?P (drop (Suc index) (i_data dir))"
    have tw: "takeWhile ?P (drop index (i_data dir)) = ?b # ?rest" using True by (simp add: d)
    have v: "fvalid f ?b" "\<forall>k < slots f. entry_ok (fblock f ?b) (k * dirent_size)"
      and rest: "\<forall>b \<in> set ?rest. fvalid f b \<and> (\<forall>k < slots f. entry_ok (fblock f b) (k * dirent_size))"
      using Suc.prems(4) unfolding tw by auto
    obtain cs1 f1 where g: "cache_get f ?b = (Some cs1, f1)" "fs_ok f1" "same_mount f f1" "fblock f1 = fblock f"
      "holds f1 cs1 ?b" using fsc.get_law [OF Suc.prems(1) v(1)] by blast
    have sv: "same_volume f f1" using g by (simp add: same_volume_def)
    note views = same_volume_views [OF sv]
    have s1: "sbi f1 = sbi f" "fvalid f1 = fvalid f" "behind f1 = behind f" using g(3) by simp_all
    have "m = TFS_N_BLOCKS - Suc index" "Suc index \<le> TFS_N_BLOCKS" using Suc.hyps(2) i by simp_all
    then have IH: "\<exists>r f'. find_from (sbi f1) f1 dir dname cs1 (bsize (sbi f1)) (Suc index) = Some (r, f') \<and>
        same_volume f1 f' \<and> find_agrees f' (lookup_in f1 ?rest n) r"
      using Suc.hyps(1) [of "Suc index" f1 cs1] g(2,4) s1 Suc.prems(2) rest views by simp
    have "\<exists>r f'. find_from (sbi f1) f1 dir dname cs1 0 (Suc index) = Some (r, f') \<and>
        same_volume f1 f' \<and> find_agrees f' (lookup_in f1 (?b # ?rest) n) r"
      using v s1 g(4) views by (intro find_block_then [OF g(2,5) _ n _ IH]) simp_all
    then obtain r f2 where r: "find_from (sbi f) f1 dir dname cs1 0 (Suc index) = Some (r, f2)"
      "same_volume f1 f2" "find_agrees f2 (lookup_in f (?b # ?rest) n) r" unfolding s1 views by blast
    have "find_from (sbi f) f dir dname cs (bsize (sbi f)) index = Some (r, f2)"
      unfolding find_from.simps [of "sbi f" f dir dname cs "bsize (sbi f)" index] sz dw option.case g(1) prod.case
      using True r(1) by (simp only: order_refl if_True not_less [symmetric] if_False add_Suc_right Suc_eq_plus1 not_not)
    with r same_volume_trans [OF sv] show ?thesis unfolding tw by blast
  qed
qed

lemma find_entry_ok:
  assumes ok: "fs_ok f" and d: "dir_ok f dir" and n: "is_str dname n" "length n < TFS_NAME_LEN"
  shows "\<exists>r f'. tfs_find_entry f dir dname = Some (r, f') \<and> same_volume f f' \<and>
    find_agrees f' (dir_lookup f dir n) r"
proof (cases "i_data dir ! 0 = 0")
  case True
  with ok show ?thesis
    by (simp add: tfs_find_entry_def dir_lookup_def dir_blocks_def lookup_in_Nil find_agrees_def same_volume_def)
next
  case False
  let ?b = "i_data dir ! 0" and ?rest = "takeWhile (\<lambda>b. s_data_area (sbi f) \<le> b) (drop 1 (i_data dir))"
  have bs: "dir_blocks f dir = ?b # ?rest" using False by (simp add: dir_blocks_def drop_Suc)
  have v: "fvalid f ?b" "\<forall>k < slots f. entry_ok (fblock f ?b) (k * dirent_size)"
    and rest: "\<forall>b \<in> set ?rest. fvalid f b \<and> (\<forall>k < slots f. entry_ok (fblock f b) (k * dirent_size))"
    and l: "length (i_data dir) = TFS_N_BLOCKS" "behind f < s_data_area (sbi f)"
    using d unfolding dir_ok_def bs by auto
  obtain cs1 f1 where g: "cache_get f ?b = (Some cs1, f1)" "fs_ok f1" "same_mount f f1" "fblock f1 = fblock f"
    "holds f1 cs1 ?b" using fsc.get_law [OF ok v(1)] by blast
  have sv: "same_volume f f1" using g by (simp add: same_volume_def)
  note views = same_volume_views [OF sv]
  have s1: "sbi f1 = sbi f" "fvalid f1 = fvalid f" "behind f1 = behind f" using g(3) by simp_all
  have R: "\<exists>r f'. find_from (sbi f1) f1 dir dname cs1 (bsize (sbi f1)) 1 = Some (r, f') \<and>
      same_volume f1 f' \<and> find_agrees f' (lookup_in f1 ?rest n) r"
    using find_rest [OF g(2) l(1) _ n, of 1 cs1] l(2) rest s1 g(4) views by (simp add: TFS_N_BLOCKS_def)
  have "\<exists>r f'. find_from (sbi f1) f1 dir dname cs1 0 1 = Some (r, f') \<and>
      same_volume f1 f' \<and> find_agrees f' (lookup_in f1 (?b # ?rest) n) r"
    using v s1 g(4) views by (intro find_block_then [OF g(2,5) _ n _ R]) simp_all
  then obtain r f2 where r: "find_from (sbi f1) f1 dir dname cs1 0 1 = Some (r, f2)"
    "same_volume f1 f2" "find_agrees f2 (lookup_in f (?b # ?rest) n) r" unfolding views by blast
  have "tfs_find_entry f dir dname = Some (r, f2)"
    using False r(1) by (simp add: tfs_find_entry_def g(1))
  with r same_volume_trans [OF sv] show ?thesis unfolding dir_lookup_def bs by blast
qed

section \<open>The directory as a set of names\<close>

definition block_listing :: "u8 list \<Rightarrow> nat \<Rightarrow> (u8 list \<times> u32) set" where
  "block_listing b m = {(entry_name b (k * dirent_size), d_inode b (k * dirent_size)) | k.
     k < m \<and> d_inode b (k * dirent_size) \<noteq> 0}"

definition listing :: "tfs \<Rightarrow> u32 list \<Rightarrow> (u8 list \<times> u32) set" where
  "listing f bs = (\<Union>b \<in> set bs. block_listing (fblock f b) (slots f))"

text \<open>
  \<open>bs\<close> are the blocks of the directory: valid blocks of the data area with well-formed entries at
  the front of \<^verbatim>\<open>i_data\<close>, the rest of which is 0, as is the word behind.
\<close>

definition dir_wf :: "tfs \<Rightarrow> inode \<Rightarrow> u32 list \<Rightarrow> bool" where
  "dir_wf f dir bs \<longleftrightarrow> length bs \<le> TFS_N_BLOCKS \<and> i_data dir = bs @ replicate (TFS_N_BLOCKS - length bs) 0 \<and>
     0 < s_data_area (sbi f) \<and> behind f = 0 \<and>
     (\<forall>b \<in> set bs. s_data_area (sbi f) \<le> b \<and> fvalid f b \<and> (\<forall>k < slots f. entry_ok (fblock f b) (k * dirent_size)))"

lemma takeWhile_zeros: "\<forall>b \<in> set xs. P b \<Longrightarrow> \<not> P z \<Longrightarrow> takeWhile P (xs @ replicate m z) = xs"
  by (induction xs) (cases m; simp)+

lemma dir_wf_blocks:
  assumes "dir_wf f dir bs"
  shows "dir_blocks f dir = bs" "dir_ok f dir" "length (i_data dir) = TFS_N_BLOCKS"
proof -
  have w: "i_data dir = bs @ replicate (TFS_N_BLOCKS - length bs) 0" "length bs \<le> TFS_N_BLOCKS"
    "0 < s_data_area (sbi f)" "behind f = 0" "\<forall>b \<in> set bs. s_data_area (sbi f) \<le> b"
    "\<forall>b \<in> set bs. fvalid f b \<and> (\<forall>k < slots f. entry_ok (fblock f b) (k * dirent_size))"
    using assms unfolding dir_wf_def by blast+
  have pos: "b \<noteq> 0" if "b \<in> set bs" for b using bspec [OF w(5) that] w(3) by auto
  show l: "length (i_data dir) = TFS_N_BLOCKS" using w(1,2) by simp
  show e: "dir_blocks f dir = bs"
  proof (cases bs)
    case Nil
    then show ?thesis using w(1) by (simp add: dir_blocks_def TFS_N_BLOCKS_def)
  next
    case (Cons b cs)
    have "\<forall>x \<in> set cs. s_data_area (sbi f) \<le> x" "\<not> s_data_area (sbi f) \<le> 0" using w(3,5) Cons by simp_all
    then have "takeWhile (\<lambda>b. s_data_area (sbi f) \<le> b) (cs @ replicate (TFS_N_BLOCKS - length bs) 0) = cs"
      by (rule takeWhile_zeros)
    moreover have "b \<noteq> 0" using pos Cons by simp
    moreover have "i_data dir = b # cs @ replicate (TFS_N_BLOCKS - length bs) 0" using w(1) Cons by simp
    ultimately show ?thesis using Cons by (simp add: dir_blocks_def)
  qed
  have "behind f < s_data_area (sbi f)" using w(3,4) by simp
  then show "dir_ok f dir" unfolding dir_ok_def e using w(6) l by blast
qed

lemma lookup_in_listing:
  "case lookup_in f bs n of
     None \<Rightarrow> \<forall>i. (n, i) \<notin> listing f bs
   | Some (b, off) \<Rightarrow> b \<in> set bs \<and> (n, d_inode (fblock f b) off) \<in> listing f bs"
proof (induction bs)
  case Nil
  then show ?case by (simp add: lookup_in_Nil listing_def)
next
  case (Cons b bs)
  show ?case
  proof (cases "slot_of f b n")
    case None
    then have "(n, i) \<notin> block_listing (fblock f b) (slots f)" for i
      by (auto simp: slot_of_def find_None_iff block_listing_def)
    then show ?thesis
      using Cons by (auto simp: lookup_in_Cons None listing_def split: option.splits)
  next
    case (Some k)
    then have "k < slots f" "d_inode (fblock f b) (k * dirent_size) \<noteq> 0" "entry_name (fblock f b) (k * dirent_size) = n"
      by (auto simp: slot_of_def find_Some_iff)
    then show ?thesis by (auto simp: lookup_in_Cons Some listing_def block_listing_def)
  qed
qed

text \<open>Writing an entry into a free slot adds it to the listing of the block.\<close>

lemma entry_bytes_eq:
  "length n \<le> TFS_NAME_LEN \<Longrightarrow> entry_bytes inr n = bytes32 (word_of_int inr) @ n @ replicate (TFS_NAME_LEN - length n) 0"
proof -
  assume n: "length n \<le> TFS_NAME_LEN"
  have "replicate dirent_size (0 :: u8) = replicate 4 0 @ replicate TFS_NAME_LEN 0"
    by (simp add: dirent_size_def TFS_NAME_LEN_def flip: replicate_add)
  then have "splice_at 0 (bytes32 (word_of_int inr)) (replicate dirent_size 0) =
      bytes32 (word_of_int inr) @ replicate TFS_NAME_LEN 0" by (simp add: splice_at_def)
  then show ?thesis by (simp add: entry_bytes_def splice_at_def)
qed

lemma entry_slice:
  assumes "off + dirent_size \<le> length b"
  shows "d_inode b off = le32_at (slice off dirent_size b) 0"
    and "entry_name b off = takeWhile (\<lambda>c. c \<noteq> 0) (drop 4 (slice off dirent_size b))"
    and "entry_ok b off \<longleftrightarrow> d_inode b off \<noteq> 0 \<longrightarrow> 0 \<in> set (drop 4 (slice off dirent_size b))"
proof -
  show "d_inode b off = le32_at (slice off dirent_size b) 0"
    using le_at_slice(1) [OF assms, of 0] by (simp add: d_inode_def dirent_size_def)
  have s: "drop 4 (slice off dirent_size b) = slice (off + 4) TFS_NAME_LEN b"
    by (simp add: slice_def drop_take dirent_size_def TFS_NAME_LEN_def add.commute)
  then show "entry_name b off = takeWhile (\<lambda>c. c \<noteq> 0) (drop 4 (slice off dirent_size b))"
    and "entry_ok b off \<longleftrightarrow> d_inode b off \<noteq> 0 \<longrightarrow> 0 \<in> set (drop 4 (slice off dirent_size b))"
    by (simp_all add: entry_name_def entry_ok_def)
qed

lemma entry_written:
  fixes inr :: int
  assumes "off + dirent_size \<le> length b" and "length n < TFS_NAME_LEN" and "0 \<notin> set n"
  defines "b' \<equiv> splice_at off (entry_bytes inr n) b"
  shows "length b' = length b" "d_inode b' off = word_of_int inr" "entry_name b' off = n" "entry_ok b' off"
    and "\<And>o2. o2 + dirent_size \<le> length b \<Longrightarrow> o2 + dirent_size \<le> off \<or> off + dirent_size \<le> o2 \<Longrightarrow>
      slice o2 dirent_size b' = slice o2 dirent_size b"
proof -
  have e: "entry_bytes inr n = bytes32 (word_of_int inr) @ n @ replicate (TFS_NAME_LEN - length n) 0"
    using assms(2) by (intro entry_bytes_eq) simp
  have l: "length (entry_bytes inr n) = dirent_size"
    using assms(2) by (simp add: e dirent_size_def TFS_NAME_LEN_def)
  show l': "length b' = length b" unfolding b'_def using assms(1) l by simp
  have s: "slice off dirent_size b' = entry_bytes inr n" unfolding b'_def using assms(1) l by simp
  have r: "off + dirent_size \<le> length b'" using assms(1) l' by simp
  show "d_inode b' off = word_of_int inr" unfolding entry_slice(1) [OF r] s e by (simp add: le_at_append)
  have dr: "drop 4 (entry_bytes inr n) = n @ replicate (TFS_NAME_LEN - length n) 0" by (simp add: e)
  show "entry_name b' off = n"
    unfolding entry_slice(2) [OF r] s dr using assms(3) by (intro takeWhile_zeros) auto
  show "entry_ok b' off" unfolding entry_slice(3) [OF r] s dr using assms(2) by simp
  show "slice o2 dirent_size b' = slice o2 dirent_size b"
    if "o2 + dirent_size \<le> length b" "o2 + dirent_size \<le> off \<or> off + dirent_size \<le> o2" for o2
    unfolding b'_def using that assms(1) l by (intro slice_splice_other) simp_all
qed

lemma block_listing_add:
  assumes m: "m * dirent_size \<le> length b" and k: "k < m" and free: "d_inode b (k * dirent_size) = 0"
    and n: "length n < TFS_NAME_LEN" "0 \<notin> set n" and inr: "word_of_int inr \<noteq> (0 :: u32)"
    and ok: "\<forall>j < m. entry_ok b (j * dirent_size)"
  defines "b' \<equiv> splice_at (k * dirent_size) (entry_bytes inr n) b"
  shows "block_listing b' m = insert (n, word_of_int inr) (block_listing b m)"
    and "\<forall>j < m. entry_ok b' (j * dirent_size)"
proof -
  have room: "j * dirent_size + dirent_size \<le> length b" if "j < m" for j
    using mult_le_mono1 [of "Suc j" m dirent_size] that m by simp
  note w = entry_written [OF room [OF k] n, where inr = inr, folded b'_def]
  have other: "d_inode b' (j * dirent_size) = d_inode b (j * dirent_size)"
    "entry_name b' (j * dirent_size) = entry_name b (j * dirent_size)"
    "entry_ok b' (j * dirent_size) = entry_ok b (j * dirent_size)" if j: "j < m" "j \<noteq> k" for j
  proof -
    have "j * dirent_size + dirent_size \<le> k * dirent_size \<or> k * dirent_size + dirent_size \<le> j * dirent_size"
      using j(2) mult_le_mono1 [of "Suc j" k dirent_size] mult_le_mono1 [of "Suc k" j dirent_size]
      by (cases "j < k") auto
    from w(5) [OF room [OF j(1)] this]
    show "d_inode b' (j * dirent_size) = d_inode b (j * dirent_size)"
      "entry_name b' (j * dirent_size) = entry_name b (j * dirent_size)"
      "entry_ok b' (j * dirent_size) = entry_ok b (j * dirent_size)"
      using room [OF j(1)] w(1) by (simp_all add: entry_slice)
  qed
  show "\<forall>j < m. entry_ok b' (j * dirent_size)" using other(3) w(4) ok by metis
  show "block_listing b' m = insert (n, word_of_int inr) (block_listing b m)"
  proof (intro set_eqI iffI)
    fix p assume "p \<in> block_listing b' m"
    then obtain j where j: "j < m" "d_inode b' (j * dirent_size) \<noteq> 0"
      "p = (entry_name b' (j * dirent_size), d_inode b' (j * dirent_size))" by (auto simp: block_listing_def)
    then show "p \<in> insert (n, word_of_int inr) (block_listing b m)"
      using w(2,3) other(1,2) [of j] by (cases "j = k") (auto simp: block_listing_def)
  next
    fix p assume "p \<in> insert (n, word_of_int inr) (block_listing b m)"
    then consider "p = (n, word_of_int inr)" | j where "j < m" "d_inode b (j * dirent_size) \<noteq> 0"
      "p = (entry_name b (j * dirent_size), d_inode b (j * dirent_size))" by (auto simp: block_listing_def)
    then show "p \<in> block_listing b' m"
    proof cases
      case 1
      with w(2,3) k inr show ?thesis by (auto simp: block_listing_def)
    next
      case 2
      with free have "j \<noteq> k" by auto
      with 2 other(1,2) [of j] show ?thesis by (auto simp: block_listing_def intro!: exI [of _ j])
    qed
  qed
qed

end
