(* ===== verification/Tfs_Dir_Add.thy ===== *)
theory Tfs_Dir_Add
  imports Tfs_Dir
begin

text \<open>
  What adding and looking up a name does to a directory, seen as a set of names with inode numbers
  (\<open>listing\<close>): \<^verbatim>\<open>tfs_find_entry\<close> decides membership, \<^verbatim>\<open>tfs_add_entry\<close> inserts.
\<close>

lemma dir_wf_nonzero:
  assumes "dir_wf f dir bs" and "b \<in> set bs"
  shows "b \<noteq> 0"
proof -
  have "s_data_area (sbi f) \<le> b" "0 < s_data_area (sbi f)" using assms unfolding dir_wf_def by blast+
  then show ?thesis by auto
qed

section \<open>The free slot\<close>

lemma free_in_block:
  assumes ok: "fs_ok f" and h: "holds f cs b" "fvalid f b" and "i \<le> slots f"
  shows "free_slot (sbi f) f dir b cs (i * dirent_size) index =
    (case List.find (\<lambda>k. d_inode (fblock f b) (k * dirent_size) = 0) [i..<slots f] of
       Some k \<Rightarrow> Some (Inr (b, cs, k * dirent_size, index), f)
     | None \<Rightarrow> free_slot (sbi f) f dir b cs (bsize (sbi f)) index)"
  using assms(4)
proof (induction "slots f - i" arbitrary: i)
  case 0
  then have "i = slots f" by simp
  then show ?case using slots_size [OF ok] by simp
next
  case (Suc m)
  then have i: "i < slots f" by simp
  let ?off = "i * dirent_size"
  have room: "?off + dirent_size \<le> bsize (sbi f)" by (rule slot_room [OF ok i])
  have d: "data_of f cs = fblock f b" by (rule fsc.has_data [OF ok h])
  have sz: "unat (s_block_size (sbi f)) = bsize (sbi f)" by (rule bsize_range [OF fs_ok_sbi [OF ok]])
  have lt: "\<not> unat (s_block_size (sbi f)) \<le> ?off" using room sz by (simp add: dirent_size_def)
  have upt: "[i..<slots f] = i # [Suc i..<slots f]" using i by (rule upt_conv_Cons)
  have IH: "free_slot (sbi f) f dir b cs (?off + dirent_size) index =
    (case List.find (\<lambda>k. d_inode (fblock f b) (k * dirent_size) = 0) [Suc i..<slots f] of
       Some k \<Rightarrow> Some (Inr (b, cs, k * dirent_size, index), f)
     | None \<Rightarrow> free_slot (sbi f) f dir b cs (bsize (sbi f)) index)"
    using Suc.hyps(1) [of "Suc i"] Suc.hyps(2) i by (simp add: add.commute)
  show ?case
    unfolding upt by (subst free_slot.simps) (simp add: lt d IH)
qed

text \<open>A free slot of one of the blocks, or none and the index behind the first 0 of \<^verbatim>\<open>i_data\<close>.\<close>

definition slot_found :: "tfs \<Rightarrow> u32 list \<Rightarrow> nat \<Rightarrow> int + u32 \<times> node \<times> nat \<times> nat \<Rightarrow> bool" where
  "slot_found f bs end r \<longleftrightarrow>
     (\<exists>b cs k index. r = Inr (b, cs, k * dirent_size, index) \<and> b \<in> set bs \<and> holds f cs b \<and> k < slots f \<and>
        d_inode (fblock f b) (k * dirent_size) = 0) \<or>
     (\<exists>cs off. r = Inr (0, cs, off, Suc end))"

lemma free_rest:
  assumes "fs_ok f" and "dir_wf f dir bs" and "index \<le> length bs"
  shows "\<exists>r f'. free_slot (sbi f) f dir b0 cs (bsize (sbi f)) index = Some (r, f') \<and> same_volume f f' \<and>
    slot_found f' (drop index bs) (length bs) r"
  using assms
proof (induction "length bs - index" arbitrary: f index cs b0)
  case 0
  then have i: "index = length bs" by simp
  have sz: "unat (s_block_size (sbi f)) = bsize (sbi f)" by (rule bsize_range [OF fs_ok_sbi [OF "0.prems"(1)]])
  have w: "i_data dir = bs @ replicate (TFS_N_BLOCKS - length bs) 0" "length bs \<le> TFS_N_BLOCKS" "behind f = 0"
    using "0.prems"(2) by (simp_all add: dir_wf_def)
  have dw: "data_word f dir index = Some 0"
    using w by (auto simp: data_word_def i nth_append)
  have "free_slot (sbi f) f dir b0 cs (bsize (sbi f)) index = Some (Inr (0, cs, bsize (sbi f), Suc (length bs)), f)"
    by (subst free_slot.simps) (simp add: sz dw [unfolded i] i)
  then show ?case using "0.prems"(1) by (auto simp: same_volume_def slot_found_def)
next
  case (Suc m)
  then have i: "index < length bs" by simp
  let ?b = "bs ! index"
  have w: "i_data dir = bs @ replicate (TFS_N_BLOCKS - length bs) 0" "length bs \<le> TFS_N_BLOCKS" "0 < s_data_area (sbi f)"
    "s_data_area (sbi f) \<le> ?b" "fvalid f ?b"
    using Suc.prems(2) i unfolding dir_wf_def by (simp_all add: nth_mem)
  have nz: "?b \<noteq> 0" using w(3,4) by auto
  have dw: "data_word f dir index = Some ?b"
    using w(1,2) i by (simp add: data_word_def nth_append)
  have sz: "unat (s_block_size (sbi f)) = bsize (sbi f)" by (rule bsize_range [OF fs_ok_sbi [OF Suc.prems(1)]])
  obtain cs1 f1 where g: "cache_get f ?b = (Some cs1, f1)" "fs_ok f1" "same_mount f f1" "fblock f1 = fblock f"
    "holds f1 cs1 ?b" using fsc.get_law [OF Suc.prems(1) w(5)] by blast
  have sv: "same_volume f f1" using g by (simp add: same_volume_def)
  have s1: "sbi f1 = sbi f" "fvalid f1 = fvalid f" "behind f1 = behind f" "slots f1 = slots f"
    using g(3) same_volume_views [OF sv] by simp_all
  have wf1: "dir_wf f1 dir bs" using Suc.prems(2) by (simp add: dir_wf_def s1 g(4))
  have dr: "drop index bs = ?b # drop (Suc index) bs" using i by (simp add: Cons_nth_drop_Suc)
  have step: "free_slot (sbi f) f dir b0 cs (bsize (sbi f)) index = free_slot (sbi f1) f1 dir ?b cs1 0 (Suc index)"
    using nz by (subst free_slot.simps) (simp add: sz dw g(1) s1)
  have v1: "fvalid f1 ?b" using w(5) s1 by simp
  note fb = free_in_block [OF g(2,5) v1 le0, of dir "Suc index", simplified]
  show ?case
  proof (cases "List.find (\<lambda>k. d_inode (fblock f1 ?b) (k * dirent_size) = 0) [0..<slots f1]")
    case None
    have "m = length bs - Suc index" "Suc index \<le> length bs" using Suc.hyps(2) i by simp_all
    from Suc.hyps(1) [OF this(1) g(2) wf1 this(2)] obtain r f2 where
      r: "free_slot (sbi f1) f1 dir ?b cs1 (bsize (sbi f1)) (Suc index) = Some (r, f2)" "same_volume f1 f2"
      "slot_found f2 (drop (Suc index) bs) (length bs) r" by blast
    have "slot_found f2 (drop index bs) (length bs) r" using r(3) unfolding dr by (auto simp: slot_found_def)
    with r(1,2) same_volume_trans [OF sv] None show ?thesis unfolding step fb by auto
  next
    case (Some k)
    then have "k < slots f1" "d_inode (fblock f1 ?b) (k * dirent_size) = 0" by (auto simp: find_Some_iff)
    then have "slot_found f1 (drop index bs) (length bs) (Inr (?b, cs1, k * dirent_size, Suc index))"
      using g(5) unfolding dr slot_found_def by auto
    with Some sv show ?thesis unfolding step fb by auto
  qed
qed

section \<open>Writing the entry\<close>

lemma set_data_twice [simp]: "set_data (set_data f cs x) cs y = set_data f cs y"
  by (simp add: set_data_def)

lemma data_of_set_data [simp]: "data_of (set_data f cs x) cs = x"
  by (simp add: data_of_def set_data_def)

lemma put_entry_ok:
  assumes ok: "fs_ok f" and h: "holds f cs b" "fvalid f b" and l: "length base = bsize (sbi f)"
    and n: "length n \<le> TFS_NAME_LEN" and room: "off + dirent_size \<le> bsize (sbi f)"
  obtains f' where
    "put_entry (set_data f cs base) dir n inr b cs off =
      (0, dir\<lparr>i_size := i_size dir + word_of_nat dirent_size\<rparr>, True, f')"
    "fs_ok f'" "same_mount f f'" "fblock f' b = splice_at off (entry_bytes inr n) base"
    "\<forall>c. fvalid f c \<longrightarrow> c \<noteq> b \<longrightarrow> fblock f' c = fblock f c"
proof -
  let ?buf = "splice_at off (entry_bytes inr n) base"
  have "length (entry_bytes inr n) = dirent_size"
    using n by (simp add: entry_bytes_eq dirent_size_def TFS_NAME_LEN_def)
  then have lb: "length ?buf = bsize (sbi f)" using room l by simp
  from fsc.put_law [OF ok h lb] obtain f' where w: "write_block (set_data f cs ?buf) b ?buf = (0, f')"
    "fs_ok f'" "same_mount f f'" "fblock f' b = ?buf" "\<forall>c. fvalid f c \<longrightarrow> c \<noteq> b \<longrightarrow> fblock f' c = fblock f c" by blast
  have "put_entry (set_data f cs base) dir n inr b cs off =
      (0, dir\<lparr>i_size := i_size dir + word_of_nat dirent_size\<rparr>, True, f')"
    by (simp add: put_entry_def Let_def w(1))
  then show thesis by (rule that) (use w in auto)
qed

lemma set_data_same: "set_data f cs (data_of f cs) = f"
  by (simp add: set_data_def data_of_def)

text \<open>
  A volume whose free blocks are all fit for use: valid, in the data area and not the bitmap.
\<close>

definition layout_ok :: "tfs \<Rightarrow> bool" where
  "layout_ok f \<longleftrightarrow> unat (s_data_area (sbi f)) < bitmap_bits f \<and>
     (\<forall>b. unat b < bitmap_bits f \<longrightarrow> \<not> block_used f (unat b) \<longrightarrow>
        fvalid f b \<and> s_data_area (sbi f) \<le> b \<and> b \<noteq> s_block_bitmap (sbi f))"

text \<open>
  The state after an entry was added to a directory; \<open>bs\<close> are its blocks then.
\<close>

definition entry_added :: "tfs \<Rightarrow> inode \<Rightarrow> u32 list \<Rightarrow> u8 list \<Rightarrow> int \<Rightarrow> tfs \<Rightarrow> inode \<Rightarrow> u32 list \<Rightarrow> bool" where
  "entry_added f dir bs n inr f' dir' bs' \<longleftrightarrow>
     fs_ok f' \<and> same_mount f f' \<and> dir_wf f' dir' bs' \<and>
     listing f' bs' = insert (n, word_of_int inr) (listing f bs) \<and>
     dir' = dir\<lparr>i_size := i_size dir + 32, i_data := i_data dir'\<rparr> \<and>
     (\<forall>c. fvalid f c \<longrightarrow> c \<noteq> s_block_bitmap (sbi f) \<longrightarrow> c \<notin> set bs' \<longrightarrow> fblock f' c = fblock f c)"

lemma entry_addedD:
  assumes "entry_added f dir bs n inr f' dir' bs'"
  shows "fs_ok f'" "same_mount f f'" "dir_wf f' dir' bs'"
    "listing f' bs' = insert (n, word_of_int inr) (listing f bs)"
    "dir' = dir\<lparr>i_size := i_size dir + 32, i_data := i_data dir'\<rparr>"
  using assms unfolding entry_added_def by blast+

lemma listing_update:
  assumes b: "b \<in> set bs" and B: "block_listing (fblock f' b) (slots f) = insert p (block_listing (fblock f b) (slots f))"
    and o: "\<And>c. c \<in> set bs \<Longrightarrow> c \<noteq> b \<Longrightarrow> fblock f' c = fblock f c" and s: "slots f' = slots f"
  shows "listing f' bs = insert p (listing f bs)"
proof -
  have "block_listing (fblock f' c) (slots f') = (if c = b then insert p (block_listing (fblock f c) (slots f))
      else block_listing (fblock f c) (slots f))" if "c \<in> set bs" for c
    using B o [OF that] s by auto
  then show ?thesis using b unfolding listing_def by auto
qed

lemma slots_same: "same_mount f f' \<Longrightarrow> slots f' = slots f"
  by (simp add: slots_def)

lemma put_in_free_slot:
  assumes ok: "fs_ok f" and wf: "dir_wf f dir bs" and b: "b \<in> set bs" and h: "holds f cs b"
    and k: "k < slots f" and free: "d_inode (fblock f b) (k * dirent_size) = 0"
    and n: "length n < TFS_NAME_LEN" "0 \<notin> set n" and inr: "word_of_int inr \<noteq> (0 :: u32)"
  obtains f' dir' where "put_entry f dir n inr b cs (k * dirent_size) = (0, dir', True, f')"
    and "entry_added f dir bs n inr f' dir' bs"
    and "\<forall>c. fvalid f c \<longrightarrow> c \<notin> set bs \<longrightarrow> fblock f' c = fblock f c"
proof -
  have v: "fvalid f b" "\<forall>j < slots f. entry_ok (fblock f b) (j * dirent_size)" using wf b by (simp_all add: dir_wf_def)
  have l: "length (fblock f b) = bsize (sbi f)" by (rule fsc.content_len [OF ok])
  have d: "data_of f cs = fblock f b" by (rule fsc.has_data [OF ok h v(1)])
  let ?dir = "dir\<lparr>i_size := i_size dir + word_of_nat dirent_size\<rparr>"
  obtain f' where p: "put_entry (set_data f cs (fblock f b)) dir n inr b cs (k * dirent_size) = (0, ?dir, True, f')"
    "fs_ok f'" "same_mount f f'" "fblock f' b = splice_at (k * dirent_size) (entry_bytes inr n) (fblock f b)"
    "\<forall>c. fvalid f c \<longrightarrow> c \<noteq> b \<longrightarrow> fblock f' c = fblock f c"
    using put_entry_ok [OF ok h v(1) l _ slot_room [OF ok k], of n dir inr] n(1) by auto
  have m: "slots f * dirent_size \<le> length (fblock f b)" using slots_size [OF ok] l by simp
  note bl = block_listing_add [OF m k free n inr v(2), folded p(4)]
  have o: "fblock f' c = fblock f c" if "c \<in> set bs" "c \<noteq> b" for c
    using p(5) that wf by (simp add: dir_wf_def)
  note s = slots_same [OF p(3)]
  have li: "listing f' bs = insert (n, word_of_int inr) (listing f bs)"
    by (rule listing_update [OF b bl(1) o s])
  have "dir_wf f' ?dir bs"
    unfolding dir_wf_def s
  proof (intro conjI ballI)
    fix c assume c: "c \<in> set bs"
    show "s_data_area (sbi f') \<le> c" "fvalid f' c" using wf c p(3) by (simp_all add: dir_wf_def)
    show "\<forall>j < slots f. entry_ok (fblock f' c) (j * dirent_size)"
      using bl(2) o [OF c] wf c by (cases "c = b") (auto simp: dir_wf_def)
  qed (use wf p(3) in \<open>simp_all add: dir_wf_def\<close>)
  then have "entry_added f dir bs n inr f' ?dir bs"
    using p b li by (auto simp: entry_added_def dirent_size_def)
  moreover have "\<forall>c. fvalid f c \<longrightarrow> c \<notin> set bs \<longrightarrow> fblock f' c = fblock f c" using p(5) b by metis
  moreover have "set_data f cs (fblock f b) = f" unfolding d [symmetric] by (rule set_data_same)
  ultimately show thesis using p(1) by (intro that [of ?dir f']) simp_all
qed

lemma block_listing_zero: "block_listing (replicate n 0) m = {}" if "m * dirent_size \<le> n"
proof -
  have "d_inode (replicate n 0) (k * dirent_size) = 0" if k: "k < m" for k
  proof -
    have "k * dirent_size + dirent_size \<le> n"
      using mult_le_mono1 [of "Suc k" m dirent_size] k that \<open>m * dirent_size \<le> n\<close> by simp
    then show ?thesis by (simp add: d_inode_def le32_at_def dirent_size_def le32_def)
  qed
  then show ?thesis by (auto simp: block_listing_def)
qed

text \<open>The blocks of the directory are allocated, and none of them is the bitmap.\<close>

definition owns :: "tfs \<Rightarrow> u32 list \<Rightarrow> bool" where
  "owns f bs \<longleftrightarrow> s_block_bitmap (sbi f) \<notin> set bs \<and>
     (\<forall>b \<in> set bs. unat b < bitmap_bits f \<and> block_used f (unat b))"

definition has_free_block :: "tfs \<Rightarrow> bool" where
  "has_free_block f \<longleftrightarrow> (\<exists>k < bitmap_bits f. \<not> block_used f k)"

lemma alloc_fresh:
  assumes "mounted f" and lay: "layout_ok f" and "has_free_block f"
  obtains w f' where "tfs_alloc_block f (s_data_area (sbi f)) = Some (int (unat w), f')"
    and "unat w < bitmap_bits f" and "\<not> block_used f (unat w)" and "fvalid f w" and "s_data_area (sbi f) \<le> w"
    and "w \<noteq> s_block_bitmap (sbi f)" and "bit_written f (s_block_bitmap (sbi f)) (unat w) True f'"
proof -
  let ?bm = "fblock f (s_block_bitmap (sbi f))" and ?g = "s_data_area (sbi f)"
  have g: "unat ?g < bitmap_bits f" using lay by (simp add: layout_ok_def)
  have nf: "\<not> full_upto ?bm (bitmap_bits f)"
    using assms(3) by (auto simp: has_free_block_def full_upto_def block_used_def)
  obtain r f' where a: "tfs_alloc_block f ?g = Some (r, f')"
    "r = int (unat (picked ?bm ?g))" "unat (picked ?bm ?g) < bitmap_bits f" "\<not> bit_at ?bm (unat (picked ?bm ?g))"
    "bit_written f (s_block_bitmap (sbi f)) (unat (picked ?bm ?g)) True f'"
    using alloc_block_ok [OF assms(1) g] nf by metis
  then have u: "\<not> block_used f (unat (picked ?bm ?g))" by (simp add: block_used_def)
  with lay a(3) have "fvalid f (picked ?bm ?g)" "?g \<le> picked ?bm ?g" "picked ?bm ?g \<noteq> s_block_bitmap (sbi f)"
    unfolding layout_ok_def by blast+
  with a u that show thesis by blast
qed

lemma data_snoc:
  assumes "i_data dir = bs @ replicate (TFS_N_BLOCKS - length bs) (0 :: u32)" and "length bs < TFS_N_BLOCKS"
  shows "(i_data dir)[length bs := w] = (bs @ [w]) @ replicate (TFS_N_BLOCKS - length (bs @ [w])) 0"
proof -
  obtain j where j: "TFS_N_BLOCKS - length bs = Suc j" using assms(2) by (metis Suc_diff_Suc)
  have "TFS_N_BLOCKS - length (bs @ [w]) = j" using j by simp
  then show ?thesis by (simp add: assms(1) j list_update_append)
qed

text \<open>A block of zeros with one entry written at its start is the last block of the directory.\<close>

lemma entry_in_new_block:
  assumes wf: "dir_wf f dir bs" and own: "owns f bs" and room: "length bs < TFS_N_BLOCKS"
    and n: "length n < TFS_NAME_LEN" "0 \<notin> set n" and inr: "word_of_int inr \<noteq> (0 :: u32)"
    and w: "\<not> block_used f (unat w)" "fvalid f w" "s_data_area (sbi f) \<le> w"
    and ok: "fs_ok f'" and m: "same_mount f f'"
    and new: "fblock f' w = splice_at 0 (entry_bytes inr n) (replicate (bsize (sbi f)) 0)"
    and keep: "\<And>c. fvalid f c \<Longrightarrow> c \<noteq> w \<Longrightarrow> c \<noteq> s_block_bitmap (sbi f) \<Longrightarrow> fblock f' c = fblock f c"
  shows "entry_added f dir bs n inr f'
    (dir\<lparr>i_data := (i_data dir)[length bs := w], i_size := i_size dir + word_of_nat dirent_size\<rparr>) (bs @ [w])"
    (is "entry_added _ _ _ _ _ _ ?dir _")
proof -
  let ?zero = "replicate (bsize (sbi f)) (0 :: u8)"
  have old: "fblock f' c = fblock f c" if "c \<in> set bs" for c
    using keep [of c] that wf own w(1) by (auto simp: dir_wf_def owns_def)
  note s = slots_same [OF m]
  have sl: "slots f * dirent_size \<le> bsize (sbi f)" "0 < slots f" "dirent_size \<le> bsize (sbi f)"
    using slots_size [OF ok] bsize_range(1) [OF fs_ok_sbi [OF ok]] m by (auto simp: s slots_def dirent_size_def)
  then have ml: "slots f * dirent_size \<le> length ?zero" by simp
  have "d_inode ?zero (0 * dirent_size) = 0" using sl(3) by (simp add: d_inode_def le32_at_def dirent_size_def le32_def)
  moreover have "\<forall>j < slots f. entry_ok ?zero (j * dirent_size)"
    using block_listing_zero [OF sl(1)] by (auto simp: block_listing_def entry_ok_def)
  ultimately have bl: "block_listing (fblock f' w) (slots f) = insert (n, word_of_int inr) {}"
    "\<forall>j < slots f. entry_ok (fblock f' w) (j * dirent_size)"
    using block_listing_add [OF ml sl(2) _ n inr] block_listing_zero [OF sl(1)] unfolding new by simp_all
  have li: "listing f' (bs @ [w]) = insert (n, word_of_int inr) (listing f bs)"
    using bl(1) old by (auto simp: listing_def s)
  have "dir_wf f' ?dir (bs @ [w])"
    unfolding dir_wf_def s
  proof (intro conjI ballI)
    show "i_data ?dir = (bs @ [w]) @ replicate (TFS_N_BLOCKS - length (bs @ [w])) 0"
      using data_snoc [of dir bs w] wf room by (simp add: dir_wf_def)
    show "length (bs @ [w]) \<le> TFS_N_BLOCKS" using room by simp
    show "0 < s_data_area (sbi f')" "behind f' = 0" using wf m by (simp_all add: dir_wf_def)
    fix c assume c: "c \<in> set (bs @ [w])"
    show "s_data_area (sbi f') \<le> c" "fvalid f' c" using c wf w(2,3) m by (auto simp: dir_wf_def)
    show "\<forall>j < slots f. entry_ok (fblock f' c) (j * dirent_size)"
      using c bl(2) old wf by (auto simp: dir_wf_def)
  qed
  then show ?thesis using ok m li keep by (auto simp: entry_added_def dirent_size_def)
qed

lemma add_block_ok:
  assumes m: "mounted f" and lay: "layout_ok f" and free: "has_free_block f"
    and wf: "dir_wf f dir bs" and own: "owns f bs" and room: "length bs < TFS_N_BLOCKS"
    and n: "length n < TFS_NAME_LEN" "0 \<notin> set n" and inr: "word_of_int inr \<noteq> (0 :: u32)"
  obtains f' dir' b where "add_block f dir n inr (Suc (length bs)) dirty = Some (0, dir', True, f')"
    and "entry_added f dir bs n inr f' dir' (bs @ [b])" and "unat b < bitmap_bits f"
    and "\<not> block_used f (unat b)" "b \<noteq> s_block_bitmap (sbi f)"
    and "\<forall>k < bitmap_bits f. block_used f' k \<longleftrightarrow> k = unat b \<or> block_used f k"
proof -
  obtain w f1 where a: "tfs_alloc_block f (s_data_area (sbi f)) = Some (int (unat w), f1)"
    "unat w < bitmap_bits f" "\<not> block_used f (unat w)" "fvalid f w" "s_data_area (sbi f) \<le> w"
    "w \<noteq> s_block_bitmap (sbi f)" "bit_written f (s_block_bitmap (sbi f)) (unat w) True f1"
    using alloc_fresh [OF m lay free] .
  have b1: "fs_ok f1" "same_mount f f1"
    "\<And>c. fvalid f c \<Longrightarrow> c \<noteq> s_block_bitmap (sbi f) \<Longrightarrow> fblock f1 c = fblock f c"
    "\<And>k. k < bitmap_bits f \<Longrightarrow> bit_at (fblock f1 (s_block_bitmap (sbi f))) k \<longleftrightarrow> k = unat w \<or> block_used f k"
    using a(7) by (auto simp: bit_written_def block_used_def split: if_splits)
  have v1: "fvalid f1 w" using a(4) b1(2) by simp
  obtain cs f2 where g: "cache_get f1 w = (Some cs, f2)" "fs_ok f2" "same_mount f1 f2" "fblock f2 = fblock f1"
    "holds f2 cs w" "data_of f2 cs = fblock f1 w" using fsc.get_law [OF b1(1) v1] by blast
  have m2: "same_mount f f2" using fsc.same_trans [OF b1(2) g(3)] .
  have s2: "sbi f2 = sbi f" "fvalid f2 = fvalid f" using m2 by simp_all
  have v2: "fvalid f2 w" using a(4) s2 by simp
  let ?size = "unat (s_block_size (sbi f2))" and ?zero = "replicate (bsize (sbi f2)) (0 :: u8)"
  have sz: "?size = bsize (sbi f2)" by (rule bsize_range [OF fs_ok_sbi [OF g(2)]])
  have ld: "length (data_of f2 cs) = bsize (sbi f2)"
    using fsc.content_len [OF b1(1), of w] b1(2) s2 by (simp add: g(6))
  have zero: "replicate ?size 0 @ drop ?size (data_of f2 cs) = ?zero" using sz ld by simp
  let ?dir = "dir\<lparr>i_data := (i_data dir)[length bs := w]\<rparr>"
  let ?dir' = "?dir\<lparr>i_size := i_size ?dir + word_of_nat dirent_size\<rparr>"
  have r0: "0 + dirent_size \<le> bsize (sbi f2)" using bsize_range(1) [OF fs_ok_sbi [OF g(2)]] by (simp add: dirent_size_def)
  have n': "length n \<le> TFS_NAME_LEN" using n(1) by simp
  obtain f3 where p: "put_entry (set_data f2 cs ?zero) ?dir n inr w cs 0 = (0, ?dir', True, f3)"
    "fs_ok f3" "same_mount f2 f3" "fblock f3 w = splice_at 0 (entry_bytes inr n) ?zero"
    "\<forall>c. fvalid f2 c \<longrightarrow> c \<noteq> w \<longrightarrow> fblock f3 c = fblock f2 c"
    using put_entry_ok [where dir = ?dir and inr = inr, OF g(2,5) v2 length_replicate [of _ 0] n' r0] .
  have m3: "same_mount f f3" using fsc.same_trans [OF m2 p(3)] .
  have wi: "word_of_int (int (unat w)) = w" by simp
  have "add_block f dir n inr (Suc (length bs)) dirty = Some (0, ?dir', True, f3)"
    unfolding add_block_def a(1) option.case prod.case Let_def wi
    using room by (simp add: g(1) zero p(1))
  moreover have "entry_added f dir bs n inr f3 ?dir' (bs @ [w])"
  proof -
    have keep: "fblock f3 c = fblock f c" if "fvalid f c" "c \<noteq> w" "c \<noteq> s_block_bitmap (sbi f)" for c
      using that p(5) g(4) b1(3) s2 by simp
    have "fblock f3 w = splice_at 0 (entry_bytes inr n) (replicate (bsize (sbi f)) 0)" using p(4) s2 by simp
    from entry_in_new_block [OF wf own room n inr a(3-5) p(2) m3 this keep] show ?thesis by simp
  qed
  moreover have "\<forall>k < bitmap_bits f. block_used f3 k \<longleftrightarrow> k = unat w \<or> block_used f k"
  proof -
    have "fvalid f2 (s_block_bitmap (sbi f))" using m s2 by (simp add: mounted_def)
    then have "fblock f3 (s_block_bitmap (sbi f)) = fblock f1 (s_block_bitmap (sbi f))"
      using p(5) a(6) g(4) by metis
    then show ?thesis using b1(4) m3 by (simp add: block_used_def)
  qed
  ultimately show thesis using a(2,3,6) by (intro that) auto
qed

lemma same_volume_keeps:
  assumes "same_volume f f'"
  shows "mounted f \<Longrightarrow> mounted f'" "layout_ok f' = layout_ok f" "has_free_block f' = has_free_block f"
    "dir_wf f' = dir_wf f" "owns f' = owns f" "block_used f' = block_used f" "bitmap_bits f' = bitmap_bits f"
    "listing f' = listing f" "entry_added f' = entry_added f"
proof -
  have s: "fs_ok f'" "same_mount f f'" "fblock f' = fblock f" using assms by (simp_all add: same_volume_def)
  then have e: "sbi f' = sbi f" "fvalid f' = fvalid f" "behind f' = behind f" by simp_all
  show "mounted f \<Longrightarrow> mounted f'" using mounted_same s by blast
  show b: "block_used f' = block_used f" "bitmap_bits f' = bitmap_bits f"
    by (simp_all add: block_used_def bitmap_bits_def fun_eq_iff s(3) e)
  show "layout_ok f' = layout_ok f" "has_free_block f' = has_free_block f" "owns f' = owns f"
    by (simp_all add: layout_ok_def has_free_block_def owns_def fun_eq_iff b e)
  have sl: "slots f' = slots f" by (simp add: slots_def e)
  show l: "dir_wf f' = dir_wf f" "listing f' = listing f"
    by (simp_all add: dir_wf_def listing_def fun_eq_iff e sl s(3))
  have "same_mount f' g \<longleftrightarrow> same_mount f g" for g
    using s(2) unfolding same_mount_def by metis
  then show "entry_added f' = entry_added f"
    by (simp add: entry_added_def fun_eq_iff l e s(3))
qed

lemma free_from:
  assumes ok: "fs_ok f" and wf: "dir_wf f dir bs" and i: "index < length bs" and h: "holds f cs (bs ! index)"
  shows "\<exists>r f'. free_slot (sbi f) f dir (bs ! index) cs 0 (Suc index) = Some (r, f') \<and> same_volume f f' \<and>
    slot_found f' (drop index bs) (length bs) r"
proof -
  let ?b = "bs ! index"
  have v: "fvalid f ?b" using wf i by (simp add: dir_wf_def)
  have dr: "drop index bs = ?b # drop (Suc index) bs" using i by (simp add: Cons_nth_drop_Suc)
  note fb = free_in_block [OF ok h v le0, of dir "Suc index", simplified]
  show ?thesis
  proof (cases "List.find (\<lambda>k. d_inode (fblock f ?b) (k * dirent_size) = 0) [0..<slots f]")
    case None
    from i have "Suc index \<le> length bs" by simp
    from free_rest [OF ok wf this, of ?b cs] obtain r f2 where
      r: "free_slot (sbi f) f dir ?b cs (bsize (sbi f)) (Suc index) = Some (r, f2)" "same_volume f f2"
      "slot_found f2 (drop (Suc index) bs) (length bs) r" by blast
    have "slot_found f2 (drop index bs) (length bs) r" using r(3) unfolding dr by (auto simp: slot_found_def)
    with r(1,2) None show ?thesis unfolding fb by auto
  next
    case (Some k)
    then have "k < slots f" "d_inode (fblock f ?b) (k * dirent_size) = 0" by (auto simp: find_Some_iff)
    then have "slot_found f (drop index bs) (length bs) (Inr (?b, cs, k * dirent_size, Suc index))"
      using h unfolding dr slot_found_def by auto
    with Some ok show ?thesis unfolding fb by (auto simp: same_volume_def)
  qed
qed

lemma add_block_full:
  assumes m: "mounted f" and lay: "layout_ok f" and free: "has_free_block f"
  shows "\<exists>f'. add_block f dir n inr (Suc TFS_N_BLOCKS) dirty = Some (- errno_num EFBIG, dir, dirty, f') \<and>
    (\<exists>k < bitmap_bits f. \<not> block_used f k \<and> block_used f' k)"
proof -
  obtain w f1 where a: "tfs_alloc_block f (s_data_area (sbi f)) = Some (int (unat w), f1)"
    "unat w < bitmap_bits f" "\<not> block_used f (unat w)" "fvalid f w" "s_data_area (sbi f) \<le> w"
    "w \<noteq> s_block_bitmap (sbi f)" "bit_written f (s_block_bitmap (sbi f)) (unat w) True f1"
    using alloc_fresh [OF m lay free] .
  have 1: "sbi f1 = sbi f" using bit_written_mount [OF m a(7)] by blast
  have "\<forall>k < bitmap_bits f. bit_at (fblock f1 (s_block_bitmap (sbi f))) k \<longleftrightarrow>
      (if k = unat w then True else bit_at (fblock f (s_block_bitmap (sbi f))) k)"
    using a(7) unfolding bit_written_def by blast
  with a(2) have "block_used f1 (unat w)" unfolding block_used_def 1 by simp
  moreover have "add_block f dir n inr (Suc TFS_N_BLOCKS) dirty = Some (- errno_num EFBIG, dir, dirty, f1)"
    unfolding add_block_def a(1) by (simp add: Let_def)
  ultimately show ?thesis using a(2,3) by blast
qed

lemma owns_snoc:
  assumes "owns f bs" and "unat b < bitmap_bits f" and "b \<noteq> s_block_bitmap (sbi f)"
    and "\<forall>k < bitmap_bits f. block_used f' k \<longleftrightarrow> k = unat b \<or> block_used f k" and "same_mount f f'"
  shows "owns f' (bs @ [b])"
  using assms by (auto simp: owns_def bitmap_bits_def)

section \<open>A volume for the witnesses\<close>

text \<open>The first four blocks, which hold the metadata, are marked in the bitmap.\<close>

definition layout_fs :: tfs where
  "layout_fs = demo_fs\<lparr>dsk := blank_disk\<lparr>sec := (\<lambda>s. if s = 898 then 15 # replicate 511 0 else replicate 512 0)\<rparr>\<rparr>"

definition empty_dir :: inode where
  "empty_dir = \<lparr>i_mode = TFS_DIR, i_size = 0, i_ino = 1, i_atime = 0, i_mtime = 0, i_ctime = 0, i_dtime = 0,
     i_data = replicate TFS_N_BLOCKS 0, i_flags = 0, i_blksize = 16384\<rparr>"

lemma read_run_zero:
  "(\<And>k. k < n \<Longrightarrow> sec d (s + k) = replicate 512 0) \<Longrightarrow> read_run d s n = replicate (n * 512) 0"
proof (induction n arbitrary: s)
  case 0
  then show ?case by (simp add: read_run_def)
next
  case (Suc n)
  have "sec d s = replicate 512 0" using Suc.prems [of 0] by simp
  moreover have "read_run d (Suc s) n = replicate (n * 512) 0"
    by (rule Suc.IH) (use Suc.prems [of "Suc _"] in simp)
  ultimately show ?case by (simp add: read_run_Suc flip: replicate_add)
qed

lemma layout_mounted:
  "mounted layout_fs" "layout_ok layout_fs" "has_free_block layout_fs" "dir_wf layout_fs empty_dir []"
  "owns layout_fs []" "bitmap_bits layout_fs = 8 * 2 ^ 14"
proof -
  have f: "sbi layout_fs = big_block_sbi" "stray layout_fs = big_block_sbi" "cch layout_fs = fresh_cache"
    "behind layout_fs = 0" by (simp_all add: layout_fs_def demo_fs_def)
  have b: "s_block_bitmap big_block_sbi = 2" "s_inode_bitmap big_block_sbi = 1" "s_data_area big_block_sbi = 4"
    by (simp_all add: big_block_sbi_def)
  have "volume_ok big_block_sbi (dsk layout_fs)"
    using big_block_volume(1) by (simp add: volume_ok_def layout_fs_def disk_ok_def sector_size_def)
  then have "fs_ring layout_fs [0, 1]"
    unfolding fs_ring_def f big_block_volume(3) using fresh_cache_coherent by blast
  then have ok: "fs_ok layout_fs" by (auto simp: fs_ok_def)
  have v: "unat b < 2 ^ 20 \<Longrightarrow> fvalid layout_fs b" for b
    by (simp add: fvalid_def f block_ok_def layout_fs_def blank_disk_ok)
  show m: "mounted layout_fs" using ok v by (simp add: mounted_def stray_agrees_def f b)
  show bits: "bitmap_bits layout_fs = 8 * 2 ^ 14" by (simp only: bitmap_bits_def f big_block_volume(3))
  have n: "block_sectors big_block_sbi = Suc 31" by (simp add: block_sectors_def big_block_sbi_def)
  have "read_run (dsk layout_fs) 899 31 = replicate (31 * 512) 0"
    by (rule read_run_zero) (simp add: layout_fs_def)
  moreover have "unat (block_sector big_block_sbi 2) = 898"
    by (simp add: block_sector_def big_block_sbi_def TFS_FS_SECTOR_def)
  moreover have "sec (dsk layout_fs) 898 = 15 # replicate 511 0" by (simp add: layout_fs_def)
  moreover have "Suc 898 = 899" by simp
  ultimately have bm: "fblock layout_fs 2 = 15 # replicate (511 + 31 * 512) 0"
    unfolding fblock_def disk_block_def f n by (simp only: read_run_Suc append_Cons replicate_add)
  have used: "block_used layout_fs k \<longleftrightarrow> k < 4" if k: "k < bitmap_bits layout_fs" for k
  proof (cases "k < 8")
    case True
    have "bit (15 :: u8) k \<longleftrightarrow> k < 4"
    proof -
      have "(15 :: u8) = mask 4" by (simp add: mask_eq_exp_minus_1)
      then show ?thesis by (simp only: bit_mask_iff) (use True in auto)
    qed
    with True show ?thesis unfolding block_used_def bit_at_def f b bm by simp
  next
    case False
    have "k div 8 < 2 ^ 14" using k by (simp add: bits less_mult_imp_div_less)
    moreover have "0 < k div 8" using False by simp
    ultimately have "(15 # replicate (511 + 31 * 512) 0) ! (k div 8) = (0 :: u8)" by (cases "k div 8") simp_all
    with False show ?thesis unfolding block_used_def bit_at_def f b bm by simp
  qed
  show "has_free_block layout_fs"
    unfolding has_free_block_def by (rule exI [of _ 5]) (simp add: used bits)
  show "layout_ok layout_fs"
    unfolding layout_ok_def f b
  proof (intro conjI allI impI)
    show "unat (4 :: u32) < bitmap_bits layout_fs" by (simp add: bits)
    fix w :: u32 assume w: "unat w < bitmap_bits layout_fs" "\<not> block_used layout_fs (unat w)"
    then have "unat w < 2 ^ 20" "4 \<le> unat w" by (simp_all add: bits used)
    then show "fvalid layout_fs w" "4 \<le> w" "w \<noteq> 2" using v by (auto simp: word_le_nat_alt)
  qed
  show "dir_wf layout_fs empty_dir []" by (simp add: dir_wf_def f b empty_dir_def)
  show "owns layout_fs []" by (simp add: owns_def)
qed

lemma name_a: "is_str [97, 0] [97]" "length [97 :: u8] < TFS_NAME_LEN" "0 \<notin> set [97 :: u8]"
  by (simp_all add: is_str_Cons TFS_NAME_LEN_def)

lemma find_entry_listing:
  assumes "fs_ok f" and "dir_wf f dir bs" and "is_str dname n" and "length n < TFS_NAME_LEN"
  shows "\<exists>r f'. tfs_find_entry f dir dname = Some (r, f') \<and> same_volume f f' \<and>
    (case r of
       Found cs off \<Rightarrow> (n, d_inode (data_of f' cs) off) \<in> listing f bs
     | Not_found \<Rightarrow> \<forall>i. (n, i) \<notin> listing f bs
     | Find_err _ \<Rightarrow> False)"
proof -
  note w = dir_wf_blocks [OF assms(2)]
  from find_entry_ok [OF assms(1) w(2) assms(3,4)] obtain r f' where
    r: "tfs_find_entry f dir dname = Some (r, f')" "same_volume f f'" "find_agrees f' (lookup_in f bs n) r"
    unfolding dir_lookup_def w(1) by blast
  have v: "fs_ok f'" "fblock f' = fblock f" "fvalid f' = fvalid f" using r(2) by (auto simp: same_volume_def)
  show ?thesis
  proof (cases "lookup_in f bs n")
    case None
    with r v lookup_in_listing [where f = f and bs = bs and n = n] show ?thesis by (simp add: find_agrees_def)
  next
    case (Some p)
    obtain b off where p: "p = (b, off)" by force
    from r(3) Some p obtain cs where cs: "r = Found cs off" "holds f' cs b" by (auto simp: find_agrees_def)
    have b: "b \<in> set bs" "(n, d_inode (fblock f b) off) \<in> listing f bs"
      using lookup_in_listing [where f = f and bs = bs and n = n] Some p by simp_all
    have "fvalid f' b" using b(1) assms(2) v(3) by (simp add: dir_wf_def)
    then have "data_of f' cs = fblock f b" using fsc.has_data [OF v(1) cs(2)] v(2) by simp
    with r v b cs show ?thesis by simp
  qed
qed


section \<open>Properties\<close>

text \<open>
  C11: \<^verbatim>\<open>tfs_find_entry\<close> decides which names a directory has. On a sound volume and a well-formed
  directory, for a name shorter than 28 bytes, the search ends without error; it answers "not found"
  exactly when no entry has the name, and otherwise gives an entry of that name whose inode number
  is the one the directory lists. The disk is not changed.
\<close>

theorem tfs_find_entry_decides:
  assumes "fs_ok f" and "dir_wf f dir bs" and "is_str dname n" and "length n < TFS_NAME_LEN"
  shows "\<exists>r f'. tfs_find_entry f dir dname = Some (r, f') \<and> fs_ok f' \<and> fblock f' = fblock f \<and>
    (case r of
       Found cs off \<Rightarrow> (n, d_inode (data_of f' cs) off) \<in> listing f bs
     | Not_found \<Rightarrow> \<forall>i. (n, i) \<notin> listing f bs
     | Find_err _ \<Rightarrow> False)"
  using find_entry_listing [OF assms] unfolding same_volume_def by blast

theorem tfs_find_entry_decides_witness:
  "\<exists>f dir r f' cs off. tfs_find_entry f dir [97, 0] = Some (r, f') \<and> r = Found cs off \<and>
    d_inode (data_of f' cs) off = 2"
proof -
  have r: "length [] < TFS_N_BLOCKS" and i: "word_of_int 2 \<noteq> (0 :: u32)" by (simp_all add: TFS_N_BLOCKS_def)
  obtain f dir b where e: "entry_added layout_fs empty_dir [] [97] 2 f dir ([] @ [b])"
    by (rule add_block_ok [OF layout_mounted(1-5) r name_a(2,3) i], rule that)
  have f: "fs_ok f" "dir_wf f dir [b]" "listing f [b] = {([97], 2)}"
    using entry_addedD(1,3,4) [OF e] by (simp_all add: listing_def)
  from tfs_find_entry_decides [OF f(1,2) name_a(1,2)] show ?thesis
  proof (elim exE conjE)
    fix r f'
    assume call: "tfs_find_entry f dir [97, 0] = Some (r, f')" and "case r of
       Found cs off \<Rightarrow> ([97], d_inode (data_of f' cs) off) \<in> listing f [b]
     | Not_found \<Rightarrow> \<forall>i. ([97], i) \<notin> listing f [b] | Find_err _ \<Rightarrow> False"
    then have "\<exists>cs off. r = Found cs off \<and> d_inode (data_of f' cs) off = 2" unfolding f(3) by (cases r) auto
    with call show ?thesis by blast
  qed
qed

text \<open>The two outcomes of adding a name.\<close>

definition add_post ::
    "tfs \<Rightarrow> inode \<Rightarrow> u32 list \<Rightarrow> u8 list \<Rightarrow> int \<Rightarrow> (int \<times> inode \<times> bool \<times> tfs) option \<Rightarrow> bool" where
  "add_post f dir bs n inr res \<longleftrightarrow> (\<exists>err dir' dirty' f'. res = Some (err, dir', dirty', f') \<and>
    (if err = 0 then dirty' \<and> (\<exists>bs'. entry_added f dir bs n inr f' dir' bs' \<and> owns f' bs')
     else err = - errno_num EFBIG \<and> dir' = dir \<and> length bs = TFS_N_BLOCKS \<and>
       (\<exists>k < bitmap_bits f. \<not> block_used f k \<and> block_used f' k)))"

lemma add_block_post:
  assumes "mounted f" and "layout_ok f" and "has_free_block f" and "dir_wf f dir bs" and "owns f bs"
    and n: "length n < TFS_NAME_LEN" "0 \<notin> set n" and "word_of_int inr \<noteq> (0 :: u32)"
    and g: "same_volume f g"
  shows "add_post f dir bs n inr (add_block g dir n inr (Suc (length bs)) dty)"
proof -
  note k = same_volume_keeps [OF g]
  have mg: "mounted g" "layout_ok g" "has_free_block g" "dir_wf g dir bs" "owns g bs"
    using assms(1-5) k by simp_all
  show ?thesis
  proof (cases "length bs < TFS_N_BLOCKS")
    case True
    from add_block_ok [OF mg True n assms(8), of dty] obtain f' dir' b where
      a: "add_block g dir n inr (Suc (length bs)) dty = Some (0, dir', True, f')"
      "entry_added g dir bs n inr f' dir' (bs @ [b])" "unat b < bitmap_bits g" "\<not> block_used g (unat b)"
      "b \<noteq> s_block_bitmap (sbi g)"
      "\<forall>k < bitmap_bits g. block_used f' k \<longleftrightarrow> k = unat b \<or> block_used g k" .
    have "same_mount g f'" using a(2) by (simp add: entry_added_def)
    from owns_snoc [OF mg(5) a(3,5,6) this] a(1,2) k(9) show ?thesis unfolding add_post_def by auto
  next
    case False
    moreover have "length bs \<le> TFS_N_BLOCKS" using assms(4) by (simp add: dir_wf_def)
    ultimately have e: "length bs = TFS_N_BLOCKS" by simp
    from add_block_full [OF mg(1-3), of dir n inr dty] obtain f' where
      "add_block g dir n inr (Suc (length bs)) dty = Some (- errno_num EFBIG, dir, dty, f')"
      "\<exists>k < bitmap_bits f. \<not> block_used f k \<and> block_used f' k" unfolding k(6,7) e by blast
    then show ?thesis unfolding add_post_def
      by (intro exI [of _ "- errno_num EFBIG"] exI [of _ dir] exI [of _ dty] exI [of _ f']) (simp add: e)
  qed
qed

lemma put_entry_post:
  assumes "mounted f" and "dir_wf f dir bs" and "owns f bs"
    and n: "length n < TFS_NAME_LEN" "0 \<notin> set n" and "word_of_int inr \<noteq> (0 :: u32)"
    and g: "same_volume f g" and b: "b \<in> set bs" "holds g cs b"
    and j: "j < slots g" "d_inode (fblock g b) (j * dirent_size) = 0"
  shows "b \<noteq> 0 \<and> add_post f dir bs n inr (Some (put_entry g dir n inr b cs (j * dirent_size)))"
proof -
  note k = same_volume_keeps [OF g]
  have wf: "dir_wf g dir bs" "fs_ok g" "owns g bs" "mounted g"
    using assms(1-3) k g by (simp_all add: same_volume_def)
  obtain f' dir' where p: "put_entry g dir n inr b cs (j * dirent_size) = (0, dir', True, f')"
    "entry_added g dir bs n inr f' dir' bs" "\<forall>c. fvalid g c \<longrightarrow> c \<notin> set bs \<longrightarrow> fblock f' c = fblock g c"
    using put_in_free_slot [OF wf(2,1) b j n assms(6)] .
  have "same_mount g f'" using p(2) by (simp add: entry_added_def)
  moreover have "fvalid g (s_block_bitmap (sbi g))" using wf(4) by (simp add: mounted_def)
  ultimately have "owns f' bs" using wf(3) p(3) by (simp add: owns_def block_used_def bitmap_bits_def)
  with p(1,2) k(9) dir_wf_nonzero [OF wf(1) b(1)] show ?thesis unfolding add_post_def by auto
qed

text \<open>The search of the directory's blocks, from its first one on.\<close>

lemma search_slot:
  assumes "mounted f" and wf: "dir_wf f dir bs" and "bs \<noteq> []"
  obtains c f1 r f2 where "cache_get f (bs ! 0) = (Some c, f1)" and "same_volume f f2"
    and "free_slot (sbi f) f1 dir (bs ! 0) c 0 1 = Some (r, f2)" and "slot_found f2 bs (length bs) r"
    and "sbi f1 = sbi f"
proof -
  have ok: "fs_ok f" using assms(1) by (simp add: mounted_def)
  have v: "fvalid f (bs ! 0)" "0 < length bs" using assms(2,3) by (simp_all add: dir_wf_def)
  obtain c f1 where g: "cache_get f (bs ! 0) = (Some c, f1)" "fs_ok f1" "same_mount f f1" "fblock f1 = fblock f"
    "holds f1 c (bs ! 0)" using fsc.get_law [OF ok v(1)] by blast
  have sv: "same_volume f f1" using g by (simp add: same_volume_def)
  have wf1: "dir_wf f1 dir bs" using wf same_volume_keeps [OF sv] by simp
  have s1: "sbi f1 = sbi f" using g(3) by simp
  from free_from [OF g(2) wf1 v(2) g(5)] obtain r f2 where
    r: "free_slot (sbi f) f1 dir (bs ! 0) c 0 1 = Some (r, f2)" "same_volume f1 f2" "slot_found f2 bs (length bs) r"
    by (auto simp: s1)
  show thesis by (rule that [OF g(1) same_volume_trans [OF sv r(2)] r(1,3) s1])
qed



end
