(* ===== verification/Tfs_File.thy ===== *)
theory Tfs_File
  imports Tfs_Dir_Add Cstring "HOL-Library.Sublist"
begin

text \<open>
  Reading and writing files, \<^verbatim>\<open>fs/tfs/file.c\<close>. The buffer of the caller is a stretch of memory that
  starts at the address \<open>buf\<close>; both functions move whole blocks.
\<close>

section \<open>Operations\<close>

text \<open>
  The loop of \<^verbatim>\<open>tfs_read\<close>: it ends with block 0, which \<^verbatim>\<open>tfs_bmap\<close> gives at index 8 at the latest,
  also when \<open>blocks\<close> was negative.
\<close>

function read_loop ::
  "tfs \<Rightarrow> inode \<Rightarrow> mem \<Rightarrow> nat \<Rightarrow> int \<Rightarrow> int \<Rightarrow> u32 \<Rightarrow> (int \<times> mem \<times> tfs) option" where
  "read_loop f inode m buf index blocks bytes_read =
     (if blocks = 0 then Some (sint bytes_read, m, f)
      else case tfs_bmap inode index of
        None \<Rightarrow> None
      | Some block \<Rightarrow>
          if block = 0 then Some (sint bytes_read, m, f)
          else (case cache_get f block of
                  (None, f) \<Rightarrow> Some (- errno_num EIO, m, f)
                | (Some cs, f) \<Rightarrow>
                    let n = unat (s_block_size (sbi f)) in
                    if length (data_of f cs) < n then None
                    else read_loop f inode (put_bytes m buf (take n (data_of f cs))) (buf + n)
                           (index + 1) (blocks - 1) (bytes_read + s_block_size (sbi f))))"
  by pat_completeness auto
termination
  by (relation "measure (\<lambda>(f, inode, m, buf, index, blocks, got). nat (int TFS_N_BLOCKS - index))")
    (auto simp: tfs_bmap_def split: if_splits)

declare read_loop.simps [simp del]

definition tfs_read :: "tfs \<Rightarrow> tfile \<Rightarrow> mem \<Rightarrow> nat \<Rightarrow> int \<Rightarrow> (int \<times> mem \<times> tfs) option" where
  "tfs_read f file m buf blocks =
     (let index = sint (drop_bit (unat (s_block_shift (sbi f))) (f_offset file)) in
      if blocks = 0 then Some (0, m, f)
      else if i_size (f_inode file) \<le> f_offset file then Some (- 1, m, f)
      else read_loop f (f_inode file) m buf index blocks 0)"

text \<open>The block behind an index, allocated when there is none yet; an error is on the left.\<close>

definition block_for :: "tfs \<Rightarrow> inode \<Rightarrow> int \<Rightarrow> ((int + u32) \<times> inode \<times> tfs) option" where
  "block_for f inode index =
     (case tfs_bmap inode index of
        None \<Rightarrow> None
      | Some block \<Rightarrow>
          if block \<noteq> 0 then Some (Inr block, inode, f)
          else if index < int TFS_N_BLOCKS then
            (case tfs_alloc_block f (s_data_area (sbi f)) of
               None \<Rightarrow> None
             | Some (block, f) \<Rightarrow>
                 if block < 0 then Some (Inl (- errno_num ENOSPC), inode, f)
                 else Some (Inr (word_of_int block),
                   inode\<lparr>i_data := (i_data inode)[nat index := word_of_int block]\<rparr>, f))
          else Some (Inl (- errno_num EFBIG), inode, f))"

text \<open>
  The size update. All operands of \<^verbatim>\<open>MAX(0, ...)\<close> are unsigned, so the difference is never negative.
\<close>

definition grow_size :: "inode \<Rightarrow> u32 \<Rightarrow> u32 \<Rightarrow> inode" where
  "grow_size inode offset written =
     inode\<lparr>i_size := i_size inode + max 0 (offset + written - i_size inode)\<rparr>"

text \<open>
  Copy bytes into a block, update the size, write the block back; the flag tells whether that went
  well. \<open>written\<close> counts the bytes of this block too.
\<close>

definition write_chunk ::
  "tfs \<Rightarrow> inode \<Rightarrow> u32 \<Rightarrow> u32 \<Rightarrow> nat \<Rightarrow> u8 list \<Rightarrow> u32 \<Rightarrow> (bool \<times> inode \<times> tfs) option" where
  "write_chunk f inode offset block off bytes written =
     (case cache_get f block of
        (None, f) \<Rightarrow> Some (False, inode, f)
      | (Some cs, f) \<Rightarrow>
          if length (data_of f cs) < off + length bytes then None
          else let data = splice_at off bytes (data_of f cs) in
            (case write_block (set_data f cs data) block data of
               (r, f) \<Rightarrow> Some (r = 0, grow_size inode offset written, f)))"

function write_loop ::
  "tfs \<Rightarrow> inode \<Rightarrow> u32 \<Rightarrow> mem \<Rightarrow> nat \<Rightarrow> int \<Rightarrow> int \<Rightarrow> u32 \<Rightarrow> ((int + u32) \<times> inode \<times> tfs) option" where
  "write_loop f inode offset m buf index blocks written =
     (if blocks = 0 then Some (Inr written, inode, f)
      else case block_for f inode index of
        None \<Rightarrow> None
      | Some (Inl e, inode, f) \<Rightarrow> Some (Inl e, inode, f)
      | Some (Inr block, inode, f) \<Rightarrow>
          let n = s_block_size (sbi f); written = written + n in
          (case write_chunk f inode offset block 0 (get_bytes m buf (unat n)) written of
             None \<Rightarrow> None
           | Some (ok, inode, f) \<Rightarrow>
               if \<not> ok then Some (Inl (- errno_num EIO), inode, f)
               else write_loop f inode offset m (buf + unat n) (index + 1) (blocks - 1) written))"
  by pat_completeness auto
termination
proof (relation "measure (\<lambda>(f, inode, off, m, buf, index, blocks, w). nat (int TFS_N_BLOCKS - index))",
    goal_cases)
  case 1
  show ?case by simp
next
  case (2 f inode offset m buf index blocks written a aa b ba c)
  then have "index < int TFS_N_BLOCKS"
    by (auto simp: block_for_def tfs_bmap_def split: if_splits option.splits)
  then show ?case by simp
qed

declare write_loop.simps [simp del]

definition tfs_write :: "tfs \<Rightarrow> tfile \<Rightarrow> mem \<Rightarrow> nat \<Rightarrow> int \<Rightarrow> (int \<times> tfile \<times> tfs) option" where
  "tfs_write f file m buf blocks =
     (let offset = f_offset file;
          index = sint (drop_bit (unat (s_block_shift (sbi f))) offset);
          bufoff = unat (offset AND (s_block_size (sbi f) - 1)) in
      if blocks = 0 then Some (0, file, f)
      else case block_for f (f_inode file) index of
        None \<Rightarrow> None
      | Some (Inl e, inode, f) \<Rightarrow> Some (e, file\<lparr>f_inode := inode\<rparr>, f)
      | Some (Inr block, inode, f) \<Rightarrow>
          let n = s_block_size (sbi f) - word_of_nat bufoff in
          (case write_chunk f inode offset block bufoff (get_bytes m buf (unat n)) n of
             None \<Rightarrow> None
           | Some (ok, inode, f) \<Rightarrow>
               if \<not> ok then Some (- errno_num EIO, file\<lparr>f_inode := inode\<rparr>, f)
               else (case write_loop f inode offset m (buf + unat n) (index + 1) (blocks - 1) n of
                  None \<Rightarrow> None
                | Some (Inl e, inode, f) \<Rightarrow> Some (e, file\<lparr>f_inode := inode\<rparr>, f)
                | Some (Inr written, inode, f) \<Rightarrow>
                    (case tfs_iwrite f inode of
                       None \<Rightarrow> None
                     | Some (r, f) \<Rightarrow>
                         Some (if r \<noteq> 0 then - errno_num EIO else sint written,
                           file\<lparr>f_inode := inode\<rparr>, f)))))"

section \<open>Reading\<close>

lemma put_bytes_append: "put_bytes (put_bytes m p xs) (p + length xs) ys = put_bytes m p (xs @ ys)"
  by (auto simp: put_bytes_def fun_eq_iff nth_append)

lemma put_bytes_Nil [simp]: "put_bytes m p [] = m"
  by (auto simp: put_bytes_def fun_eq_iff)

lemma length_get_bytes [simp]: "length (get_bytes m p n) = n"
  by (simp add: get_bytes_def)

lemma nth_get_bytes [simp]: "k < n \<Longrightarrow> get_bytes m p n ! k = m (p + k)"
  by (simp add: get_bytes_def)

text \<open>The blocks of a file from an index on, up to the first hole.\<close>

definition blocks_from :: "inode \<Rightarrow> nat \<Rightarrow> u32 list" where
  "blocks_from inode index = takeWhile (\<lambda>b. b \<noteq> 0) (drop index (i_data inode))"

lemma read_loop_ok:
  assumes "fs_ok f" and "length (i_data inode) = TFS_N_BLOCKS"
    and "\<forall>b \<in> set (take k (blocks_from inode index)). fvalid f b"
  shows "\<exists>f'. read_loop f inode m buf (int index) (int k) got =
      Some (sint (got + word_of_nat (length (take k (blocks_from inode index))) * s_block_size (sbi f)),
        put_bytes m buf (concat (map (fblock f) (take k (blocks_from inode index)))), f') \<and>
    same_volume f f'"
  using assms
proof (induction k arbitrary: f m buf index got)
  case 0
  then show ?case by (subst read_loop.simps) (simp add: same_volume_def)
next
  case (Suc k)
  show ?case
  proof (cases "index < TFS_N_BLOCKS \<and> i_data inode ! index \<noteq> 0")
    case False
    then have "blocks_from inode index = []" 
      using Suc.prems(2) by (cases "drop index (i_data inode)") (auto simp: blocks_from_def nth_via_drop)
    moreover have "tfs_bmap inode (int index) = Some 0" using False by (auto simp: tfs_bmap_def)
    ultimately show ?thesis
      using Suc.prems(1) by (subst read_loop.simps) (simp add: same_volume_def)
  next
    case True
    let ?b = "i_data inode ! index" and ?n = "unat (s_block_size (sbi f))"
    have d: "blocks_from inode index = ?b # blocks_from inode (Suc index)"
      using True Suc.prems(2) by (simp add: blocks_from_def Cons_nth_drop_Suc [symmetric])
    have v: "fvalid f ?b" "\<forall>b \<in> set (take k (blocks_from inode (Suc index))). fvalid f b"
      using Suc.prems(3) by (simp_all add: d)
    have bm: "tfs_bmap inode (int index) = Some ?b" using True by (simp add: tfs_bmap_def)
    obtain cs f1 where g: "cache_get f ?b = (Some cs, f1)" "fs_ok f1" "same_mount f f1" "fblock f1 = fblock f"
      "data_of f1 cs = fblock f ?b" using fsc.get_law [OF Suc.prems(1) v(1)] by blast
    have s1: "sbi f1 = sbi f" "fvalid f1 = fvalid f" using g(3) by simp_all
    have l: "length (fblock f ?b) = ?n"
      using fsc.content_len [OF Suc.prems(1)] bsize_range(3) [OF fs_ok_sbi [OF Suc.prems(1)]] by simp
    obtain f2 where r: "read_loop f1 inode (put_bytes m buf (fblock f ?b)) (buf + ?n) (int (Suc index)) (int k)
        (got + s_block_size (sbi f)) =
      Some (sint (got + s_block_size (sbi f) + word_of_nat (length (take k (blocks_from inode (Suc index)))) * s_block_size (sbi f)),
        put_bytes (put_bytes m buf (fblock f ?b)) (buf + ?n)
          (concat (map (fblock f) (take k (blocks_from inode (Suc index))))), f2)" "same_volume f1 f2"
      using Suc.IH [OF g(2) Suc.prems(2), of "Suc index"] v(2) unfolding s1 g(4) by blast
    have "same_volume f f2"
      using r(2) g fsc.same_trans [OF g(3)] by (simp add: same_volume_def)
    moreover have "read_loop f inode m buf (int index) (int (Suc k)) got =
      Some (sint (got + word_of_nat (length (take (Suc k) (blocks_from inode index))) * s_block_size (sbi f)),
        put_bytes m buf (concat (map (fblock f) (take (Suc k) (blocks_from inode index)))), f2)"
      using r(1) True l
      by (subst read_loop.simps)
        (simp add: bm g(1,5) s1 d put_bytes_append [of m buf "fblock f ?b", unfolded l] algebra_simps)
    ultimately show ?thesis by blast
  qed
qed

section \<open>Writing\<close>

text \<open>
  A file on a sound volume: its blocks, without a hole, are distinct, valid and marked, and the block
  of its inode is marked too and is neither one of them nor the bitmap.
\<close>

definition file_wf :: "tfs \<Rightarrow> inode \<Rightarrow> u32 list \<Rightarrow> bool" where
  "file_wf f inode bs \<longleftrightarrow> mounted f \<and> layout_ok f \<and> owns f bs \<and> distinct bs \<and> length bs \<le> TFS_N_BLOCKS \<and>
     i_data inode = bs @ replicate (TFS_N_BLOCKS - length bs) 0 \<and>
     (\<forall>b \<in> set bs. fvalid f b \<and> b \<noteq> 0) \<and> 0 < s_data_area (sbi f) \<and> i_ino inode \<noteq> 0 \<and>
     fvalid f (inode_block f (inr_of inode)) \<and>
     owns f [inode_block f (inr_of inode)] \<and> inode_block f (inr_of inode) \<notin> set bs"

lemma file_wfD:
  assumes "file_wf f inode bs"
  shows "mounted f" "fs_ok f" "layout_ok f" "owns f bs" "distinct bs" "length bs \<le> TFS_N_BLOCKS"
    "i_data inode = bs @ replicate (TFS_N_BLOCKS - length bs) 0" "b \<in> set bs \<Longrightarrow> fvalid f b"
    "b \<in> set bs \<Longrightarrow> b \<noteq> 0" "0 < s_data_area (sbi f)" "i_ino inode \<noteq> 0"
    "fvalid f (inode_block f (inr_of inode))" "owns f [inode_block f (inr_of inode)]"
    "inode_block f (inr_of inode) \<notin> set bs"
  using assms unfolding file_wf_def mounted_def by blast+

lemma grow_size_eq: "grow_size inode offset w = inode\<lparr>i_size := offset + w\<rparr>"
  by (simp add: grow_size_def)

lemma file_wf_keep:
  assumes wf: "file_wf f inode bs" and ok: "fs_ok f'" and m: "same_mount f f'"
    and bm: "fblock f' (s_block_bitmap (sbi f)) = fblock f (s_block_bitmap (sbi f))"
    and i: "i_data inode' = i_data inode" "i_ino inode' = i_ino inode"
  shows "file_wf f' inode' bs"
proof -
  have e: "sbi f' = sbi f" "fvalid f' = fvalid f" using m by simp_all
  have m': "mounted f'" using mounted_same [OF _ ok m] wf by (simp add: file_wf_def)
  have u: "block_used f' = block_used f" "bitmap_bits f' = bitmap_bits f"
    by (simp_all add: block_used_def bitmap_bits_def fun_eq_iff bm e)
  have o: "owns f' = owns f" "layout_ok f' = layout_ok f" "inode_block f' = inode_block f"
    using tinode_of_same [OF m] by (simp_all add: owns_def layout_ok_def fun_eq_iff u e)
  show ?thesis using wf m' by (simp add: file_wf_def o e i inr_of_def)
qed

text \<open>
  The number of blocks that can still be allocated, and how a file that grew from \<open>bs\<close> to \<open>bs'\<close> used
  them: its new blocks were free before, and no other bit of the bitmap has changed.
\<close>

definition free_blocks :: "tfs \<Rightarrow> nat" where
  "free_blocks f = card {k. k < bitmap_bits f \<and> \<not> block_used f k}"

definition grown :: "tfs \<Rightarrow> u32 list \<Rightarrow> tfs \<Rightarrow> u32 list \<Rightarrow> bool" where
  "grown f bs f' bs' \<longleftrightarrow> (\<forall>b \<in> set (drop (length bs) bs'). \<not> block_used f (unat b)) \<and>
     (\<forall>k < bitmap_bits f. block_used f' k \<longleftrightarrow> block_used f k \<or> k \<in> unat ` set (drop (length bs) bs'))"

lemma grown_same: "block_used f' = block_used f \<Longrightarrow> grown f bs f' bs"
  by (simp add: grown_def)

lemma grown_then_same: "grown f bs g bs' \<Longrightarrow> block_used h = block_used g \<Longrightarrow> grown f bs h bs'"
  by (simp add: grown_def)

lemma grown_trans:
  assumes "grown f bs g cs" and "grown g cs h ds" and "prefix bs cs" and "prefix cs ds" and "bitmap_bits g = bitmap_bits f"
    and "\<forall>b \<in> set ds. unat b < bitmap_bits f"
  shows "grown f bs h ds"
proof -
  have cd: "cs = take (length cs) ds" "length bs \<le> length cs" "length cs \<le> length ds"
    using assms(3,4) by (auto simp: prefix_def)
  have "drop (length bs) ds = drop (length bs) (take (length cs) ds) @ drop (length cs) ds"
    using cd(2) by (metis append_take_drop_id drop_append length_take min.absorb2 cd(3) diff_is_0_eq drop_0)
  then have d: "drop (length bs) ds = drop (length bs) cs @ drop (length cs) ds" using cd(1) by simp
  have "\<not> block_used f (unat b)" if "b \<in> set (drop (length cs) ds)" for b
    using assms(1,2,5,6) that by (auto simp: grown_def dest: in_set_dropD)
  then show ?thesis using assms(1,2,5) unfolding grown_def d by (auto simp: image_Un)
qed

lemma grown_free:
  assumes "grown f bs f' bs'" and "prefix bs bs'" and "bitmap_bits f' = bitmap_bits f" and "distinct bs'"
    and "\<forall>b \<in> set bs'. unat b < bitmap_bits f"
  shows "free_blocks f' + length bs' = free_blocks f + length bs"
proof -
  let ?new = "unat ` set (drop (length bs) bs')" and ?F = "{k. k < bitmap_bits f \<and> \<not> block_used f k}"
  have "distinct (map unat (drop (length bs) bs'))" using assms(4) by (simp add: distinct_map inj_on_def word_unat_eq_iff)
  then have card: "card ?new = length bs' - length bs"
    using distinct_card [of "map unat (drop (length bs) bs')"] by simp
  have sub: "?new \<subseteq> ?F" using assms(1,5) by (auto simp: grown_def dest: in_set_dropD)
  have "{k. k < bitmap_bits f' \<and> \<not> block_used f' k} = ?F - ?new"
    using assms(1,3) by (auto simp: grown_def)
  then have "free_blocks f' = card ?F - card ?new" using sub by (simp add: free_blocks_def card_Diff_subset)
  moreover have "card ?new \<le> card ?F" using sub by (intro card_mono) simp_all
  moreover have "length bs \<le> length bs'" using assms(2) by (rule prefix_length_le)
  ultimately show ?thesis by (simp add: card free_blocks_def)
qed

lemma no_free_blocks: "free_blocks f = 0 \<longleftrightarrow> \<not> has_free_block f"
  by (auto simp: free_blocks_def has_free_block_def)

lemma file_wf_alloc:
  assumes wf: "file_wf f inode bs" and room: "length bs < TFS_N_BLOCKS" and free: "has_free_block f"
  obtains w f' where "tfs_alloc_block f (s_data_area (sbi f)) = Some (int (unat w), f')"
    and "file_wf f' (inode\<lparr>i_data := (i_data inode)[length bs := w]\<rparr>) (bs @ [w])" and "same_mount f f'"
    and "\<forall>c. fvalid f c \<longrightarrow> c \<noteq> s_block_bitmap (sbi f) \<longrightarrow> fblock f' c = fblock f c"
    and "grown f bs f' (bs @ [w])"
proof -
  have m: "mounted f" "layout_ok f" using wf by (simp_all add: file_wf_def)
  obtain w f' where a: "tfs_alloc_block f (s_data_area (sbi f)) = Some (int (unat w), f')"
    "unat w < bitmap_bits f" "\<not> block_used f (unat w)" "fvalid f w" "s_data_area (sbi f) \<le> w"
    "w \<noteq> s_block_bitmap (sbi f)" "bit_written f (s_block_bitmap (sbi f)) (unat w) True f'"
    using alloc_fresh [OF m free] .
  have b: "fs_ok f'" "same_mount f f'"
    "\<forall>c. fvalid f c \<longrightarrow> c \<noteq> s_block_bitmap (sbi f) \<longrightarrow> fblock f' c = fblock f c"
    "\<forall>k < bitmap_bits f. block_used f' k \<longleftrightarrow> k = unat w \<or> block_used f k"
    using a(7) by (auto simp: bit_written_def block_used_def split: if_splits)
  have e: "sbi f' = sbi f" "fvalid f' = fvalid f" "bitmap_bits f' = bitmap_bits f"
    using b(2) by (simp_all add: bitmap_bits_def)
  let ?ib = "inode_block f (inr_of inode)"
  have old: "owns f bs" "owns f [?ib]" using wf by (simp_all add: file_wf_def)
  have own: "owns f' (bs @ [w])" by (rule owns_snoc [OF old(1) a(2,6) b(4,2)])
  have own2: "owns f' [?ib]" using old(2) b(4) by (simp add: owns_def e)
  have new: "w \<notin> set bs" "w \<noteq> ?ib" using old a(3) by (auto simp: owns_def)
  have lay: "layout_ok f'" using m(2) b(4) unfolding layout_ok_def e by blast
  have w0: "w \<noteq> 0" using a(5) file_wfD(10) [OF wf] by auto
  have d: "i_data inode = bs @ replicate (TFS_N_BLOCKS - length bs) 0" using wf by (simp add: file_wf_def)
  note data = data_snoc [OF d room, of w]
  have ib: "inode_block f' = inode_block f" using tinode_of_same [OF b(2)] by simp
  have m': "mounted f'" using mounted_same [OF m(1) b(1,2)] .
  have "file_wf f' (inode\<lparr>i_data := (i_data inode)[length bs := w]\<rparr>) (bs @ [w])"
    using own own2 new lay w0 room a(4) m' file_wfD(5,8-14) [OF wf] data unfolding file_wf_def
    by (simp add: e ib inr_of_def del: append_assoc)
  moreover have "grown f bs f' (bs @ [w])" using a(3) b(4) by (auto simp: grown_def)
  ultimately show thesis using a b that by blast
qed

lemma no_free_block:
  assumes "mounted f" and "layout_ok f" and "\<not> has_free_block f"
  shows "\<exists>f'. tfs_alloc_block f (s_data_area (sbi f)) = Some (- errno_num ENOSPC, f')"
proof -
  have "unat (s_data_area (sbi f)) < bitmap_bits f" using assms(2) by (simp add: layout_ok_def)
  moreover have "full_upto (fblock f (s_block_bitmap (sbi f))) (bitmap_bits f)"
    using assms(3) by (simp add: has_free_block_def full_upto_def block_used_def)
  ultimately show ?thesis using alloc_block_ok [OF assms(1), of "s_data_area (sbi f)"] by metis
qed

lemma block_for_ok:
  assumes wf: "file_wf f inode bs" and i: "index \<le> length bs" "index < TFS_N_BLOCKS"
  shows "(\<exists>f'. free_blocks f + length bs \<le> index \<and> block_for f inode (int index) = Some (Inl (- errno_num ENOSPC), inode, f')) \<or>
    (\<exists>inode' bs' f'. block_for f inode (int index) = Some (Inr (bs' ! index), inode', f') \<and>
       file_wf f' inode' bs' \<and> same_mount f f' \<and> index < length bs' \<and> prefix bs bs' \<and> grown f bs f' bs' \<and>
       (\<forall>c. fvalid f c \<longrightarrow> c \<noteq> s_block_bitmap (sbi f) \<longrightarrow> fblock f' c = fblock f c))"
proof (cases "index < length bs")
  case True
  then have "i_data inode ! index = bs ! index" "bs ! index \<noteq> 0"
    using wf by (auto simp: file_wf_def nth_append)
  then have "block_for f inode (int index) = Some (Inr (bs ! index), inode, f)"
    using i(2) by (simp add: block_for_def tfs_bmap_def)
  with wf True show ?thesis using same_mount_refl prefix_order.order_refl grown_same [OF refl] by blast
next
  case False
  with i have l: "index = length bs" "length bs < TFS_N_BLOCKS" by simp_all
  then have "i_data inode ! length bs = 0" using wf by (simp add: file_wf_def nth_append)
  then have bm: "tfs_bmap inode (int (length bs)) = Some 0" using l by (simp add: tfs_bmap_def)
  have m: "mounted f" "layout_ok f" using wf by (simp_all add: file_wf_def)
  show ?thesis
  proof (cases "has_free_block f")
    case True
    obtain w f' where a: "tfs_alloc_block f (s_data_area (sbi f)) = Some (int (unat w), f')"
      "file_wf f' (inode\<lparr>i_data := (i_data inode)[length bs := w]\<rparr>) (bs @ [w])" "same_mount f f'"
      "\<forall>c. fvalid f c \<longrightarrow> c \<noteq> s_block_bitmap (sbi f) \<longrightarrow> fblock f' c = fblock f c"
      "grown f bs f' (bs @ [w])"
      using file_wf_alloc [OF wf l(2) True] .
    have "block_for f inode (int index) =
        Some (Inr ((bs @ [w]) ! index), inode\<lparr>i_data := (i_data inode)[length bs := w]\<rparr>, f')"
      using l a(1) by (simp add: block_for_def bm)
    moreover have "prefix bs (bs @ [w])" "index < length (bs @ [w])" using l by simp_all
    ultimately show ?thesis using a(2-5) by blast
  next
    case False
    from no_free_block [OF m False] obtain f' where
      "tfs_alloc_block f (s_data_area (sbi f)) = Some (- errno_num ENOSPC, f')" ..
    then have "block_for f inode (int index) = Some (Inl (- errno_num ENOSPC), inode, f')"
      using l by (simp add: block_for_def bm)
    moreover have "free_blocks f + length bs \<le> index" using False l(1) no_free_blocks by simp
    ultimately show ?thesis by blast
  qed
qed

lemma write_chunk_ok:
  assumes wf: "file_wf f inode bs" and b: "b \<in> set bs" and len: "off + length bytes \<le> bsize (sbi f)"
  obtains f' where "write_chunk f inode offset b off bytes w = Some (True, inode\<lparr>i_size := offset + w\<rparr>, f')"
    and "file_wf f' (inode\<lparr>i_size := offset + w\<rparr>) bs" and "same_mount f f'"
    and "fblock f' b = splice_at off bytes (fblock f b)"
    and "\<forall>c. fvalid f c \<longrightarrow> c \<noteq> b \<longrightarrow> fblock f' c = fblock f c" and "block_used f' = block_used f"
proof -
  have v: "fs_ok f" "fvalid f b" "fvalid f (s_block_bitmap (sbi f))" "b \<noteq> s_block_bitmap (sbi f)"
    using wf b by (auto simp: file_wf_def mounted_def owns_def)
  obtain cs f1 where g: "cache_get f b = (Some cs, f1)" "data_of f1 cs = fblock f b" "same_mount f f1"
    and put: "\<And>buf. length buf = bsize (sbi f) \<Longrightarrow> \<exists>f2. write_block (set_data f1 cs buf) b buf = (0, f2) \<and>
      fs_ok f2 \<and> same_mount f f2 \<and> fblock f2 b = buf \<and>
      (\<forall>c. fvalid f c \<longrightarrow> c \<noteq> b \<longrightarrow> fblock f2 c = fblock f c) \<and> (\<forall>x c. holds f1 x c \<longrightarrow> holds f2 x c)"
    using fsc.get_then_put [OF v(1,2)] by metis
  let ?buf = "splice_at off bytes (fblock f b)"
  have l: "length (fblock f b) = bsize (sbi f)" by (rule fsc.content_len [OF v(1)])
  then obtain f2 where p: "write_block (set_data f1 cs ?buf) b ?buf = (0, f2)" "fs_ok f2" "same_mount f f2"
    "fblock f2 b = ?buf" "\<forall>c. fvalid f c \<longrightarrow> c \<noteq> b \<longrightarrow> fblock f2 c = fblock f c"
    using put [of ?buf] len by auto
  have "write_chunk f inode offset b off bytes w = Some (True, inode\<lparr>i_size := offset + w\<rparr>, f2)"
    using l len p(1) by (simp add: write_chunk_def g(1,2) Let_def grow_size_eq)
  moreover have "file_wf f2 (inode\<lparr>i_size := offset + w\<rparr>) bs"
    using p(5) v(3,4) by (intro file_wf_keep [OF wf p(2,3)]) auto
  moreover have "block_used f2 = block_used f"
    using p(3,5) v(3,4) by (simp add: block_used_def fun_eq_iff)
  ultimately show thesis using p(3-5) that by blast
qed

lemma slice_Suc: "index < length bs \<Longrightarrow> slice index (Suc k) bs = bs ! index # slice (Suc index) k bs"
  by (simp add: slice_def Cons_nth_drop_Suc [symmetric])

lemma prefix_nth: "prefix xs ys \<Longrightarrow> i < length xs \<Longrightarrow> ys ! i = xs ! i"
  by (auto simp: prefix_def nth_append)

text \<open>The blocks from \<open>index\<close> on hold the bytes of the caller, one block after the other.\<close>

definition chunks_at :: "tfs \<Rightarrow> u32 list \<Rightarrow> nat \<Rightarrow> nat \<Rightarrow> mem \<Rightarrow> nat \<Rightarrow> bool" where
  "chunks_at f bs index k m buf \<longleftrightarrow>
     (\<forall>j < k. fblock f (bs ! (index + j)) = get_bytes m (buf + j * bsize (sbi f)) (bsize (sbi f)))"

lemma chunks_at_Suc:
  "chunks_at f bs index (Suc k) m buf \<longleftrightarrow> fblock f (bs ! index) = get_bytes m buf (bsize (sbi f)) \<and>
     chunks_at f bs (Suc index) k m (buf + bsize (sbi f))"
  by (simp add: chunks_at_def All_less_Suc2 add.assoc)

definition only_changed :: "tfs \<Rightarrow> tfs \<Rightarrow> u32 set \<Rightarrow> bool" where
  "only_changed f f' A \<longleftrightarrow> (\<forall>c. fvalid f c \<longrightarrow> c \<noteq> s_block_bitmap (sbi f) \<longrightarrow> c \<notin> A \<longrightarrow> fblock f' c = fblock f c)"

lemma only_changed_trans:
  "only_changed f g A \<Longrightarrow> only_changed g h B \<Longrightarrow> same_mount f g \<Longrightarrow> A \<union> B \<subseteq> C \<Longrightarrow> only_changed f h C"
  by (auto simp: only_changed_def subset_iff) metis

text \<open>
  A part of a write: a file that grew to \<open>bs'\<close> while only the blocks in \<open>A\<close> and the bitmap changed.
\<close>

definition wrote :: "tfs \<Rightarrow> u32 list \<Rightarrow> u32 set \<Rightarrow> tfs \<Rightarrow> inode \<Rightarrow> u32 list \<Rightarrow> bool" where
  "wrote f bs A f' inode' bs' \<longleftrightarrow> file_wf f' inode' bs' \<and> same_mount f f' \<and> prefix bs bs' \<and>
     grown f bs f' bs' \<and> only_changed f f' A"

lemma wroteD:
  assumes "wrote f bs A f' inode' bs'"
  shows "file_wf f' inode' bs'" "same_mount f f'" "prefix bs bs'" "grown f bs f' bs'" "only_changed f f' A"
    "sbi f' = sbi f" "fvalid f' = fvalid f" "bitmap_bits f' = bitmap_bits f" "inode_block f' = inode_block f"
    "\<forall>b \<in> set bs'. unat b < bitmap_bits f"
proof -
  show w: "file_wf f' inode' bs'" "same_mount f f'" "prefix bs bs'" "grown f bs f' bs'" "only_changed f f' A"
    using assms by (simp_all add: wrote_def)
  then show "sbi f' = sbi f" "fvalid f' = fvalid f" "bitmap_bits f' = bitmap_bits f" "inode_block f' = inode_block f"
    using tinode_of_same [OF w(2)] by (simp_all add: bitmap_bits_def)
  then show "\<forall>b \<in> set bs'. unat b < bitmap_bits f"
    using file_wfD(4) [OF w(1)] by (simp add: owns_def bitmap_bits_def)
qed

lemma wrote_free: "wrote f bs A f' inode' bs' \<Longrightarrow> free_blocks f' + length bs' = free_blocks f + length bs"
  by (rule grown_free) (simp_all add: wroteD file_wfD(5) [OF wroteD(1)])

lemma wrote_trans:
  assumes "wrote f bs A g i cs" and "wrote g cs B h j ds" and "A \<union> B \<subseteq> C"
  shows "wrote f bs C h j ds"
proof -
  note w1 = wroteD [OF assms(1)] and w2 = wroteD [OF assms(2)]
  have "grown f bs h ds" by (rule grown_trans [OF w1(4) w2(4) w1(3) w2(3) w1(8)]) (use w1(8) w2(10) in simp)
  moreover have "prefix bs ds" using w1(3) w2(3) by (rule prefix_order.trans)
  ultimately show ?thesis
    using w2(1) fsc.same_trans [OF w1(2) w2(2)] only_changed_trans [OF w1(5) w2(5) w1(2) assms(3)] by (simp add: wrote_def)
qed

text \<open>One block and then the blocks behind it.\<close>

lemma wrote_Cons:
  assumes "wrote f bs {bs1 ! index} g i bs1" and "wrote g bs1 (set (slice (Suc index) k bs')) h j bs'"
    and "index < length bs1" and "Suc index + k \<le> length bs'"
  shows "wrote f bs (set (slice index (Suc k) bs')) h j bs'"
    and "slice index (Suc k) bs' = bs1 ! index # slice (Suc index) k bs'"
    and "bs' ! index = bs1 ! index" and "fblock h (bs1 ! index) = fblock g (bs1 ! index)"
proof -
  note w1 = wroteD [OF assms(1)] and w2 = wroteD [OF assms(2)]
  show n: "bs' ! index = bs1 ! index" by (rule prefix_nth [OF w2(3) assms(3)])
  show sl: "slice index (Suc k) bs' = bs1 ! index # slice (Suc index) k bs'" using assms(4) n by (simp add: slice_Suc)
  show "wrote f bs (set (slice index (Suc k) bs')) h j bs'" by (rule wrote_trans [OF assms(1,2)]) (simp add: sl)
  have "distinct (slice index (Suc k) bs')" using file_wfD(5) [OF w2(1)] by (simp add: slice_def)
  then have "bs1 ! index \<notin> set (slice (Suc index) k bs')" by (simp add: sl)
  moreover have "fvalid g (bs1 ! index)" "bs1 ! index \<noteq> s_block_bitmap (sbi g)"
    using file_wfD(4,8) [OF w1(1)] nth_mem [OF assms(3)] by (auto simp: owns_def)
  ultimately show "fblock h (bs1 ! index) = fblock g (bs1 ! index)" using w2(5) by (simp add: only_changed_def)
qed

text \<open>One chunk: the block for it is found or allocated, and written from \<open>off\<close> on.\<close>

lemma chunk_ok:
  assumes wf: "file_wf f inode bs" and i: "index \<le> length bs" "index < TFS_N_BLOCKS"
    and len: "off + length bytes \<le> bsize (sbi f)"
  obtains (full) f' where "free_blocks f + length bs \<le> index"
      and "block_for f inode (int index) = Some (Inl (- errno_num ENOSPC), inode, f')"
  | (put) inode1 bs1 f1 f2 old where "block_for f inode (int index) = Some (Inr (bs1 ! index), inode1, f1)"
      and "write_chunk f1 inode1 offset (bs1 ! index) off bytes w = Some (True, inode1\<lparr>i_size := offset + w\<rparr>, f2)"
      and "sbi f1 = sbi f" and "wrote f bs {bs1 ! index} f2 (inode1\<lparr>i_size := offset + w\<rparr>) bs1"
      and "index < length bs1" and "i_ino inode1 = i_ino inode"
      and "fblock f2 (bs1 ! index) = splice_at off bytes old" and "length old = bsize (sbi f)"
      and "index < length bs \<longrightarrow> old = fblock f (bs ! index)"
  using block_for_ok [OF wf i]
proof (elim disjE exE conjE)
  fix inode1 bs1 f1
  assume b: "block_for f inode (int index) = Some (Inr (bs1 ! index), inode1, f1)"
    and wf1: "file_wf f1 inode1 bs1" and m1: "same_mount f f1" and i1: "index < length bs1"
    and p1: "prefix bs bs1" and g1: "grown f bs f1 bs1"
    and k1: "\<forall>c. fvalid f c \<longrightarrow> c \<noteq> s_block_bitmap (sbi f) \<longrightarrow> fblock f1 c = fblock f c"
  have e: "sbi f1 = sbi f" "fvalid f1 = fvalid f" using m1 by simp_all
  obtain f2 where c: "write_chunk f1 inode1 offset (bs1 ! index) off bytes w =
      Some (True, inode1\<lparr>i_size := offset + w\<rparr>, f2)" "file_wf f2 (inode1\<lparr>i_size := offset + w\<rparr>) bs1"
    "same_mount f1 f2" "fblock f2 (bs1 ! index) = splice_at off bytes (fblock f1 (bs1 ! index))"
    "\<forall>c. fvalid f1 c \<longrightarrow> c \<noteq> bs1 ! index \<longrightarrow> fblock f2 c = fblock f1 c" "block_used f2 = block_used f1"
    using write_chunk_ok [OF wf1 nth_mem [OF i1] len [folded e(1)]] .
  have "i_ino inode1 = i_ino inode"
    using b by (auto simp: block_for_def split: option.splits if_splits prod.splits)
  moreover have "length (fblock f1 (bs1 ! index)) = bsize (sbi f)"
    using fsc.content_len [OF file_wfD(2) [OF wf1]] by (simp add: e)
  moreover have "fblock f1 (bs1 ! index) = fblock f (bs ! index)" if "index < length bs"
  proof -
    have "bs ! index \<noteq> s_block_bitmap (sbi f)" using file_wfD(4) [OF wf] nth_mem [OF that] by (auto simp: owns_def)
    then show ?thesis using k1 file_wfD(8) [OF wf nth_mem [OF that]] prefix_nth [OF p1 that] by simp
  qed
  moreover have "wrote f bs {bs1 ! index} f2 (inode1\<lparr>i_size := offset + w\<rparr>) bs1"
    using k1 c(2,5) fsc.same_trans [OF m1 c(3)] p1 grown_then_same [OF g1 c(6)]
    by (simp add: wrote_def only_changed_def e)
  ultimately show thesis using put b c(1,4) e(1) i1 by blast
qed (rule full)

lemma write_loop_Suc:
  "write_loop f inode offset m buf (int index) (int (Suc k)) w =
    (case block_for f inode (int index) of
        None \<Rightarrow> None
      | Some (Inl e, inode, f) \<Rightarrow> Some (Inl e, inode, f)
      | Some (Inr block, inode, f) \<Rightarrow>
          let n = s_block_size (sbi f); written = w + n in
          (case write_chunk f inode offset block 0 (get_bytes m buf (unat n)) written of
             None \<Rightarrow> None
           | Some (ok, inode, f) \<Rightarrow>
               if \<not> ok then Some (Inl (- errno_num EIO), inode, f)
               else write_loop f inode offset m (buf + unat n) (int (Suc index)) (int k) written))"
proof -
  have *: "int index + 1 = int (Suc index)" "int (Suc k) - 1 = int k" "int (Suc k) \<noteq> 0" by simp_all
  show ?thesis by (subst write_loop.simps) (simp only: * if_False)
qed

lemma write_loop_ok:
  assumes "file_wf f inode bs" and "index \<le> length bs" and "index + k \<le> TFS_N_BLOCKS"
    and "i_size inode = offset + w"
  shows "(\<exists>inode' f'. free_blocks f + length bs < index + k \<and>
       write_loop f inode offset m buf (int index) (int k) w = Some (Inl (- errno_num ENOSPC), inode', f')) \<or>
    (\<exists>inode' bs' f'. write_loop f inode offset m buf (int index) (int k) w =
         Some (Inr (w + word_of_nat k * s_block_size (sbi f)), inode', f') \<and>
       wrote f bs (set (slice index k bs')) f' inode' bs' \<and> index + k \<le> length bs' \<and>
       i_size inode' = offset + (w + word_of_nat k * s_block_size (sbi f)) \<and> i_ino inode' = i_ino inode \<and>
       chunks_at f' bs' index k m buf)"
  using assms
proof (induction k arbitrary: f inode bs index buf w)
  case 0
  have "chunks_at f bs index 0 m buf" "wrote f bs (set (slice index 0 bs)) f inode bs"
    using 0 by (simp_all add: chunks_at_def wrote_def only_changed_def grown_same)
  then show ?case using 0 by (subst (2) write_loop.simps) auto
next
  case (Suc k)
  note wf = Suc.prems(1)
  let ?n = "s_block_size (sbi f)" and ?size = "bsize (sbi f)"
  have sz: "unat ?n = ?size" using bsize_range(3) [OF fs_ok_sbi] file_wfD(2) [OF wf] by blast
  have lt: "index < TFS_N_BLOCKS" "0 + length (get_bytes m buf ?size) \<le> ?size" using Suc.prems(3) by simp_all
  from wf Suc.prems(2) lt show ?case
  proof (cases rule: chunk_ok [where offset = offset and w = "w + ?n"])
    case (full f')
    then show ?thesis unfolding write_loop_Suc by simp
  next
    case (put inode1 bs1 f1 f2 old)
    let ?inode = "inode1\<lparr>i_size := offset + (w + ?n)\<rparr>"
    note w1 = put(4)
    have e: "sbi f2 = sbi f" by (rule wroteD(6) [OF w1])
    have call: "write_loop f inode offset m buf (int index) (int (Suc k)) w =
        write_loop f2 ?inode offset m (buf + ?size) (int (Suc index)) (int k) (w + ?n)"
      unfolding write_loop_Suc put(1) by (simp add: Let_def put(2,3) sz)
    have "Suc index \<le> length bs1" "Suc index + k \<le> TFS_N_BLOCKS" "i_size ?inode = offset + (w + ?n)"
      using put(5) Suc.prems(3) by simp_all
    from Suc.IH [OF wroteD(1) [OF w1] this, of "buf + ?size"] show ?thesis
    proof (elim disjE exE conjE)
      fix inode' f'
      assume "free_blocks f2 + length bs1 < Suc index + k" "write_loop f2 ?inode offset m (buf + ?size)
        (int (Suc index)) (int k) (w + ?n) = Some (Inl (- errno_num ENOSPC), inode', f')"
      then show ?thesis unfolding call wrote_free [OF w1] by simp
    next
      fix inode' bs' f'
      assume r: "write_loop f2 ?inode offset m (buf + ?size) (int (Suc index)) (int k) (w + ?n) =
          Some (Inr (w + ?n + word_of_nat k * s_block_size (sbi f2)), inode', f')"
        and w2: "wrote f2 bs1 (set (slice (Suc index) k bs')) f' inode' bs'" and l: "Suc index + k \<le> length bs'"
        and i: "i_size inode' = offset + (w + ?n + word_of_nat k * s_block_size (sbi f2))" "i_ino inode' = i_ino ?inode"
        and ch: "chunks_at f' bs' (Suc index) k m (buf + ?size)"
      note w = wrote_Cons [OF w1 w2 put(5) l]
      have "chunks_at f' bs' index (Suc k) m buf"
        using ch put(7,8) wroteD(6) [OF w(1)] by (simp add: chunks_at_Suc w(3,4) splice_at_def)
      moreover have "w + ?n + word_of_nat k * s_block_size (sbi f2) = w + word_of_nat (Suc k) * ?n"
        by (simp add: e algebra_simps)
      ultimately show ?thesis using r w(1) l i put(6) call by auto
    qed
  qed
qed

section \<open>Offsets\<close>

lemma offset_split:
  assumes "sbi_ok s"
  shows "sint (drop_bit (unat (s_block_shift s)) (w :: u32)) = int (unat w div bsize s)"
    "unat (w AND (s_block_size s - 1)) = unat w mod bsize s"
proof -
  let ?k = "unat (s_block_shift s)"
  have u: "unat (drop_bit ?k w) = unat w div bsize s"
    by (simp only: unat_drop_bit_eq bsize_def) (simp only: drop_bit_eq_div)
  have "unat w div bsize s \<le> unat w div 2"
    using bsize_range(1) [OF assms] by (intro div_le_mono2) simp_all
  moreover have "unat w < 2 ^ 32" by (rule order_less_le_trans [OF unsigned_less]) simp
  ultimately have "unat (drop_bit ?k w) < 2 ^ 31" unfolding u by simp
  then show "sint (drop_bit ?k w) = int (unat w div bsize s)" using sint_small u by metis
  have "s_block_size s = 2 ^ ?k"
    using assms by (simp add: sbi_ok_def bsize_def)
  then have "w AND (s_block_size s - 1) = take_bit ?k w"
    by (simp add: take_bit_eq_mask mask_eq_exp_minus_1)
  then show "unat (w AND (s_block_size s - 1)) = unat w mod bsize s"
    by (simp only: unsigned_take_bit_eq) (simp only: take_bit_eq_mod bsize_def)
qed

lemma size_small:
  assumes "sbi_ok s" and "n \<le> TFS_N_BLOCKS"
  shows "n * bsize s < 2 ^ 31" "unat (word_of_nat n * s_block_size s) = n * bsize s"
    "sint (word_of_nat n * s_block_size s) = int (n * bsize s)"
proof -
  have "n * bsize s \<le> 8 * 16384"
    using assms(2) bsize_range(2) [OF assms(1)] by (intro mult_le_mono) (simp_all add: TFS_N_BLOCKS_def)
  then show l: "n * bsize s < 2 ^ 31" by simp
  have "word_of_nat n * s_block_size s = (word_of_nat (n * bsize s) :: u32)"
    using assms(1) by (simp add: sbi_ok_def)
  then show u: "unat (word_of_nat n * s_block_size s) = n * bsize s" using l unat_of_nat_u32 [of "n * bsize s"] by (simp del: of_nat_mult)
  then show "sint (word_of_nat n * s_block_size s) = int (n * bsize s)" using l sint_small by metis
qed

lemma tfs_read_ok:
  assumes ok: "fs_ok f" and l: "length (i_data (f_inode fl)) = TFS_N_BLOCKS"
    and o: "f_offset fl < i_size (f_inode fl)" and "0 < blocks"
  defines "bs \<equiv> take (nat blocks) (blocks_from (f_inode fl) (unat (f_offset fl) div bsize (sbi f)))"
  assumes "\<forall>b \<in> set bs. fvalid f b"
  shows "\<exists>f'. tfs_read f fl m buf blocks =
      Some (int (length bs * bsize (sbi f)), put_bytes m buf (concat (map (fblock f) bs)), f') \<and> same_volume f f'"
proof -
  note s = fs_ok_sbi [OF ok]
  let ?i = "unat (f_offset fl) div bsize (sbi f)"
  have "length bs \<le> length (blocks_from (f_inode fl) ?i)" by (simp add: bs_def)
  also have "\<dots> \<le> TFS_N_BLOCKS"
    using l length_takeWhile_le [of "\<lambda>b. b \<noteq> 0" "drop ?i (i_data (f_inode fl))"]
    by (simp add: blocks_from_def)
  finally have n: "length bs \<le> TFS_N_BLOCKS" .
  obtain f' where r: "read_loop f (f_inode fl) m buf (int ?i) (int (nat blocks)) 0 =
      Some (sint (0 + word_of_nat (length bs) * s_block_size (sbi f)), put_bytes m buf (concat (map (fblock f) bs)), f')"
    "same_volume f f'"
    using read_loop_ok [OF ok l assms(6) [unfolded bs_def]] unfolding bs_def by metis
  have "\<not> i_size (f_inode fl) \<le> f_offset fl" using o by simp
  then show ?thesis
    using r \<open>0 < blocks\<close> by (simp add: tfs_read_def offset_split [OF s] size_small(3) [OF s n])
qed

lemma get_bytes_append: "get_bytes m p a @ get_bytes m (p + a) b = get_bytes m p (a + b)"
  by (rule nth_equalityI) (auto simp: get_bytes_def nth_append)

lemma concat_chunks:
  "chunks_at f bs index k m buf \<Longrightarrow> index + k \<le> length bs \<Longrightarrow>
   concat (map (fblock f) (slice index k bs)) = get_bytes m buf (k * bsize (sbi f))"
proof (induction k arbitrary: index buf)
  case 0
  then show ?case by (simp add: slice_def get_bytes_def)
next
  case (Suc k)
  then have "index < length bs" "fblock f (bs ! index) = get_bytes m buf (bsize (sbi f))"
    "concat (map (fblock f) (slice (Suc index) k bs)) = get_bytes m (buf + bsize (sbi f)) (k * bsize (sbi f))"
    by (simp_all add: chunks_at_Suc)
  then show ?case by (simp add: slice_Suc get_bytes_append)
qed

lemma blocks_from_wf:
  assumes "file_wf f inode bs"
  shows "blocks_from inode index = drop index bs"
proof -
  have "takeWhile (\<lambda>b. b \<noteq> 0) (drop index bs @ replicate n 0) = drop index bs" for n
    using file_wfD(9) [OF assms] by (subst takeWhile_append2) (auto dest: in_set_dropD simp: takeWhile_replicate)
  then show ?thesis by (simp add: blocks_from_def file_wfD(7) [OF assms])
qed

lemma read_written:
  assumes wf: "file_wf f (f_inode file) bs" and k: "0 < k" "index + k \<le> length bs"
    and i: "index = unat (f_offset file) div bsize (sbi f)" and "f_offset file < i_size (f_inode file)"
  shows "\<exists>f'. tfs_read f file m buf (int k) =
    Some (int (k * bsize (sbi f)), put_bytes m buf (concat (map (fblock f) (slice index k bs))), f') \<and> same_volume f f'"
proof -
  have e: "take (nat (int k)) (blocks_from (f_inode file) (unat (f_offset file) div bsize (sbi f))) = slice index k bs"
    by (simp add: blocks_from_wf [OF wf] slice_def i)
  have "length (i_data (f_inode file)) = TFS_N_BLOCKS" using file_wfD(6,7) [OF wf] by simp
  moreover have "\<forall>b \<in> set (slice index k bs). fvalid f b"
    using file_wfD(8) [OF wf] by (auto simp: slice_def dest: in_set_takeD in_set_dropD)
  moreover have "length (slice index k bs) = k" using k by simp
  ultimately show ?thesis
    using tfs_read_ok [OF file_wfD(2) [OF wf], where fl = "file" and blocks = "int k" and m = m and buf = buf] assms(5) k(1) unfolding e by simp
qed

section \<open>A whole write\<close>

text \<open>Writing the inode back leaves the file as it is.\<close>

lemma file_wf_iwrite:
  assumes wf: "file_wf f inode bs"
  obtains f' where "tfs_iwrite f inode = Some (0, f')" and "file_wf f' inode bs" and "same_mount f f'"
    and "only_changed f f' {inode_block f (inr_of inode)}" and "\<forall>b \<in> set bs. fblock f' b = fblock f b"
    and "t_size (tinode_of f' (inr_of inode)) = i_size inode"
    and "t_block (tinode_of f' (inr_of inode)) = i_data inode" and "block_used f' = block_used f"
proof -
  have l: "length (i_data inode) = TFS_N_BLOCKS" using file_wfD(6,7) [OF wf] by simp
  obtain f' where w: "tfs_iwrite f inode = Some (0, f')"
    "inode_written f (inr_of inode) (tfs_write_inode (tinode_of f (inr_of inode)) inode) f'"
    using iwrite_ok [OF file_wfD(2,11,12) [OF wf] l] by metis
  have i: "fs_ok f'" "same_mount f f'" "tinode_of f' (inr_of inode) = tfs_write_inode (tinode_of f (inr_of inode)) inode"
    "\<forall>c. fvalid f c \<longrightarrow> c \<noteq> inode_block f (inr_of inode) \<longrightarrow> fblock f' c = fblock f c"
    using w(2) unfolding inode_written_def by blast+
  have "fvalid f (s_block_bitmap (sbi f))" using file_wfD(1) [OF wf] by (simp add: mounted_def)
  moreover have "inode_block f (inr_of inode) \<noteq> s_block_bitmap (sbi f)"
    using file_wfD(13) [OF wf] by (auto simp: owns_def)
  ultimately have bm: "fblock f' (s_block_bitmap (sbi f)) = fblock f (s_block_bitmap (sbi f))" using i(4) by metis
  then have "block_used f' = block_used f" using i(2) by (simp add: block_used_def fun_eq_iff)
  moreover have "file_wf f' inode bs" using bm by (intro file_wf_keep [OF wf i(1,2)]) simp_all
  moreover have "\<forall>b \<in> set bs. fblock f' b = fblock f b"
    using i(4) file_wfD(8,14) [OF wf] by blast
  moreover have "only_changed f f' {inode_block f (inr_of inode)}" using i(4) by (simp add: only_changed_def)
  moreover have "t_size (tinode_of f' (inr_of inode)) = i_size inode" "t_block (tinode_of f' (inr_of inode)) = i_data inode"
    unfolding i(3) by (simp_all add: tfs_write_inode_def)
  ultimately show thesis using w(1) i(2) that by blast
qed

definition written_file ::
  "tfs \<Rightarrow> u32 list \<Rightarrow> nat \<Rightarrow> nat \<Rightarrow> nat \<Rightarrow> mem \<Rightarrow> nat \<Rightarrow> inode \<Rightarrow> tfs \<Rightarrow> inode \<Rightarrow> u32 list \<Rightarrow> u8 list \<Rightarrow> bool" where
  "written_file f bs index off k m buf inode f' inode' bs' old \<longleftrightarrow>
     file_wf f' inode' bs' \<and> prefix bs bs' \<and> grown f bs f' bs' \<and> index + k \<le> length bs' \<and> same_mount f f' \<and>
     i_ino inode' = i_ino inode \<and> length old = bsize (sbi f) \<and>
     (index < length bs \<longrightarrow> old = fblock f (bs ! index)) \<and>
     concat (map (fblock f') (slice index k bs')) = take off old @ get_bytes m buf (k * bsize (sbi f) - off) \<and>
     t_size (tinode_of f' (inr_of inode)) = i_size inode' \<and> t_block (tinode_of f' (inr_of inode)) = i_data inode' \<and>
     only_changed f f' (insert (inode_block f (inr_of inode)) (set (slice index k bs')))"

lemma tfs_write_Suc:
  assumes "sbi_ok (sbi f)" and "index = unat (f_offset fl) div bsize (sbi f)" and "off = unat (f_offset fl) mod bsize (sbi f)"
  shows "tfs_write f fl m buf (int (Suc k)) =
    (case block_for f (f_inode fl) (int index) of
        None \<Rightarrow> None
      | Some (Inl e, inode, f) \<Rightarrow> Some (e, fl\<lparr>f_inode := inode\<rparr>, f)
      | Some (Inr block, inode, f) \<Rightarrow>
          let n = s_block_size (sbi f) - word_of_nat off in
          (case write_chunk f inode (f_offset fl) block off (get_bytes m buf (unat n)) n of
             None \<Rightarrow> None
           | Some (ok, inode, f) \<Rightarrow>
               if \<not> ok then Some (- errno_num EIO, fl\<lparr>f_inode := inode\<rparr>, f)
               else (case write_loop f inode (f_offset fl) m (buf + unat n) (int (Suc index)) (int k) n of
                  None \<Rightarrow> None
                | Some (Inl e, inode, f) \<Rightarrow> Some (e, fl\<lparr>f_inode := inode\<rparr>, f)
                | Some (Inr written, inode, f) \<Rightarrow>
                    (case tfs_iwrite f inode of
                       None \<Rightarrow> None
                     | Some (r, f) \<Rightarrow>
                         Some (if r \<noteq> 0 then - errno_num EIO else sint written, fl\<lparr>f_inode := inode\<rparr>, f)))))"
proof -
  have *: "int index + 1 = int (Suc index)" "int (Suc k) - 1 = int k" "int (Suc k) \<noteq> 0" by simp_all
  show ?thesis
    by (simp only: tfs_write_def Let_def offset_split [OF assms(1)] assms(2,3) [symmetric] * if_False)
qed

text \<open>The lengths that a write counts do not wrap.\<close>

lemma write_lengths:
  assumes s: "sbi_ok s" and off: "off < bsize s" and k: "Suc k \<le> TFS_N_BLOCKS"
  defines "n \<equiv> s_block_size s - word_of_nat off"
  shows "unat n = bsize s - off" and "n + word_of_nat k * s_block_size s = word_of_nat (Suc k * bsize s - off)"
    and "sint (word_of_nat (Suc k * bsize s - off) :: u32) = int (Suc k * bsize s - off)"
proof -
  have n: "n = word_of_nat (bsize s - off)" using s off by (simp add: n_def sbi_ok_def of_nat_diff)
  show "unat n = bsize s - off" unfolding n using bsize_range(2) [OF s] by (intro unat_of_nat_u32) simp
  show "n + word_of_nat k * s_block_size s = word_of_nat (Suc k * bsize s - off)"
    using s off unfolding n by (simp add: sbi_ok_def of_nat_diff algebra_simps)
  have "Suc k * bsize s - off < 2 ^ 31" by (rule less_imp_diff_less [OF size_small(1) [OF s k]])
  moreover from this have "unat (word_of_nat (Suc k * bsize s - off) :: u32) = Suc k * bsize s - off"
    by (intro unat_of_nat_u32) simp
  ultimately show "sint (word_of_nat (Suc k * bsize s - off) :: u32) = int (Suc k * bsize s - off)"
    by (metis sint_small)
qed

text \<open>The bytes of the first chunk, which starts inside its block, and of the other ones.\<close>

lemma chunks_bytes:
  assumes "fblock f (bs ! index) = splice_at off (get_bytes m buf (bsize (sbi f) - off)) old"
    and "length old = bsize (sbi f)" and "off < bsize (sbi f)"
    and "chunks_at f bs (Suc index) k m (buf + (bsize (sbi f) - off))" and "Suc index + k \<le> length bs"
  shows "concat (map (fblock f) (slice index (Suc k) bs)) = take off old @ get_bytes m buf (Suc k * bsize (sbi f) - off)"
proof -
  have "(bsize (sbi f) - off) + k * bsize (sbi f) = Suc k * bsize (sbi f) - off" using assms(3) by simp
  then have "get_bytes m buf (bsize (sbi f) - off) @ get_bytes m (buf + (bsize (sbi f) - off)) (k * bsize (sbi f)) =
      get_bytes m buf (Suc k * bsize (sbi f) - off)"
    using get_bytes_append [of m buf "bsize (sbi f) - off" "k * bsize (sbi f)"] by (simp only:)
  then show ?thesis
    using concat_chunks [OF assms(4,5)] assms(1-3,5) by (simp add: slice_Suc splice_at_def)
qed

text \<open>The loop is done; the inode goes to the disk.\<close>

lemma written_file_iwrite:
  assumes w: "wrote f bs (set (slice index (Suc k) bs')) f3 inode' bs'" and l: "index + Suc k \<le> length bs'"
    and c: "concat (map (fblock f3) (slice index (Suc k) bs')) = take off old @ get_bytes m buf (Suc k * bsize (sbi f) - off)"
    and old: "length old = bsize (sbi f)" "index < length bs \<longrightarrow> old = fblock f (bs ! index)"
    and ino: "i_ino inode' = i_ino inode"
  obtains f' where "tfs_iwrite f3 inode' = Some (0, f')"
    and "written_file f bs index off (Suc k) m buf inode f' inode' bs' old"
proof -
  note w' = wroteD [OF w]
  obtain f' where i: "tfs_iwrite f3 inode' = Some (0, f')" "file_wf f' inode' bs'" "same_mount f3 f'"
    "only_changed f3 f' {inode_block f3 (inr_of inode')}" "\<forall>b \<in> set bs'. fblock f' b = fblock f3 b"
    "t_size (tinode_of f' (inr_of inode')) = i_size inode'"
    "t_block (tinode_of f' (inr_of inode')) = i_data inode'" "block_used f' = block_used f3"
    using file_wf_iwrite [OF w'(1)] .
  have inr: "inr_of inode' = inr_of inode" using ino by (simp add: inr_of_def)
  have "set (slice index (Suc k) bs') \<subseteq> set bs'" by (auto simp: slice_def dest: in_set_takeD in_set_dropD)
  then have "concat (map (fblock f') (slice index (Suc k) bs')) = concat (map (fblock f3) (slice index (Suc k) bs'))"
    using i(5) by (intro arg_cong [where f = concat] map_cong) auto
  moreover have "only_changed f f' (insert (inode_block f (inr_of inode)) (set (slice index (Suc k) bs')))"
    by (rule only_changed_trans [OF w'(5) i(4) w'(2)]) (auto simp: w'(9) inr)
  ultimately show thesis
    using i(2,6,7) fsc.same_trans [OF w'(2) i(3)] grown_then_same [OF w'(4) i(8)] w'(3) l c old ino
    by (intro that [OF i(1)]) (simp add: written_file_def inr)
qed

lemma tfs_write_ok:
  assumes wf: "file_wf f (f_inode fl) bs" and i: "index \<le> length bs" "0 < k" "index + k \<le> TFS_N_BLOCKS"
    and index_def: "index = unat (f_offset fl) div bsize (sbi f)" and off_def: "off = unat (f_offset fl) mod bsize (sbi f)"
  shows "\<exists>res fl' f'. tfs_write f fl m buf (int k) = Some (res, fl', f') \<and>
    (res = - errno_num ENOSPC \<and> free_blocks f + length bs < index + k \<or> (\<exists>bs' old. res = int (k * bsize (sbi f) - off) \<and>
       f_offset fl' = f_offset fl \<and> i_size (f_inode fl') = f_offset fl + word_of_nat (k * bsize (sbi f) - off) \<and>
       written_file f bs index off k m buf (f_inode fl) f' (f_inode fl') bs' old))"
proof -
  obtain k' where k: "k = Suc k'" using i(2) by (cases k) simp_all
  note s = fs_ok_sbi [OF file_wfD(2) [OF wf]]
  let ?size = "bsize (sbi f)" and ?n = "s_block_size (sbi f) - word_of_nat off" and ?o = "f_offset fl"
  have off: "off < ?size" using bsize_range(1) [OF s] by (simp add: off_def)
  have "Suc k' \<le> TFS_N_BLOCKS" using i(3) k by simp
  note n = write_lengths [OF s off this]
  note call = tfs_write_Suc [OF s index_def off_def, of m buf k', folded k]
  have "index < TFS_N_BLOCKS" "off + length (get_bytes m buf (?size - off)) \<le> ?size" using i(2,3) off by simp_all
  from wf i(1) this show ?thesis
  proof (cases rule: chunk_ok [where offset = ?o and w = ?n])
    case (full f')
    then show ?thesis unfolding call using i(2) by simp
  next
    case (put inode1 bs1 f1 f2 old)
    let ?inode = "inode1\<lparr>i_size := ?o + ?n\<rparr>" and ?buf = "buf + (?size - off)"
    note w1 = put(4)
    have "Suc index \<le> length bs1" "Suc index + k' \<le> TFS_N_BLOCKS" "i_size ?inode = ?o + ?n"
      using put(5) i k by simp_all
    from write_loop_ok [OF wroteD(1) [OF w1] this, of m ?buf] show ?thesis
    proof (elim disjE exE conjE)
      fix inode' f'
      assume "free_blocks f2 + length bs1 < Suc index + k'"
        "write_loop f2 ?inode ?o m ?buf (int (Suc index)) (int k') ?n = Some (Inl (- errno_num ENOSPC), inode', f')"
      then show ?thesis unfolding call wrote_free [OF w1] by (simp add: put(1-3) n(1) k)
    next
      fix inode' bs' f3
      assume r: "write_loop f2 ?inode ?o m ?buf (int (Suc index)) (int k') ?n =
          Some (Inr (?n + word_of_nat k' * s_block_size (sbi f2)), inode', f3)"
        and w2: "wrote f2 bs1 (set (slice (Suc index) k' bs')) f3 inode' bs'" and l: "Suc index + k' \<le> length bs'"
        and sz: "i_size inode' = ?o + (?n + word_of_nat k' * s_block_size (sbi f2))" and ino: "i_ino inode' = i_ino ?inode"
        and ch: "chunks_at f3 bs' (Suc index) k' m ?buf"
      note w = wrote_Cons [OF w1 w2 put(5) l] and e = wroteD(6) [OF w1]
      have e3: "sbi f3 = sbi f" by (rule wroteD(6) [OF w(1)])
      have "concat (map (fblock f3) (slice index (Suc k') bs')) = take off old @ get_bytes m buf (Suc k' * ?size - off)"
        using chunks_bytes [of f3 bs' index off m buf old k'] put(7,8) off ch l unfolding e3 w(3,4) by simp
      moreover have "index + Suc k' \<le> length bs'" "i_ino inode' = i_ino (f_inode fl)" using l ino put(6) by simp_all
      ultimately obtain f' where f': "tfs_iwrite f3 inode' = Some (0, f')"
        "written_file f bs index off k m buf (f_inode fl) f' inode' bs' old"
        using written_file_iwrite [OF w(1) _ _ put(8,9)] unfolding k by blast
      have "tfs_write f fl m buf (int k) = Some (int (k * ?size - off), fl\<lparr>f_inode := inode'\<rparr>, f')"
        unfolding call using r f'(1) n(3) by (simp add: put(1-3) n(1,2) e k)
      moreover have "i_size inode' = ?o + word_of_nat (k * ?size - off)" using sz unfolding e n(2) k .
      ultimately show ?thesis using f'(2) by force
    qed
  qed
qed

section \<open>A file for the witnesses\<close>

lemma layout_blocks: "unat b < 2 ^ 20 \<Longrightarrow> fvalid layout_fs b"
  by (simp add: fvalid_def layout_fs_def demo_fs_def block_ok_def blank_disk_ok)

lemma empty_file_wf: "file_wf layout_fs empty_dir []"
proof -
  have s: "sbi layout_fs = big_block_sbi" by (simp add: layout_fs_def demo_fs_def)
  have i: "inr_of empty_dir = 1" "i_ino empty_dir \<noteq> 0" "inode_block layout_fs 1 = 3"
    by (simp_all add: inr_of_def empty_dir_def inode_block_def s big_block_sbi_def)
  have "bitmap_bits layout_fs = 8 * 2 ^ 14" by (rule layout_mounted)
  moreover have "s_data_area big_block_sbi = 4" "s_block_bitmap big_block_sbi = 2" by (simp_all add: big_block_sbi_def)
  moreover from this have "block_used layout_fs 3"
    using layout_mounted(2) \<open>bitmap_bits layout_fs = 8 * 2 ^ 14\<close> unfolding layout_ok_def s
    by (auto dest!: spec [of _ 3] simp: word_le_nat_alt)
  ultimately have "owns layout_fs [3]" by (simp add: owns_def s)
  then show ?thesis
    using layout_mounted(1,2,5) i layout_blocks [of 3] by (simp add: file_wf_def s big_block_sbi_def empty_dir_def)
qed

section \<open>Properties\<close>

text \<open>
  \<^verbatim>\<open>tfs_read\<close> reads the blocks of the file. For an offset inside the file and a positive number of
  blocks it copies the blocks of the file from the one of the offset on, as many as asked for or up
  to the first hole, one after the other into the memory of the caller, returns their total size,
  and changes nothing on the volume.
\<close>

theorem tfs_read_blocks:
  assumes "fs_ok f" and "length (i_data (f_inode fl)) = TFS_N_BLOCKS"
    and "f_offset fl < i_size (f_inode fl)" and "0 < blocks"
    and "bs = take (nat blocks) (blocks_from (f_inode fl) (unat (f_offset fl) div bsize (sbi f)))"
    and "\<forall>b \<in> set bs. fvalid f b"
  shows "\<exists>f'. tfs_read f fl m buf blocks =
      Some (int (length bs * bsize (sbi f)), put_bytes m buf (concat (map (fblock f) bs)), f') \<and>
    fs_ok f' \<and> fblock f' = fblock f"
  using tfs_read_ok [OF assms(1-4), where m = m and buf = buf] assms(5,6) unfolding same_volume_def by blast

theorem tfs_read_blocks_witness:
  "\<exists>f'. tfs_read layout_fs \<lparr>f_inode = empty_dir\<lparr>i_size := 20000, i_data := [4, 5, 0, 0, 0, 0, 0, 0]\<rparr>, f_offset = 0\<rparr> (\<lambda>_. 0) 256 5 =
    Some (32768, put_bytes (\<lambda>_. 0) 256 (fblock layout_fs 4 @ fblock layout_fs 5), f')"
proof -
  let ?fl = "\<lparr>f_inode = empty_dir\<lparr>i_size := 20000, i_data := [4, 5, 0, 0, 0, 0, 0, 0]\<rparr>, f_offset = 0\<rparr>"
  have bs: "[4, 5] = take (nat 5) (blocks_from (f_inode ?fl) (unat (f_offset ?fl) div bsize (sbi layout_fs)))"
    by (simp add: blocks_from_def)
  have s: "bsize (sbi layout_fs) = 2 ^ 14" "fvalid layout_fs 4" "fvalid layout_fs 5"
    using big_block_volume(3) layout_blocks by (simp_all add: layout_fs_def demo_fs_def)
  have "fs_ok layout_fs" using layout_mounted(1) by (simp add: mounted_def)
  moreover have "length (i_data (f_inode ?fl)) = TFS_N_BLOCKS" "f_offset ?fl < i_size (f_inode ?fl)" "0 < (5 :: int)"
    "\<forall>b \<in> set [4, 5]. fvalid layout_fs b" using s by (simp_all add: TFS_N_BLOCKS_def)
  ultimately have "\<exists>f'. tfs_read layout_fs ?fl (\<lambda>_. 0) 256 5 = Some (int (length [4 :: u32, 5] * bsize (sbi layout_fs)),
      put_bytes (\<lambda>_. 0) 256 (concat (map (fblock layout_fs) [4, 5])), f') \<and> fs_ok f' \<and> fblock f' = fblock layout_fs"
    using bs by (intro tfs_read_blocks)
  then show ?thesis unfolding s by auto
qed

text \<open>
  C13: what \<^verbatim>\<open>tfs_write\<close> wrote, \<^verbatim>\<open>tfs_read\<close> reads. For a file without a hole before the offset and up
  to eight blocks, \<^verbatim>\<open>tfs_write\<close> ends; unless it needs more new blocks than are free it returns the number of bytes from
  the offset to the end of the last block. Reading the same blocks back at the same offset then gives
  what the first block held before the offset, followed by the bytes of the caller. The new blocks
  come behind the old ones, the inode on the disk has the new size and block numbers, and no other
  block than these, the bitmap and the one with the inode has changed. The size of the file becomes
  the end of the last block written, also when the file was longer before.
\<close>

theorem tfs_write_then_read:
  assumes "file_wf f (f_inode fl) bs" and "index \<le> length bs" and "0 < k" and "index + k \<le> TFS_N_BLOCKS"
    and "index = unat (f_offset fl) div bsize (sbi f)" and "off = unat (f_offset fl) mod bsize (sbi f)"
  shows "\<exists>res fl' f'. tfs_write f fl m buf (int k) = Some (res, fl', f') \<and>
    (res = - errno_num ENOSPC \<and> free_blocks f + length bs < index + k \<or>
     (\<exists>bs' old. res = int (k * bsize (sbi f) - off) \<and> file_wf f' (f_inode fl') bs' \<and> prefix bs bs' \<and>
        unat (i_size (f_inode fl')) = (index + k) * bsize (sbi f) \<and>
        length old = bsize (sbi f) \<and> (index < length bs \<longrightarrow> old = fblock f (bs ! index)) \<and>
        (\<forall>m2 p. \<exists>f2. tfs_read f' fl' m2 p (int k) =
           Some (int (k * bsize (sbi f)),
             put_bytes m2 p (take off old @ get_bytes m buf (k * bsize (sbi f) - off)), f2)) \<and>
        t_size (tinode_of f' (inr_of (f_inode fl))) = i_size (f_inode fl') \<and>
        t_block (tinode_of f' (inr_of (f_inode fl))) = i_data (f_inode fl') \<and>
        only_changed f f' (insert (inode_block f (inr_of (f_inode fl))) (set (slice index k bs')))))"
proof -
  note s = fs_ok_sbi [OF file_wfD(2) [OF assms(1)]]
  let ?size = "bsize (sbi f)" and ?o = "unat (f_offset fl)"
  have pos: "0 < ?size" using bsize_range(1) [OF s] by linarith
  have o: "?o = index * ?size + off" and off: "off < ?size" using assms(5,6) pos by simp_all
  have small: "(index + k) * ?size < 2 ^ 31" by (rule size_small(1) [OF s assms(4)])
  have ksz: "?size \<le> k * ?size" using assms(3) by simp
  then have sum: "?o + (k * ?size - off) = (index + k) * ?size"
  proof -
    have "off + (k * ?size - off) = k * ?size" using off ksz by linarith
    then show ?thesis by (simp add: o add_mult_distrib)
  qed
  from tfs_write_ok [OF assms(1-4) assms(5,6), of m buf] show ?thesis
  proof (elim exE conjE disjE)
    fix res fl' f'
    assume "tfs_write f fl m buf (int k) = Some (res, fl', f')" "res = - errno_num ENOSPC" "free_blocks f + length bs < index + k"
    then show ?thesis by blast
  next
    fix res fl' f' bs' old
    assume call: "tfs_write f fl m buf (int k) = Some (res, fl', f')" and res: "res = int (k * ?size - off)"
      and o': "f_offset fl' = f_offset fl"
      and sz: "i_size (f_inode fl') = f_offset fl + word_of_nat (k * ?size - off)"
      and w: "written_file f bs index off k m buf (f_inode fl) f' (f_inode fl') bs' old"
    have us: "unat (i_size (f_inode fl')) = (index + k) * ?size"
    proof -
      have "i_size (f_inode fl') = word_of_nat (?o + (k * ?size - off))" unfolding sz by (simp del: of_nat_diff)
      then have "i_size (f_inode fl') = word_of_nat ((index + k) * ?size)" unfolding sum .
      then show ?thesis using unat_of_nat_u32 [of "(index + k) * ?size"] small by (simp del: of_nat_mult)
    qed
    have wf': "file_wf f' (f_inode fl') bs'" and m': "same_mount f f'" and l': "index + k \<le> length bs'"
      using w by (simp_all add: written_file_def)
    have e: "sbi f' = sbi f" using m' by simp
    have i: "index = unat (f_offset fl') div bsize (sbi f')" using assms(5) by (simp add: e o')
    have "?o < (index + k) * ?size" using sum ksz off by linarith
    then have "f_offset fl' < i_size (f_inode fl')" by (simp add: word_less_nat_alt us o')
    from read_written [OF wf' assms(3) l' i this] have
      "\<forall>m2 p. \<exists>f2. tfs_read f' fl' m2 p (int k) = Some (int (k * ?size),
        put_bytes m2 p (concat (map (fblock f') (slice index k bs'))), f2)" unfolding e by blast
    moreover have "concat (map (fblock f') (slice index k bs')) = take off old @ get_bytes m buf (k * ?size - off)"
      using w by (simp add: written_file_def)
    ultimately show ?thesis using call res us w unfolding written_file_def by auto
  qed
qed

theorem tfs_write_then_read_witness:
  "\<exists>f fl f' fl' f2. tfs_write f fl word_of_nat 100 1 = Some (16384, fl', f') \<and> unat (i_size (f_inode fl')) = 16384 \<and>
    tfs_read f' fl' (\<lambda>_. 0) 900 1 = Some (16384, put_bytes (\<lambda>_. 0) 900 (get_bytes word_of_nat 100 16384), f2)"
proof -
  have r: "length ([] :: u32 list) < TFS_N_BLOCKS" by (simp add: TFS_N_BLOCKS_def)
  obtain w f where a: "file_wf f (empty_dir\<lparr>i_data := (i_data empty_dir)[length ([] :: u32 list) := w]\<rparr>) ([] @ [w])"
    "same_mount layout_fs f"
    by (rule file_wf_alloc [OF empty_file_wf r layout_mounted(3)], rule that)
  let ?fl = "\<lparr>f_inode = empty_dir\<lparr>i_data := (i_data empty_dir)[0 := w]\<rparr>, f_offset = 0\<rparr>"
  have sz: "bsize (sbi f) = 16384"
    using a(2) big_block_volume(3) by (simp add: layout_fs_def demo_fs_def)
  have wf: "file_wf f (f_inode ?fl) [w]" using a(1) by simp
  have "0 \<le> length [w]" "0 < (1 :: nat)" "0 + 1 \<le> TFS_N_BLOCKS" by (simp_all add: TFS_N_BLOCKS_def)
  from tfs_write_then_read [OF wf this, of 0 word_of_nat 100] show ?thesis
    unfolding sz by (auto dest!: spec [of _ "\<lambda>_. 0"]) blast
qed

end
