(* ===== verification/Vfs.thy ===== *)
theory Vfs
  imports Tfs_File
begin

text \<open>
  The file system layer above TFS: paths (\<^verbatim>\<open>fs/namei.c\<close>, \<^verbatim>\<open>fs/fslib.c\<close>), the inode objects they
  hand around (\<^verbatim>\<open>fs/inode.c\<close>) and the start of the file system (\<^verbatim>\<open>fs/super.c\<close>). Inodes are shared
  through pointers here and are freed by hand, so the model has a store of live objects.
\<close>

section \<open>State\<close>

text \<open>What a \<^verbatim>\<open>struct inode *\<close> can be: null, an error number, or the address of an object.\<close>

datatype iptr = Null | Err int | Ptr nat

fun is_err :: "iptr \<Rightarrow> bool" where
  "is_err (Err e) = True"
| "is_err p = False"

text \<open>An open file, \<^verbatim>\<open>struct file\<close>, with the address of its inode.\<close>

record ofile =
  o_inode :: nat
  o_offset :: u32

text \<open>
  \<open>objs\<close> has the live inode objects. Addresses of freed objects are not used again, so that an access
  through a stale pointer has no result. \<open>root\<close>, \<open>pwd\<close> and \<open>cwd\<close> are those of \<^verbatim>\<open>struct fs\<close>.
\<close>

record vfs =
  fsv :: tfs
  objs :: "nat \<Rightarrow> inode option"
  fresh :: nat
  root :: iptr
  pwd :: iptr
  cwd :: "u8 list"
  fds :: "u8 list"
  files :: "ofile option list"

definition MAX_CWD_LEN :: nat where "MAX_CWD_LEN = 255"
definition MAX_NAME_LEN :: nat where "MAX_NAME_LEN = 255"
definition MAX_FD :: nat where "MAX_FD = 32"
definition LOOKUP_PARENT :: u32 where "LOOKUP_PARENT = 1"
definition LOOKUP_CREATE :: u32 where "LOOKUP_CREATE = 2"

definition slash :: u8 where "slash = 47"

definition deref :: "vfs \<Rightarrow> iptr \<Rightarrow> inode option" where
  "deref v p = (case p of Ptr a \<Rightarrow> objs v a | _ \<Rightarrow> None)"

text \<open>An inode that \<^verbatim>\<open>malloc\<close> made a place for; one that the code changed.\<close>

definition new_obj :: "vfs \<Rightarrow> inode \<Rightarrow> iptr \<times> vfs" where
  "new_obj v inode = (Ptr (fresh v), v\<lparr>objs := (objs v)(fresh v \<mapsto> inode), fresh := Suc (fresh v)\<rparr>)"

definition set_obj :: "vfs \<Rightarrow> iptr \<Rightarrow> inode \<Rightarrow> vfs" where
  "set_obj v p inode = (case p of Ptr a \<Rightarrow> v\<lparr>objs := (objs v)(a \<mapsto> inode)\<rparr> | _ \<Rightarrow> v)"

section \<open>Inodes\<close>

text \<open>\<^verbatim>\<open>free_inode\<close> looks into the object for its file system, and keeps the current directory.\<close>

definition free_inode :: "vfs \<Rightarrow> iptr \<Rightarrow> vfs option" where
  "free_inode v p =
     (case p of
        Ptr a \<Rightarrow>
          (case objs v a of
             None \<Rightarrow> None
           | Some _ \<Rightarrow> Some (if p = pwd v then v else v\<lparr>objs := (objs v)(a := None)\<rparr>))
      | _ \<Rightarrow> None)"

text \<open>All inodes come from TFS, so the operation is \<^verbatim>\<open>tfs_iget\<close>.\<close>

definition iget :: "vfs \<Rightarrow> u8 list \<Rightarrow> iptr \<Rightarrow> (iptr \<times> vfs) option" where
  "iget v dname dir =
     (case deref v dir of
        None \<Rightarrow> None
      | Some d \<Rightarrow>
          (case tfs_iget (fsv v) dname d of
             None \<Rightarrow> None
           | Some (Inl e, f) \<Rightarrow> Some (Err e, v\<lparr>fsv := f\<rparr>)
           | Some (Inr inode, f) \<Rightarrow> Some (new_obj (v\<lparr>fsv := f\<rparr>) inode)))"

definition mknod :: "vfs \<Rightarrow> iptr \<Rightarrow> u8 list \<Rightarrow> int \<Rightarrow> (iptr \<times> vfs) option" where
  "mknod v dir dname mode =
     (case deref v dir of
        None \<Rightarrow> None
      | Some d \<Rightarrow>
          (case tfs_mknod (fsv v) d dname mode of
             None \<Rightarrow> None
           | Some (Inl e, d, f) \<Rightarrow> Some (Err e, set_obj (v\<lparr>fsv := f\<rparr>) dir d)
           | Some (Inr inode, d, f) \<Rightarrow> Some (new_obj (set_obj (v\<lparr>fsv := f\<rparr>) dir d) inode)))"

section \<open>Paths\<close>

text \<open>
  One component, which ends with the string or at a slash: the bytes and what follows, or
  \<^term>\<open>Some None\<close> when it is longer than 255 bytes. Running off the path has no result.
\<close>

fun scan_part :: "u8 list \<Rightarrow> nat \<Rightarrow> (u8 list \<times> u8 list) option option" where
  "scan_part [] n = None"
| "scan_part (c # name) n =
     (if c = 0 \<or> c = slash then Some (Some ([], c # name))
      else if n \<ge> MAX_NAME_LEN then Some None
      else map_option (map_option (\<lambda>(part, rest). (c # part, rest))) (scan_part name (Suc n)))"

fun skip_slashes :: "u8 list \<Rightarrow> u8 list option" where
  "skip_slashes [] = None"
| "skip_slashes (c # name) = (if c = slash then skip_slashes name else Some (c # name))"

lemma scan_part_rest: "scan_part name n = Some (Some (part, rest)) \<Longrightarrow>
    name = part @ rest \<and> rest \<noteq> [] \<and> (hd rest = 0 \<or> hd rest = slash)"
  by (induction name n arbitrary: part rest rule: scan_part.induct) (auto split: if_splits)

lemma skip_slashes_rest: "skip_slashes name = Some rest \<Longrightarrow>
    length rest \<le> length name \<and> rest \<noteq> [] \<and> hd rest \<noteq> slash \<and> (hd name = slash \<longrightarrow> length rest < length name)"
proof (induction name arbitrary: rest rule: skip_slashes.induct)
  case (2 c name)
  then show ?case by (cases "c = slash") fastforce+
qed simp

lemma next_part_shorter:
  assumes "name \<noteq> []" "hd name \<noteq> 0" "scan_part name n = Some (Some (part, rest))" "skip_slashes rest = Some rest'"
  shows "length rest' < length name"
proof (cases "part = []")
  case True
  with scan_part_rest [OF assms(3)] have "rest = name" by simp
  with True scan_part_rest [OF assms(3)] assms(1,2) have "hd rest = slash" by auto
  with skip_slashes_rest [OF assms(4)] \<open>rest = name\<close> show ?thesis by simp
next
  case False
  then have "length rest < length name" using scan_part_rest [OF assms(3)] by simp
  with skip_slashes_rest [OF assms(4)] show ?thesis by simp
qed

text \<open>How the loop of \<^verbatim>\<open>namei\<close> ends: it returns, or goes on with \<open>inode\<close>, \<open>parent\<close> and \<open>part\<close>.\<close>

datatype walk_end = Return iptr | Leave iptr iptr "u8 list"

function namei_loop ::
  "vfs \<Rightarrow> u8 list \<Rightarrow> u32 \<Rightarrow> iptr \<Rightarrow> iptr \<Rightarrow> u8 list \<Rightarrow> (walk_end \<times> vfs) option" where
  "namei_loop v name flag parent inode part =
     (if name = [] then None
      else if hd name = 0 then Some (Leave inode parent part, v)
      else case scan_part name 0 of
        None \<Rightarrow> None
      | Some None \<Rightarrow> Some (Return (Err (- errno_num ENAMETOOLONG)), v)
      | Some (Some (part, rest)) \<Rightarrow>
          (case skip_slashes rest of
             None \<Rightarrow> None
           | Some rest \<Rightarrow>
               if hd rest = 0 \<and> flag AND LOOKUP_PARENT \<noteq> 0 then Some (Return parent, v)
               else (case iget v (part @ [0]) parent of
                  None \<Rightarrow> None
                | Some (inode, v) \<Rightarrow>
                    (case inode of
                       Ptr _ \<Rightarrow>
                         (case free_inode v parent of
                            None \<Rightarrow> None
                          | Some v \<Rightarrow>
                              if hd rest = 0 then Some (Leave inode inode part, v)
                              else namei_loop v rest flag inode inode part)
                     | _ \<Rightarrow> Some (Leave inode parent part, v)))))"
  by pat_completeness auto
termination
  by (relation "measure (\<lambda>(v, name, flag, parent, inode, part). length name)")
    (auto intro: next_part_shorter)

declare namei_loop.simps [simp del]

definition namei :: "vfs \<Rightarrow> u8 list \<Rightarrow> u32 \<Rightarrow> (iptr \<times> vfs) option" where
  "namei v name flag =
     (if name = [] then None
      else let start = (if hd name = slash then root v else pwd v) in
      if hd name = slash \<and> is_err start then None
      else case (if hd name = slash then skip_slashes name else Some name) of
        None \<Rightarrow> None
      | Some name \<Rightarrow>
          (case namei_loop v name flag start start [] of
             None \<Rightarrow> None
           | Some (Return p, v) \<Rightarrow> Some (p, v)
           | Some (Leave inode parent part, v) \<Rightarrow>
               if inode = Err (- errno_num ENOENT) \<and> flag AND LOOKUP_CREATE \<noteq> 0
               then (case mknod v parent (part @ [0]) TFS_FILE of
                  None \<Rightarrow> None
                | Some (inode, v) \<Rightarrow>
                    (case free_inode v parent of
                       None \<Rightarrow> None
                     | Some v \<Rightarrow>
                         (case inode of
                            Ptr a \<Rightarrow>
                              (case objs v a of
                                 None \<Rightarrow> None
                               | Some i \<Rightarrow>
                                   (case tfs_iwrite (fsv v) i of
                                      None \<Rightarrow> None
                                    | Some (r, f) \<Rightarrow>
                                        if r = 0 then Some (inode, v\<lparr>fsv := f\<rparr>)
                                        else map_option (\<lambda>v. (Err (- errno_num EIO), v))
                                          (free_inode (v\<lparr>fsv := f\<rparr>) inode)))
                          | _ \<Rightarrow> Some (inode, v))))
               else Some (inode, v)))"

text \<open>
  \<^verbatim>\<open>namei_parent\<close>: its test is the wrong way round. A pointer is returned before its mode is looked
  at; null and errors are dereferenced.
\<close>

definition namei_parent :: "vfs \<Rightarrow> u8 list \<Rightarrow> (iptr \<times> vfs) option" where
  "namei_parent v pathname =
     (case namei v pathname LOOKUP_PARENT of
        None \<Rightarrow> None
      | Some (Ptr a, v) \<Rightarrow> Some (Ptr a, v)
      | Some (_, v) \<Rightarrow> None)"

text \<open>
  \<^verbatim>\<open>get_base_name\<close>, applied to the bytes from the path on; the inner \<^term>\<open>None\<close> is the null pointer.
  \<open>clear_back\<close> is the loop for a path with a slash at its end, which overwrites what it passes.
\<close>

fun clear_back :: "u8 list \<Rightarrow> nat \<Rightarrow> u8 list \<times> nat option" where
  "clear_back path 0 = (path, None)"
| "clear_back path (Suc p) = (if path ! p = slash then (path, Some p) else clear_back (path[p := 0]) p)"

definition get_base_name :: "u8 list \<Rightarrow> u8 list option option" where
  "get_base_name path_org =
     (case strrchr path_org (sint slash) of
        None \<Rightarrow> None
      | Some None \<Rightarrow> Some (Some path_org)
      | Some (Some p) \<Rightarrow>
          let path = path_org in
          if path ! (p + 1) = 0
          then (case clear_back (path[p := 0]) p of
                  (path, None) \<Rightarrow> Some None
                | (path, Some p) \<Rightarrow> Some (Some (drop (p + 1) path)))
          else Some (Some (drop (p + 1) path)))"

section \<open>System calls on paths\<close>

text \<open>
  An operation on the parent directory and the base name, and the free of the parent behind it. A
  null base name is dereferenced by all of the operations.
\<close>

definition on_parent ::
  "(vfs \<Rightarrow> iptr \<Rightarrow> u8 list \<Rightarrow> (int \<times> vfs) option) \<Rightarrow> vfs \<Rightarrow> u8 list \<Rightarrow> (int \<times> vfs) option" where
  "on_parent op v pathname =
     (case namei_parent v pathname of
        None \<Rightarrow> None
      | Some (dir, v) \<Rightarrow>
          (case get_base_name pathname of
             None \<Rightarrow> None
           | Some None \<Rightarrow> None
           | Some (Some base) \<Rightarrow>
               (case op v dir base of
                  None \<Rightarrow> None
                | Some (err, v) \<Rightarrow> map_option (\<lambda>v. (err, v)) (free_inode v dir))))"

text \<open>The TFS operations on a directory object; \<^verbatim>\<open>tfs_mkdir\<close> frees the directory itself.\<close>

definition on_dir ::
  "(tfs \<Rightarrow> inode \<Rightarrow> (int \<times> inode \<times> tfs) option) \<Rightarrow> vfs \<Rightarrow> iptr \<Rightarrow> (int \<times> vfs) option" where
  "on_dir op v dir =
     (case deref v dir of
        None \<Rightarrow> None
      | Some d \<Rightarrow>
          (case op (fsv v) d of
             None \<Rightarrow> None
           | Some (err, d, f) \<Rightarrow> Some (err, set_obj (v\<lparr>fsv := f\<rparr>) dir d)))"

definition dir_mkdir :: "vfs \<Rightarrow> iptr \<Rightarrow> u8 list \<Rightarrow> (int \<times> vfs) option" where
  "dir_mkdir v dir dname =
     (case on_dir (\<lambda>f d. tfs_mkdir f d dname) v dir of
        None \<Rightarrow> None
      | Some (err, v) \<Rightarrow> map_option (\<lambda>v. (err, v)) (free_inode v dir))"

definition sys_mkdir :: "vfs \<Rightarrow> u8 list \<Rightarrow> (int \<times> vfs) option" where
  "sys_mkdir v pathname = on_parent dir_mkdir v pathname"

definition sys_rmdir :: "vfs \<Rightarrow> u8 list \<Rightarrow> (int \<times> vfs) option" where
  "sys_rmdir v pathname = on_parent (\<lambda>v dir base. on_dir (\<lambda>f d. tfs_rmdir f d base) v dir) v pathname"

text \<open>\<open>junk\<close> is the uninitialised result of \<^verbatim>\<open>tfs_unlink\<close> for something that is not a file.\<close>

definition sys_unlink :: "int \<Rightarrow> vfs \<Rightarrow> u8 list \<Rightarrow> (int \<times> vfs) option" where
  "sys_unlink junk v pathname =
     on_parent (\<lambda>v dir base. on_dir (\<lambda>f d. tfs_unlink junk f d base) v dir) v pathname"

text \<open>\<^verbatim>\<open>sys_mknod\<close> answers \<^verbatim>\<open>-ENOSYS\<close> when all went well.\<close>

definition sys_mknod :: "vfs \<Rightarrow> u8 list \<Rightarrow> int \<Rightarrow> (int \<times> vfs) option" where
  "sys_mknod v pathname mode =
     on_parent (\<lambda>v dir base.
       (case mknod v dir base mode of
          None \<Rightarrow> None
        | Some (Err e, v) \<Rightarrow> Some (e, v)
        | Some (p, v) \<Rightarrow> map_option (\<lambda>v. (- errno_num ENOSYS, v)) (free_inode v p))) v pathname"

section \<open>The current directory\<close>

text \<open>The leading \<^verbatim>\<open>./\<close> of a path.\<close>

fun skip_dots :: "u8 list \<Rightarrow> u8 list" where
  "skip_dots (a # b # name) = (if a = 46 \<and> b = slash then skip_dots name else a # b # name)"
| "skip_dots name = name"

text \<open>A string copied to offset \<open>off\<close> of the array \<open>cwd\<close>, which it must not leave.\<close>

definition put_cwd :: "vfs \<Rightarrow> nat \<Rightarrow> u8 list \<Rightarrow> vfs option" where
  "put_cwd v off name =
     (case strlen name of
        None \<Rightarrow> None
      | Some n \<Rightarrow>
          if off + n + 1 > length (cwd v) then None
          else Some (v\<lparr>cwd := splice_at off (take (n + 1) name) (cwd v)\<rparr>))"

definition update_cwd :: "vfs \<Rightarrow> u8 list \<Rightarrow> (int \<times> vfs) option" where
  "update_cwd v pathname =
     (if hd pathname = slash then map_option (\<lambda>v. (0, v)) (put_cwd v 0 pathname)
      else case strcmp pathname [46, 46, 0] of
        None \<Rightarrow> None
      | Some r \<Rightarrow>
          if r = 0
          then (case strrchr (cwd v) (sint slash) of
                  None \<Rightarrow> None
                | Some None \<Rightarrow> Some (- errno_num EINVAL, v)
                | Some (Some p) \<Rightarrow> Some (0, v\<lparr>cwd := (cwd v)[if p = 0 then 1 else p := 0]\<rparr>))
          else (case strlen (cwd v) of
                  None \<Rightarrow> None
                | Some n \<Rightarrow> map_option (\<lambda>v. (0, v)) (put_cwd v n pathname)))"

definition sys_chdir :: "vfs \<Rightarrow> u8 list \<Rightarrow> (int \<times> vfs) option" where
  "sys_chdir v pathname =
     (let pathname = skip_dots pathname in
      if pathname = [] \<or> (hd pathname = 46 \<and> tl pathname = []) then None
      else if hd pathname = 46 \<and> pathname ! 1 = 0 then Some (0, v)
      else case namei v pathname 0 of
        None \<Rightarrow> None
      | Some (Null, v) \<Rightarrow> Some (- errno_num ENOENT, v)
      | Some (Err e, v) \<Rightarrow> Some (e, v)
      | Some (p, v) \<Rightarrow>
          (case deref v p of
             None \<Rightarrow> None
           | Some inode \<Rightarrow>
               if i_mode inode \<noteq> TFS_DIR
               then map_option (\<lambda>v. (- errno_num ENOTDIR, v)) (free_inode v p)
               else (case free_inode v (pwd v) of
                       None \<Rightarrow> None
                     | Some v \<Rightarrow> update_cwd (v\<lparr>pwd := p\<rparr>) pathname)))"

text \<open>\<^verbatim>\<open>sys_getcwd\<close>, with the bytes it stores into the buffer.\<close>

definition sys_getcwd :: "vfs \<Rightarrow> int \<Rightarrow> (int \<times> u8 list) option" where
  "sys_getcwd v buf_size =
     (case strlen (cwd v) of
        None \<Rightarrow> None
      | Some len \<Rightarrow>
          Some (if buf_size \<le> 0 then (- errno_num EINVAL, [])
                else if int len > buf_size then (- errno_num ERANGE, [])
                else (int len, take (len + 1) (cwd v))))"

section \<open>The start of the file system\<close>

text \<open>
  \<^verbatim>\<open>fs_init\<close> on a disk. \<open>r\<close> says how its calls of \<^verbatim>\<open>malloc\<close> end; a failure of the first one is
  dereferenced, \<^term>\<open>Some None\<close> is the null pointer. The other arguments are what the memory that is
  not written holds.
\<close>

definition fs_init ::
  "bool list \<Rightarrow> bool \<Rightarrow> disk \<Rightarrow> u8 list \<Rightarrow> u8 list \<Rightarrow> cache \<Rightarrow> tfs_sb_info \<Rightarrow> u32 \<Rightarrow> u8 list \<Rightarrow>
   ofile option list \<Rightarrow> vfs option option" where
  "fs_init r bounce d garbage cache_data c other word cwd0 files0 =
     (let next = (\<lambda>r. case r of [] \<Rightarrow> (True, []) | b # bs \<Rightarrow> (b, bs)) in
      case next r of (got, r) \<Rightarrow>
      if \<not> got then None
      else case next r of (got, r) \<Rightarrow>
        (case tfs_mount bounce got d garbage of
           None \<Rightarrow> Some None
         | Some sb \<Rightarrow>
             let c = cache_init (unat (tfs_get_blk_shift sb)) cache_data c;
                 f = \<lparr>sbi = sb, stray = other, dsk = d, cch = c, room = r, behind = word\<rparr> in
             (case tfs_iget_root f of
                None \<Rightarrow> None
              | Some (i, f) \<Rightarrow>
                  let v = \<lparr>fsv = f, objs = (\<lambda>_. None), fresh = 1, root = Null, pwd = Null,
                        cwd = splice_at 0 [slash, 0] cwd0, fds = replicate MAX_FD 0, files = files0\<rparr>;
                      (p, v) = (case i of Inl e \<Rightarrow> (Err e, v) | Inr inode \<Rightarrow> new_obj v inode)
                  in Some (Some (v\<lparr>root := p, pwd := p\<rparr>)))))"

end
