(* ===== verification/Vfs_Walk.thy ===== *)
theory Vfs_Walk
  imports Vfs
begin

text \<open>
  What \<^verbatim>\<open>namei\<close> means: a path names a file when its components lead there through the listings of
  directories. The relation \<open>walk\<close> is this meaning on the volume alone; the lemmas connect the loop
  of \<^verbatim>\<open>namei\<close>, its objects and its frees with it.
\<close>

section \<open>Walks through the directories of a volume\<close>

definition inode_rep :: "tfs \<Rightarrow> u32 \<Rightarrow> inode \<Rightarrow> bool" where
  "inode_rep f w inode \<longleftrightarrow> inode = tfs_fill_inode inode (tinode_of f (uint w)) \<and> i_ino inode = w"

definition blocks_of :: "tfs \<Rightarrow> u32 \<Rightarrow> u32 list" where
  "blocks_of f w = takeWhile (\<lambda>b. b \<noteq> 0) (t_block (tinode_of f (uint w)))"

definition ents :: "tfs \<Rightarrow> u32 \<Rightarrow> (u8 list \<times> u32) set" where
  "ents f w = listing f (blocks_of f w)"

text \<open>
  The inode number of a sound directory: well formed on the disk, no name twice, and the numbers in
  its entries are those of inodes on the volume.
\<close>

definition dir_good :: "tfs \<Rightarrow> u32 \<Rightarrow> bool" where
  "dir_good f w \<longleftrightarrow> dir_wf f (empty_dir\<lparr>i_data := t_block (tinode_of f (uint w))\<rparr>) (blocks_of f w) \<and>
     (\<forall>n a b. (n, a) \<in> ents f w \<longrightarrow> (n, b) \<in> ents f w \<longrightarrow> a = b) \<and>
     (\<forall>n a. (n, a) \<in> ents f w \<longrightarrow> a \<noteq> 0 \<and> unat a < 2 ^ 31 \<and> fvalid f (inode_block f (uint a)))"

inductive walk :: "tfs \<Rightarrow> u32 \<Rightarrow> u8 list list \<Rightarrow> u32 \<Rightarrow> bool" for f where
  here: "walk f w [] w"
| down: "(n, a) \<in> ents f w \<Longrightarrow> walk f a ns u \<Longrightarrow> walk f w (n # ns) u"

inductive_simps walk_Nil [simp]: "walk f w [] u"
inductive_simps walk_Cons: "walk f w (n # ns) u"

lemma walk_unique:
  assumes "walk f w ns u" and "walk f w ns u'"
    and "\<And>ms x. walk f w ms x \<Longrightarrow> strict_prefix ms ns \<Longrightarrow> dir_good f x"
  shows "u = u'"
  using assms
proof (induction arbitrary: u' rule: walk.induct)
  case (down n a w ns u)
  from down.prems(1) obtain b where b: "(n, b) \<in> ents f w" "walk f b ns u'" by (auto simp: walk_Cons)
  have "dir_good f w" by (rule down.prems(2) [of "[]"]) simp_all
  with b(1) down.hyps(1) have "b = a" by (auto simp: dir_good_def)
  with b(2) show ?case
    using down.prems(2) [of "n # _"] down.hyps(1) by (intro down.IH) (auto simp: walk_Cons)
qed simp

lemma same_volume_walk:
  assumes "same_volume f f'"
  shows "ents f' = ents f" "dir_good f' = dir_good f" "walk f' = walk f" "inode_rep f' = inode_rep f"
proof -
  have s: "same_mount f f'" "fblock f' = fblock f" using assms by (simp_all add: same_volume_def)
  have t: "tinode_of f' = tinode_of f" "inode_block f' = inode_block f"
    using tinode_of_same [OF s(1)] by (simp_all add: tinode_of_def fun_eq_iff s(2))
  show e: "ents f' = ents f"
    using same_volume_keeps(8) [OF assms] by (simp add: ents_def blocks_of_def fun_eq_iff t)
  show "dir_good f' = dir_good f"
    using same_volume_keeps(4) [OF assms] s by (simp add: dir_good_def blocks_of_def fun_eq_iff e t)
  have "walk f' w ns u" if "walk f w ns u" "ents f' = ents f" for f f' w ns u
    using that by induction (auto intro: walk.intros)
  from this [of f _ _ _ f'] this [of f' _ _ _ f] show "walk f' = walk f" using e by (auto simp: fun_eq_iff)
  show "inode_rep f' = inode_rep f" by (simp add: inode_rep_def fun_eq_iff t)
qed

lemma dir_good_wf:
  assumes "dir_good f w" and "inode_rep f w d"
  shows "dir_wf f d (blocks_of f w)"
proof -
  from assms(2) have "d = tfs_fill_inode d (tinode_of f (uint w))" unfolding inode_rep_def by blast
  from arg_cong [OF this, of i_data] have "i_data d = t_block (tinode_of f (uint w))"
    by (simp add: tfs_fill_inode_def)
  then show ?thesis using assms(1) by (simp add: dir_good_def dir_wf_def)
qed

lemma tfs_iget_ok:
  assumes ok: "fs_ok f" "room f = []" and good: "dir_good f w" and rep: "inode_rep f w d"
    and n: "is_str dname n" "length n < TFS_NAME_LEN"
  shows "\<exists>r f'. tfs_iget f dname d = Some (r, f') \<and> same_volume f f' \<and>
    (case r of
       Inl e \<Rightarrow> e = - errno_num ENOENT \<and> (\<forall>a. (n, a) \<notin> ents f w)
     | Inr inode \<Rightarrow> \<exists>a. (n, a) \<in> ents f w \<and> inode_rep f a inode)"
proof -
  obtain r f1 where r: "tfs_find_entry f d dname = Some (r, f1)" "same_volume f f1"
    "case r of Found cs off \<Rightarrow> (n, d_inode (data_of f1 cs) off) \<in> ents f w
     | Not_found \<Rightarrow> \<forall>i. (n, i) \<notin> ents f w | Find_err _ \<Rightarrow> False"
    using find_entry_listing [OF ok(1) dir_good_wf [OF good rep] n] unfolding ents_def by blast
  show ?thesis
  proof (cases r)
    case Not_found
    with r show ?thesis by (simp add: tfs_iget_def)
  next
    case (Find_err e)
    with r show ?thesis by simp
  next
    case (Found cs off)
    let ?a = "d_inode (data_of f1 cs) off"
    have a: "(n, ?a) \<in> ents f w" using r(3) Found by simp
    then have v: "?a \<noteq> 0" "unat ?a < 2 ^ 31" "fvalid f (inode_block f (uint ?a))"
      using good unfolding dir_good_def by blast+
    have s: "sint ?a = uint ?a" using sint_small [OF v(2)] by simp
    have "0 < unat ?a" using v(1) by (simp add: unat_gt_0)
    then have one: "1 \<le> uint ?a" unfolding uint_nat by linarith
    have m: "same_mount f f1" "fs_ok f1" "fblock f1 = fblock f" using r(2) by (simp_all add: same_volume_def)
    then have f1: "room f1 = []" "fvalid f1 (inode_block f1 (uint ?a))"
      using ok(2) v(3) tinode_of_same [OF m(1)] by simp_all
    obtain f2 inode where i: "tfs_iget_by_inr f1 (uint ?a) = Some (Inr inode, f2)" "fs_ok f2" "same_mount f1 f2"
      "fblock f2 = fblock f1" "inode = tfs_fill_inode inode (tinode_of f1 (uint ?a))" "i_ino inode = word_of_int (uint ?a)"
      using iget_ok [OF m(2) one f1(2,1)] by metis
    have "same_volume f f2" using same_volume_trans [OF r(2)] i(2-4) by (simp add: same_volume_def)
    moreover have "inode_rep f1 ?a inode" using i(5,6) by (simp add: inode_rep_def)
    then have "inode_rep f ?a inode" by (simp only: same_volume_walk(4) [OF r(2)])
    ultimately show ?thesis using r(1) Found i(1) a by (auto simp: tfs_iget_def s)
  qed
qed

section \<open>The components of a path\<close>

function path_parts :: "u8 list \<Rightarrow> u8 list list" where
  "path_parts s =
     (case dropWhile (\<lambda>c. c = slash) s of
        [] \<Rightarrow> []
      | c # t \<Rightarrow> takeWhile (\<lambda>c. c \<noteq> slash) (c # t) # path_parts (dropWhile (\<lambda>c. c \<noteq> slash) (c # t)))"
  by pat_completeness auto
termination
proof (relation "measure length", goal_cases)
  case (2 s c t)
  then have "c \<noteq> slash" using hd_dropWhile [of "\<lambda>c. c = slash" s] by simp
  moreover have "length (dropWhile (\<lambda>c. c = slash) s) \<le> length s" by (rule length_dropWhile_le)
  ultimately show ?case using 2 length_dropWhile_le [of "\<lambda>c. c \<noteq> slash" t] by simp
qed simp

declare path_parts.simps [simp del]

lemma path_parts_Nil [simp]: "path_parts [] = []"
  by (simp add: path_parts.simps)

lemma path_parts_skip: "path_parts (dropWhile (\<lambda>c. c = slash) s) = path_parts s"
  by (subst (1 2) path_parts.simps) (simp add: dropWhile_idem)

lemma path_parts_step:
  "s \<noteq> [] \<Longrightarrow> hd s \<noteq> slash \<Longrightarrow> path_parts s =
     takeWhile (\<lambda>c. c \<noteq> slash) s # path_parts (dropWhile (\<lambda>c. c = slash) (dropWhile (\<lambda>c. c \<noteq> slash) s))"
  by (cases s) (simp_all add: path_parts.simps [of s] path_parts_skip, simp add: path_parts.simps)

lemma slash_not_0 [simp]: "slash \<noteq> 0" by (simp add: slash_def)

lemma scan_part_ok:
  "is_str name s \<Longrightarrow> n + length (takeWhile (\<lambda>c. c \<noteq> slash) s) \<le> MAX_NAME_LEN \<Longrightarrow>
   \<exists>rest. scan_part name n = Some (Some (takeWhile (\<lambda>c. c \<noteq> slash) s, rest)) \<and>
     is_str rest (dropWhile (\<lambda>c. c \<noteq> slash) s)"
proof (induction name n arbitrary: s rule: scan_part.induct)
  case (2 c name n)
  show ?case
  proof (cases "c = 0 \<or> c = slash")
    case True
    with 2(2) show ?thesis by (auto simp: is_str_Cons)
  next
    case False
    with 2(2) obtain t where t: "s = c # t" "is_str name t" by (auto simp: is_str_Cons)
    with False 2(3) 2(1) [OF False _ t(2)] show ?thesis by auto
  qed
qed simp

lemma skip_slashes_ok:
  "is_str name s \<Longrightarrow> \<exists>rest. skip_slashes name = Some rest \<and> is_str rest (dropWhile (\<lambda>c. c = slash) s)"
  by (induction name arbitrary: s rule: skip_slashes.induct) (auto simp: is_str_Cons split: if_splits)

section \<open>The loop of namei\<close>

definition vfs_ok :: "vfs \<Rightarrow> bool" where
  "vfs_ok v \<longleftrightarrow> fs_ok (fsv v) \<and> room (fsv v) = [] \<and> (\<forall>a. objs v a \<noteq> None \<longrightarrow> a < fresh v) \<and>
     deref v (pwd v) \<noteq> None"

text \<open>
  What a lookup that starts at the object \<open>a\<close>, the inode \<open>w\<close>, leaves: a new object for the inode its
  components name, with \<open>a\<close> freed unless it is the current directory, or the error for a missing
  file. Nothing but the objects and the order of the cache changes.
\<close>

definition looked_up :: "vfs \<Rightarrow> u32 \<Rightarrow> u8 list list \<Rightarrow> nat \<Rightarrow> iptr \<Rightarrow> vfs \<Rightarrow> bool" where
  "looked_up v w ns a p v' \<longleftrightarrow>
     vfs_ok v' \<and> same_volume (fsv v) (fsv v') \<and> fresh v \<le> fresh v' \<and>
     root v' = root v \<and> pwd v' = pwd v \<and> cwd v' = cwd v \<and> fds v' = fds v \<and> files v' = files v \<and>
     (\<forall>c < fresh v. c \<noteq> a \<longrightarrow> objs v' c = objs v c) \<and>
     (case p of
        Null \<Rightarrow> False
      | Err e \<Rightarrow> e = - errno_num ENOENT \<and> (\<forall>u. \<not> walk (fsv v) w ns u)
      | Ptr b \<Rightarrow> fresh v \<le> b \<and> (Ptr a \<noteq> pwd v \<longrightarrow> objs v' a = None) \<and>
          (\<exists>d u. objs v' b = Some d \<and> inode_rep (fsv v) u d \<and> walk (fsv v) w ns u))"

text \<open>One step: the component's inode becomes an object, the parent is freed.\<close>

lemma iget_step:
  assumes v: "vfs_ok v" and a: "objs v a = Some d" and rep: "inode_rep (fsv v) w d" and good: "dir_good (fsv v) w"
    and n: "0 \<notin> set n" "length n < TFS_NAME_LEN"
  shows "(\<exists>v'. iget v (n @ [0]) (Ptr a) = Some (Err (- errno_num ENOENT), v') \<and> looked_up v w [n] a (Err (- errno_num ENOENT)) v') \<or>
    (\<exists>v1 v2 x inode. iget v (n @ [0]) (Ptr a) = Some (Ptr (fresh v), v1) \<and> free_inode v1 (Ptr a) = Some v2 \<and>
       (n, x) \<in> ents (fsv v) w \<and> objs v2 (fresh v) = Some inode \<and> inode_rep (fsv v) x inode \<and>
       looked_up v w [n] a (Ptr (fresh v)) v2)"
proof -
  have ok: "fs_ok (fsv v)" "room (fsv v) = []" and fr: "\<And>b. objs v b \<noteq> None \<Longrightarrow> b < fresh v"
    and p: "deref v (pwd v) \<noteq> None" using v unfolding vfs_ok_def by blast+
  have str: "is_str (n @ [0]) n" using n(1) by (simp add: is_str_def)
  from tfs_iget_ok [OF ok good rep str n(2)] obtain r f where
    r: "tfs_iget (fsv v) (n @ [0]) d = Some (r, f)" "same_volume (fsv v) f"
      "case r of Inl e \<Rightarrow> e = - errno_num ENOENT \<and> (\<forall>a. (n, a) \<notin> ents (fsv v) w)
       | Inr inode \<Rightarrow> \<exists>a. (n, a) \<in> ents (fsv v) w \<and> inode_rep (fsv v) a inode" by blast
  have f: "fs_ok f" "room f = []" using r(2) ok(2) by (auto simp: same_volume_def)
  show ?thesis
  proof (cases r)
    case (Inl e)
    let ?v = "v\<lparr>fsv := f\<rparr>"
    have "iget v (n @ [0]) (Ptr a) = Some (Err (- errno_num ENOENT), ?v)"
      using r a Inl by (simp add: iget_def deref_def)
    moreover have "vfs_ok ?v" using f fr p by (simp add: vfs_ok_def deref_def split: iptr.splits)
    moreover have "\<not> walk (fsv v) w [n] u" for u using r(3) Inl by (auto simp: walk_Cons)
    ultimately show ?thesis using r(2) unfolding looked_up_def by auto
  next
    case (Inr inode)
    then obtain x where x: "(n, x) \<in> ents (fsv v) w" "inode_rep (fsv v) x inode" using r(3) by auto
    let ?b = "fresh v"
    let ?v1 = "v\<lparr>fsv := f, objs := (objs v)(?b \<mapsto> inode), fresh := Suc ?b\<rparr>"
    have ab: "a < ?b" using fr [of a] a by simp
    have i: "iget v (n @ [0]) (Ptr a) = Some (Ptr ?b, ?v1)"
      using r(1) a Inr by (simp add: iget_def deref_def new_obj_def)
    let ?v2 = "if Ptr a = pwd v then ?v1 else ?v1\<lparr>objs := (objs ?v1)(a := None)\<rparr>"
    have fi: "free_inode ?v1 (Ptr a) = Some ?v2" using a ab by (auto simp: free_inode_def)
    have o: "objs ?v2 ?b = Some inode" "Ptr a \<noteq> pwd v \<longrightarrow> objs ?v2 a = None" "fsv ?v2 = f" "pwd ?v2 = pwd v"
      "fresh ?v2 = Suc ?b" "\<forall>c < ?b. c \<noteq> a \<longrightarrow> objs ?v2 c = objs v c" "\<And>c. objs ?v2 c \<noteq> None \<Longrightarrow> c < Suc ?b"
      using ab fr by (auto split: if_splits intro: less_SucI)
    have "deref ?v2 (pwd ?v2) \<noteq> None"
    proof -
      obtain c where c: "pwd v = Ptr c" "objs v c \<noteq> None" using p by (auto simp: deref_def split: iptr.splits)
      then have "c < ?b" using fr by blast
      with c show ?thesis by (auto simp: deref_def)
    qed
    then have "vfs_ok ?v2" using f o(3,5,7) unfolding vfs_ok_def by metis
    moreover have "walk (fsv v) w [n] x" using x(1) by (auto simp: walk_Cons)
    moreover have "root ?v2 = root v" "cwd ?v2 = cwd v" "fds ?v2 = fds v" "files ?v2 = files v" by simp_all
    ultimately have "looked_up v w [n] a (Ptr ?b) ?v2"
      using r(2) o x unfolding looked_up_def by (auto split: if_splits)
    with i fi x o(1) show ?thesis by blast
  qed
qed

lemma looked_up_trans:
  assumes 1: "looked_up v w [n] a (Ptr b) v1" and x: "(n, x) \<in> ents (fsv v) w"
    and uniq: "\<And>y. (n, y) \<in> ents (fsv v) w \<Longrightarrow> y = x" and b: "b = fresh v"
    and 2: "looked_up v1 x ns b p v2" and a: "a < fresh v"
  shows "looked_up v w (n # ns) a p v2"
proof -
  have s1: "same_volume (fsv v) (fsv v1)" and s2: "same_volume (fsv v1) (fsv v2)"
    and e: "root v1 = root v" "pwd v1 = pwd v" "cwd v1 = cwd v" "fds v1 = fds v" "files v1 = files v"
    and f: "fresh v \<le> fresh v1" "fresh v1 \<le> fresh v2" and v2: "vfs_ok v2"
    and k1: "\<forall>c < fresh v. c \<noteq> a \<longrightarrow> objs v1 c = objs v c" and k2: "\<forall>c < fresh v1. c \<noteq> b \<longrightarrow> objs v2 c = objs v1 c"
    and fa: "Ptr a \<noteq> pwd v \<longrightarrow> objs v1 a = None"
    using 1 2 unfolding looked_up_def by simp_all
  note sw = same_volume_walk [OF s1]
  have oa: "objs v2 a = objs v1 a" using k2 a b f(1) by simp
  have k: "\<forall>c < fresh v. c \<noteq> a \<longrightarrow> objs v2 c = objs v c" using k1 k2 f b by auto
  have wk: "walk (fsv v) w (n # ns) u \<longleftrightarrow> walk (fsv v) x ns u" for u
    unfolding walk_Cons using x uniq by blast
  have e2: "root v2 = root v" "pwd v2 = pwd v" "cwd v2 = cwd v" "fds v2 = fds v" "files v2 = files v"
    using 2 e unfolding looked_up_def by simp_all
  have p: "case p of Null \<Rightarrow> False
    | Err e \<Rightarrow> e = - errno_num ENOENT \<and> (\<forall>u. \<not> walk (fsv v) x ns u)
    | Ptr b \<Rightarrow> fresh v1 \<le> b \<and> (\<exists>d u. objs v2 b = Some d \<and> inode_rep (fsv v) u d \<and> walk (fsv v) x ns u)"
    using 2 unfolding looked_up_def sw by (cases p) simp_all
  have "fresh v \<le> fresh v2" using f by simp
  then show ?thesis
    unfolding looked_up_def wk using v2 k e2 p oa fa f(1) same_volume_trans [OF s1 s2] by (cases p) simp_all
qed

lemma first_part_ok:
  assumes str: "is_str name s" and s: "s \<noteq> []" "hd s \<noteq> slash"
    and n: "\<forall>n \<in> set (path_parts s). length n < TFS_NAME_LEN"
  obtains rest rest' where "scan_part name 0 = Some (Some (takeWhile (\<lambda>c. c \<noteq> slash) s, rest))"
    and "skip_slashes rest = Some rest'" and "is_str rest' (dropWhile (\<lambda>c. c = slash) (dropWhile (\<lambda>c. c \<noteq> slash) s))"
    and "name \<noteq> []" and "hd name \<noteq> 0"
proof -
  have "length (takeWhile (\<lambda>c. c \<noteq> slash) s) < TFS_NAME_LEN" using n by (simp add: path_parts_step [OF s])
  then have "0 + length (takeWhile (\<lambda>c. c \<noteq> slash) s) \<le> MAX_NAME_LEN" by (simp add: MAX_NAME_LEN_def TFS_NAME_LEN_def)
  from scan_part_ok [OF str this] obtain rest where r: "scan_part name 0 = Some (Some (takeWhile (\<lambda>c. c \<noteq> slash) s, rest))"
    "is_str rest (dropWhile (\<lambda>c. c \<noteq> slash) s)" by blast
  from skip_slashes_ok [OF r(2)] obtain rest' where "skip_slashes rest = Some rest'"
    "is_str rest' (dropWhile (\<lambda>c. c = slash) (dropWhile (\<lambda>c. c \<noteq> slash) s))" by blast
  moreover have "name \<noteq> []" "hd name \<noteq> 0" using str s by (cases name; auto simp: is_str_Cons split: if_splits)+
  ultimately show thesis using r(1) that by blast
qed

lemma is_str_hd: "is_str name s \<Longrightarrow> name \<noteq> [] \<and> (hd name = 0 \<longleftrightarrow> s = []) \<and> (s \<noteq> [] \<longrightarrow> hd name = hd s)"
  by (cases name) (auto simp: is_str_Cons split: if_splits)

text \<open>One round of the loop when the component has been split off.\<close>

lemma namei_loop_step:
  assumes "scan_part name 0 = Some (Some (n, rest))" and "skip_slashes rest = Some rest'" and "name \<noteq> []"
    and "hd name \<noteq> 0" and "flag AND LOOKUP_PARENT = 0"
  shows "namei_loop v name flag parent i part =
    (case iget v (n @ [0]) parent of
       None \<Rightarrow> None
     | Some (inode, v) \<Rightarrow>
         (case inode of
            Ptr _ \<Rightarrow>
              (case free_inode v parent of
                 None \<Rightarrow> None
               | Some v \<Rightarrow>
                   if hd rest' = 0 then Some (Leave inode inode n, v)
                   else namei_loop v rest' flag inode inode n)
          | _ \<Rightarrow> Some (Leave inode parent n, v)))"
  by (subst namei_loop.simps) (simp only: assms if_False simp_thms option.case prod.case)

lemma rest_shorter:
  "s \<noteq> [] \<Longrightarrow> hd s \<noteq> slash \<Longrightarrow> length (dropWhile (\<lambda>c. c = slash) (dropWhile (\<lambda>c. c \<noteq> slash) s)) < length s"
  using length_dropWhile_le [of "\<lambda>c. c = slash" "dropWhile (\<lambda>c. c \<noteq> slash) s"]
    length_dropWhile_le [of "\<lambda>c. c \<noteq> slash" "tl s"] by (cases s) auto

lemma looked_up_missing: "looked_up v w [n] a (Err e) v' \<Longrightarrow> looked_up v w (n # ns) a (Err e) v'"
  by (auto simp: looked_up_def walk_Cons)

text \<open>The directories on the way are sound, also when seen from the next one.\<close>

definition good_way :: "tfs \<Rightarrow> u32 \<Rightarrow> u8 list list \<Rightarrow> bool" where
  "good_way f w ns \<longleftrightarrow> (\<forall>ms u. walk f w ms u \<longrightarrow> strict_prefix ms ns \<longrightarrow> dir_good f u)"

lemma good_way_Cons:
  assumes "good_way f w (n # ns)"
  shows "dir_good f w" and "(n, x) \<in> ents f w \<Longrightarrow> good_way f x ns"
    and "(n, x) \<in> ents f w \<Longrightarrow> (n, y) \<in> ents f w \<Longrightarrow> y = x"
proof -
  show g: "dir_good f w" using assms unfolding good_way_def by (auto dest: spec [of _ "[]"])
  show "good_way f x ns" if "(n, x) \<in> ents f w" unfolding good_way_def
  proof (intro allI impI)
    fix ms u assume "walk f x ms u" "strict_prefix ms ns"
    then show "dir_good f u" using assms [unfolded good_way_def, rule_format, of "n # ms" u] that by (auto simp: walk_Cons)
  qed
  show "(n, x) \<in> ents f w \<Longrightarrow> (n, y) \<in> ents f w \<Longrightarrow> y = x" using g unfolding dir_good_def by blast
qed

lemma namei_loop_ok:
  assumes "vfs_ok v" and "is_str name s" and "s \<noteq> []" and "hd s \<noteq> slash" and "flag AND LOOKUP_PARENT = 0"
    and "\<forall>n \<in> set (path_parts s). length n < TFS_NAME_LEN"
    and "objs v a = Some d" and "inode_rep (fsv v) w d" and "good_way (fsv v) w (path_parts s)"
  shows "\<exists>p q part' v'. namei_loop v name flag (Ptr a) i part = Some (Leave p q part', v') \<and>
    looked_up v w (path_parts s) a p v'"
  using assms
proof (induction "length s" arbitrary: v name s a d w i part rule: less_induct)
  case less
  note s = less.prems(3,4)
  let ?n = "takeWhile (\<lambda>c. c \<noteq> slash) s" and ?s = "dropWhile (\<lambda>c. c = slash) (dropWhile (\<lambda>c. c \<noteq> slash) s)"
  note parts = path_parts_step [OF s]
  obtain rest rest' where r: "scan_part name 0 = Some (Some (?n, rest))" "skip_slashes rest = Some rest'"
    "is_str rest' ?s" "name \<noteq> []" "hd name \<noteq> 0"
    using first_part_ok [OF less.prems(2) s less.prems(6)] .
  note way = good_way_Cons [OF less.prems(9) [unfolded parts]]
  have n: "0 \<notin> set ?n" "length ?n < TFS_NAME_LEN"
    using less.prems(2,6) parts by (auto simp: is_str_def dest: set_takeWhileD)
  note call = namei_loop_step [OF r(1,2,4,5) less.prems(5)]
  from iget_step [OF less.prems(1,7,8) way(1) n] show ?case
  proof (elim disjE exE conjE)
    fix v'
    assume i: "iget v (?n @ [0]) (Ptr a) = Some (Err (- errno_num ENOENT), v')"
      and l: "looked_up v w [?n] a (Err (- errno_num ENOENT)) v'"
    then show ?thesis unfolding parts call using looked_up_missing [OF l] by (simp add: i)
  next
    fix v1 v2 x inode
    assume i: "iget v (?n @ [0]) (Ptr a) = Some (Ptr (fresh v), v1)" and fi: "free_inode v1 (Ptr a) = Some v2"
      and x: "(?n, x) \<in> ents (fsv v) w" and o: "objs v2 (fresh v) = Some inode" "inode_rep (fsv v) x inode"
      and l: "looked_up v w [?n] a (Ptr (fresh v)) v2"
    show ?thesis
    proof (cases "?s = []")
      case True
      have "hd rest' = 0" using is_str_hd [OF r(3)] True by blast
      moreover have "path_parts s = [?n]" unfolding parts True path_parts_Nil ..
      ultimately show ?thesis unfolding call i using fi l by auto
    next
      case False
      then have h: "hd rest' \<noteq> 0" "hd ?s \<noteq> slash" using is_str_hd [OF r(3)] hd_dropWhile [OF False] by blast+
      have ok2: "vfs_ok v2" and sv: "same_volume (fsv v) (fsv v2)" using l by (simp_all add: looked_up_def)
      note sw = same_volume_walk [OF sv]
      have len: "\<forall>n \<in> set (path_parts ?s). length n < TFS_NAME_LEN" using less.prems(6) parts by simp
      have rep2: "inode_rep (fsv v2) x inode" "good_way (fsv v2) x (path_parts ?s)"
        using o(2) way(2) [OF x] by (simp_all only: sw good_way_def)
      from less.hyps [OF rest_shorter [OF s] ok2 r(3) False h(2) less.prems(5) len o(1) rep2, of "Ptr (fresh v)" ?n]
      obtain p q part' v' where g: "namei_loop v2 rest' flag (Ptr (fresh v)) (Ptr (fresh v)) ?n = Some (Leave p q part', v')"
        "looked_up v2 x (path_parts ?s) (fresh v) p v'" by blast
      have "a < fresh v" using less.prems(1,7) by (auto simp: vfs_ok_def)
      from looked_up_trans [OF l x way(3) [OF x] refl g(2) this] show ?thesis
        unfolding parts call i using fi h(1) g(1) by simp
    qed
  qed
qed

lemma namei_ok:
  assumes v: "vfs_ok v" and str: "is_str path s" and flag: "flag AND LOOKUP_PARENT = 0" "flag AND LOOKUP_CREATE = 0"
    and n: "\<forall>n \<in> set (path_parts s). length n < TFS_NAME_LEN"
    and start: "(if s \<noteq> [] \<and> hd s = slash then root v else pwd v) = Ptr a" "objs v a = Some d" "inode_rep (fsv v) w d"
    and good: "\<forall>ms u. walk (fsv v) w ms u \<longrightarrow> strict_prefix ms (path_parts s) \<longrightarrow> dir_good (fsv v) u"
  shows "\<exists>p v'. namei v path flag = Some (p, v') \<and>
    (if path_parts s = [] then p = Ptr a \<and> v' = v else looked_up v w (path_parts s) a p v')"
proof -
  let ?s = "dropWhile (\<lambda>c. c = slash) s"
  obtain path' where p: "(if hd path = slash then skip_slashes path else Some path) = Some path'" "is_str path' ?s"
  proof (cases "s \<noteq> [] \<and> hd s = slash")
    case True
    with skip_slashes_ok [OF str] is_str_hd [OF str] that show thesis by auto
  next
    case False
    then have "?s = s" by (cases s) auto
    moreover have "hd path \<noteq> slash" using False is_str_hd [OF str] slash_not_0 by (metis)
    ultimately show thesis using that [of path] str by simp
  qed
  have st: "(if hd path = slash then root v else pwd v) = Ptr a"
    using start(1) is_str_hd [OF str] slash_not_0 by (metis)
  have call: "namei v path flag = (case namei_loop v path' flag (Ptr a) (Ptr a) [] of
             None \<Rightarrow> None
           | Some (Return p, v) \<Rightarrow> Some (p, v)
           | Some (Leave inode parent part, v) \<Rightarrow> Some (inode, v))"
    unfolding namei_def Let_def st p(1) using is_str_hd [OF str] flag(2) by (simp split: option.splits walk_end.splits)
  have parts: "path_parts ?s = path_parts s" by (rule path_parts_skip)
  show ?thesis
  proof (cases "?s = []")
    case True
    then have "path_parts s = []" unfolding parts [symmetric] by (simp only: path_parts_Nil)
    moreover have "namei_loop v path' flag (Ptr a) (Ptr a) [] = Some (Leave (Ptr a) (Ptr a) [], v)"
      using is_str_hd [OF p(2)] True by (subst namei_loop.simps) simp
    ultimately show ?thesis using call by simp
  next
    case False
    then have h: "hd ?s \<noteq> slash" using hd_dropWhile by blast
    from namei_loop_ok [OF v p(2) False h flag(1) _ start(2,3), unfolded parts, OF n good [folded good_way_def]] obtain q r part v' where
      "namei_loop v path' flag (Ptr a) (Ptr a) [] = Some (Leave q r part, v')" "looked_up v w (path_parts s) a q v'" by blast
    moreover have "path_parts s \<noteq> []" using path_parts_step [OF False h] parts by simp
    ultimately show ?thesis using call by auto
  qed
qed

section \<open>Base names\<close>

lemma clear_back_ok:
  "p < length path \<Longrightarrow> path ! p = 0 \<Longrightarrow> case clear_back path p of
     (path', None) \<Rightarrow> \<forall>i < p. path ! i \<noteq> slash
   | (path', Some k) \<Rightarrow> k < p \<and> path ! k = slash \<and> length path' = length path \<and> path' ! (k + 1) = 0"
proof (induction path p rule: clear_back.induct)
  case (2 path p)
  show ?case
  proof (cases "path ! p = slash")
    case True
    with 2 show ?thesis by simp
  next
    case False
    have "p < length (path[p := 0])" "path[p := 0] ! p = 0" using 2(2) by simp_all
    note h = 2(1) [OF False this]
    obtain path' res where e: "clear_back (path[p := 0]) p = (path', res)" by force
    show ?thesis
    proof (cases res)
      case None
      then have "\<forall>i < p. path ! i \<noteq> slash" using h e by simp
      with e None False show ?thesis by (simp add: All_less_Suc)
    next
      case (Some k)
      with h e False show ?thesis by auto
    qed
  qed
qed simp

lemma strrchr_slash:
  assumes "is_str path s"
  shows "slash \<notin> set s \<Longrightarrow> strrchr path (sint slash) = Some None"
    "s = d @ slash # b \<Longrightarrow> slash \<notin> set b \<Longrightarrow> strrchr path (sint slash) = Some (Some (length d))"
proof -
  obtain rest where p: "path = s @ 0 # rest" using assms by (auto simp: is_str_def)
  have r: "strrchr path (sint slash) = Some (strrchr_down path (sint slash) (length s))"
    by (simp add: strrchr_def strlen_is_str [OF assms])
  have n: "k < length s \<Longrightarrow> path ! k = s ! k" for k by (simp add: p nth_append)
  note c = strrchr_down_cases [where s = path and c = "sint slash" and n = "length s"]
  {
    assume "slash \<notin> set s"
    then have "\<forall>k < length s. path ! k \<noteq> slash" using n by (metis nth_mem)
    with c show "strrchr path (sint slash) = Some None" unfolding r by (auto split: option.splits)
  next
    assume s: "s = d @ slash # b" and b: "slash \<notin> set b"
    have at: "path ! length d = slash" "length d < length s" using n [of "length d"] by (simp_all add: s)
    have after: "path ! k \<noteq> slash" if "length d < k" "k < length s" for k
    proof -
      have "s ! k = b ! (k - length d - 1)" "k - length d - 1 < length b" using that by (simp_all add: s nth_append)
      with b n [OF that(2)] show ?thesis by (metis nth_mem)
    qed
    have "strrchr_down path (sint slash) (length s) = Some (length d)"
    proof (cases "strrchr_down path (sint slash) (length s)")
      case None
      with c at show ?thesis by auto
    next
      case (Some j)
      then have j: "j < length s" "path ! j = slash" "\<forall>k < length s. path ! k = slash \<longrightarrow> k \<le> j" using c by auto
      then have "\<not> length d < j" "length d \<le> j" using after [of j] at by auto
      then show ?thesis using Some by simp
    qed
    then show "strrchr path (sint slash) = Some (Some (length d))" unfolding r by simp
  }
qed

lemma base_name_last:
  assumes str: "is_str path s" and s: "s = d @ slash # b" "slash \<notin> set b"
  shows "b \<noteq> [] \<Longrightarrow> \<exists>buf. get_base_name path = Some (Some buf) \<and> is_str buf b"
    "b = [] \<Longrightarrow> slash \<notin> set d \<Longrightarrow> get_base_name path = Some None"
    "b = [] \<Longrightarrow> slash \<in> set d \<Longrightarrow> \<exists>buf. get_base_name path = Some (Some buf) \<and> is_str buf []"
proof -
  obtain rest where p: "path = s @ 0 # rest" and z: "0 \<notin> set s" using str by (auto simp: is_str_def)
  let ?n = "length d"
  note r = strrchr_slash(2) [OF str s]
  {
    assume b: "b \<noteq> []"
    then have "path ! (?n + 1) = hd b" by (cases b) (simp_all add: p s nth_append)
    moreover have "hd b \<noteq> 0" using b z s by (cases b) auto
    ultimately have "get_base_name path = Some (Some (drop (?n + 1) path))" by (simp add: get_base_name_def r)
    moreover have "drop (?n + 1) path = b @ 0 # rest" by (simp add: p s)
    ultimately show "\<exists>buf. get_base_name path = Some (Some buf) \<and> is_str buf b" using z s by (auto simp: is_str_def)
  next
    assume b: "b = []"
    have e: "path ! Suc ?n = 0" by (simp add: p s b nth_append)
    have l: "?n < length (path[?n := 0])" "path[?n := 0] ! ?n = 0" by (simp_all add: p s)
    have d: "i < ?n \<Longrightarrow> path[?n := 0] ! i = d ! i" for i by (simp add: p s nth_append)
    obtain path' res where c: "clear_back (path[?n := 0]) ?n = (path', res)" by force
    have g: "get_base_name path = (case res of None \<Rightarrow> Some None | Some p \<Rightarrow> Some (Some (drop (p + 1) path')))"
      by (simp add: get_base_name_def r e c Let_def split: option.splits)
    note ok = clear_back_ok [OF l, unfolded c prod.case]
    {
      assume "slash \<notin> set d"
      then have "\<forall>i < ?n. d ! i \<noteq> slash" by (metis nth_mem)
      then have "res = None" using ok d by (cases res) auto
      then show "get_base_name path = Some None" using g by simp
    next
      assume "slash \<in> set d"
      then obtain i where i: "i < ?n" "d ! i = slash" by (auto simp: in_set_conv_nth)
      then obtain k where k: "res = Some k" using ok d by (cases res) auto
      then have h: "path' ! (k + 1) = 0" "k + 1 < length path'" using ok l by auto
      then have "drop (k + 1) path' = 0 # drop (k + 2) path'" by (metis Cons_nth_drop_Suc Suc_eq_plus1 add_2_eq_Suc')
      then have "is_str (drop (k + 1) path') []" by (simp add: is_str_Cons)
      then show "\<exists>buf. get_base_name path = Some (Some buf) \<and> is_str buf []" using g k by auto
    }
  }
qed

section \<open>A volume with one name\<close>

definition a_root :: "tfs \<Rightarrow> inode" where
  "a_root f = (tfs_fill_inode empty_dir (tinode_of f 1))\<lparr>i_ino := 1\<rparr>"

lemma a_root_rep: "inode_rep f 1 (a_root f)"
  by (simp add: inode_rep_def a_root_def tfs_fill_inode_def)

lemma named_volume:
  obtains f where "fs_ok f" and "room f = []" and "dir_good f 1" and "ents f 1 = {([97], 2)}"
proof -
  have r: "length [] < TFS_N_BLOCKS" and i: "word_of_int 2 \<noteq> (0 :: u32)" by (simp_all add: TFS_N_BLOCKS_def)
  obtain g dir b where e: "entry_added layout_fs empty_dir [] [97] 2 g dir ([] @ [b])" "unat b < bitmap_bits layout_fs"
      "\<not> block_used layout_fs (unat b)"
    by (rule add_block_ok [OF layout_mounted(1-5) r name_a(2,3) i], rule that)
  have g: "fs_ok g" "same_mount layout_fs g" "dir_wf g dir [b]" "listing g [b] = {([97], 2)}"
    using entry_addedD(1-4) [OF e(1)] by (simp_all add: listing_def)
  have ino: "i_ino dir = 1" using arg_cong [OF entry_addedD(5) [OF e(1)], of i_ino] by (simp add: empty_dir_def)
  then have nr: "inr_of dir = 1" "i_ino dir \<noteq> 0" by (simp_all add: inr_of_def)
  have s: "sbi layout_fs = big_block_sbi" "room layout_fs = []" by (simp_all add: layout_fs_def demo_fs_def)
  have ib: "inode_block g j = 3" if "1 \<le> j" "j \<le> 2" for j
  proof -
    have "inode_block g = inode_block layout_fs" using tinode_of_same [OF g(2)] by simp
    moreover have "nat (j - 1) div ipb layout_fs = 0"
      using that unfolding ipb_def s big_block_volume(3) by (simp add: tfs_inode_size_def)
    ultimately show ?thesis by (simp add: inode_block_def s big_block_sbi_def)
  qed
  have v: "fvalid g c \<longleftrightarrow> fvalid layout_fs c" for c using g(2) by simp
  have v3: "fvalid g 3" unfolding v by (rule layout_blocks) simp
  have "owns layout_fs [inode_block layout_fs (inr_of empty_dir)]" using empty_file_wf by (simp add: file_wf_def)
  moreover have "inode_block layout_fs (inr_of empty_dir) = 3"
    using ib [of 1] tinode_of_same [OF g(2)] by (simp add: inr_of_def empty_dir_def)
  ultimately have b3: "b \<noteq> 3" using e(3) by (auto simp: owns_def)
  have len: "length (i_data dir) = TFS_N_BLOCKS" using dir_wf_blocks(3) [OF g(3)] .
  have pv: "fvalid g (inode_block g (inr_of dir))" using v3 ib [of 1] by (simp add: nr)
  obtain f where f0: "inode_written g (inr_of dir) (tfs_write_inode (tinode_of g (inr_of dir)) dir) f"
    by (rule iwrite_ok [OF g(1) nr(2) pv len], rule that)
  have f: "inode_written g 1 (tfs_write_inode (tinode_of g 1) dir) f" using f0 unfolding nr(1) .
  have ib1: "inode_block g 1 = 3" by (rule ib) simp_all
  have "fs_ok f \<and> same_mount g f \<and> tinode_of f 1 = tfs_write_inode (tinode_of g 1) dir \<and>
    (\<forall>c. fvalid g c \<longrightarrow> c \<noteq> 3 \<longrightarrow> fblock f c = fblock g c)"
    using f unfolding inode_written_def ib1 by (elim conjE) (intro conjI)
  then have ok: "fs_ok f" "same_mount g f" "tinode_of f 1 = tfs_write_inode (tinode_of g 1) dir"
    "\<forall>c. fvalid g c \<longrightarrow> c \<noteq> 3 \<longrightarrow> fblock f c = fblock g c" by blast+
  have tb: "t_block (tinode_of f 1) = i_data dir" unfolding ok(3) by (simp add: tfs_write_inode_def)
  have "i_data dir = [b] @ replicate (TFS_N_BLOCKS - length [b]) 0 \<and> fvalid g b"
    using g(3) unfolding dir_wf_def by (meson list.set_intros(1))
  moreover have "length [b] = 1" by simp
  ultimately have wfb: "i_data dir = [b] @ replicate (TFS_N_BLOCKS - 1) 0" "fvalid g b" by metis+
  have b0: "b \<noteq> 0" using dir_wf_nonzero [OF g(3)] by simp
  have bo: "blocks_of f 1 = [b]" using b0 by (simp add: blocks_of_def tb wfb(1) TFS_N_BLOCKS_def)
  have fb: "fblock f b = fblock g b" using ok(4) wfb(2) b3 by blast
  have sl: "slots f = slots g" using ok(2) by (simp add: slots_def)
  have en: "ents f 1 = {([97], 2)}" using g(4) by (simp add: ents_def bo listing_def fb sl)
  have "dir_wf f (empty_dir\<lparr>i_data := i_data dir\<rparr>) [b]"
    using g(3) ok(2) by (simp add: dir_wf_def fb sl)
  moreover have "fvalid f (inode_block f 2)" using ok(2) ib [of 2] v3 tinode_of_same [OF ok(2)] by simp
  ultimately have "dir_good f 1" by (simp add: dir_good_def tb bo en)
  moreover have "room f = []" using ok(2) g(2) s by simp
  ultimately show thesis using that ok(1) en by blast
qed

text \<open>The root directory twice: the root object is not the one of the current directory.\<close>

definition a_vfs :: "tfs \<Rightarrow> vfs" where
  "a_vfs f = \<lparr>fsv = f, objs = [0 \<mapsto> a_root f, 1 \<mapsto> a_root f], fresh = 2, root = Ptr 0, pwd = Ptr 1,
     cwd = [slash, 0] @ replicate 253 0, fds = replicate MAX_FD 0, files = replicate MAX_FD None\<rparr>"

lemma a_vfs_ok: "fs_ok f \<Longrightarrow> room f = [] \<Longrightarrow> vfs_ok (a_vfs f)"
  by (simp add: vfs_ok_def a_vfs_def deref_def)

lemma a_path: "is_str [47, 97, 0] [47, 97]" "path_parts [47, 97] = [[97]]"
proof -
  show "is_str [47, 97, 0] [47, 97]" by (simp add: is_str_Cons)
  have "path_parts [47, 97] = path_parts [97]" using path_parts_skip [of "[47, 97]"] by (simp add: slash_def)
  also have "\<dots> = [[97]]" using path_parts_step [of "[97]"] by (simp add: slash_def)
  finally show "path_parts [47, 97] = [[97]]" .
qed

lemma a_walk:
  assumes "dir_good f 1"
  shows "\<forall>ms u. walk f 1 ms u \<longrightarrow> strict_prefix ms [[97]] \<longrightarrow> dir_good f u"
proof (intro allI impI)
  fix ms u assume w: "walk f 1 ms u" and p: "strict_prefix ms [[97]]"
  from prefix_length_less [OF p] have "ms = []" by simp
  with w assms show "dir_good f u" by simp
qed

section \<open>Properties\<close>

text \<open>
  C14: \<^verbatim>\<open>namei\<close> follows the listings. On a mounted volume whose directories along the path are sound, for
  components shorter than 28 bytes and no flag, the lookup of any terminated path ends. A path without
  components gives the start itself, the root for an absolute and the current directory for a relative
  path. Otherwise the result is a new object that represents the inode the components lead to in the
  listings, or the error for a missing file when they lead nowhere. The disk and every other file stay
  as they are; repeated and trailing slashes do not matter.
\<close>

theorem namei_walks:
  assumes "vfs_ok v" and "is_str path s" and "\<forall>n \<in> set (path_parts s). length n < TFS_NAME_LEN"
    and "(if s \<noteq> [] \<and> hd s = slash then root v else pwd v) = Ptr a" and "objs v a = Some d"
    and "inode_rep (fsv v) w d"
    and "\<forall>ms u. walk (fsv v) w ms u \<longrightarrow> strict_prefix ms (path_parts s) \<longrightarrow> dir_good (fsv v) u"
  shows "\<exists>p v'. namei v path 0 = Some (p, v') \<and> fs_ok (fsv v') \<and> fblock (fsv v') = fblock (fsv v) \<and>
    files v' = files v \<and> pwd v' = pwd v \<and>
    (case p of
       Ptr b \<Rightarrow> \<exists>i u. objs v' b = Some i \<and> inode_rep (fsv v) u i \<and> walk (fsv v) w (path_parts s) u \<and>
         (path_parts s = [] \<longrightarrow> b = a)
     | Err e \<Rightarrow> e = - errno_num ENOENT \<and> (\<forall>u. \<not> walk (fsv v) w (path_parts s) u)
     | Null \<Rightarrow> False)"
proof -
  have "(0 :: u32) AND LOOKUP_PARENT = 0" "(0 :: u32) AND LOOKUP_CREATE = 0" by simp_all
  from namei_ok [OF assms(1,2) this assms(3-7)] obtain p v' where n: "namei v path 0 = Some (p, v')"
    "if path_parts s = [] then p = Ptr a \<and> v' = v else looked_up v w (path_parts s) a p v'" by blast
  show ?thesis
  proof (cases "path_parts s = []")
    case True
    then show ?thesis using n assms(1,5,6) by (auto simp: vfs_ok_def)
  next
    case False
    then have "looked_up v w (path_parts s) a p v'" using n(2) by simp
    with n(1) False show ?thesis
      unfolding looked_up_def same_volume_def vfs_ok_def by (cases p) auto
  qed
qed

theorem namei_walks_witness:
  "\<exists>v b v' i. namei v [47, 97, 0] 0 = Some (Ptr b, v') \<and> objs v' b = Some i \<and> i_ino i = 2"
proof -
  obtain f where f: "fs_ok f" "room f = []" "dir_good f 1" "ents f 1 = {([97], 2)}" by (rule named_volume)
  have v: "vfs_ok (a_vfs f)" by (rule a_vfs_ok [OF f(1,2)])
  have w: "walk f 1 [[97]] u \<longleftrightarrow> u = 2" for u by (auto simp: walk_Cons f(4))
  have "\<exists>p v'. namei (a_vfs f) [47, 97, 0] 0 = Some (p, v') \<and> fs_ok (fsv v') \<and>
    fblock (fsv v') = fblock (fsv (a_vfs f)) \<and> files v' = files (a_vfs f) \<and> pwd v' = pwd (a_vfs f) \<and>
    (case p of
       Ptr b \<Rightarrow> \<exists>i u. objs v' b = Some i \<and> inode_rep (fsv (a_vfs f)) u i \<and>
         walk (fsv (a_vfs f)) 1 (path_parts [47, 97]) u \<and> (path_parts [47, 97] = [] \<longrightarrow> b = 0)
     | Err e \<Rightarrow> e = - errno_num ENOENT \<and> (\<forall>u. \<not> walk (fsv (a_vfs f)) 1 (path_parts [47, 97]) u)
     | Null \<Rightarrow> False)"
    by (rule namei_walks [OF v a_path(1), of 0 "a_root f"])
      (use a_walk [OF f(3)] a_root_rep in \<open>simp_all add: a_path(2) a_vfs_def slash_def TFS_NAME_LEN_def\<close>)
  then obtain p v' where n: "namei (a_vfs f) [47, 97, 0] 0 = Some (p, v')" and
    "case p of
       Ptr b \<Rightarrow> \<exists>i u. objs v' b = Some i \<and> inode_rep (fsv (a_vfs f)) u i \<and>
         walk (fsv (a_vfs f)) 1 (path_parts [47, 97]) u \<and> (path_parts [47, 97] = [] \<longrightarrow> b = 0)
     | Err e \<Rightarrow> e = - errno_num ENOENT \<and> (\<forall>u. \<not> walk (fsv (a_vfs f)) 1 (path_parts [47, 97]) u)
     | Null \<Rightarrow> False" by blast
  moreover have "fsv (a_vfs f) = f" by (simp add: a_vfs_def)
  ultimately obtain b i where "p = Ptr b" "objs v' b = Some i" "i_ino i = 2"
    using w unfolding a_path(2) inode_rep_def by (cases p) auto
  with n show ?thesis by blast
qed

text \<open>
  \<^verbatim>\<open>namei\<close> frees the root inode. Once the current directory is not the root object any more, the
  first lookup of an absolute path that names a file frees the root object, and every later lookup of
  an absolute path dereferences it, which has no defined result.
\<close>

theorem namei_frees_root:
  assumes "vfs_ok v" and "root v = Ptr a" and "pwd v \<noteq> Ptr a" and "objs v a = Some d" and "inode_rep (fsv v) w d"
    and "is_str path s" and "hd s = slash" and "path_parts s \<noteq> []"
    and "\<forall>n \<in> set (path_parts s). length n < TFS_NAME_LEN"
    and "\<forall>ms u. walk (fsv v) w ms u \<longrightarrow> strict_prefix ms (path_parts s) \<longrightarrow> dir_good (fsv v) u"
    and "walk (fsv v) w (path_parts s) u"
    and "is_str again t" and "hd t = slash" and "path_parts t \<noteq> []"
    and "\<forall>n \<in> set (path_parts t). length n < TFS_NAME_LEN"
  shows "\<exists>b v'. namei v path 0 = Some (Ptr b, v') \<and> root v' = Ptr a \<and> objs v' a = None \<and>
    namei v' again 0 = None"
proof -
  have flag: "(0 :: u32) AND LOOKUP_PARENT = 0" "(0 :: u32) AND LOOKUP_CREATE = 0" by simp_all
  have "s \<noteq> []" "t \<noteq> []" using assms(8,14) by auto
  then have st: "(if s \<noteq> [] \<and> hd s = slash then root v else pwd v) = Ptr a" using assms(2,7) by simp
  from namei_ok [OF assms(1,6) flag assms(9) st assms(4,5,10)] assms(8) obtain p v' where
    n: "namei v path 0 = Some (p, v')" "looked_up v w (path_parts s) a p v'" by auto
  obtain b where p: "p = Ptr b" using n(2) assms(11) by (cases p) (auto simp: looked_up_def)
  then have v': "root v' = Ptr a" "objs v' a = None" using n(2) assms(2,3) by (auto simp: looked_up_def)
  let ?t = "dropWhile (\<lambda>c. c = slash) t"
  have tne: "?t \<noteq> []" using assms(14) path_parts_skip [of t] path_parts_Nil by metis
  then have h: "hd ?t \<noteq> slash" using hd_dropWhile by blast
  obtain again' where ag: "skip_slashes again = Some again'" "is_str again' ?t" using skip_slashes_ok [OF assms(12)] by blast
  have len: "\<forall>n \<in> set (path_parts ?t). length n < TFS_NAME_LEN" using assms(15) by (simp only: path_parts_skip)
  obtain rest rest' where r: "scan_part again' 0 = Some (Some (takeWhile (\<lambda>c. c \<noteq> slash) ?t, rest))"
    "skip_slashes rest = Some rest'" "again' \<noteq> []" "hd again' \<noteq> 0" using first_part_ok [OF ag(2) tne h len] .
  have "iget v' x (Ptr a) = None" for x by (simp add: iget_def deref_def v')
  then have "namei_loop v' again' 0 (Ptr a) (Ptr a) [] = None"
    by (subst namei_loop.simps) (simp add: r)
  moreover have "hd again = slash" "again \<noteq> []" using is_str_hd [OF assms(12)] assms(13) \<open>t \<noteq> []\<close> by auto
  ultimately have "namei v' again 0 = None" by (simp add: namei_def v' ag(1))
  with n(1) p v' show ?thesis by blast
qed

theorem namei_frees_root_witness:
  "\<exists>v b v'. vfs_ok v \<and> namei v [47, 97, 0] 0 = Some (Ptr b, v') \<and> namei v' [47, 97, 0] 0 = None"
proof -
  obtain f where f: "fs_ok f" "room f = []" "dir_good f 1" "ents f 1 = {([97], 2)}" by (rule named_volume)
  have v: "vfs_ok (a_vfs f)" by (rule a_vfs_ok [OF f(1,2)])
  have w: "walk f 1 [[97]] 2" by (simp add: walk_Cons f(4))
  have "\<exists>b v'. namei (a_vfs f) [47, 97, 0] 0 = Some (Ptr b, v') \<and> root v' = Ptr 0 \<and> objs v' 0 = None \<and>
      namei v' [47, 97, 0] 0 = None"
    by (rule namei_frees_root [OF v, of 0 "a_root f" 1 _ "[47, 97]" 2 _ "[47, 97]"])
      (use a_walk [OF f(3)] w a_root_rep a_path in \<open>simp_all add: a_vfs_def slash_def TFS_NAME_LEN_def\<close>)
  then show ?thesis using v by blast
qed

text \<open>
  what \<^verbatim>\<open>get_base_name\<close> gives. A path without a slash is its own base name; otherwise it is what
  follows the last slash. For a path that ends with a slash, though, the function clears the last
  component before it returns a pointer behind the slash in front of it: the base name is empty, or
  the null pointer when there is no other slash.
\<close>

theorem get_base_name_gives:
  assumes "is_str path s"
  shows "(slash \<notin> set s \<longrightarrow> get_base_name path = Some (Some path)) \<and>
    (\<forall>d b. s = d @ slash # b \<longrightarrow> slash \<notin> set b \<longrightarrow>
       (if b = [] \<and> slash \<notin> set d then get_base_name path = Some None
        else \<exists>buf. get_base_name path = Some (Some buf) \<and> is_str buf b))"
proof (intro conjI impI allI)
  assume "slash \<notin> set s"
  then show "get_base_name path = Some (Some path)" by (simp add: get_base_name_def strrchr_slash(1) [OF assms])
next
  fix d b assume s: "s = d @ slash # b" "slash \<notin> set b"
  show "if b = [] \<and> slash \<notin> set d then get_base_name path = Some None
        else \<exists>buf. get_base_name path = Some (Some buf) \<and> is_str buf b"
    using base_name_last [OF assms s] by (cases "b = []") auto
qed

theorem get_base_name_gives_witness:
  "\<exists>buf. get_base_name [47, 97, 47, 98, 0] = Some (Some buf) \<and> is_str buf [98]"
proof -
  have "is_str [47, 97, 47, 98, 0] [47, 97, 47, 98]" by (simp add: is_str_Cons)
  from get_base_name_gives [OF this] have "\<forall>d b. [47, 97, 47, 98] = d @ slash # b \<longrightarrow> slash \<notin> set b \<longrightarrow>
       (if b = [] \<and> slash \<notin> set d then get_base_name [47, 97, 47, 98, 0] = Some None
        else \<exists>buf. get_base_name [47, 97, 47, 98, 0] = Some (Some buf) \<and> is_str buf b)" by blast
  from this [rule_format, of "[47, 97]" "[98]"] show ?thesis by (simp add: slash_def)
qed

end
