(* ===== verification/Vfs_File.thy ===== *)
theory Vfs_File
  imports Vfs_Walk
begin

text \<open>
  Open files: the descriptor table and the calls on it (\<^verbatim>\<open>fs/file.c\<close>), opening and closing a directory
  (\<^verbatim>\<open>fs/dir.c\<close>, \<^verbatim>\<open>tfs_closedir\<close> of \<^verbatim>\<open>fs/tfs/dir.c\<close>) and loading a program (\<^verbatim>\<open>fs/exec.c\<close>).
\<close>

section \<open>The descriptor table\<close>

fun unused_from :: "u8 list \<Rightarrow> nat \<Rightarrow> nat" where
  "unused_from [] i = i"
| "unused_from (x # xs) i = (if x = 0 then i else unused_from xs (Suc i))"

definition get_unused_fd :: "vfs \<Rightarrow> nat \<times> vfs" where
  "get_unused_fd v =
     (let i = unused_from (fds v) 0 in
      (i, if i < MAX_FD then v\<lparr>fds := (fds v)[i := 1]\<rparr> else v))"

definition sys_open :: "vfs \<Rightarrow> u8 list \<Rightarrow> u32 \<Rightarrow> (int \<times> vfs) option" where
  "sys_open v pathname flags =
     (case namei v pathname flags of
        None \<Rightarrow> None
      | Some (Null, v) \<Rightarrow> Some (- errno_num ENOENT, v)
      | Some (Err e, v) \<Rightarrow> Some (e, v)
      | Some (Ptr a, v) \<Rightarrow>
          (case malloc_ok (fsv v) of
             (got, f) \<Rightarrow>
               let v = v\<lparr>fsv := f\<rparr> in
               if \<not> got then Some (- errno_num ENOMEM, v)
               else if objs v a = None then None
               else (case get_unused_fd v of
                       (fd, v) \<Rightarrow>
                         if fd \<ge> MAX_FD then Some (- errno_num EINVAL, v)
                         else Some (int fd, v\<lparr>files := (files v)[fd := Some \<lparr>o_inode = a, o_offset = 0\<rparr>]\<rparr>))))"

text \<open>
  The entry of a descriptor. The range checks of the callers let 32 through, which is behind the
  table: no result.
\<close>

definition fget :: "vfs \<Rightarrow> int \<Rightarrow> ofile option option" where
  "fget v fd = (if 0 \<le> fd \<and> fd < int MAX_FD then Some (files v ! nat fd) else None)"

definition bad_fd :: "int \<Rightarrow> bool" where
  "bad_fd fd \<longleftrightarrow> fd < 0 \<or> fd > int MAX_FD"

definition set_file :: "vfs \<Rightarrow> int \<Rightarrow> ofile \<Rightarrow> vfs" where
  "set_file v fd fl = v\<lparr>files := (files v)[nat fd := Some fl]\<rparr>"

text \<open>A value that is stored into an \<^verbatim>\<open>int\<close>.\<close>

definition to_int :: "int \<Rightarrow> int" where
  "to_int i = sint (word_of_int i :: u32)"

definition block_shift :: "vfs \<Rightarrow> nat" where
  "block_shift v = unat (tfs_get_blk_shift (sbi (fsv v)))"

text \<open>
  \<^verbatim>\<open>sys_read\<close>. The smaller of the size asked for and what is left of the file is taken of unsigned
  values. The number of blocks does not count the part of the first block before the offset.
\<close>

definition sys_read :: "vfs \<Rightarrow> mem \<Rightarrow> int \<Rightarrow> nat \<Rightarrow> int \<Rightarrow> (int \<times> mem \<times> vfs) option" where
  "sys_read v m fd buf nbytes =
     (if bad_fd fd then Some (- errno_num EBADF, m, v)
      else case fget v fd of
        None \<Rightarrow> None
      | Some None \<Rightarrow> Some (- errno_num EBADF, m, v)
      | Some (Some fl) \<Rightarrow>
          (case objs v (o_inode fl) of
             None \<Rightarrow> None
           | Some inode \<Rightarrow>
               let left = i_size inode - o_offset fl;
                   bytes_need = sint (if word_of_int nbytes < left then word_of_int nbytes else left);
                   blocks = drop_bit (block_shift v) (to_int (bytes_need + i_blksize inode - 1)) in
               (case tfs_read (fsv v) \<lparr>f_inode = inode, f_offset = o_offset fl\<rparr> m buf blocks of
                  None \<Rightarrow> None
                | Some (bytes_read, m, f) \<Rightarrow>
                    let bytes_read = min bytes_need bytes_read; v = v\<lparr>fsv := f\<rparr> in
                    if bytes_read > 0
                    then Some (bytes_read,
                      memmove m buf (buf + unat (o_offset fl AND word_of_int (i_blksize inode - 1))) (nat bytes_read),
                      set_file v fd (fl\<lparr>o_offset := o_offset fl + word_of_int bytes_read\<rparr>))
                    else Some (bytes_read, m, v))))"

definition sys_write :: "vfs \<Rightarrow> mem \<Rightarrow> int \<Rightarrow> nat \<Rightarrow> int \<Rightarrow> (int \<times> vfs) option" where
  "sys_write v m fd buf nbytes =
     (if bad_fd fd then Some (- errno_num EBADF, v)
      else case fget v fd of
        None \<Rightarrow> None
      | Some None \<Rightarrow> Some (- errno_num EBADF, v)
      | Some (Some fl) \<Rightarrow>
          (case objs v (o_inode fl) of
             None \<Rightarrow> None
           | Some inode \<Rightarrow>
               let blocks = drop_bit (block_shift v) (to_int (nbytes + i_blksize inode - 1)) in
               (case tfs_write (fsv v) \<lparr>f_inode = inode, f_offset = o_offset fl\<rparr> m buf blocks of
                  None \<Rightarrow> None
                | Some (bytes_written, file', f) \<Rightarrow>
                    let bytes_written = min nbytes bytes_written;
                        v = set_obj (v\<lparr>fsv := f\<rparr>) (Ptr (o_inode fl)) (f_inode file') in
                    Some (bytes_written,
                      if bytes_written > 0
                      then set_file v fd (fl\<lparr>o_offset := o_offset fl + word_of_int bytes_written\<rparr>)
                      else v))))"

definition sys_close :: "vfs \<Rightarrow> int \<Rightarrow> (int \<times> vfs) option" where
  "sys_close v fd =
     (if bad_fd fd then Some (- errno_num EBADF, v)
      else case fget v fd of
        None \<Rightarrow> None
      | Some None \<Rightarrow> Some (- errno_num EBADF, v)
      | Some (Some fl) \<Rightarrow>
          map_option (\<lambda>v. (0, v\<lparr>fds := (fds v)[nat fd := 0], files := (files v)[nat fd := None]\<rparr>))
            (free_inode v (Ptr (o_inode fl))))"

definition SEEK_SET :: int where "SEEK_SET = 0"
definition SEEK_CUR :: int where "SEEK_CUR = 1"
definition SEEK_END :: int where "SEEK_END = 2"

definition sys_lseek :: "vfs \<Rightarrow> int \<Rightarrow> int \<Rightarrow> int \<Rightarrow> (int \<times> vfs) option" where
  "sys_lseek v fd off mode =
     (if bad_fd fd then Some (- errno_num EBADF, v)
      else case fget v fd of
        None \<Rightarrow> None
      | Some None \<Rightarrow> Some (- errno_num EBADF, v)
      | Some (Some fl) \<Rightarrow>
          let seek = (\<lambda>offset. Some (sint offset, set_file v fd (fl\<lparr>o_offset := offset\<rparr>))) in
          if mode = SEEK_CUR then seek (o_offset fl + word_of_int off)
          else if mode = SEEK_END
          then (case objs v (o_inode fl) of
                  None \<Rightarrow> None
                | Some inode \<Rightarrow> seek (i_size inode + word_of_int off))
          else if mode = SEEK_SET then seek (word_of_int off)
          else Some (- errno_num EINVAL, v))"

section \<open>Directories\<close>

definition opendir :: "vfs \<Rightarrow> u8 list \<Rightarrow> ((int + ofile) \<times> vfs) option" where
  "opendir v path =
     (case namei v path 0 of
        None \<Rightarrow> None
      | Some (Null, v) \<Rightarrow> Some (Inl (- errno_num ENOENT), v)
      | Some (Err e, v) \<Rightarrow> Some (Inl e, v)
      | Some (Ptr a, v) \<Rightarrow>
          (case malloc_ok (fsv v) of
             (got, f) \<Rightarrow>
               if \<not> got then Some (Inl (- errno_num ENOMEM), v\<lparr>fsv := f\<rparr>)
               else (case malloc_ok f of
                       (got, f) \<Rightarrow>
                         let v = v\<lparr>fsv := f\<rparr> in
                         if \<not> got then Some (Inl (- errno_num ENOMEM), v)
                         else if objs v a = None then None
                         else Some (Inr \<lparr>o_inode = a, o_offset = 0\<rparr>, v))))"

definition tfs_closedir :: "vfs \<Rightarrow> ofile option \<Rightarrow> vfs option" where
  "tfs_closedir v dir = (case dir of None \<Rightarrow> Some v | Some d \<Rightarrow> free_inode v (Ptr (o_inode d)))"

section \<open>Loading a program\<close>

definition exec_buf :: nat where "exec_buf = 0x1600000"

text \<open>\<^verbatim>\<open>count\<close>, on the words of the argument vector; \<^term>\<open>None\<close> is the null pointer.\<close>

fun count_args :: "u32 list \<Rightarrow> int option" where
  "count_args [] = None"
| "count_args (p # argv) = (if p = 0 then Some 0 else map_option (\<lambda>n. n + 1) (count_args argv))"

definition count :: "u32 list option \<Rightarrow> int option" where
  "count argv = (case argv of None \<Rightarrow> Some 0 | Some argv \<Rightarrow> count_args argv)"

partial_function (option) load_loop :: "vfs \<Rightarrow> mem \<Rightarrow> int \<Rightarrow> nat \<Rightarrow> (mem \<times> vfs) option" where
  "load_loop v m fd p =
     (case sys_read v m fd p 4096 of
        None \<Rightarrow> None
      | Some (bytes_read, m, v) \<Rightarrow>
          if bytes_read > 0 then load_loop v m fd (p + nat bytes_read) else Some (m, v))"

text \<open>
  A program gets the number of its arguments and their vector. What else it may change, the console, is
  the type \<open>'c\<close>. The program that was loaded is the parameter \<open>entry\<close>.
\<close>

type_synonym 'c prog = "mem \<Rightarrow> int \<Rightarrow> u32 list option \<Rightarrow> vfs \<Rightarrow> 'c \<Rightarrow> (int \<times> mem \<times> vfs \<times> 'c) option"

definition sys_execve ::
  "'c prog \<Rightarrow> vfs \<Rightarrow> mem \<Rightarrow> u8 list \<Rightarrow> u32 list option \<Rightarrow> 'c \<Rightarrow> (int \<times> mem \<times> vfs \<times> 'c) option" where
  "sys_execve entry v m path argv c =
     (case sys_open v path 0 of
        None \<Rightarrow> None
      | Some (fd, v) \<Rightarrow>
          if fd < 0 then Some (fd, m, v, c)
          else (case load_loop v m fd exec_buf of
                  None \<Rightarrow> None
                | Some (m, v) \<Rightarrow>
                    (case sys_close v fd of
                       None \<Rightarrow> None
                     | Some (_, v) \<Rightarrow>
                         (case count argv of
                            None \<Rightarrow> None
                          | Some argc \<Rightarrow> entry m argc argv v c))))"

section \<open>The table stays consistent\<close>

lemma free_inode_frame: "free_inode v p = Some v' \<Longrightarrow>
    fsv v' = fsv v \<and> files v' = files v \<and> fds v' = fds v \<and> pwd v' = pwd v \<and> fresh v' = fresh v"
  by (auto simp: free_inode_def split: iptr.splits option.splits if_splits)

lemma new_obj_frame [simp]:
  "fsv (snd (new_obj v i)) = fsv v" "files (snd (new_obj v i)) = files v" "fds (snd (new_obj v i)) = fds v"
  by (simp_all add: new_obj_def)

lemma set_obj_frame [simp]:
  "fsv (set_obj v p i) = fsv v" "files (set_obj v p i) = files v" "fds (set_obj v p i) = fds v"
  by (simp_all add: set_obj_def split: iptr.splits)

lemma iget_frame: "iget v n dir = Some (p, v') \<Longrightarrow> files v' = files v \<and> fds v' = fds v"
  by (auto simp: iget_def new_obj_def split: option.splits sum.splits prod.splits)

lemma mknod_frame: "mknod v dir n mode = Some (p, v') \<Longrightarrow> files v' = files v \<and> fds v' = fds v"
  by (auto simp: mknod_def new_obj_def split: option.splits sum.splits prod.splits)

text \<open>What a call of \<^const>\<open>namei_loop\<close> does to the state: nothing, one \<^verbatim>\<open>iget\<close>, or a step and the rest.\<close>

lemma namei_loop_cases:
  assumes "namei_loop v name flag parent inode part = Some (e, v')"
  obtains (stay) "v' = v"
  | (missing) n q where "iget v n parent = Some (q, v')"
  | (last) n q v1 where "iget v n parent = Some (q, v1)" and "free_inode v1 parent = Some v'"
  | (deeper) n q v1 v2 rest part1 where "iget v n parent = Some (q, v1)" and "free_inode v1 parent = Some v2"
      and "length rest < length name" and "namei_loop v2 rest flag q q part1 = Some (e, v')"
  using assms unfolding namei_loop.simps [of v name]
  by (auto split: if_splits option.splits prod.splits iptr.splits dest: next_part_shorter intro: stay missing last deeper)

lemma namei_loop_frame:
  "namei_loop v name flag parent inode part = Some (e, v') \<Longrightarrow> files v' = files v \<and> fds v' = fds v"
proof (induction "length name" arbitrary: v name parent inode part rule: less_induct)
  case less
  from less.prems show ?case
  proof (cases rule: namei_loop_cases)
    case (deeper n q v1 v2 rest part1)
    then show ?thesis using less.hyps [OF deeper(3,4)] iget_frame free_inode_frame by fastforce
  next
    case (last n q v1)
    then show ?thesis using iget_frame free_inode_frame by fastforce
  qed (auto dest: iget_frame)
qed

lemma namei_frame: "namei v name flag = Some (p, v') \<Longrightarrow> files v' = files v \<and> fds v' = fds v"
  unfolding namei_def Let_def
  by (auto split: if_splits option.splits prod.splits iptr.splits walk_end.splits
      dest!: namei_loop_frame mknod_frame free_inode_frame)

definition fd_ok :: "vfs \<Rightarrow> bool" where
  "fd_ok v \<longleftrightarrow> length (fds v) = MAX_FD \<and> length (files v) = MAX_FD \<and>
     (\<forall>i < MAX_FD. fds v ! i \<noteq> 0 \<longleftrightarrow> files v ! i \<noteq> None)"

lemma unused_from_spec: "unused_from xs i = i + length (takeWhile (\<lambda>x. x \<noteq> 0) xs)"
  by (induction xs i rule: unused_from.induct) auto

section \<open>Reading through a descriptor\<close>

lemma concat_blocks:
  assumes "\<And>x. length (f x) = B"
  shows "concat (map f (drop i xs)) = drop (i * B) (concat (map f xs))"
    "concat (map f (take i xs)) = take (i * B) (concat (map f xs))"
    "length (concat (map f xs)) = length xs * B"
proof -
  show l: "length (concat (map f xs)) = length xs * B" for xs by (induction xs) (simp_all add: assms)
  show "concat (map f (drop i xs)) = drop (i * B) (concat (map f xs))"
    by (induction xs arbitrary: i) (auto simp: assms drop_Cons split: nat.splits)
  show "concat (map f (take i xs)) = take (i * B) (concat (map f xs))"
    by (induction xs arbitrary: i) (auto simp: assms take_Cons split: nat.splits)
qed

text \<open>The bytes of a file, as long as its blocks.\<close>

definition content :: "tfs \<Rightarrow> u32 list \<Rightarrow> u8 list" where
  "content f bs = concat (map (fblock f) bs)"

lemma block_count:
  assumes "0 < need" and "0 < (B :: nat)" and "o' + need \<le> n * B"
  defines "k \<equiv> (need + B - 1) div B"
  shows "0 < k" "need \<le> k * B" "o' div B + k \<le> n"
proof -
  have k: "k * B \<le> need + B - 1" "need + B - 1 < (k + 1) * B"
    unfolding k_def using dividend_less_div_times [of B "need + B - 1"] assms(2) by (simp_all add: add.commute)
  then show nk: "need \<le> k * B" using assms(2) by simp
  then show "0 < k" using assms(1) by (cases k) simp_all
  have "o' div B * B \<le> o'" by simp
  then have "(o' div B + k) * B < (n + 1) * B"
    using k(1) assms(1-3) unfolding add_mult_distrib by linarith
  then have "o' div B + k < n + 1" by (simp only: mult_less_cancel2)
  then show "o' div B + k \<le> n" by simp
qed

text \<open>
  An open descriptor of a sound file with bytes left, and what a read does to memory: the bytes at
  the end of a request that its blocks do not cover come from memory.
\<close>

definition readable :: "vfs \<Rightarrow> nat \<Rightarrow> ofile \<Rightarrow> inode \<Rightarrow> u32 list \<Rightarrow> bool" where
  "readable v fd fl inode bs \<longleftrightarrow> fd < MAX_FD \<and> length (files v) = MAX_FD \<and> files v ! fd = Some fl \<and>
     objs v (o_inode fl) = Some inode \<and> file_wf (fsv v) inode bs \<and>
     i_blksize inode = int (bsize (sbi (fsv v))) \<and>
     unat (i_size inode) \<le> length bs * bsize (sbi (fsv v))"

lemma to_int_small: "n < 2 ^ 31 \<Longrightarrow> to_int (int n) = int n"
proof -
  assume n: "n < 2 ^ 31"
  then have "unat (word_of_nat n :: u32) = n" by (intro unat_of_nat_u32) simp
  with n sint_small [of "word_of_nat n"] show ?thesis by (simp add: to_int_def)
qed

lemma request_blocks:
  assumes s: "sbi_ok (sbi (fsv v))" and small: "n + bsize (sbi (fsv v)) < 2 ^ 31"
  shows "drop_bit (block_shift v) (to_int (int n + int (bsize (sbi (fsv v))) - 1)) =
    int ((n + bsize (sbi (fsv v)) - 1) div bsize (sbi (fsv v)))"
proof -
  let ?B = "bsize (sbi (fsv v))"
  have B: "0 < ?B" "?B = 2 ^ block_shift v"
    using bsize_range(1) [OF s] by (simp_all add: bsize_def block_shift_def tfs_get_blk_shift_def)
  have "int n + int ?B - 1 = int (n + ?B - 1)" using B(1) by (simp add: of_nat_diff)
  moreover have "to_int (int (n + ?B - 1)) = int (n + ?B - 1)" using small by (intro to_int_small) linarith
  ultimately have "to_int (int n + int ?B - 1) = int (n + ?B - 1)" by (simp only:)
  moreover have "drop_bit (block_shift v) (int (n + ?B - 1)) = int ((n + ?B - 1) div ?B)"
    by (simp only: drop_bit_eq_div zdiv_int B(2)) simp
  ultimately show ?thesis by (simp only:)
qed

text \<open>How many bytes and blocks \<^verbatim>\<open>sys_read\<close> asks for.\<close>

lemma request_bytes:
  assumes o: "o' \<le> (sz :: u32)" and n: "0 < n" "n < 2 ^ 31" and l: "unat (sz - o') < 2 ^ 31"
  defines "b \<equiv> (if word_of_int (int n) < sz - o' then word_of_int (int n) else sz - o' :: u32)"
  shows "unat b = min n (unat sz - unat o')" and "sint b = int (min n (unat sz - unat o'))"
proof -
  have left: "unat (sz - o') = unat sz - unat o'" using o by (simp add: unat_sub)
  have wn: "unat (word_of_int (int n) :: u32) = n" using n(2) by (simp add: unat_of_nat_u32)
  show u: "unat b = min n (unat sz - unat o')"
    unfolding b_def word_less_nat_alt wn left by (auto simp: wn left simp del: of_int_of_nat_eq)
  then have "unat b < 2 ^ 31" using n(2) by simp
  then show "sint b = int (min n (unat sz - unat o'))" using sint_small [of b] u by simp
qed

lemma readableD:
  assumes "readable v fd fl inode bs"
  shows "file_wf (fsv v) inode bs" "sbi_ok (sbi (fsv v))" "0 < bsize (sbi (fsv v))" "bsize (sbi (fsv v)) \<le> 16384"
    "\<not> bad_fd (int fd)" "fget v (int fd) = Some (Some fl)" "objs v (o_inode fl) = Some inode"
    "i_blksize inode = int (bsize (sbi (fsv v)))" "unat (i_size inode) \<le> length bs * bsize (sbi (fsv v))"
    "length bs * bsize (sbi (fsv v)) \<le> 8 * 16384"
proof -
  show wf: "file_wf (fsv v) inode bs" using assms by (simp add: readable_def)
  show s: "sbi_ok (sbi (fsv v))" by (rule fs_ok_sbi [OF file_wfD(2) [OF wf]])
  show B: "0 < bsize (sbi (fsv v))" "bsize (sbi (fsv v)) \<le> 16384" using bsize_range(1,2) [OF s] by simp_all
  show "\<not> bad_fd (int fd)" "fget v (int fd) = Some (Some fl)" "objs v (o_inode fl) = Some inode"
    "i_blksize inode = int (bsize (sbi (fsv v)))" "unat (i_size inode) \<le> length bs * bsize (sbi (fsv v))"
    using assms by (simp_all add: readable_def bad_fd_def fget_def)
  show "length bs * bsize (sbi (fsv v)) \<le> 8 * 16384"
    using file_wfD(6) [OF wf] B(2) by (intro mult_le_mono) (simp_all add: TFS_N_BLOCKS_def)
qed

text \<open>The blocks that \<^verbatim>\<open>tfs_read\<close> then gives are a part of the contents.\<close>

lemma read_content:
  assumes r: "readable v fd fl inode bs" and o: "o_offset fl < i_size inode"
  defines "B \<equiv> bsize (sbi (fsv v))" and "i \<equiv> unat (o_offset fl) div bsize (sbi (fsv v))"
  assumes k: "0 < k" "i + k \<le> length bs"
  shows "\<exists>f'. tfs_read (fsv v) \<lparr>f_inode = inode, f_offset = o_offset fl\<rparr> m buf (int k) =
      Some (int (k * B), put_bytes m buf (take (k * B) (drop (i * B) (content (fsv v) bs))), f') \<and> same_volume (fsv v) f'"
    and "length (take (k * B) (drop (i * B) (content (fsv v) bs))) = k * B"
proof -
  note wf = readableD(1) [OF r]
  have lb: "length (fblock (fsv v) b) = B" for b using fsc.content_len [OF file_wfD(2) [OF wf]] by (simp add: B_def)
  have con: "concat (map (fblock (fsv v)) (slice i k bs)) = take (k * B) (drop (i * B) (content (fsv v) bs))"
    unfolding slice_def content_def by (simp only: concat_blocks(1,2) [of "fblock (fsv v)", OF lb])
  let ?fl = "\<lparr>f_inode = inode, f_offset = o_offset fl\<rparr>"
  have "file_wf (fsv v) (f_inode ?fl) bs" "f_offset ?fl < i_size (f_inode ?fl)" using wf o by simp_all
  moreover have "i = unat (f_offset ?fl) div bsize (sbi (fsv v))" by (simp add: i_def)
  ultimately show "\<exists>f'. tfs_read (fsv v) ?fl m buf (int k) =
      Some (int (k * B), put_bytes m buf (take (k * B) (drop (i * B) (content (fsv v) bs))), f') \<and> same_volume (fsv v) f'"
    using read_written [of "fsv v" ?fl bs k i m buf] k unfolding B_def con [symmetric, unfolded B_def] by blast
  have lc: "length (content (fsv v) bs) = length bs * B" unfolding content_def by (rule concat_blocks(3) [OF lb])
  have "(i + k) * B \<le> length bs * B" using k(2) by (rule mult_le_mono1)
  then show "length (take (k * B) (drop (i * B) (content (fsv v) bs))) = k * B" by (simp add: lc add_mult_distrib)
qed

lemma sys_read_exact:
  assumes r: "readable v fd fl inode bs" and o: "o_offset fl < i_size inode" and n: "0 < n" "n < 2 ^ 31"
  defines "B \<equiv> bsize (sbi (fsv v))" and "o' \<equiv> unat (o_offset fl)"
  defines "need \<equiv> min n (unat (i_size inode) - o')"
  defines "k \<equiv> (need + B - 1) div B"
  shows "\<exists>f'. sys_read v m (int fd) buf (int n) =
      Some (int need,
        memmove (put_bytes m buf (take (k * B) (drop (o' div B * B) (content (fsv v) bs)))) buf (buf + o' mod B) need,
        set_file (v\<lparr>fsv := f'\<rparr>) (int fd) (fl\<lparr>o_offset := o_offset fl + word_of_nat need\<rparr>)) \<and>
    same_volume (fsv v) f'"
    "length (take (k * B) (drop (o' div B * B) (content (fsv v) bs))) = k * B" "0 < need" "need \<le> k * B"
proof -
  note d = readableD [OF r, folded B_def]
  have lt: "o' < unat (i_size inode)" using o by (simp add: o'_def word_less_nat_alt)
  show need: "0 < need" using n(1) lt by (auto simp: need_def)
  have fit: "o' + need \<le> length bs * B" using lt d(9) by (auto simp: need_def)
  have k: "0 < k" "need \<le> k * B" "o' div B + k \<le> length bs"
    using block_count [OF need d(3) fit] by (simp_all add: k_def)
  show "need \<le> k * B" by (fact k)
  note c = read_content [OF r o, folded B_def o'_def, OF k(1,3)]
  show "length (take (k * B) (drop (o' div B * B) (content (fsv v) bs))) = k * B" by (fact c(2))
  have small: "need + B < 2 ^ 31" "unat (i_size inode - o_offset fl) < 2 ^ 31"
    using fit d(4,9,10) o by (simp_all add: unat_sub order_less_imp_le)
  note bn = request_bytes [OF order_less_imp_le [OF o] n small(2), folded o'_def, folded need_def]
  have blocks: "drop_bit (block_shift v) (to_int (int need + i_blksize inode - 1)) = int k"
    unfolding k_def d(8) B_def by (rule request_blocks [OF d(2)]) (use small(1) in \<open>simp add: B_def\<close>)
  have off: "unat (o_offset fl AND word_of_int (i_blksize inode - 1)) = o' mod B"
  proof -
    have "word_of_int (i_blksize inode - 1) = s_block_size (sbi (fsv v)) - (1 :: u32)"
      using d(2,3) by (simp add: d(8) sbi_ok_def B_def)
    then show ?thesis using offset_split(2) [OF d(2), of "o_offset fl"] by (simp add: o'_def B_def)
  qed
  obtain f' where rd: "tfs_read (fsv v) \<lparr>f_inode = inode, f_offset = o_offset fl\<rparr> m buf (int k) =
      Some (int (k * B), put_bytes m buf (take (k * B) (drop (o' div B * B) (content (fsv v) bs))), f')" "same_volume (fsv v) f'"
    using c(1) by blast
  have "min (int need) (int (k * B)) = int need" using k(2) by (simp only: min.absorb1 of_nat_le_iff)
  then have "sys_read v m (int fd) buf (int n) =
      Some (int need,
        memmove (put_bytes m buf (take (k * B) (drop (o' div B * B) (content (fsv v) bs)))) buf (buf + o' mod B) need,
        set_file (v\<lparr>fsv := f'\<rparr>) (int fd) (fl\<lparr>o_offset := o_offset fl + word_of_nat need\<rparr>))"
    using d(5,6) unfolding sys_read_def Let_def
    by (simp only: if_False option.case d(7) bn blocks rd(1) prod.case off) (use need in simp)
  then show "\<exists>f'. sys_read v m (int fd) buf (int n) =
      Some (int need,
        memmove (put_bytes m buf (take (k * B) (drop (o' div B * B) (content (fsv v) bs)))) buf (buf + o' mod B) need,
        set_file (v\<lparr>fsv := f'\<rparr>) (int fd) (fl\<lparr>o_offset := o_offset fl + word_of_nat need\<rparr>)) \<and>
    same_volume (fsv v) f'"
    using rd(2) by blast
qed

lemma sys_read_ok:
  assumes r: "readable v fd fl inode bs" and o: "o_offset fl < i_size inode" and n: "0 < n" "n < 2 ^ 31"
  defines "B \<equiv> bsize (sbi (fsv v))" and "o' \<equiv> unat (o_offset fl)"
  defines "need \<equiv> min n (unat (i_size inode) - o')"
  defines "k \<equiv> (need + B - 1) div B"
  shows "\<exists>m' f'. sys_read v m (int fd) buf (int n) =
      Some (int need, m', set_file (v\<lparr>fsv := f'\<rparr>) (int fd) (fl\<lparr>o_offset := o_offset fl + word_of_nat need\<rparr>)) \<and>
    same_volume (fsv v) f' \<and> (\<forall>x < buf. m' x = m x) \<and>
    (\<forall>i < need. m' (buf + i) =
       (if o' mod B + i < k * B then content (fsv v) bs ! (o' + i) else m (buf + o' mod B + i)))"
proof -
  let ?c = "take (k * B) (drop (o' div B * B) (content (fsv v) bs))"
  note e = sys_read_exact [OF r o n, folded B_def o'_def, folded need_def, folded k_def]
  obtain f' where rd: "sys_read v m (int fd) buf (int n) =
      Some (int need, memmove (put_bytes m buf ?c) buf (buf + o' mod B) need,
        set_file (v\<lparr>fsv := f'\<rparr>) (int fd) (fl\<lparr>o_offset := o_offset fl + word_of_nat need\<rparr>))"
    "same_volume (fsv v) f'" using e(1) [of m buf] by blast
  let ?m' = "memmove (put_bytes m buf ?c) buf (buf + o' mod B) need"
  have "?m' x = m x" if "x < buf" for x using that by (simp add: memmove_correct put_bytes_def)
  moreover have "?m' (buf + i) = (if o' mod B + i < k * B then content (fsv v) bs ! (o' + i) else m (buf + o' mod B + i))"
    if "i < need" for i
  proof -
    have "?m' (buf + i) = put_bytes m buf ?c (buf + o' mod B + i)" using that by (simp add: memmove_correct)
    moreover have "?c ! (o' mod B + i) = content (fsv v) bs ! (o' + i)" if "o' mod B + i < k * B"
    proof -
      have a: "o' div B * B + (o' mod B + i) = o' + i" by (simp add: add.assoc [symmetric])
      have "o' mod B + i < length ?c" using that unfolding e(2) .
      then have l: "o' mod B + i < k * B" "o' mod B + i < length (content (fsv v) bs) - o' div B * B"
        by (simp_all only: length_take length_drop min_less_iff_conj)
      from this(2) have "o' div B * B \<le> length (content (fsv v) bs)" by linarith
      with l(1) have "?c ! (o' mod B + i) = content (fsv v) bs ! (o' div B * B + (o' mod B + i))"
        by (simp only: nth_take nth_drop)
      then show ?thesis unfolding a .
    qed
    ultimately show ?thesis unfolding put_bytes_def e(2) by auto
  qed
  ultimately show ?thesis using rd by blast
qed

section \<open>Loading a file in pieces\<close>

lemma readable_next:
  assumes r: "readable v fd fl inode bs" and f: "same_volume (fsv v) f"
  shows "readable (set_file (v\<lparr>fsv := f\<rparr>) (int fd) fl') fd fl' inode bs'
    \<longleftrightarrow> objs v (o_inode fl') = Some inode \<and> bs' = bs"
proof -
  have wf: "file_wf (fsv v) inode bs" using r by (simp add: readable_def)
  have s: "fs_ok f" "same_mount (fsv v) f" "fblock f = fblock (fsv v)" using f by (simp_all add: same_volume_def)
  then have wf': "file_wf f inode bs" by (intro file_wf_keep [OF wf]) simp_all
  have e: "sbi f = sbi (fsv v)" using s(2) by simp
  have u: "bs' = bs" if "file_wf f inode bs'"
  proof -
    have "blocks_from inode 0 = bs'" "blocks_from inode 0 = bs"
      using blocks_from_wf [OF that, of 0] blocks_from_wf [OF wf', of 0] by simp_all
    then show ?thesis by simp
  qed
  show ?thesis using r wf' u by (auto simp: readable_def set_file_def e)
qed

lemma content_same: "same_volume f f' \<Longrightarrow> content f' = content f"
  by (rule ext) (simp add: content_def same_volume_def)

lemma sys_read_end:
  assumes r: "readable v fd fl inode bs" and o: "o_offset fl = i_size inode" and n: "0 < n" "n < 2 ^ 31"
  shows "sys_read v m (int fd) buf (int n) = Some (0, m, v)"
proof -
  have wf: "file_wf (fsv v) inode bs" and fl: "files v ! fd = Some fl" "fd < MAX_FD" "objs v (o_inode fl) = Some inode"
    and bl: "i_blksize inode = int (bsize (sbi (fsv v)))" using r by (simp_all add: readable_def)
  note b = bsize_range [OF fs_ok_sbi [OF file_wfD(2) [OF wf]]]
  have "drop_bit (block_shift v) (to_int (int 0 + int (bsize (sbi (fsv v))) - 1)) = 0"
    using b(1,2) by (subst request_blocks [OF fs_ok_sbi [OF file_wfD(2) [OF wf]]]) simp_all
  then have z: "drop_bit (block_shift v) (to_int (i_blksize inode - 1)) = 0" unfolding bl by simp
  have "\<not> bad_fd (int fd)" "fget v (int fd) = Some (Some fl)" using fl by (simp_all add: bad_fd_def fget_def)
  then show ?thesis
    unfolding sys_read_def Let_def by (simp add: fl(3) o z tfs_read_def)
qed

lemma pieces_fit:
  assumes "4096 dvd o'" and "B = (2 :: nat) ^ s" and "0 < need" and "need \<le> 4096"
  shows "o' mod B + need \<le> (need + B - 1) div B * B"
proof -
  have B: "0 < B" using assms(2) by simp
  note k = block_count [OF assms(3) B, of 0 need]
  have k: "0 < (need + B - 1) div B" "need \<le> (need + B - 1) div B * B"
    using block_count [OF assms(3) B, of 0 need] B by simp_all
  show ?thesis
  proof (cases "s \<le> 12")
    case True
    then have "B dvd 2 ^ 12" unfolding assms(2) by (rule le_imp_power_dvd)
    then have "B dvd o'" using assms(1) by (auto intro: dvd_trans)
    then show ?thesis using k(2) by (simp add: dvd_imp_mod_0)
  next
    case False
    then have d: "(2 :: nat) ^ 12 dvd B" unfolding assms(2) by (intro le_imp_power_dvd) simp
    then have "4096 dvd o' mod B" using assms(1) by (simp add: dvd_mod)
    then obtain a where a: "o' mod B = 4096 * a" by (auto simp: dvd_def)
    obtain b where b: "B = 4096 * b" using d by (auto simp: dvd_def)
    have "o' mod B < B" using B by simp
    then have "a < b" unfolding a unfolding b by simp
    then have "o' mod B + need \<le> B" using assms(4) unfolding a unfolding b by simp
    also have "\<dots> \<le> (need + B - 1) div B * B" using k(1) by simp
    finally show ?thesis .
  qed
qed

text \<open>One piece: it is read in full, and the descriptor stands at the next page or at the end.\<close>

lemma load_piece:
  assumes r: "readable v fd fl inode bs" and lt: "o_offset fl < i_size inode" and d: "4096 dvd unat (o_offset fl)"
  defines "need \<equiv> min 4096 (unat (i_size inode) - unat (o_offset fl))"
  obtains m1 v1 fl1 where "sys_read v m (int fd) p 4096 = Some (int need, m1, v1)" and "\<forall>x < p. m1 x = m x"
    and "\<forall>i < need. m1 (p + i) = content (fsv v) bs ! (unat (o_offset fl) + i)"
    and "readable v1 fd fl1 inode bs" and "fl1\<lparr>o_offset := i_size inode\<rparr> = fl\<lparr>o_offset := i_size inode\<rparr>"
    and "unat (o_offset fl1) = unat (o_offset fl) + need" and "4096 dvd unat (o_offset fl1) \<or> o_offset fl1 = i_size inode"
    and "objs v1 = objs v" and "fds v1 = fds v" and "same_volume (fsv v) (fsv v1)"
proof -
  let ?o = "unat (o_offset fl)" and ?B = "bsize (sbi (fsv v))"
  have lo: "?o < unat (i_size inode)" using lt by (simp add: word_less_nat_alt)
  then have need: "0 < need" "need \<le> 4096" "?o + need \<le> unat (i_size inode)" by (auto simp: need_def)
  let ?fl = "fl\<lparr>o_offset := o_offset fl + word_of_nat need\<rparr>"
  obtain m1 f1 where rd: "sys_read v m (int fd) p (int 4096) = Some (int need, m1, set_file (v\<lparr>fsv := f1\<rparr>) (int fd) ?fl)"
    "same_volume (fsv v) f1" "\<forall>x < p. m1 x = m x"
    "\<forall>i < need. m1 (p + i) = (if ?o mod ?B + i < (need + ?B - 1) div ?B * ?B
       then content (fsv v) bs ! (?o + i) else m (p + ?o mod ?B + i))"
    using sys_read_ok [OF r lt, of 4096 m p] by (auto simp: need_def)
  have "?B = 2 ^ block_shift v" by (simp add: bsize_def block_shift_def tfs_get_blk_shift_def)
  note fit = pieces_fit [OF d this need(1,2)]
  have bytes: "\<forall>i < need. m1 (p + i) = content (fsv v) bs ! (?o + i)" using rd(4) fit by auto
  have "?o + need < 2 ^ 32" using need(3) unsigned_less [of "i_size inode", where ?'a = nat] by simp
  then have "unat (word_of_nat (?o + need) :: u32) = ?o + need" by (rule unat_of_nat_u32)
  then have uo: "unat (o_offset ?fl) = ?o + need" by simp
  have "4096 dvd unat (o_offset ?fl) \<or> o_offset ?fl = i_size inode"
  proof (cases "4096 \<le> unat (i_size inode) - ?o")
    case True
    then show ?thesis unfolding uo using d by (simp add: need_def)
  next
    case False
    then have "unat (o_offset ?fl) = unat (i_size inode)" unfolding uo using lo by (simp add: need_def)
    then show ?thesis unfolding word_unat_eq_iff by (rule disjI2)
  qed
  moreover have "readable (set_file (v\<lparr>fsv := f1\<rparr>) (int fd) ?fl) fd ?fl inode bs"
    using r by (subst readable_next [OF r rd(2)]) (simp add: readable_def)
  ultimately show thesis using that [OF _ rd(3) bytes _ _ uo] rd(1,2) by (simp add: set_file_def)
qed

lemma load_loop_ok:
  assumes "readable v fd fl inode bs" and "o_offset fl \<le> i_size inode"
    and "4096 dvd unat (o_offset fl) \<or> o_offset fl = i_size inode"
  shows "\<exists>m' v'. load_loop v m (int fd) p = Some (m', v') \<and> (\<forall>x < p. m' x = m x) \<and>
    (\<forall>i < unat (i_size inode) - unat (o_offset fl). m' (p + i) = content (fsv v) bs ! (unat (o_offset fl) + i)) \<and>
    readable v' fd (fl\<lparr>o_offset := i_size inode\<rparr>) inode bs \<and> objs v' = objs v \<and> fds v' = fds v \<and>
    same_volume (fsv v) (fsv v')"
  using assms
proof (induction "unat (i_size inode) - unat (o_offset fl)" arbitrary: v fl m p rule: less_induct)
  case less
  show ?case
  proof (cases "o_offset fl = i_size inode")
    case True
    then have "load_loop v m (int fd) p = Some (m, v)"
      using sys_read_end [OF less.prems(1), of 4096] by (subst load_loop.simps) simp
    moreover have "same_volume (fsv v) (fsv v)"
      using less.prems(1) file_wfD(2) by (auto simp: same_volume_def readable_def)
    moreover have e: "fl\<lparr>o_offset := i_size inode\<rparr> = fl" using True by simp
    ultimately show ?thesis unfolding e using less.prems(1) True by auto
  next
    case False
    with less.prems(2,3) have lt: "o_offset fl < i_size inode" and d: "4096 dvd unat (o_offset fl)" by auto
    let ?o = "unat (o_offset fl)" and ?size = "unat (i_size inode)"
    let ?need = "min 4096 (?size - ?o)"
    have need: "0 < ?need" "?o + ?need \<le> ?size" using lt by (auto simp: word_less_nat_alt)
    obtain m1 v1 fl1 where r: "sys_read v m (int fd) p 4096 = Some (int ?need, m1, v1)" "\<forall>x < p. m1 x = m x"
      "\<forall>i < ?need. m1 (p + i) = content (fsv v) bs ! (?o + i)" "readable v1 fd fl1 inode bs"
      "fl1\<lparr>o_offset := i_size inode\<rparr> = fl\<lparr>o_offset := i_size inode\<rparr>" and uo: "unat (o_offset fl1) = ?o + ?need"
      and al: "4096 dvd unat (o_offset fl1) \<or> o_offset fl1 = i_size inode"
      and k: "objs v1 = objs v" "fds v1 = fds v" "same_volume (fsv v) (fsv v1)"
      by (rule load_piece [OF less.prems(1) lt d, of m p])
    have "?size - unat (o_offset fl1) < ?size - ?o" "o_offset fl1 \<le> i_size inode"
      unfolding word_le_nat_alt uo using need by linarith+
    from less.hyps [OF this(1) r(4) this(2) al, of m1 "p + ?need"] obtain m' v' where
      g: "load_loop v1 m1 (int fd) (p + ?need) = Some (m', v')" "\<forall>x < p + ?need. m' x = m1 x"
      "\<forall>i < ?size - unat (o_offset fl1). m' (p + ?need + i) = content (fsv v1) bs ! (unat (o_offset fl1) + i)"
      "readable v' fd (fl1\<lparr>o_offset := i_size inode\<rparr>) inode bs" "objs v' = objs v1" "fds v' = fds v1"
      "same_volume (fsv v1) (fsv v')" by blast
    have "load_loop v m (int fd) p = Some (m', v')" using g(1) r(1) need(1) by (subst load_loop.simps) simp
    moreover have "m' (p + i) = content (fsv v) bs ! (?o + i)" if i: "i < ?size - ?o" for i
    proof (cases "i < ?need")
      case False
      then have "i - ?need < ?size - unat (o_offset fl1)" using i unfolding uo by linarith
      from g(3) [rule_format, OF this] False show ?thesis unfolding uo using content_same [OF k(3)] by simp
    qed (use g(2) r(3) in simp)
    moreover have "\<forall>x < p. m' x = m x" using g(2) r(2) by simp
    ultimately show ?thesis using g(4-6) k same_volume_trans [OF k(3) g(7)] unfolding r(5) by simp
  qed
qed

section \<open>A system with one file\<close>

definition one_file :: "tfs \<Rightarrow> inode \<Rightarrow> vfs" where
  "one_file f inode = \<lparr>fsv = f, objs = [0 \<mapsto> inode], fresh = 1, root = Ptr 0, pwd = Ptr 0,
     cwd = [slash, 0] @ replicate 253 0, fds = replicate MAX_FD 0, files = replicate MAX_FD None\<rparr>"

lemma one_file_open:
  assumes "room f = []"
  shows "fd_ok (one_file f inode)" "namei (one_file f inode) [47, 0] 0 = Some (Ptr 0, one_file f inode)"
    "sys_open (one_file f inode) [47, 0] 0 =
       Some (int 0, (one_file f inode)\<lparr>fds := (replicate MAX_FD 0)[0 := 1],
         files := (replicate MAX_FD None)[0 := Some \<lparr>o_inode = 0, o_offset = 0\<rparr>]\<rparr>)"
proof -
  show "fd_ok (one_file f inode)" by (simp add: fd_ok_def one_file_def)
  show n: "namei (one_file f inode) [47, 0] 0 = Some (Ptr 0, one_file f inode)"
    by (simp add: namei_def one_file_def slash_def namei_loop.simps Let_def)
  have "unused_from (replicate MAX_FD 0) 0 = 0" by (simp add: MAX_FD_def numeral_eq_Suc)
  then show "sys_open (one_file f inode) [47, 0] 0 =
       Some (int 0, (one_file f inode)\<lparr>fds := (replicate MAX_FD 0)[0 := 1],
         files := (replicate MAX_FD None)[0 := Some \<lparr>o_inode = 0, o_offset = 0\<rparr>]\<rparr>)"
    unfolding sys_open_def n using assms
    by (simp add: malloc_ok_def one_file_def get_unused_fd_def MAX_FD_def)
qed

lemma one_file_readable:
  obtains f inode w where "room f = []" and "i_size inode = 5000" and "bsize (sbi f) = 16384"
    and "readable ((one_file f inode)\<lparr>fds := (replicate MAX_FD 0)[0 := 1],
         files := (replicate MAX_FD None)[0 := Some \<lparr>o_inode = 0, o_offset = 0\<rparr>]\<rparr>) 0
         \<lparr>o_inode = 0, o_offset = 0\<rparr> inode [w]"
proof -
  have r: "length ([] :: u32 list) < TFS_N_BLOCKS" by (simp add: TFS_N_BLOCKS_def)
  let ?i = "\<lambda>w. empty_dir\<lparr>i_data := (i_data empty_dir)[length ([] :: u32 list) := w]\<rparr>"
  obtain w f where a: "file_wf f (?i w) ([] @ [w])" "same_mount layout_fs f"
    by (rule file_wf_alloc [OF empty_file_wf r layout_mounted(3)], rule that)
  have f: "room f = []" "sbi f = big_block_sbi" using a(2) by (simp_all add: layout_fs_def demo_fs_def)
  have sz: "bsize (sbi f) = 16384" using big_block_volume(3) by (simp add: f)
  let ?inode = "(?i w)\<lparr>i_size := 5000\<rparr>"
  have "file_wf f ?inode [w]"
    using file_wf_keep [OF a(1) file_wfD(2) [OF a(1)] same_mount_refl refl] by simp
  then have "readable ((one_file f ?inode)\<lparr>fds := (replicate MAX_FD 0)[0 := 1],
         files := (replicate MAX_FD None)[0 := Some \<lparr>o_inode = 0, o_offset = 0\<rparr>]\<rparr>) 0
         \<lparr>o_inode = 0, o_offset = 0\<rparr> ?inode [w]"
    unfolding readable_def by (simp add: one_file_def sz empty_dir_def MAX_FD_def)
  then show thesis using that [of f ?inode w] f(1) sz by simp
qed

section \<open>Entering a program\<close>

lemma sys_execve_enters:
  assumes "sys_open v path 0 = Some (int fd, v1)" and "readable v1 fd \<lparr>o_inode = a, o_offset = 0\<rparr> inode bs"
    and "count argv = Some argc"
  obtains m' v2 where "sys_execve entry v m path argv c = entry m' argc argv v2 c"
    and "\<forall>i < unat (i_size inode). m' (exec_buf + i) = content (fsv v1) bs ! i"
    and "\<forall>x < exec_buf. m' x = m x" and "files v2 ! fd = None"
proof -
  let ?fl = "\<lparr>o_inode = a, o_offset = 0\<rparr>"
  have "o_offset ?fl \<le> i_size inode" "4096 dvd unat (o_offset ?fl) \<or> o_offset ?fl = i_size inode" by simp_all
  from load_loop_ok [OF assms(2) this, of m exec_buf] obtain m' v' where
    l: "load_loop v1 m (int fd) exec_buf = Some (m', v')" "\<forall>x < exec_buf. m' x = m x"
      "\<forall>i < unat (i_size inode). m' (exec_buf + i) = content (fsv v1) bs ! i"
      "readable v' fd (?fl\<lparr>o_offset := i_size inode\<rparr>) inode bs" by auto
  have r: "fd < MAX_FD" "files v' ! fd = Some \<lparr>o_inode = a, o_offset = i_size inode\<rparr>" "objs v' a = Some inode"
    "length (files v') = MAX_FD" using l(4) by (simp_all add: readable_def)
  then obtain v'' where f: "free_inode v' (Ptr a) = Some v''" "files v'' = files v'"
    using free_inode_frame by (auto simp: free_inode_def)
  have "sys_close v' (int fd) = Some (0, v''\<lparr>fds := (fds v'')[fd := 0], files := (files v'')[fd := None]\<rparr>)"
    using r f by (simp add: sys_close_def bad_fd_def fget_def)
  then have "sys_execve entry v m path argv c =
      entry m' argc argv (v''\<lparr>fds := (fds v'')[fd := 0], files := (files v'')[fd := None]\<rparr>) c"
    by (simp add: sys_execve_def assms(1,3) l(1))
  moreover have "files (v''\<lparr>fds := (fds v'')[fd := 0], files := (files v'')[fd := None]\<rparr>) ! fd = None"
    using r(1,4) f(2) by simp
  ultimately show thesis using that l(2,3) by blast
qed

section \<open>Properties\<close>

text \<open>
  C15: the descriptor table. If a path names an inode object and memory is left, \<^verbatim>\<open>sys_open\<close> either
  finds all 32 descriptors in use, answers \<open>-EINVAL\<close> and leaves the table alone, or returns the least
  free descriptor and enters the object there with offset 0. The byte table and the pointer table stay
  consistent, and \<^verbatim>\<open>sys_close\<close> of the new descriptor brings both back to what they were and frees the
  object, unless it is the current directory.
\<close>

theorem sys_open_then_close:
  assumes "fd_ok v" and "namei v path flags = Some (Ptr a, v1)" and "objs v1 a = Some d" and "room (fsv v1) = []"
  shows "\<exists>r v2. sys_open v path flags = Some (r, v2) \<and> fd_ok v2 \<and>
    (if r < 0 then r = - errno_num EINVAL \<and> files v2 = files v \<and> (\<forall>i < MAX_FD. files v ! i \<noteq> None)
     else \<exists>fd < MAX_FD. r = int fd \<and> files v ! fd = None \<and> (\<forall>i < fd. files v ! i \<noteq> None) \<and>
       files v2 = (files v)[fd := Some \<lparr>o_inode = a, o_offset = 0\<rparr>] \<and>
       (\<exists>v3. sys_close v2 r = Some (0, v3) \<and> files v3 = files v \<and> fds v3 = fds v \<and>
          (Ptr a \<noteq> pwd v1 \<longrightarrow> objs v3 a = None)))"
proof -
  have keep: "files v1 = files v" "fds v1 = fds v" using namei_frame [OF assms(2)] by simp_all
  have ok: "length (fds v) = MAX_FD" "length (files v) = MAX_FD" "\<And>i. i < MAX_FD \<Longrightarrow> fds v ! i \<noteq> 0 \<longleftrightarrow> files v ! i \<noteq> None"
    using assms(1) by (simp_all add: fd_ok_def)
  let ?n = "length (takeWhile (\<lambda>x. x \<noteq> 0) (fds v))"
  have u: "unused_from (fds v) 0 = ?n" by (simp add: unused_from_spec)
  have used: "files v ! i \<noteq> None" if "i < ?n" for i
  proof -
    have "takeWhile (\<lambda>x. x \<noteq> 0) (fds v) ! i \<noteq> 0" using nth_mem [OF that] set_takeWhileD by fast
    then have "fds v ! i \<noteq> 0" unfolding takeWhile_nth [OF that] .
    moreover have "i < MAX_FD" using that length_takeWhile_le [of "\<lambda>x. x \<noteq> 0" "fds v"] ok(1) by simp
    ultimately show ?thesis using ok(3) by blast
  qed
  have m: "malloc_ok (fsv v1) = (True, fsv v1)" by (simp add: malloc_ok_def assms(4))
  show ?thesis
  proof (cases "?n < MAX_FD")
    case False
    then have "sys_open v path flags = Some (- errno_num EINVAL, v1)"
      by (simp add: sys_open_def assms(2,3) m Let_def get_unused_fd_def u keep)
    moreover have "fd_ok v1" using ok keep by (simp add: fd_ok_def)
    ultimately show ?thesis using False used keep by auto
  next
    case True
    let ?v2 = "v1\<lparr>fds := (fds v)[?n := 1], files := (files v)[?n := Some \<lparr>o_inode = a, o_offset = 0\<rparr>]\<rparr>"
    have o: "sys_open v path flags = Some (int ?n, ?v2)"
      using True by (simp add: sys_open_def assms(2,3) m Let_def get_unused_fd_def u keep)
    have z: "fds v ! ?n = 0" using True ok(1) by (metis (mono_tags, lifting) nth_length_takeWhile)
    have free: "files v ! ?n = None" using ok(3) [OF True] z by simp
    have "fd_ok ?v2" using ok True by (auto simp: fd_ok_def nth_list_update)
    moreover have "\<exists>v3. sys_close ?v2 (int ?n) = Some (0, v3) \<and> files v3 = files v \<and> fds v3 = fds v \<and>
        (Ptr a \<noteq> pwd v1 \<longrightarrow> objs v3 a = None)"
      using True ok(1,2) assms(3) z free
      by (auto simp: sys_close_def bad_fd_def fget_def free_inode_def keep list_update_same_conv)
    ultimately show ?thesis using o True used free by (intro exI [of _ "int ?n"] exI [of _ ?v2]) auto
  qed
qed

theorem sys_open_then_close_witness:
  "\<exists>v v2 v3. sys_open v [47, 0] 0 = Some (0, v2) \<and> files v2 ! 0 \<noteq> None \<and> sys_close v2 0 = Some (0, v3) \<and>
    files v3 = files v"
proof -
  have r: "room layout_fs = []" by (simp add: layout_fs_def demo_fs_def)
  let ?v = "one_file layout_fs empty_dir"
  note o = one_file_open [OF r, of empty_dir]
  have "objs ?v 0 = Some empty_dir" "room (fsv ?v) = []" by (simp_all add: one_file_def r)
  from sys_open_then_close [OF o(1,2) this] obtain v3 where
    "sys_close (?v\<lparr>fds := (replicate MAX_FD 0)[0 := 1],
         files := (replicate MAX_FD None)[0 := Some \<lparr>o_inode = 0, o_offset = 0\<rparr>]\<rparr>) 0 = Some (0, v3)"
    "files v3 = files ?v" unfolding o(3) by auto
  then show ?thesis using o(3)
    by (intro exI [of _ ?v] exI conjI) (assumption | simp add: MAX_FD_def)+
qed

text \<open>
  descriptors that are not open. For a number below 0 or above 32 and for one whose entry is empty,
  reading, writing, seeking and closing answer \<open>-EBADF\<close> and change nothing. For 32 itself, which the
  range checks let through, each of them reads the pointer behind the table and has no defined result.
\<close>

theorem closed_descriptors:
  "(bad_fd fd \<or> fget v fd = Some None \<longrightarrow>
      sys_read v m fd buf n = Some (- errno_num EBADF, m, v) \<and> sys_write v m fd buf n = Some (- errno_num EBADF, v) \<and>
      sys_lseek v fd off mode = Some (- errno_num EBADF, v) \<and> sys_close v fd = Some (- errno_num EBADF, v)) \<and>
   sys_read v m 32 buf n = None \<and> sys_write v m 32 buf n = None \<and> sys_lseek v 32 off mode = None \<and>
   sys_close v 32 = None"
proof -
  have "\<not> bad_fd 32" "fget v 32 = None" by (simp_all add: bad_fd_def fget_def MAX_FD_def)
  then show ?thesis by (auto simp: sys_read_def sys_write_def sys_lseek_def sys_close_def)
qed

theorem closed_descriptors_witness:
  "sys_read (one_file layout_fs empty_dir) (\<lambda>_. 0) 3 100 10 = Some (- 9, \<lambda>_. 0, one_file layout_fs empty_dir)"
proof -
  have "fget (one_file layout_fs empty_dir) 3 = Some None" by (simp add: fget_def one_file_def MAX_FD_def)
  then show ?thesis
    using closed_descriptors [of 3 "one_file layout_fs empty_dir" "\<lambda>_. 0" 100 10] by simp
qed

text \<open>
  C16: what \<^verbatim>\<open>sys_read\<close> delivers. On an open file with bytes left it returns the smaller of the size asked
  for and what is left, and advances the offset by it. Byte \<open>i\<close> of the buffer is byte \<open>i\<close> of the file
  from the offset on, as long as it lies in the blocks that were read; these are as many as the request
  alone would fill, counted without the offset inside the first block. The bytes of a request that
  crosses the end of these blocks are not from the file but from the memory behind the buffer.
\<close>

theorem sys_read_delivers:
  assumes "readable v fd fl inode bs" and "o_offset fl < i_size inode" and "0 < n" and "n < 2 ^ 31"
    and "B = bsize (sbi (fsv v))" and "need = min n (unat (i_size inode) - unat (o_offset fl))"
  shows "\<exists>m' v'. sys_read v m (int fd) buf (int n) = Some (int need, m', v') \<and>
    (\<exists>fl'. files v' ! fd = Some fl' \<and> unat (o_offset fl') = unat (o_offset fl) + need) \<and>
    fblock (fsv v') = fblock (fsv v) \<and> (\<forall>x < buf. m' x = m x) \<and>
    (\<forall>i < need. m' (buf + i) =
       (if unat (o_offset fl) mod B + i < (need + B - 1) div B * B
        then content (fsv v) bs ! (unat (o_offset fl) + i)
        else m (buf + unat (o_offset fl) mod B + i)))"
proof -
  obtain m' f' where r: "sys_read v m (int fd) buf (int n) =
      Some (int need, m', set_file (v\<lparr>fsv := f'\<rparr>) (int fd) (fl\<lparr>o_offset := o_offset fl + word_of_nat need\<rparr>))"
    "same_volume (fsv v) f'" "\<forall>x < buf. m' x = m x"
    "\<forall>i < need. m' (buf + i) =
       (if unat (o_offset fl) mod B + i < (need + B - 1) div B * B
        then content (fsv v) bs ! (unat (o_offset fl) + i) else m (buf + unat (o_offset fl) mod B + i))"
    using sys_read_ok [OF assms(1-4), of m buf] unfolding assms(5) assms(6) [symmetric] by blast
  have lt: "unat (o_offset fl) < unat (i_size inode)" using assms(2) by (simp add: word_less_nat_alt)
  have "unat (i_size inode) < 2 ^ 32" by (rule order_less_le_trans [OF unsigned_less]) simp
  then have b: "unat (o_offset fl) + need < 2 ^ 32" using lt assms(6) by linarith
  have "o_offset fl + word_of_nat need = word_of_nat (unat (o_offset fl) + need)" by simp
  then have u: "unat (o_offset fl + word_of_nat need) = unat (o_offset fl) + need"
    using unat_of_nat_u32 [OF b] by (simp only:)
  have "fd < length (files v)" using assms(1) by (simp add: readable_def)
  then have "\<exists>fl'. files (set_file (v\<lparr>fsv := f'\<rparr>) (int fd) (fl\<lparr>o_offset := o_offset fl + word_of_nat need\<rparr>)) ! fd = Some fl' \<and>
      unat (o_offset fl') = unat (o_offset fl) + need" using u by (simp add: set_file_def)
  moreover have "fblock (fsv (set_file (v\<lparr>fsv := f'\<rparr>) (int fd) (fl\<lparr>o_offset := o_offset fl + word_of_nat need\<rparr>))) = fblock (fsv v)"
    using r(2) by (simp add: set_file_def same_volume_def)
  ultimately show ?thesis using r(1,3,4) by blast
qed

theorem sys_read_delivers_witness:
  "\<exists>v fd m' v' inode bs. readable v fd \<lparr>o_inode = 0, o_offset = 0\<rparr> inode bs \<and>
    sys_read v (\<lambda>_. 0) (int fd) 100 (int 10) = Some (10, m', v') \<and> m' 109 = content (fsv v) bs ! 9"
proof -
  obtain f inode w where o: "room f = []" "i_size inode = 5000" "bsize (sbi f) = 16384"
    "readable ((one_file f inode)\<lparr>fds := (replicate MAX_FD 0)[0 := 1],
         files := (replicate MAX_FD None)[0 := Some \<lparr>o_inode = 0, o_offset = 0\<rparr>]\<rparr>) 0
         \<lparr>o_inode = 0, o_offset = 0\<rparr> inode [w]" by (rule one_file_readable)
  let ?v = "(one_file f inode)\<lparr>fds := (replicate MAX_FD 0)[0 := 1],
         files := (replicate MAX_FD None)[0 := Some \<lparr>o_inode = 0, o_offset = 0\<rparr>]\<rparr>"
  have "o_offset \<lparr>o_inode = 0, o_offset = 0\<rparr> < i_size inode" "0 < (10 :: nat)" "(10 :: nat) < 2 ^ 31"
    "16384 = bsize (sbi (fsv ?v))"
    "10 = min 10 (unat (i_size inode) - unat (o_offset \<lparr>o_inode = 0, o_offset = 0\<rparr>))"
    using o(2,3) by (simp_all add: one_file_def)
  from sys_read_delivers [OF o(4) this, of "\<lambda>_. 0" 100] obtain m' v' where
    "sys_read ?v (\<lambda>_. 0) (int 0) 100 (int 10) = Some (int 10, m', v')"
    "\<forall>i < 10. m' (100 + i) = (if 0 mod 16384 + i < (10 + 16384 - 1) div 16384 * 16384
        then content (fsv ?v) [w] ! (0 + i) else 0)" by auto
  moreover from this(2) have "m' 109 = content (fsv ?v) [w] ! 9" by (auto dest: spec [of _ 9])
  ultimately show ?thesis using o(4) by (intro exI [of _ ?v] exI [of _ 0]) auto
qed

text \<open>
  C17: \<^verbatim>\<open>sys_execve\<close> loads the whole file. If the path opens as a sound file and the argument vector is
  terminated, the loading loop ends, the program is entered with the number of arguments, every byte
  of the file is at its place from the load address on, nothing below that address has changed, and
  the descriptor is closed again. Reading 4096 bytes at a time never crosses the blocks of one read.
\<close>

theorem sys_execve_loads:
  assumes "sys_open v path 0 = Some (int fd, v1)" and "readable v1 fd \<lparr>o_inode = a, o_offset = 0\<rparr> inode bs"
    and "count argv = Some argc"
  shows "\<exists>m' v2. sys_execve entry v m path argv c = entry m' argc argv v2 c \<and>
    (\<forall>i < unat (i_size inode). m' (exec_buf + i) = content (fsv v1) bs ! i) \<and>
    (\<forall>x < exec_buf. m' x = m x) \<and> files v2 ! fd = None"
  using sys_execve_enters [OF assms, of entry m c] by metis

theorem sys_execve_loads_witness:
  "\<exists>v m' v2 inode bs. sys_execve (\<lambda>m argc argv v c. Some (argc, m, v, c)) v (\<lambda>_. 0) [47, 0] (Some [7, 0]) () = Some (1, m', v2, ()) \<and>
    m' (exec_buf + 4999) = content (fsv v) bs ! 4999"
proof -
  obtain f inode w where o: "room f = []" "i_size inode = 5000" "bsize (sbi f) = 16384"
    "readable ((one_file f inode)\<lparr>fds := (replicate MAX_FD 0)[0 := 1],
         files := (replicate MAX_FD None)[0 := Some \<lparr>o_inode = 0, o_offset = 0\<rparr>]\<rparr>) 0
         \<lparr>o_inode = 0, o_offset = 0\<rparr> inode [w]" by (rule one_file_readable)
  have "count (Some [7, 0]) = Some 1" by (simp add: count_def)
  from sys_execve_loads [OF one_file_open(3) [OF o(1)] o(4) this, of "\<lambda>m argc argv v c. Some (argc, m, v, c)" "\<lambda>_. 0" "()"]
  obtain m' v2 where e: "sys_execve (\<lambda>m argc argv v c. Some (argc, m, v, c)) (one_file f inode) (\<lambda>_. 0) [47, 0] (Some [7, 0]) () = Some (1, m', v2, ())"
    "\<forall>i < unat (i_size inode). m' (exec_buf + i) = content (fsv (one_file f inode)) [w] ! i" by auto
  have "m' (exec_buf + 4999) = content (fsv (one_file f inode)) [w] ! 4999" using e(2) o(2) by simp
  with e(1) show ?thesis by blast
qed

end
