(* ===== verification/Tfs_Readdir.thy ===== *)
theory Tfs_Readdir
  imports Tfs_File
begin

text \<open>
  What a sequence of calls of \<^verbatim>\<open>tfs_readdir\<close> delivers. The slots of a directory are numbered through all
  of its blocks; the offset of an open directory is the number of the next slot times 32.
\<close>

section \<open>Slots by number\<close>

definition slot_place :: "tfs \<Rightarrow> u32 list \<Rightarrow> nat \<Rightarrow> u32 \<times> nat" where
  "slot_place f bs n = (bs ! (n div slots f), n mod slots f * dirent_size)"

definition slot_used :: "tfs \<Rightarrow> u32 list \<Rightarrow> nat \<Rightarrow> bool" where
  "slot_used f bs n \<longleftrightarrow> (case slot_place f bs n of (b, off) \<Rightarrow> d_inode (fblock f b) off \<noteq> 0)"

definition slot_dirent :: "tfs \<Rightarrow> u32 list \<Rightarrow> nat \<Rightarrow> dirent" where
  "slot_dirent f bs n =
     (case slot_place f bs n of (b, off) \<Rightarrow>
        \<lparr>de_ino = d_inode (fblock f b) off, de_off = word_of_nat (n * dirent_size),
         de_reclen = word_of_nat dirent_size, de_type = 0,
         de_name = take TFS_NAME_LEN (d_name (fblock f b) off) @ replicate (256 - TFS_NAME_LEN) 0\<rparr>)"

definition used_slots :: "tfs \<Rightarrow> u32 list \<Rightarrow> nat \<Rightarrow> nat list" where
  "used_slots f bs n = filter (slot_used f bs) [n..<length bs * slots f]"

lemma used_slots_step:
  "n < length bs * slots f \<Longrightarrow>
   used_slots f bs n = (if slot_used f bs n then [n] else []) @ used_slots f bs (Suc n)"
  by (simp add: used_slots_def upt_conv_Cons)

lemma used_slots_bound: "k \<in> set (used_slots f bs n) \<Longrightarrow> n \<le> k \<and> k < length bs * slots f"
  by (auto simp: used_slots_def)

lemma used_slots_next:
  assumes "used_slots f bs n = k # ks"
  shows "used_slots f bs (Suc k) = ks"
  using assms
proof (induction "length bs * slots f - n" arbitrary: n)
  case 0
  then show ?case by (simp add: used_slots_def)
next
  case (Suc d)
  then have "n < length bs * slots f" by simp
  note st = used_slots_step [OF this]
  show ?case
  proof (cases "slot_used f bs n")
    case True
    with Suc.prems show ?thesis by (auto simp: st)
  next
    case False
    with Suc.prems have "used_slots f bs (Suc n) = k # ks" by (simp add: st)
    moreover have "d = length bs * slots f - Suc n" using Suc.hyps(2) by simp
    ultimately show ?thesis by (intro Suc.hyps(1))
  qed
qed

text \<open>The used slots are the entries of the directory, in their order.\<close>

lemma entries_of_slots: "0 < slots f \<Longrightarrow> entries_of f bs = map (slot_place f bs) (used_slots f bs 0)"
proof (induction bs rule: rev_induct)
  case Nil
  then show ?case by (simp add: entries_of_def used_slots_def)
next
  case (snoc b bs)
  let ?S = "slots f"
  have up: "[0..<length (bs @ [b]) * ?S] = [0..<length bs * ?S] @ map (\<lambda>k. length bs * ?S + k) [0..<?S]"
    using upt_add_eq_append [of 0 "length bs * ?S" ?S] by (simp add: map_add_upt add.commute)
  have old: "slot_place f (bs @ [b]) n = slot_place f bs n" if "n < length bs * ?S" for n
    using that by (simp add: slot_place_def nth_append less_mult_imp_div_less)
  have new: "slot_place f (bs @ [b]) (length bs * ?S + k) = (b, k * dirent_size)" if "k < ?S" for k
    using that by (simp add: slot_place_def nth_append)
  have "filter (slot_used f (bs @ [b])) [0..<length bs * ?S] = filter (slot_used f bs) [0..<length bs * ?S]"
    by (rule filter_cong) (simp_all add: slot_used_def old)
  moreover have "filter (slot_used f (bs @ [b])) (map (\<lambda>k. length bs * ?S + k) [0..<?S]) =
      map (\<lambda>k. length bs * ?S + k) (filter (\<lambda>k. d_inode (fblock f b) (k * dirent_size) \<noteq> 0) [0..<?S])"
    by (subst filter_map) (intro arg_cong2 [where f = map] filter_cong; simp add: slot_used_def new)
  ultimately have "used_slots f (bs @ [b]) 0 = used_slots f bs 0 @
      map (\<lambda>k. length bs * ?S + k) (filter (\<lambda>k. d_inode (fblock f b) (k * dirent_size) \<noteq> 0) [0..<?S])"
    unfolding used_slots_def up filter_append by simp
  moreover have "map (slot_place f (bs @ [b])) (used_slots f bs 0) = map (slot_place f bs) (used_slots f bs 0)"
    by (rule map_cong) (auto dest: used_slots_bound intro: old)
  ultimately have "map (slot_place f (bs @ [b])) (used_slots f (bs @ [b]) 0) = map (slot_place f bs) (used_slots f bs 0) @
      map (\<lambda>k. (b, k * dirent_size)) (filter (\<lambda>k. d_inode (fblock f b) (k * dirent_size) \<noteq> 0) [0..<?S])"
    by (simp add: new)
  moreover have "entries_of f (bs @ [b]) = entries_of f bs @
      map (\<lambda>k. (b, k * dirent_size)) (filter (\<lambda>k. d_inode (fblock f b) (k * dirent_size) \<noteq> 0) [0..<?S])"
    by (simp add: entries_of_def filter_map comp_def)
  ultimately show ?case using snoc by simp
qed

section \<open>One call\<close>

lemma same_volume_slots:
  assumes "same_volume f f'"
  shows "slot_place f' = slot_place f" "slot_used f' = slot_used f" "slot_dirent f' = slot_dirent f"
    "used_slots f' = used_slots f"
proof -
  have e: "fblock f' = fblock f" "slots f' = slots f"
    using assms same_volume_views(1) by (simp_all add: same_volume_def)
  show p: "slot_place f' = slot_place f" by (simp add: slot_place_def fun_eq_iff e)
  show u: "slot_used f' = slot_used f" and "slot_dirent f' = slot_dirent f"
    by (simp_all add: slot_used_def slot_dirent_def fun_eq_iff p e)
  show "used_slots f' = used_slots f" by (intro ext) (simp only: used_slots_def e u)
qed

text \<open>The offset of slot \<open>n\<close>, split into the index of a block and an offset in it.\<close>

lemma slot_offset:
  assumes ok: "fs_ok f" and n: "n \<le> L * slots f" and L: "L \<le> TFS_N_BLOCKS"
  defines "w \<equiv> word_of_nat (n * dirent_size) :: u32"
  shows "int (unat (drop_bit (unat (s_block_shift (sbi f))) w)) = int (n div slots f)"
    "unat (w AND (s_block_size (sbi f) - 1)) = n mod slots f * dirent_size"
proof -
  note s = fs_ok_sbi [OF ok] and z = slots_size [OF ok]
  have "n * dirent_size \<le> L * bsize (sbi f)" using mult_le_mono1 [OF n, of dirent_size] z by (simp add: mult.assoc)
  also have "\<dots> \<le> 8 * 16384" using L bsize_range(2) [OF s] by (intro mult_le_mono) (simp_all add: TFS_N_BLOCKS_def)
  finally have u: "unat w = n * dirent_size" unfolding w_def by (intro unat_of_nat_u32) simp
  have B: "bsize (sbi f) = slots f * dirent_size" "0 < dirent_size" using z by (simp_all add: dirent_size_def)
  have "unat (drop_bit (unat (s_block_shift (sbi f))) w) = unat w div bsize (sbi f)"
    by (simp only: unat_drop_bit_eq bsize_def) (simp only: drop_bit_eq_div)
  then show "int (unat (drop_bit (unat (s_block_shift (sbi f))) w)) = int (n div slots f)"
    unfolding u B(1) using B(2) by simp
  show "unat (w AND (s_block_size (sbi f) - 1)) = n mod slots f * dirent_size"
    unfolding offset_split(2) [OF s] u B(1) using B(2) by (simp add: mult_mod_left)
qed

lemma readdir_end:
  assumes "fs_ok f" and "dir_wf f dir bs"
  shows "tfs_readdir f \<lparr>f_inode = dir, f_offset = word_of_nat (length bs * slots f * dirent_size)\<rparr> =
    Some (None, \<lparr>f_inode = dir, f_offset = word_of_nat (length bs * slots f * dirent_size)\<rparr>, f)"
proof -
  have w: "length bs \<le> TFS_N_BLOCKS" "i_data dir = bs @ replicate (TFS_N_BLOCKS - length bs) 0"
    using assms(2) by (simp_all add: dir_wf_def)
  have z: "0 < slots f" using slots_size [OF assms(1)] by simp
  have "tfs_bmap dir (int (length bs)) = Some 0" using w by (simp add: tfs_bmap_def nth_append)
  then show ?thesis
    using slot_offset(1) [OF assms(1) order_refl w(1)] z by (subst tfs_readdir.simps) simp
qed

lemma readdir_slot:
  assumes ok: "fs_ok f" and room: "room f = []" and wf: "dir_wf f dir bs" and n: "n < length bs * slots f"
  obtains f1 where "same_volume f f1" and "room f1 = []"
    and "tfs_readdir f \<lparr>f_inode = dir, f_offset = word_of_nat (n * dirent_size)\<rparr> =
      (if slot_used f bs n
       then Some (Some (slot_dirent f bs n), \<lparr>f_inode = dir, f_offset = word_of_nat (Suc n * dirent_size)\<rparr>, f1)
       else tfs_readdir f1 \<lparr>f_inode = dir, f_offset = word_of_nat (Suc n * dirent_size)\<rparr>)"
proof -
  have wf': "length bs \<le> TFS_N_BLOCKS" "i_data dir = bs @ replicate (TFS_N_BLOCKS - length bs) 0"
    "\<forall>b \<in> set bs. s_data_area (sbi f) \<le> b \<and> fvalid f b" "0 < s_data_area (sbi f)"
    using wf by (auto simp: dir_wf_def)
  let ?b = "bs ! (n div slots f)" and ?off = "n mod slots f * dirent_size"
  have i: "n div slots f < length bs" using n by (rule less_mult_imp_div_less)
  then have "?b \<in> set bs" by (rule nth_mem)
  from bspec [OF wf'(3) this] have h: "s_data_area (sbi f) \<le> ?b" "fvalid f ?b" by (rule conjunct1, rule conjunct2)
  note b = h(2) less_imp_neq [OF order.strict_trans2 [OF wf'(4) h(1)], THEN not_sym]
  have bm: "tfs_bmap dir (int (n div slots f)) = Some ?b"
    using i wf'(1,2) by (simp add: tfs_bmap_def nth_append)
  obtain cs f1 where g: "cache_get f ?b = (Some cs, f1)" "fs_ok f1" "same_mount f f1" "fblock f1 = fblock f"
    "data_of f1 cs = fblock f ?b" using fsc.get_law [OF ok b(1)] by blast
  have m: "malloc_ok f1 = (True, f1)" "room f1 = []" "sbi f1 = sbi f"
    using g(3) room by (simp_all add: malloc_ok_def)
  define w w' :: u32 where "w = word_of_nat (n * dirent_size)" and "w' = word_of_nat (Suc n * dirent_size)"
  have next_: "w + word_of_nat dirent_size = w'" by (simp add: w_def w'_def)
  note o' = slot_offset [OF ok less_imp_le [OF n] wf'(1), folded w_def]
  have u: "slot_used f bs n \<longleftrightarrow> d_inode (fblock f ?b) ?off \<noteq> 0" by (simp add: slot_used_def slot_place_def)
  have "tfs_readdir f \<lparr>f_inode = dir, f_offset = w\<rparr> =
      (if slot_used f bs n
       then Some (Some (slot_dirent f bs n), \<lparr>f_inode = dir, f_offset = w'\<rparr>, f1)
       else tfs_readdir f1 \<lparr>f_inode = dir, f_offset = w'\<rparr>)"
    unfolding u
    by (subst tfs_readdir.simps, simp only: tfile.select_convs o' bm option.case b(2) if_False g(1,5) m prod.case)
      (simp add: o'(2) next_ slot_dirent_def slot_place_def Let_def w_def [symmetric] g(5) del: of_nat_mult)
  moreover have "same_volume f f1" using g by (simp add: same_volume_def)
  ultimately show thesis using that m(2) unfolding w_def w'_def by blast
qed

lemma readdir_from:
  assumes "fs_ok f" and "room f = []" and "dir_wf f dir bs" and "n \<le> length bs * slots f"
  shows "\<exists>f'. same_volume f f' \<and> tfs_readdir f \<lparr>f_inode = dir, f_offset = word_of_nat (n * dirent_size)\<rparr> =
    Some (case used_slots f bs n of
        [] \<Rightarrow> (None, \<lparr>f_inode = dir, f_offset = word_of_nat (length bs * slots f * dirent_size)\<rparr>, f')
      | k # _ \<Rightarrow> (Some (slot_dirent f bs k), \<lparr>f_inode = dir, f_offset = word_of_nat (Suc k * dirent_size)\<rparr>, f'))"
  using assms
proof (induction "length bs * slots f - n" arbitrary: n f)
  case 0
  then have n: "n = length bs * slots f" by simp
  have "used_slots f bs n = []" by (simp add: used_slots_def n)
  then show ?case
    using readdir_end [OF 0(2,4)] 0(2) by (intro exI [of _ f]) (simp add: n same_volume_def)
next
  case (Suc d)
  have n: "n < length bs * slots f" using Suc.hyps(2) by simp
  obtain f1 where v: "same_volume f f1" and room: "room f1 = []"
    and call: "tfs_readdir f \<lparr>f_inode = dir, f_offset = word_of_nat (n * dirent_size)\<rparr> =
      (if slot_used f bs n
       then Some (Some (slot_dirent f bs n), \<lparr>f_inode = dir, f_offset = word_of_nat (Suc n * dirent_size)\<rparr>, f1)
       else tfs_readdir f1 \<lparr>f_inode = dir, f_offset = word_of_nat (Suc n * dirent_size)\<rparr>)"
    using readdir_slot [OF Suc.prems(1-3) n] .
  show ?case
  proof (cases "slot_used f bs n")
    case True
    then show ?thesis using call v n by (intro exI [of _ f1]) (simp add: used_slots_step)
  next
    case False
    have e: "slots f1 = slots f" "used_slots f1 = used_slots f" "slot_dirent f1 = slot_dirent f"
      using same_volume_views(1) [OF v] same_volume_slots [OF v] by simp_all
    have f1: "dir_wf f1 dir bs" "fs_ok f1" using same_volume_keeps(4) [OF v] Suc.prems(3) v by (simp_all add: same_volume_def)
    have d: "d = length bs * slots f1 - Suc n" "Suc n \<le> length bs * slots f1" using Suc.hyps(2) by (simp_all add: e)
    obtain f' where f': "same_volume f1 f'"
      "tfs_readdir f1 \<lparr>f_inode = dir, f_offset = word_of_nat (Suc n * dirent_size)\<rparr> =
        Some (case used_slots f bs (Suc n) of
          [] \<Rightarrow> (None, \<lparr>f_inode = dir, f_offset = word_of_nat (length bs * slots f * dirent_size)\<rparr>, f')
        | k # _ \<Rightarrow> (Some (slot_dirent f bs k), \<lparr>f_inode = dir, f_offset = word_of_nat (Suc k * dirent_size)\<rparr>, f'))"
      using Suc.hyps(1) [OF d(1) f1(2) room f1(1) d(2)] unfolding e by blast
    then show ?thesis
      unfolding call if_not_P [OF False] using same_volume_trans [OF v] used_slots_step [OF n] False
      by (intro exI [of _ f']) simp
  qed
qed

end
