(* ===== verification/Console.thy ===== *)
theory Console
  imports Cstring
begin

text \<open>
  The text console of \<^verbatim>\<open>kernel/console.c\<close>: the cursor, scrolling, and the interpreter of
  bytes \<^verbatim>\<open>con_write\<close>. The state holds the static variables of the file, the memory that the
  code writes through \<^verbatim>\<open>pos\<close>, and the bytes sent to ports, newest last. \<^verbatim>\<open>cli\<close> and \<^verbatim>\<open>sti\<close>
  change nothing here.
\<close>

unbundle bit_operations_syntax

section \<open>State\<close>

record con =
  video_num_columns :: u32
  video_size_row :: u32
  video_size_all :: u32
  video_num_lines :: u32
  video_mem_start :: u32
  video_mem_end :: u32
  origin :: u32
  scr_end :: u32
  pos :: u32
  cx :: u32
  cy :: u32
  top :: u32
  bottom :: u32
  video_port_reg :: u16
  video_port_val :: u16
  video_erase_char :: u16
  saved_x :: u32
  saved_y :: u32
  vmem :: mem
  couts :: "(u8 \<times> u16) list"

definition outb_p :: "u8 \<Rightarrow> u16 \<Rightarrow> con \<Rightarrow> con" where
  "outb_p b p s = s\<lparr>couts := couts s @ [(b, p)]\<rparr>"

text \<open>A store of a 16-bit cell, and a load.\<close>

definition put16 :: "u32 \<Rightarrow> u16 \<Rightarrow> con \<Rightarrow> con" where
  "put16 p w s = s\<lparr>vmem := (vmem s)(unat p := ucast w, unat p + 1 := ucast (drop_bit 8 w))\<rparr>"

definition get16 :: "u32 \<Rightarrow> con \<Rightarrow> u16" where
  "get16 p s = le16 (vmem s (unat p)) (vmem s (unat p + 1))"

section \<open>Cursor and origin\<close>

definition gotoxy :: "u32 \<Rightarrow> u32 \<Rightarrow> con \<Rightarrow> con" where
  "gotoxy new_x new_y s =
     (if new_x > video_num_columns s \<or> new_y \<ge> video_num_lines s then s
      else s\<lparr>cx := new_x, cy := new_y,
        pos := origin s + new_y * video_size_row s + push_bit 1 new_x\<rparr>)"

definition set_origin :: "con \<Rightarrow> con" where
  "set_origin s =
     (let s = outb_p 12 (video_port_reg s) s;
          s = outb_p (ucast (0xff AND drop_bit 9 (origin s - video_mem_start s))) (video_port_val s) s;
          s = outb_p 13 (video_port_reg s) s
      in outb_p (ucast (0xff AND drop_bit 1 (origin s - video_mem_start s))) (video_port_val s) s)"

definition save_cur :: "con \<Rightarrow> con" where
  "save_cur s = s\<lparr>saved_x := cx s, saved_y := cy s\<rparr>"

definition restore_cur :: "con \<Rightarrow> con" where
  "restore_cur s = gotoxy (saved_x s) (saved_y s) s"

definition get_cursor :: "con \<Rightarrow> int \<times> int" where
  "get_cursor s = (sint (cx s), sint (cy s))"

definition set_cursor :: "con \<Rightarrow> con" where
  "set_cursor s =
     (let s = outb_p 14 (video_port_reg s) s;
          s = outb_p (ucast (0xff AND drop_bit 9 (pos s - video_mem_start s))) (video_port_val s) s;
          s = outb_p 15 (video_port_reg s) s
      in outb_p (ucast (0xff AND drop_bit 1 (pos s - video_mem_start s))) (video_port_val s) s)"

section \<open>Scrolling\<close>

text \<open>
  The string instructions of the inline assembly: \<open>rep movsl\<close> with the direction flag clear and set,
  and \<open>rep stosw\<close> downwards. They give the memory and the register \<open>edi\<close>, which the
  following instruction uses.
\<close>

definition movd :: "mem \<Rightarrow> nat \<Rightarrow> nat \<Rightarrow> mem" where
  "movd m d s = m(d := m s, d + 1 := m (s + 1), d + 2 := m (s + 2), d + 3 := m (s + 3))"

fun movsl_up :: "mem \<Rightarrow> nat \<Rightarrow> nat \<Rightarrow> nat \<Rightarrow> mem" where
  "movsl_up m d s 0 = m"
| "movsl_up m d s (Suc n) = movsl_up (movd m d s) (d + 4) (s + 4) n"

fun movsl_down :: "mem \<Rightarrow> nat \<Rightarrow> nat \<Rightarrow> nat \<Rightarrow> mem" where
  "movsl_down m d s 0 = m"
| "movsl_down m d s (Suc n) = movsl_down (movd m d s) (d - 4) (s - 4) n"

fun stosw_down :: "mem \<Rightarrow> nat \<Rightarrow> u16 \<Rightarrow> nat \<Rightarrow> mem" where
  "stosw_down m d w 0 = m"
| "stosw_down m d w (Suc n) =
     stosw_down (m(d := ucast w, d + 1 := ucast (drop_bit 8 w))) (d - 2) w n"

definition scrup :: "con \<Rightarrow> con" where
  "scrup s =
     (if top s = 0 \<and> bottom s = video_num_lines s then
        let s = s\<lparr>origin := origin s + video_size_row s, pos := pos s + video_size_row s,
                scr_end := scr_end s + video_size_row s\<rparr>;
            s = (if scr_end s > video_mem_end s then
                   s\<lparr>vmem := memcpy (vmem s) (unat (video_mem_start s)) (unat (origin s))
                        (unat ((video_num_lines s - 1) * video_size_row s)),
                     scr_end := scr_end s - (origin s - video_mem_start s),
                     pos := pos s - (origin s - video_mem_start s),
                     origin := video_mem_start s\<rparr>
                 else s);
            s = s\<lparr>vmem := memset_word (vmem s) (unat (scr_end s - video_size_row s))
                   (video_erase_char s) (unat (video_num_columns s))\<rparr>
        in set_origin s
      else
        let n = unat (drop_bit 1 ((bottom s - top s - 1) * video_num_columns s));
            d = unat (origin s + video_size_row s * top s);
            m = movsl_up (vmem s) d (unat (origin s + video_size_row s * (top s + 1))) n
        in s\<lparr>vmem := memset_word m (d + 4 * n) (video_erase_char s)
             (unat (video_num_columns s))\<rparr>)"

definition scrdown :: "con \<Rightarrow> con" where
  "scrdown s =
     (let n = unat (drop_bit 1 ((bottom s - top s - 1) * video_num_columns s));
          d = unat (origin s + video_size_row s * bottom s - 4);
          m = movsl_down (vmem s) d (unat (origin s + video_size_row s * (bottom s - 1) - 4)) n
      in s\<lparr>vmem := stosw_down m (d - 4 * n + 2) (video_erase_char s)
           (unat (video_num_columns s))\<rparr>)"

definition lf :: "con \<Rightarrow> con" where
  "lf s =
     (if cy s + 1 < bottom s then s\<lparr>cy := cy s + 1, pos := pos s + video_size_row s\<rparr>
      else scrup s)"

definition ri_up :: "con \<Rightarrow> con" where
  "ri_up s =
     (if cy s > top s then s\<lparr>cy := cy s - 1, pos := pos s - video_size_row s\<rparr>
      else scrdown s)"

definition cr :: "con \<Rightarrow> con" where
  "cr s = s\<lparr>pos := pos s - push_bit 1 (cx s), cx := 0\<rparr>"

section \<open>Editing a line\<close>

definition del :: "con \<Rightarrow> con" where
  "del s =
     (if cx s \<noteq> 0 then
        let s = s\<lparr>pos := pos s - 2, cx := cx s - 1\<rparr> in put16 (pos s) (video_erase_char s) s
      else s)"

text \<open>The loops over the rest of the line; \<open>n\<close> is the number of rounds.\<close>

fun insert_loop :: "nat \<Rightarrow> u32 \<Rightarrow> u16 \<Rightarrow> con \<Rightarrow> con" where
  "insert_loop 0 p old s = s"
| "insert_loop (Suc n) p old s = (let tmp = get16 p s in insert_loop n (p + 2) tmp (put16 p old s))"

definition insert_char :: "con \<Rightarrow> con" where
  "insert_char s =
     insert_loop (unat (video_num_columns s) - unat (cx s)) (pos s) (video_erase_char s) s"

fun delete_loop :: "nat \<Rightarrow> u32 \<Rightarrow> con \<Rightarrow> u32 \<times> con" where
  "delete_loop 0 p s = (p, s)"
| "delete_loop (Suc n) p s = delete_loop n (p + 2) (put16 p (get16 (p + 2) s) s)"

definition delete_char :: "con \<Rightarrow> con" where
  "delete_char s =
     (if cx s \<ge> video_num_columns s then s
      else
        let (p, s) = delete_loop (unat (video_num_columns s) - unat (cx s) - 1) (pos s) s
        in put16 p (video_erase_char s) s)"

definition insert_line :: "con \<Rightarrow> con" where
  "insert_line s =
     (let oldtop = top s; oldbottom = bottom s;
          s = scrdown (s\<lparr>top := cy s, bottom := video_num_lines s\<rparr>)
      in s\<lparr>top := oldtop, bottom := oldbottom\<rparr>)"

definition delete_line :: "con \<Rightarrow> con" where
  "delete_line s =
     (let oldtop = top s; oldbottom = bottom s;
          s = scrup (s\<lparr>top := cy s, bottom := video_num_lines s\<rparr>)
      in s\<lparr>top := oldtop, bottom := oldbottom\<rparr>)"

section \<open>Writing bytes\<close>

definition backspace :: "con \<Rightarrow> con" where
  "backspace s =
     (if cx s \<noteq> 0 then
        let s = s\<lparr>cx := cx s - 1, pos := pos s - 2\<rparr> in put16 (pos s) (video_erase_char s) s
      else s)"

definition tab_stop :: "con \<Rightarrow> con" where
  "tab_stop s =
     (let c = ucast (8 - (cx s AND 7)) :: u8;
          s = s\<lparr>cx := cx s + ucast c, pos := pos s + push_bit 1 (ucast c)\<rparr>
      in if cx s > video_num_columns s
         then lf (s\<lparr>cx := cx s - video_num_columns s, pos := pos s - video_size_row s\<rparr>)
         else s)"

text \<open>The cases 0xE0 to 0xE5: home, end, up, down, left, right.\<close>

definition arrow :: "u8 \<Rightarrow> con \<Rightarrow> con" where
  "arrow c s =
     (let s =
        (if c = 0xE0 then s\<lparr>cx := 0\<rparr>
         else if c = 0xE1 then s\<lparr>cx := video_num_columns s - 1\<rparr>
         else if c = 0xE2 then (if cy s = 0 then (scrdown s)\<lparr>cy := 0\<rparr> else s\<lparr>cy := cy s - 1\<rparr>)
         else if c = 0xE3 then
           (if cy s = video_num_lines s then (let s = scrup s in s\<lparr>cy := video_num_lines s\<rparr>)
            else s\<lparr>cy := cy s + 1\<rparr>)
         else if c = 0xE4 then
           (if cx s = 0 then s\<lparr>cx := video_num_columns s, cy := cy s - 1\<rparr>
            else s\<lparr>cx := cx s - 1\<rparr>)
         else if cx s = video_num_columns s then s\<lparr>cx := 0, cy := cy s + 1\<rparr>
         else s\<lparr>cx := cx s + 1\<rparr>)
      in gotoxy (cx s) (cy s) s)"

text \<open>The default case: the byte and its attribute.\<close>

definition put_cell :: "u8 \<Rightarrow> con \<Rightarrow> con" where
  "put_cell c s =
     (let s = (if cx s \<ge> video_num_columns s
               then lf (s\<lparr>cx := cx s - video_num_columns s, pos := pos s - video_size_row s\<rparr>)
               else s);
          s = s\<lparr>vmem := (vmem s)(unat (pos s) := c), pos := pos s + 1\<rparr>;
          s = s\<lparr>vmem := (vmem s)(unat (pos s) := 0x02), pos := pos s + 1\<rparr>
      in s\<lparr>cx := cx s + 1\<rparr>)"

definition con_byte :: "u8 \<Rightarrow> con \<Rightarrow> con" where
  "con_byte c s =
     (if c \<in> {10, 11, 12, 13} then set_cursor (lf (cr s))
      else if c = 127 then del s
      else if c = 8 then backspace s
      else if c = 9 then tab_stop s
      else if c = 7 then s
      else if 0xE0 \<le> c \<and> c \<le> 0xE5 then arrow c s
      else if 0xE6 \<le> c \<and> c \<le> 0xE9 then s
      else put_cell c s)"

text \<open>\<open>buf\<close> are the \<^verbatim>\<open>nr\<close> bytes that the loop takes.\<close>

definition con_write :: "u8 list \<Rightarrow> con \<Rightarrow> con" where
  "con_write buf s = set_cursor (fold con_byte buf s)"

text \<open>\<^verbatim>\<open>con_write\<close> gets the address of an \<^verbatim>\<open>int\<close>, whose first byte is its lowest.\<close>

definition putchar :: "u32 \<Rightarrow> con \<Rightarrow> con \<times> int" where
  "putchar c s = (con_write [ucast c] s, 1)"

section \<open>Clearing and setting up\<close>

definition cls :: "con \<Rightarrow> con" where
  "cls s = gotoxy 0 0 ((con_write [32] ^^ unat (video_size_all s div 2)) s)"

definition con_init :: "con \<Rightarrow> con" where
  "con_init s =
     (let s = s\<lparr>video_num_columns := 80\<rparr>;
          s = s\<lparr>video_size_row := video_num_columns s * 2, video_num_lines := 25\<rparr>;
          s = s\<lparr>video_size_all := video_size_row s * video_num_lines s, video_erase_char := 0x0720,
                video_mem_start := 0xb8000, video_mem_end := 0xba000,
                video_port_reg := 0x3d4, video_port_val := 0x3d5\<rparr>;
          s = s\<lparr>origin := video_mem_start s,
                scr_end := video_mem_start s + video_num_lines s * video_size_row s,
                top := 0, bottom := video_num_lines s\<rparr>;
          s = cls (set_cursor (gotoxy 0 0 s))
      in set_cursor (gotoxy 0 0 s))"

section \<open>The cursor in its screen\<close>

text \<open>
  The state of the 80 by 25 screen: the screen lies in the video memory, the cursor in the
  screen, and \<^verbatim>\<open>pos\<close> is the address of its cell. The cursor may stand behind the last column.
\<close>

definition con_dims :: "con \<Rightarrow> bool" where
  "con_dims s \<longleftrightarrow>
     video_num_columns s = 80 \<and> video_size_row s = 160 \<and> video_size_all s = 4000 \<and>
     video_num_lines s = 25 \<and> video_mem_start s = 0xb8000 \<and> video_mem_end s = 0xba000 \<and>
     top s = 0 \<and> bottom s = 25"

definition con_ok :: "con \<Rightarrow> bool" where
  "con_ok s \<longleftrightarrow>
     con_dims s \<and> 0xb8000 \<le> unat (origin s) \<and> unat (origin s) + 4000 \<le> 0xba000 \<and>
     unat (scr_end s) = unat (origin s) + 4000 \<and>
     unat (cx s) \<le> 80 \<and> unat (cy s) < 25 \<and>
     unat (pos s) = unat (origin s) + 160 * unat (cy s) + 2 * unat (cx s)"

text \<open>Memory outside the video memory is as it was.\<close>

definition only_video :: "mem \<Rightarrow> mem \<Rightarrow> bool" where
  "only_video m m' \<longleftrightarrow> (\<forall>a. a < 0xb8000 \<or> 0xba000 \<le> a \<longrightarrow> m' a = m a)"

lemma only_video_refl [simp]: "only_video m m"
  by (simp add: only_video_def)

lemma only_video_trans: "only_video m m1 \<Longrightarrow> only_video m1 m2 \<Longrightarrow> only_video m m2"
  by (simp add: only_video_def)

lemma only_video_put:
  "only_video m m1 \<Longrightarrow> 0xb8000 \<le> a \<Longrightarrow> a < 0xba000 \<Longrightarrow> only_video m (m1(a := v))"
  by (auto simp: only_video_def)

text \<open>Unsigned arithmetic without wrap-around.\<close>

lemma unat_add_u32: "unat a + unat b < 2 ^ 32 \<Longrightarrow> unat (a + b :: u32) = unat a + unat b"
  by (simp add: unat_word_ariths)

lemma unat_sub_u32: "unat b \<le> unat a \<Longrightarrow> unat (a - b :: u32) = unat a - unat b"
  by (simp add: unat_sub word_le_nat_alt)

lemma unat_mult_u32: "unat a * unat b < 2 ^ 32 \<Longrightarrow> unat (a * b :: u32) = unat a * unat b"
  by (simp add: unat_word_ariths)

lemma unat_push1_u32: "2 * unat a < 2 ^ 32 \<Longrightarrow> unat (push_bit 1 a :: u32) = 2 * unat a"
  by (simp add: push_bit_eq_mult unat_word_ariths)

lemmas con_arith = unat_add_u32 unat_sub_u32 unat_mult_u32 unat_push1_u32

lemma memset_word_outside: "x < d \<or> d + 2 * n \<le> x \<Longrightarrow> memset_word m d w n x = m x"
  by (induction n arbitrary: m d) auto

lemma memset_word_only_video:
  "0xb8000 \<le> d \<Longrightarrow> d + 2 * n \<le> 0xba000 \<Longrightarrow> only_video m m1 \<Longrightarrow>
   only_video m (memset_word m1 d w n)"
  by (auto simp: only_video_def memset_word_outside)

lemma memcpy_only_video:
  "0xb8000 \<le> d \<Longrightarrow> d + n \<le> 0xba000 \<Longrightarrow> only_video m m1 \<Longrightarrow> only_video m (memcpy m1 d s n)"
  by (auto simp: only_video_def memcpy_outside)

lemma movsl_down_outside:
  "4 * n \<le> d \<Longrightarrow> x < d + 4 - 4 * n \<or> d + 4 \<le> x \<Longrightarrow> movsl_down m d s n x = m x"
  by (induction n arbitrary: m d s) (auto simp: movd_def)

lemma stosw_down_outside:
  "2 * n \<le> d \<Longrightarrow> x < d + 2 - 2 * n \<or> d + 2 \<le> x \<Longrightarrow> stosw_down m d w n x = m x"
proof (induction n arbitrary: m d)
  case (Suc n)
  have "2 * n \<le> d - 2" "x < d - 2 + 2 - 2 * n \<or> d - 2 + 2 \<le> x" "x \<noteq> d" "x \<noteq> d + 1"
    using Suc.prems by auto
  with Suc.IH [of "d - 2"] show ?case
    by simp
qed simp

lemma con_outs [simp]:
  "video_num_columns (set_origin s) = video_num_columns s"
  "video_size_row (set_origin s) = video_size_row s"
  "video_size_all (set_origin s) = video_size_all s"
  "video_num_lines (set_origin s) = video_num_lines s"
  "video_mem_start (set_origin s) = video_mem_start s"
  "video_mem_end (set_origin s) = video_mem_end s" "origin (set_origin s) = origin s"
  "scr_end (set_origin s) = scr_end s" "pos (set_origin s) = pos s" "cx (set_origin s) = cx s"
  "cy (set_origin s) = cy s" "top (set_origin s) = top s" "bottom (set_origin s) = bottom s"
  "vmem (set_origin s) = vmem s"
  "video_num_columns (set_cursor s) = video_num_columns s"
  "video_size_row (set_cursor s) = video_size_row s"
  "video_size_all (set_cursor s) = video_size_all s"
  "video_num_lines (set_cursor s) = video_num_lines s"
  "video_mem_start (set_cursor s) = video_mem_start s"
  "video_mem_end (set_cursor s) = video_mem_end s" "origin (set_cursor s) = origin s"
  "scr_end (set_cursor s) = scr_end s" "pos (set_cursor s) = pos s" "cx (set_cursor s) = cx s"
  "cy (set_cursor s) = cy s" "top (set_cursor s) = top s" "bottom (set_cursor s) = bottom s"
  "vmem (set_cursor s) = vmem s"
  by (simp_all add: set_origin_def set_cursor_def outb_p_def Let_def)

lemma con_ok_outs [simp]:
  "con_ok (set_origin s) \<longleftrightarrow> con_ok s" "con_ok (set_cursor s) \<longleftrightarrow> con_ok s"
  by (simp_all add: con_ok_def con_dims_def)

text \<open>\<open>con_step f\<close>: \<open>f\<close> keeps the invariant, and the memory outside the screen.\<close>

definition con_step :: "con \<Rightarrow> con \<Rightarrow> bool" where
  "con_step s s' \<longleftrightarrow> con_ok s' \<and> only_video (vmem s) (vmem s')"

lemma con_okD:
  assumes "con_ok s"
  shows "video_num_columns s = 80" "video_size_row s = 160" "video_size_all s = 4000"
    "video_num_lines s = 25" "video_mem_start s = 0xb8000" "video_mem_end s = 0xba000"
    "top s = 0" "bottom s = 25"
  using assms by (simp_all add: con_ok_def con_dims_def)

lemma con_ok_bounds:
  assumes "con_ok s"
  shows "0xb8000 \<le> unat (origin s)" "unat (origin s) + 4000 \<le> 0xba000"
    "unat (scr_end s) = unat (origin s) + 4000" "unat (cx s) \<le> 80" "unat (cy s) < 25"
    "unat (pos s) = unat (origin s) + 160 * unat (cy s) + 2 * unat (cx s)"
  using assms by (simp_all add: con_ok_def)

lemma scrdown_step: "con_ok s \<Longrightarrow> con_step s (scrdown s)"
proof -
  assume ok: "con_ok s"
  note d = con_okD [OF ok] and b = con_ok_bounds [OF ok]
  have a: "unat (origin s + video_size_row s * bottom s - 4) = unat (origin s) + 3996"
    using b by (simp add: d con_arith)
  have n: "unat (drop_bit 1 ((bottom s - top s - 1) * video_num_columns s)) = 960"
    by (simp add: d)
  show ?thesis
    using ok b(1,2)
    unfolding scrdown_def Let_def a n con_step_def
    by (auto simp: con_ok_def con_dims_def only_video_def movsl_down_outside stosw_down_outside)
qed

text \<open>\<^verbatim>\<open>scrup\<close> on the last line of the screen: the cursor stays, its address moves with the origin.\<close>

lemma scrup_step: "con_ok s \<Longrightarrow> con_step s (scrup s) \<and> cx (scrup s) = cx s \<and> cy (scrup s) = cy s"
proof -
  assume ok: "con_ok s"
  note d = con_okD [OF ok] and b = con_ok_bounds [OF ok]
  show ?thesis
  proof (cases "scr_end s + 160 > 0xba000")
    case True
    show ?thesis
      using True b
      by (simp add: scrup_def Let_def d con_step_def con_ok_def con_dims_def con_arith
          memset_word_only_video memcpy_only_video)
  next
    case False
    then have "unat (origin s) + 4160 \<le> 0xba000"
      using b by (simp add: word_le_nat_alt con_arith not_less)
    then show ?thesis
      using False b
      by (simp add: scrup_def Let_def d con_step_def con_ok_def con_dims_def con_arith
          memset_word_only_video)
  qed
qed

lemma lf_step: "con_ok s \<Longrightarrow> con_step s (lf s)"
proof -
  assume ok: "con_ok s"
  note d = con_okD [OF ok] and b = con_ok_bounds [OF ok]
  show ?thesis
  proof (cases "cy s + 1 < 25")
    case True
    then show ?thesis
      using b by (simp add: lf_def d con_step_def con_ok_def con_dims_def con_arith word_less_nat_alt)
  next
    case False
    then show ?thesis
      using scrup_step [OF ok] by (simp add: lf_def d)
  qed
qed

lemma con_step_trans: "con_step s s1 \<Longrightarrow> con_step s1 s2 \<Longrightarrow> con_step s s2"
  by (auto simp: con_step_def intro: only_video_trans)

lemma con_stepI: "con_ok s' \<Longrightarrow> vmem s' = vmem s \<Longrightarrow> con_step s s'"
  by (simp add: con_step_def)

lemma set_cursor_step: "con_ok s \<Longrightarrow> con_step s (set_cursor s)"
  by (rule con_stepI) simp_all

lemma cr_step: "con_ok s \<Longrightarrow> con_step s (cr s)"
  by (rule con_stepI)
    (simp_all add: cr_def con_ok_def con_dims_def con_arith)

lemma erase_step:
  assumes ok: "con_ok s" and "cx s \<noteq> 0"
  shows "con_step s (put16 (pos s - 2) w (s\<lparr>pos := pos s - 2, cx := cx s - 1\<rparr>))"
proof -
  note d = con_okD [OF ok] and b = con_ok_bounds [OF ok]
  have "1 \<le> unat (cx s)"
    using assms(2) by (simp add: Suc_le_eq unat_gt_0)
  then show ?thesis
    using b d by (simp add: con_step_def con_ok_def con_dims_def put16_def con_arith only_video_put)
      arith
qed

lemma del_step: "con_ok s \<Longrightarrow> con_step s (del s)"
  using erase_step [of s] by (simp add: del_def Let_def con_stepI)

lemma backspace_del: "backspace s = del s"
  by (simp add: backspace_def del_def put16_def Let_def)

lemma backspace_step: "con_ok s \<Longrightarrow> con_step s (backspace s)"
  by (simp add: backspace_del del_step)

lemma gotoxy_ok:
  assumes ok: "con_ok s" and "unat a \<le> 80" and "unat b < 25"
  shows "con_ok (gotoxy a b s) \<and> cx (gotoxy a b s) = a \<and> cy (gotoxy a b s) = b \<and>
    vmem (gotoxy a b s) = vmem s"
proof -
  note d = con_okD [OF ok] and b = con_ok_bounds [OF ok]
  have "\<not> (a > 80 \<or> b \<ge> 25)"
    using assms(2,3) by (simp add: word_less_nat_alt word_le_nat_alt)
  then show ?thesis
    using b d assms(2,3) by (simp add: gotoxy_def con_ok_def con_dims_def con_arith)
qed

text \<open>\<^verbatim>\<open>gotoxy\<close> does not read the old cursor.\<close>

lemma gotoxy_cursor:
  assumes ok: "con_ok s" and "unat a \<le> 80" and "unat b < 25"
  shows "con_step s (gotoxy a b (s\<lparr>cx := u, cy := v\<rparr>))"
proof -
  have "gotoxy a b (s\<lparr>cx := u, cy := v\<rparr>) = gotoxy a b s"
    using assms con_okD [OF ok] by (simp add: gotoxy_def word_less_nat_alt word_le_nat_alt)
  then show ?thesis
    using gotoxy_ok [OF assms] by (simp add: con_step_def)
qed

lemma arrow_step:
  assumes ok: "con_ok s" and "c \<in> {0xE0, 0xE1, 0xE2}"
  shows "con_step s (arrow c s)"
proof -
  note d = con_okD [OF ok] and b = con_ok_bounds [OF ok]
  consider "c = 0xE0" | "c = 0xE1" | "c = 0xE2" "cy s = 0" | "c = 0xE2" "cy s \<noteq> 0"
    using assms(2) by auto
  then show ?thesis
  proof cases
    case 1
    then show ?thesis
      using gotoxy_cursor [OF ok, where a = 0 and b = "cy s" and u = 0 and v = "cy s"] b by (simp add: arrow_def)
  next
    case 2
    then show ?thesis
      using gotoxy_cursor [OF ok, where a = 79 and b = "cy s" and u = 79 and v = "cy s"] b d by (simp add: arrow_def)
  next
    case 3
    let ?s = "scrdown s"
    have st: "con_step s ?s"
      by (rule scrdown_step [OF ok])
    then have ok': "con_ok ?s"
      by (simp add: con_step_def)
    have "con_step ?s (gotoxy (cx ?s) 0 (?s\<lparr>cx := cx ?s, cy := 0\<rparr>))"
      using con_ok_bounds [OF ok'] by (intro gotoxy_cursor [OF ok']) simp_all
    with st 3 show ?thesis
      by (auto simp: arrow_def intro: con_step_trans)
  next
    case 4
    then have "1 \<le> unat (cy s)"
      by (simp add: Suc_le_eq unat_gt_0)
    with 4 show ?thesis
      using gotoxy_cursor [OF ok, where a = "cx s" and b = "cy s - 1" and u = "cx s"
        and v = "cy s - 1"] b
      by (simp add: arrow_def con_arith)
  qed
qed

text \<open>Behind the last column: the wrap to the first column of the same line, before the line feed.\<close>

lemma wrap_step:
  assumes ok: "con_ok s" and "80 \<le> i" and "i \<le> 160" and "unat x' = i"
    and "unat p' = unat (pos s) + 2 * (i - unat (cx s))" and "unat (cx s) \<le> i"
  shows "con_step s (lf (s\<lparr>cx := x' - video_num_columns s, pos := p' - video_size_row s\<rparr>))"
proof -
  note d = con_okD [OF ok] and b = con_ok_bounds [OF ok]
  let ?s = "s\<lparr>cx := x' - video_num_columns s, pos := p' - video_size_row s\<rparr>"
  have "con_ok ?s"
    using b d assms(2-6) by (simp add: con_ok_def con_dims_def con_arith) arith
  then have "con_step ?s (lf ?s)"
    by (rule lf_step)
  then show ?thesis
    by (simp add: con_step_def)
qed

lemma tab_count:
  "unat (ucast (ucast (8 - ((x :: u32) AND 7)) :: u8) :: u32) = 8 - unat x mod 8"
proof -
  have le: "unat x mod 8 < 8"
    by simp
  then have "unat (8 - (x AND 7)) = 8 - unat x mod 8"
    by (subst unat_sub_u32) (simp_all add: unat_and7)
  then show ?thesis
    by (simp add: unsigned_ucast_eq unsigned_take_bit_eq take_bit_nat_eq_self)
qed

lemma tab_step:
  assumes ok: "con_ok s"
  shows "con_step s (tab_stop s)"
proof -
  note d = con_okD [OF ok] and b = con_ok_bounds [OF ok]
  define c where "c = (ucast (ucast (8 - (cx s AND 7)) :: u8) :: u32)"
  have c: "unat c \<le> 8" "unat (cx s + c) = unat (cx s) + unat c"
      "unat (pos s + push_bit 1 c) = unat (pos s) + 2 * unat c"
    using b by (simp_all add: c_def tab_count con_arith)
  show ?thesis
  proof (cases "cx s + c > 80")
    case True
    then have "80 < unat (cx s) + unat c"
      using c by (simp add: word_less_nat_alt)
    with True c b show ?thesis
      using wrap_step [OF ok, of "unat (cx s) + unat c" "cx s + c" "pos s + push_bit 1 c"]
      by (simp add: tab_stop_def Let_def d flip: c_def)
  next
    case False
    then have "unat (cx s) + unat c \<le> 80"
      using c by (simp add: word_less_nat_alt)
    with False c b d show ?thesis
      by (intro con_stepI) (simp_all add: tab_stop_def Let_def con_ok_def con_dims_def flip: c_def)
  qed
qed

lemma put_step:
  assumes ok: "con_ok s" and x: "unat (cx s) < 80"
  shows "con_step s (s\<lparr>vmem := (vmem s)(unat (pos s) := c, unat (pos s + 1) := 2),
    pos := pos s + 1 + 1, cx := cx s + 1\<rparr>)"
  using con_ok_bounds [OF ok] con_okD [OF ok] x
  by (simp add: con_step_def con_ok_def con_dims_def con_arith only_video_put)

lemma scrup_cursor: "con_ok s \<Longrightarrow> cx (lf s) = cx s"
  using scrup_step [of s] by (simp add: lf_def)

lemma put_cell_step:
  assumes ok: "con_ok s"
  shows "con_step s (put_cell c s)"
proof -
  note d = con_okD [OF ok] and b = con_ok_bounds [OF ok]
  show ?thesis
  proof (cases "cx s \<ge> 80")
    case True
    then have x: "unat (cx s) = 80"
      using b by (simp add: word_le_nat_alt)
    let ?t = "s\<lparr>cx := cx s - video_num_columns s, pos := pos s - video_size_row s\<rparr>"
    let ?s = "lf ?t"
    have ok0: "con_ok ?t"
      using b d x by (simp add: con_ok_def con_dims_def con_arith)
    have st: "con_step s ?s"
      using wrap_step [OF ok, of 80 "cx s" "pos s"] x by simp
    have "con_step ?s (s'\<lparr>vmem := (vmem s')(unat (pos s') := c, unat (pos s' + 1) := 2),
        pos := pos s' + 1 + 1, cx := cx s' + 1\<rparr>)" if "s' = ?s" for s'
      using put_step [of ?s c] st scrup_cursor [OF ok0] x
      unfolding that by (simp add: con_step_def d con_arith)
    with st True show ?thesis
      by (auto simp: put_cell_def Let_def d intro: con_step_trans)
  next
    case False
    then have "unat (cx s) < 80"
      by (simp add: word_le_nat_alt)
    with False put_step [OF ok this] show ?thesis
      by (simp add: put_cell_def Let_def d)
  qed
qed

lemma con_byte_step:
  assumes "con_ok s" and "c \<notin> {0xE3, 0xE4, 0xE5}"
  shows "con_step s (con_byte c s)"
proof -
  have lf: "con_step s (set_cursor (lf (cr s)))"
    using cr_step [OF assms(1)] lf_step [of "cr s"] set_cursor_step [of "lf (cr s)"]
    by (auto simp: con_step_def intro: only_video_trans)
  have arrow: "c \<in> {0xE0, 0xE1, 0xE2}" if "0xE0 \<le> c" "c \<le> 0xE5"
  proof -
    have "unat c \<in> {0xE0..0xE5}"
      using that by (simp add: word_le_nat_alt)
    then have "unat c \<in> {0xE0, 0xE1, 0xE2, 0xE3, 0xE4, 0xE5}"
      by (simp add: atLeastAtMost_iff) linarith
    then show ?thesis
      using assms(2) by (auto simp: word_unat_eq_iff)
  qed
  show ?thesis
    using assms(1) lf arrow
    by (simp add: con_byte_def del_step backspace_step tab_step arrow_step put_cell_step con_stepI)
qed

lemma con_fold_step:
  "con_ok s \<Longrightarrow> set buf \<inter> {0xE3, 0xE4, 0xE5} = {} \<Longrightarrow> con_step s (fold con_byte buf s)"
proof (induction buf arbitrary: s)
  case (Cons c buf)
  have st: "con_step s (con_byte c s)"
    using Cons.prems by (intro con_byte_step) auto
  moreover have "con_step (con_byte c s) (fold con_byte buf (con_byte c s))"
    using Cons st by (auto simp: con_step_def)
  ultimately show ?case
    by (auto intro: con_step_trans)
qed (simp add: con_stepI)

lemma con_write_step:
  assumes "con_ok s" and "set buf \<inter> {0xE3, 0xE4, 0xE5} = {}"
  shows "con_step s (con_write buf s)"
  using con_fold_step [OF assms] by (simp add: con_write_def con_step_def)

text \<open>
  What the printing code relies on: writing bytes that are harmless keeps the device good, and the
  rest of the memory as it was.
\<close>

locale text_device =
  fixes put :: "u8 list \<Rightarrow> 's \<Rightarrow> 's"
    and good :: "'s \<Rightarrow> bool"
    and apart :: "'s \<Rightarrow> 's \<Rightarrow> bool"
    and harmless :: "u8 \<Rightarrow> bool"
  assumes put_law: "good s \<Longrightarrow> \<forall>c \<in> set bs. harmless c \<Longrightarrow> good (put bs s) \<and> apart s (put bs s)"
    and apart_refl: "apart s s"
    and apart_trans: "apart s t \<Longrightarrow> apart t u \<Longrightarrow> apart s u"
begin

lemma puts_good:
  "good s \<Longrightarrow> \<forall>bs \<in> set bss. \<forall>c \<in> set bs. harmless c \<Longrightarrow>
   good (fold put bss s) \<and> apart s (fold put bss s)"
proof (induction bss arbitrary: s)
  case Nil
  then show ?case
    by (simp add: apart_refl)
next
  case (Cons bs bss)
  then have one: "good (put bs s)" "apart s (put bs s)"
    using put_law [of s bs] by simp_all
  with Cons have "good (fold put bss (put bs s)) \<and> apart (put bs s) (fold put bss (put bs s))"
    by simp
  with one show ?case
    using apart_trans by auto
qed

lemma repeat_good:
  assumes "good s" and "\<forall>c \<in> set bs. harmless c"
  shows "good ((put bs ^^ n) s) \<and> apart s ((put bs ^^ n) s)"
proof (induction n)
  case (Suc n)
  then show ?case
    using put_law [OF _ assms(2), of "(put bs ^^ n) s"] apart_trans by auto
qed (simp add: assms(1) apart_refl)

end

definition harmless :: "u8 \<Rightarrow> bool" where
  "harmless c \<longleftrightarrow> c \<notin> {0xE3, 0xE4, 0xE5}"

interpretation con_dev: text_device con_write con_ok "\<lambda>s t. only_video (vmem s) (vmem t)" harmless
proof unfold_locales
  fix s bs
  assume "con_ok s" and "\<forall>c \<in> set bs. harmless c"
  then show "con_ok (con_write bs s) \<and> only_video (vmem s) (vmem (con_write bs s))"
    using con_write_step [of s bs] by (auto simp: con_step_def harmless_def)
qed (auto intro: only_video_trans)

lemma cls_step:
  assumes ok: "con_ok s"
  shows "con_step s (cls s)"
proof -
  have "con_step s ((con_write [32] ^^ unat (video_size_all s div 2)) s)" (is "con_step s ?s")
    using con_dev.repeat_good [OF ok, of "[32]"] by (simp add: con_step_def harmless_def)
  then show ?thesis
    using gotoxy_ok [of ?s 0 0] by (auto simp: cls_def con_step_def)
qed

lemma con_init_ok: "con_step s (con_init s)"
proof -
  let ?s = "set_cursor (gotoxy 0 0 (s\<lparr>video_num_columns := 80, video_size_row := 160,
    video_num_lines := 25, video_size_all := 4000, video_erase_char := 0x0720,
    video_mem_start := 0xb8000, video_mem_end := 0xba000, video_port_reg := 0x3d4,
    video_port_val := 0x3d5, origin := 0xb8000, scr_end := 0xb8fa0, top := 0, bottom := 25\<rparr>))"
  have "con_ok ?s"
    by (simp add: gotoxy_def con_ok_def con_dims_def)
  moreover have "vmem ?s = vmem s"
    by (simp add: gotoxy_def)
  ultimately have st: "con_step s (cls ?s)"
    using cls_step [of ?s] by (simp add: con_step_def)
  have "con_init s = set_cursor (gotoxy 0 0 (cls ?s))"
    by (simp add: con_init_def Let_def)
  then show ?thesis
    using st gotoxy_ok [of "cls ?s" 0 0] by (simp add: con_step_def)
qed

text \<open>
  C24: Whatever is written to the console after \<^verbatim>\<open>con_init\<close>, the down, left and right keys
  apart, the cursor stays in a screen that stays in the video memory, \<^verbatim>\<open>pos\<close> is the address of
  the cursor's cell, and no byte outside the video memory changes.
\<close>

theorem console_stays_in_video_memory:
  assumes "\<forall>buf \<in> set bufs. set buf \<inter> {0xE3, 0xE4, 0xE5} = {}"
  shows "con_ok (fold con_write bufs (con_init s)) \<and>
    only_video (vmem s) (vmem (fold con_write bufs (con_init s)))"
proof -
  have "con_step (con_init s) (fold con_write bufs (con_init s))"
    using con_init_ok [of s] assms con_dev.puts_good [of "con_init s" bufs]
    by (auto simp: con_step_def harmless_def)
  with con_init_ok [of s] have "con_step s (fold con_write bufs (con_init s))"
    by (rule con_step_trans)
  then show ?thesis
    by (simp add: con_step_def)
qed

text \<open>Two lines of text, a tab, a backspace and the cursor keys that are harmless.\<close>

definition con0 :: con where
  "con0 = \<lparr>video_num_columns = 0, video_size_row = 0, video_size_all = 0, video_num_lines = 0,
     video_mem_start = 0, video_mem_end = 0, origin = 0, scr_end = 0, pos = 0, cx = 0, cy = 0,
     top = 0, bottom = 0, video_port_reg = 0, video_port_val = 0, video_erase_char = 0,
     saved_x = 0, saved_y = 0, vmem = (\<lambda>_. 0), couts = []\<rparr>"

theorem console_stays_in_video_memory_witness:
  "con_ok (fold con_write [[72, 105, 10], [9, 33, 8, 0xE1, 0xE2, 0xE0]] (con_init con0)) \<and>
   only_video (vmem con0)
     (vmem (fold con_write [[72, 105, 10], [9, 33, 8, 0xE1, 0xE2, 0xE0]] (con_init con0)))"
  by (rule console_stays_in_video_memory) simp

text \<open>
  The left key in the first column moves \<^verbatim>\<open>x\<close> behind the last column and \<^verbatim>\<open>y\<close> above the first
  line, which \<^verbatim>\<open>gotoxy\<close> refuses, so \<^verbatim>\<open>pos\<close> stays: deleting then erases the cell before it, which
  at the top left corner lies below the video memory.
\<close>

lemma left_key_leaves_video_memory:
  assumes ok: "con_ok s" and "cx s = 0" and "cy s = 0" and "origin s = 0xb8000"
  shows "vmem (con_write [0xE4, 127] s) 0xb7ffe = ucast (video_erase_char s)"
proof -
  note d = con_okD [OF ok] and b = con_ok_bounds [OF ok]
  have p: "pos s = 0xb8000"
    using b assms(2-4) by (simp add: word_unat_eq_iff)
  have "arrow 0xE4 s = s\<lparr>cx := 80, cy := - 1\<rparr>"
    using assms d by (simp add: arrow_def gotoxy_def)
  then show ?thesis
    by (simp add: con_write_def con_byte_def del_def put16_def p)
qed

section \<open>Text on the screen\<close>

text \<open>The bytes that take the default case.\<close>

definition is_text :: "u8 \<Rightarrow> bool" where
  "is_text c \<longleftrightarrow> c \<notin> {7, 8, 9, 10, 11, 12, 13, 127} \<and> \<not> (0xE0 \<le> c \<and> c \<le> 0xE9)"

lemma con_byte_text:
  assumes "is_text c"
  shows "con_byte c s = put_cell c s"
proof -
  have "\<not> (0xE0 \<le> c \<and> c \<le> 0xE5)" "\<not> (0xE6 \<le> c \<and> c \<le> 0xE9)"
    using assms by (auto simp: is_text_def word_le_nat_alt)
  with assms show ?thesis
    by (auto simp: con_byte_def is_text_def)
qed

text \<open>The memory with the cells of a text written at an address.\<close>

fun cells :: "mem \<Rightarrow> nat \<Rightarrow> u8 list \<Rightarrow> mem" where
  "cells m p [] = m"
| "cells m p (c # cs) = cells (m(p := c, p + 1 := 2)) (p + 2) cs"

lemma cells_outside: "x < p \<or> p + 2 * length cs \<le> x \<Longrightarrow> cells m p cs x = m x"
  by (induction cs arbitrary: m p) auto

lemma cells_inside:
  "i < length cs \<Longrightarrow> cells m p cs (p + 2 * i) = cs ! i \<and> cells m p cs (p + 2 * i + 1) = 2"
proof (induction cs arbitrary: m p i)
  case (Cons c cs)
  show ?case
  proof (cases i)
    case 0
    then show ?thesis
      by (simp add: cells_outside)
  next
    case (Suc j)
    then show ?thesis
      using Cons.IH [of j _ "p + 2"] Cons.prems by (simp add: algebra_simps)
  qed
qed simp

lemma fold_text:
  assumes "con_ok s" and "\<forall>c \<in> set buf. is_text c" and "unat (cx s) + length buf \<le> 80"
  shows "con_ok (fold con_byte buf s) \<and> vmem (fold con_byte buf s) = cells (vmem s) (unat (pos s)) buf \<and>
    origin (fold con_byte buf s) = origin s \<and> cy (fold con_byte buf s) = cy s \<and>
    unat (cx (fold con_byte buf s)) = unat (cx s) + length buf"
  using assms
proof (induction buf arbitrary: s)
  case (Cons c buf)
  note d = con_okD [OF Cons.prems(1)] and b = con_ok_bounds [OF Cons.prems(1)]
  let ?s = "put_cell c s"
  have x: "unat (cx s) < 80"
    using Cons.prems(3) by simp
  then have "\<not> cx s \<ge> 80"
    by (simp add: word_le_nat_alt)
  then have "?s = s\<lparr>vmem := (vmem s)(unat (pos s) := c, unat (pos s + 1) := 2),
      pos := 2 + pos s, cx := cx s + 1\<rparr>" (is "_ = ?u")
    by (simp add: put_cell_def Let_def d)
  moreover have "con_ok ?u"
    using put_step [OF Cons.prems(1) x] by (simp add: con_step_def)
  moreover have n: "unat (pos s + 1) = unat (pos s) + 1" "unat (2 + pos s) = unat (pos s) + 2"
      "unat (cx s + 1) = unat (cx s) + 1"
    using b by (simp_all add: con_arith)
  ultimately have s: "con_ok ?s" "vmem ?s = (vmem s)(unat (pos s) := c, unat (pos s) + 1 := 2)"
      "unat (pos ?s) = unat (pos s) + 2" "unat (cx ?s) = unat (cx s) + 1" "cy ?s = cy s"
      "origin ?s = origin s"
    by (simp_all add: n)
  have "is_text c" "\<forall>c \<in> set buf. is_text c" "unat (cx ?s) + length buf \<le> 80"
    using Cons.prems(2,3) s by simp_all
  moreover have "cells (vmem s) (unat (pos s)) (c # buf) = cells (vmem ?s) (unat (pos ?s)) buf"
    by (simp only: s cells.simps)
  ultimately show ?case
    using Cons.IH [of ?s] s(1,4-6) by (simp add: con_byte_text del: cells.simps)
qed simp

text \<open>
  C25: Text that fits the rest of the line appears in the cells from the cursor on, each byte
  with its attribute, no other byte of memory changes, and the cursor stands behind the text in
  the same line.
\<close>

theorem con_write_shows_text:
  assumes "con_ok s" and "\<forall>c \<in> set buf. is_text c" and "unat (cx s) + length buf \<le> 80"
  shows "(\<forall>i < length buf. vmem (con_write buf s) (unat (pos s) + 2 * i) = buf ! i \<and>
      vmem (con_write buf s) (unat (pos s) + 2 * i + 1) = 0x02) \<and>
    (\<forall>a. a < unat (pos s) \<or> unat (pos s) + 2 * length buf \<le> a \<longrightarrow>
      vmem (con_write buf s) a = vmem s a) \<and>
    cy (con_write buf s) = cy s \<and> unat (cx (con_write buf s)) = unat (cx s) + length buf"
  using fold_text [OF assms] cells_inside [of _ buf "vmem s" "unat (pos s)"]
  by (simp add: con_write_def cells_outside)

text \<open>A console just set up with the cursor in the second line.\<close>

definition con1 :: con where
  "con1 = con0\<lparr>video_num_columns := 80, video_size_row := 160, video_size_all := 4000,
     video_num_lines := 25, video_mem_start := 0xb8000, video_mem_end := 0xba000,
     origin := 0xb8000, scr_end := 0xb8fa0, top := 0, bottom := 25,
     pos := 0xb80a8, cx := 4, cy := 1\<rparr>"

theorem con_write_shows_text_witness:
  "vmem (con_write [72, 105] con1) 0xb80a8 = 72 \<and> vmem (con_write [72, 105] con1) 0xb80aa = 105 \<and>
   vmem (con_write [72, 105] con1) 0xb80ac = 0"
proof -
  have "con_ok con1"
    by (simp add: con1_def con_ok_def con_dims_def)
  moreover have "\<forall>c \<in> set [72, 105]. is_text c"
    by (simp add: is_text_def)
  moreover have "unat (cx con1) + length [72 :: u8, 105] \<le> 80"
    by (simp add: con1_def)
  ultimately have "(\<forall>i < length [72 :: u8, 105].
      vmem (con_write [72, 105] con1) (unat (pos con1) + 2 * i) = [72, 105] ! i \<and>
      vmem (con_write [72, 105] con1) (unat (pos con1) + 2 * i + 1) = 0x02) \<and>
    (\<forall>a. a < unat (pos con1) \<or> unat (pos con1) + 2 * length [72 :: u8, 105] \<le> a \<longrightarrow>
      vmem (con_write [72, 105] con1) a = vmem con1 a) \<and>
    cy (con_write [72, 105] con1) = cy con1 \<and>
    unat (cx (con_write [72, 105] con1)) = unat (cx con1) + length [72 :: u8, 105]"
    by (rule con_write_shows_text)
  moreover have "unat (pos con1) = 0xb80a8" "vmem con1 0xb80ac = 0"
    by (simp_all add: con1_def con0_def)
  ultimately show ?thesis
    by (auto simp: All_less_Suc2 simp del: One_nat_def)
qed

end
