(* ===== verification/Vsprintf.thy ===== *)
theory Vsprintf
  imports Cstring
begin

text \<open>
  Formatted output, \<^verbatim>\<open>lib/vsprintf.c\<close>. The format is the list of bytes that its pointer sees, the
  arguments are the 32-bit words of the call's stack, strings are read from a store, and the
  result is the list of bytes written to \<^verbatim>\<open>buf\<close>. \<^term>\<open>None\<close>: the code reads past the format, the
  arguments or a string. Widths are unbounded integers, signed overflow being undefined in C.
\<close>

unbundle bit_operations_syntax

section \<open>Numbers\<close>

definition is_digit :: "u8 \<Rightarrow> bool" where
  "is_digit c \<longleftrightarrow> 48 \<le> c \<and> c \<le> 57"

fun skip_atoi :: "int \<Rightarrow> u8 list \<Rightarrow> (int \<times> u8 list) option" where
  "skip_atoi i [] = None"
| "skip_atoi i (c # s) =
     (if is_digit c then skip_atoi (i * 10 + int (unat c) - 48) s else Some (i, c # s))"

definition ZEROPAD :: int where "ZEROPAD = 1"
definition SIGN :: int where "SIGN = 2"
definition PLUS :: int where "PLUS = 4"
definition SPACE :: int where "SPACE = 8"
definition LEFT :: int where "LEFT = 16"
definition SPECIAL :: int where "SPECIAL = 32"
definition SMALL :: int where "SMALL = 64"

lemmas fmt_flags = ZEROPAD_def SIGN_def PLUS_def SPACE_def LEFT_def SPECIAL_def SMALL_def

text \<open>\<^verbatim>\<open>divl\<close>: quotient and remainder, both unsigned.\<close>

definition do_div :: "u32 \<Rightarrow> u32 \<Rightarrow> u32 \<times> u32" where
  "do_div n base = (n div base, n mod base)"

definition upper_digits :: "u8 list" where
  "upper_digits = map word_of_nat ([48..<58] @ [65..<91])"

definition lower_digits :: "u8 list" where
  "lower_digits = map word_of_nat ([48..<58] @ [97..<123])"

text \<open>
  The loop that fills \<^verbatim>\<open>tmp\<close>, lowest digit first. Its caller has checked the base; the test of it
  here only makes the function total.
\<close>

function digit_loop :: "u32 \<Rightarrow> u32 \<Rightarrow> u8 list \<Rightarrow> u8 list" where
  "digit_loop num base digits =
     (if num = 0 \<or> base < 2 then []
      else let (num, res) = do_div num base in digits ! unat res # digit_loop num base digits)"
  by pat_completeness auto
termination
proof (relation "measure (\<lambda>(num, base, digits). unat num)", goal_cases)
  case (2 num base digits res q r)
  then have "unat num div unat base < unat num"
    by (intro div_less_dividend) (auto simp: word_le_nat_alt word_less_nat_alt unat_gt_0)
  with 2 show ?case
    by (simp add: do_div_def unat_div)
qed simp

declare digit_loop.simps [simp del]

text \<open>\<^verbatim>\<open>while (n-- > 0) *str++ = c\<close>: what it writes, and the value of \<open>n\<close> after it.\<close>

definition pad_loop :: "u8 \<Rightarrow> int \<Rightarrow> u8 list" where
  "pad_loop c n = replicate (nat n) c"

definition after_loop :: "int \<Rightarrow> int" where
  "after_loop n = (if n > 0 then - 1 else n - 1)"

definition number :: "u32 \<Rightarrow> int \<Rightarrow> int \<Rightarrow> int \<Rightarrow> int \<Rightarrow> u8 list option" where
  "number num base sz precision type =
     (let digits = (if type AND SMALL \<noteq> 0 then lower_digits else upper_digits);
          type = (if type AND LEFT \<noteq> 0 then type AND NOT ZEROPAD else type) in
      if base < 2 \<or> base > 36 then None
      else
        let c = (if type AND ZEROPAD \<noteq> 0 then 48 else 32);
            (sign, num) =
              (if type AND SIGN \<noteq> 0 \<and> sint num < 0 then (45, - num)
               else (if type AND PLUS \<noteq> 0 then 43 else if type AND SPACE \<noteq> 0 then 32 else 0, num));
            sz = (if sign \<noteq> 0 then sz - 1 else sz);
            sz =
              (if type AND SPECIAL \<noteq> 0
               then (if base = 16 then sz - 2 else if base = 8 then sz - 1 else sz)
               else sz);
            tmp = (if num = 0 then [48] else digit_loop num (word_of_int base) digits);
            i = int (length tmp);
            precision = (if i > precision then i else precision);
            sz = sz - precision;
            (out, sz) =
              (if type AND (ZEROPAD + LEFT) = 0 then (pad_loop 32 sz, after_loop sz)
               else ([], sz));
            out = (if sign \<noteq> 0 then out @ [sign] else out);
            out =
              (if type AND SPECIAL \<noteq> 0
               then (if base = 8 then out @ [48]
                     else if base = 16 then out @ [48, digits ! 33] else out)
               else out);
            (out, sz) =
              (if type AND LEFT = 0 then (out @ pad_loop c sz, after_loop sz) else (out, sz));
            out = out @ pad_loop 48 (precision - i);
            out = out @ rev tmp
        in Some (out @ pad_loop 32 sz))"

section \<open>Directives\<close>

text \<open>
  The parts of a directive, from the byte behind \<^verbatim>\<open>%\<close> on. Each gives what it read and the rest of
  the format. The width given as \<^verbatim>\<open>*\<close> leaves the star where it is.
\<close>

fun fmt_flags_loop :: "u8 list \<Rightarrow> int \<Rightarrow> (int \<times> u8 list) option" where
  "fmt_flags_loop [] flags = None"
| "fmt_flags_loop (c # s) flags =
     (if c = 45 then fmt_flags_loop s (flags OR LEFT)
      else if c = 43 then fmt_flags_loop s (flags OR PLUS)
      else if c = 32 then fmt_flags_loop s (flags OR SPACE)
      else if c = 35 then fmt_flags_loop s (flags OR SPECIAL)
      else if c = 48 then fmt_flags_loop s (flags OR ZEROPAD)
      else Some (flags, c # s))"

fun get_field_width :: "u8 list \<Rightarrow> int \<Rightarrow> u32 list \<Rightarrow> (int \<times> int \<times> u8 list \<times> u32 list) option" where
  "get_field_width [] flags args = None"
| "get_field_width (c # s) flags args =
     (if is_digit c then
        (case skip_atoi 0 (c # s) of
           None \<Rightarrow> None
         | Some (w, s) \<Rightarrow> Some (w, flags, s, args))
      else if c = 42 then
        (case args of
           [] \<Rightarrow> None
         | a # args \<Rightarrow>
             if sint a < 0 then Some (- sint a, flags OR LEFT, c # s, args)
             else Some (sint a, flags, c # s, args))
      else Some (- 1, flags, c # s, args))"

fun get_precision :: "u8 list \<Rightarrow> u32 list \<Rightarrow> (int \<times> u8 list \<times> u32 list) option" where
  "get_precision [] args = None"
| "get_precision (c # s) args =
     (if c = 46 then
        (case s of
           [] \<Rightarrow> None
         | d # t \<Rightarrow>
             if is_digit d then
               (case skip_atoi 0 s of
                  None \<Rightarrow> None
                | Some (p, s) \<Rightarrow> Some (if p < 0 then 0 else p, s, args))
             else if d = 42 then
               (case args of
                  [] \<Rightarrow> None
                | a # args \<Rightarrow> Some (if sint a < 0 then 0 else sint a, t, args))
             else Some (0, s, args))
      else Some (- 1, c # s, args))"

fun skip_qualifier :: "u8 list \<Rightarrow> u8 list option" where
  "skip_qualifier [] = None"
| "skip_qualifier (c # s) = Some (if c = 104 \<or> c = 108 \<or> c = 76 then s else c # s)"

section \<open>Conversions\<close>

definition conv_char :: "int \<Rightarrow> int \<Rightarrow> u32 \<Rightarrow> u8 list" where
  "conv_char flags width a =
     (if flags AND LEFT = 0 then pad_loop 32 (width - 1) @ [ucast a]
      else [ucast a] @ pad_loop 32 (width - 1))"

definition conv_string :: "mem \<Rightarrow> int \<Rightarrow> int \<Rightarrow> int \<Rightarrow> u32 \<Rightarrow> u8 list option" where
  "conv_string m flags width precision a =
     (case str_end m (unat a) of
        None \<Rightarrow> None
      | Some e \<Rightarrow>
          let len = int (e - unat a);
              len = (if precision < 0 then len else if len > precision then precision else len);
              text = map (\<lambda>i. m (unat a + i)) [0..<nat len]
          in Some (if flags AND LEFT = 0 then pad_loop 32 (width - len) @ text
                   else text @ pad_loop 32 (width - len)))"

text \<open>
  The last switch, on the byte \<open>c\<close> with \<open>s\<close> behind it, \<open>n\<close> bytes being written so far. It gives the
  bytes to write, the stores through \<^verbatim>\<open>%n\<close>, the rest of the arguments, and the format behind the
  step \<^verbatim>\<open>++fmt\<close> of the loop.
\<close>

definition conv :: "mem \<Rightarrow> int \<Rightarrow> int \<Rightarrow> int \<Rightarrow> int \<Rightarrow> u8 \<Rightarrow> u8 list \<Rightarrow> u32 list \<Rightarrow>
    (u8 list \<times> (u32 \<times> u32) list \<times> u32 list \<times> u8 list) option" where
  "conv m n flags width precision c s args =
     (let num = (\<lambda>base width flags.
            case args of
              [] \<Rightarrow> None
            | a # args \<Rightarrow>
                map_option (\<lambda>out. (out, [], args, s)) (number a base width precision flags))
      in
      if c = 99 then
        (case args of [] \<Rightarrow> None | a # args \<Rightarrow> Some (conv_char flags width a, [], args, s))
      else if c = 115 then
        (case args of
           [] \<Rightarrow> None
         | a # args \<Rightarrow>
             map_option (\<lambda>out. (out, [], args, s)) (conv_string m flags width precision a))
      else if c = 111 then num 8 width flags
      else if c = 112 then (if width = - 1 then num 16 8 (flags OR ZEROPAD) else num 16 width flags)
      else if c = 120 then num 16 width (flags OR SMALL)
      else if c = 88 then num 16 width flags
      else if c = 100 \<or> c = 105 then num 10 width (flags OR SIGN)
      else if c = 117 then num 10 width flags
      else if c = 110 then
        (case args of [] \<Rightarrow> None | a # args \<Rightarrow> Some ([], [(a, word_of_int n)], args, s))
      else if c = 37 then Some ([37], [], args, s)
      else if c = 0 then Some ([37], [], args, c # s)
      else Some ([37, c], [], args, s))"

definition directive :: "mem \<Rightarrow> int \<Rightarrow> u8 list \<Rightarrow> u32 list \<Rightarrow>
    (u8 list \<times> (u32 \<times> u32) list \<times> u32 list \<times> u8 list) option" where
  "directive m n fmt args =
     (case fmt_flags_loop fmt 0 of
        None \<Rightarrow> None
      | Some (flags, fmt) \<Rightarrow>
     (case get_field_width fmt flags args of
        None \<Rightarrow> None
      | Some (width, flags, fmt, args) \<Rightarrow>
     (case get_precision fmt args of
        None \<Rightarrow> None
      | Some (precision, fmt, args) \<Rightarrow>
     (case skip_qualifier fmt of
        Some (c # s) \<Rightarrow> conv m n flags width precision c s args
      | _ \<Rightarrow> None))))"

text \<open>Each part gives a tail of the format that it got, so a directive takes at least its last byte.\<close>

lemma skip_atoi_length: "skip_atoi i fmt = Some (w, s) \<Longrightarrow> length s \<le> length fmt"
  by (induction i fmt rule: skip_atoi.induct) (auto split: if_splits dest: le_SucI)

lemma fmt_flags_length: "fmt_flags_loop fmt f = Some (f', s) \<Longrightarrow> length s \<le> length fmt"
  by (induction fmt f rule: fmt_flags_loop.induct) (auto split: if_splits dest: le_SucI)

lemma get_field_width_length:
  "get_field_width fmt f args = Some (w, f', s, args') \<Longrightarrow> length s \<le> length fmt"
  by (cases fmt) (auto split: if_splits option.splits list.splits dest!: skip_atoi_length simp del: skip_atoi.simps)

lemma get_precision_length:
  "get_precision fmt args = Some (p, s, args') \<Longrightarrow> length s \<le> length fmt"
  by (cases fmt) (auto split: if_splits option.splits list.splits dest!: skip_atoi_length simp del: skip_atoi.simps)

lemma skip_qualifier_length: "skip_qualifier fmt = Some s \<Longrightarrow> length s \<le> length fmt"
  by (cases fmt) auto

lemma conv_length: "conv m n f w p c s args = Some (out, wr, args', s') \<Longrightarrow> length s' \<le> Suc (length s)"
  by (auto simp: conv_def Let_def split: if_splits list.splits)

lemma directive_length:
  assumes "directive m n fmt args = Some (out, wr, args', s)"
  shows "length s \<le> length fmt"
proof -
  from assms obtain f s1 w f2 s2 args2 p s3 args3 c s4 where parts:
      "fmt_flags_loop fmt 0 = Some (f, s1)"
      "get_field_width s1 f args = Some (w, f2, s2, args2)"
      "get_precision s2 args2 = Some (p, s3, args3)"
      "skip_qualifier s3 = Some (c # s4)"
      "conv m n f2 w p c s4 args3 = Some (out, wr, args', s)"
    by (auto simp: directive_def split: option.splits list.splits)
  from fmt_flags_length [OF parts(1)] get_field_width_length [OF parts(2)]
    get_precision_length [OF parts(3)] skip_qualifier_length [OF parts(4)] conv_length [OF parts(5)]
  show ?thesis
    by simp
qed

section \<open>The loop\<close>

text \<open>\<open>out\<close> is what stands in \<^verbatim>\<open>buf\<close>, \<open>wr\<close> what \<^verbatim>\<open>%n\<close> has stored.\<close>

function vsprintf_loop :: "mem \<Rightarrow> u8 list \<Rightarrow> u32 list \<Rightarrow> u8 list \<Rightarrow> (u32 \<times> u32) list \<Rightarrow>
    (u8 list \<times> (u32 \<times> u32) list) option" where
  "vsprintf_loop m fmt args out wr =
     (case fmt of
        [] \<Rightarrow> None
      | c # s \<Rightarrow>
          if c = 0 then Some (out, wr)
          else if c \<noteq> 37 then vsprintf_loop m s args (out @ [c]) wr
          else (case directive m (int (length out)) s args of
                  None \<Rightarrow> None
                | Some (o', wr', args, s) \<Rightarrow> vsprintf_loop m s args (out @ o') (wr @ wr')))"
  by pat_completeness auto
termination
  by (relation "measure (\<lambda>(m, fmt, args, out, wr). length fmt)")
    (auto dest!: directive_length)

declare vsprintf_loop.simps [simp del]

text \<open>The value returned, the bytes left in \<^verbatim>\<open>buf\<close> and the stores.\<close>

definition vsprintf :: "mem \<Rightarrow> u8 list \<Rightarrow> u32 list \<Rightarrow> (int \<times> u8 list \<times> (u32 \<times> u32) list) option" where
  "vsprintf m fmt args =
     map_option (\<lambda>(out, wr). (int (length out), out @ [0], wr)) (vsprintf_loop m fmt args [] [])"

section \<open>Digits\<close>

lemma digit_loop_zero [simp]: "digit_loop 0 base digits = []"
  by (simp add: digit_loop.simps)

lemma digit_loop_step:
  "num \<noteq> 0 \<Longrightarrow> \<not> base < 2 \<Longrightarrow>
   digit_loop num base digits = digits ! unat (num mod base) # digit_loop (num div base) base digits"
  by (subst digit_loop.simps) (simp add: do_div_def)

text \<open>The digits' indices, read from the highest, give the number back.\<close>

lemma digit_loop_value:
  assumes "2 \<le> base"
  shows "\<exists>ds. digit_loop num base digits = map (\<lambda>d. digits ! d) ds \<and>
    (\<forall>d \<in> set ds. d < unat base) \<and> foldl (\<lambda>v d. v * unat base + d) 0 (rev ds) = unat num"
proof (induction "unat num" arbitrary: num rule: less_induct)
  case less
  show ?case
  proof (cases "num = 0")
    case False
    have b: "\<not> base < 2" "2 \<le> unat base"
      using assms by (simp_all add: word_le_nat_alt word_less_nat_alt)
    have "unat num div unat base < unat num"
      using False b by (intro div_less_dividend) (auto simp: unat_gt_0)
    then have "unat (num div base) < unat num"
      by (simp add: unat_div)
    from less [OF this] obtain ds where ds: "digit_loop (num div base) base digits = map (\<lambda>d. digits ! d) ds"
        "\<forall>d \<in> set ds. d < unat base"
        "foldl (\<lambda>v d. v * unat base + d) 0 (rev ds) = unat (num div base)"
      by blast
    have "digit_loop num base digits = map (\<lambda>d. digits ! d) (unat (num mod base) # ds)"
      using False b ds(1) by (simp add: digit_loop_step)
    moreover have "\<forall>d \<in> set (unat (num mod base) # ds). d < unat base"
      using ds(2) b by (simp add: unat_mod)
    moreover have "foldl (\<lambda>v d. v * unat base + d) 0 (rev (unat (num mod base) # ds)) = unat num"
      using ds(3) by (simp add: unat_mod unat_div)
    ultimately show ?thesis
      by blast
  qed (intro exI [of _ "[]"], simp)
qed

lemma skip_atoi_digits:
  assumes "\<forall>d \<in> set ds. d < 10" and "\<not> is_digit c"
  shows "skip_atoi (int v) (map (\<lambda>d. word_of_nat (48 + d)) ds @ c # s) =
    Some (int (foldl (\<lambda>v d. v * 10 + d) v ds), c # s)"
  using assms
proof (induction ds arbitrary: v)
  case (Cons d ds)
  have u: "unat (word_of_nat (48 + d) :: u8) = 48 + d"
    using Cons.prems by (simp only: unat_of_nat) simp
  then have "is_digit (word_of_nat (48 + d))"
    using Cons.prems unfolding is_digit_def word_le_nat_alt by simp
  moreover have "int v * 10 + int (unat (word_of_nat (48 + d) :: u8)) - 48 = int (v * 10 + d)"
    by (simp add: u del: of_nat_add)
  ultimately show ?case
    using Cons.IH [of "v * 10 + d"] Cons.prems
    by (simp del: of_nat_add of_nat_mult)
qed simp

lemma decimal_digits:
  assumes "d < 10"
  shows "upper_digits ! d = word_of_nat (48 + d)" "lower_digits ! d = word_of_nat (48 + d)"
proof -
  have "d \<in> {0, 1, 2, 3, 4, 5, 6, 7, 8, 9}"
    using assms by auto
  then show "upper_digits ! d = word_of_nat (48 + d)" "lower_digits ! d = word_of_nat (48 + d)"
    by (auto simp: upper_digits_def lower_digits_def)
qed

lemma unat_neg:
  assumes "sint (n :: u32) < 0"
  shows "int (unat (- n)) = - sint n"
proof -
  have "- sint n < 2 ^ 32"
    using sint_ge [of n] by simp
  moreover have "- n = word_of_int (- sint n)"
    by simp
  ultimately show ?thesis
    using assms unat_word_of_int_small [of "- sint n"] by simp
qed

lemma unat_pos:
  assumes "\<not> sint (n :: u32) < 0"
  shows "int (unat n) = sint n"
proof -
  have "sint n < 2 ^ 32"
    using sint_lt [of n] by simp
  moreover have "n = word_of_int (sint n)"
    by simp
  ultimately show ?thesis
    using assms unat_word_of_int_small [of "sint n"] by simp
qed

text \<open>\<^verbatim>\<open>number\<close> without width, precision and flags other than the sign.\<close>

lemma number_signed:
  "number n 10 (- 1) (- 1) SIGN =
     Some (let u = (if sint n < 0 then - n else n) in
       (if sint n < 0 then [45] else []) @
       rev (if u = 0 then [48] else digit_loop u 10 upper_digits))"
  by (simp add: number_def fmt_flags pad_loop_def after_loop_def Let_def)

lemma number_signed_digits:
  "\<exists>ds. number n 10 (- 1) (- 1) SIGN =
      Some ((if sint n < 0 then [45] else []) @ map (\<lambda>d. word_of_nat (48 + d)) ds) \<and>
    (\<forall>d \<in> set ds. d < 10) \<and> int (foldl (\<lambda>v d. v * 10 + d) 0 ds) = \<bar>sint n\<bar>"
proof -
  define u where "u = (if sint n < 0 then - n else n)"
  have u: "int (unat u) = \<bar>sint n\<bar>"
    using unat_neg [of n] unat_pos [of n] by (auto simp: u_def)
  have "\<exists>ds. (if u = 0 then [48] else digit_loop u 10 upper_digits) =
      map (\<lambda>d. word_of_nat (48 + d)) ds \<and> (\<forall>d \<in> set ds. d < 10) \<and>
      foldl (\<lambda>v d. v * 10 + d) 0 (rev ds) = unat u"
  proof (cases "u = 0")
    case True
    then show ?thesis
      by (intro exI [of _ "[0]"]) simp
  next
    case False
    from digit_loop_value [of 10 u upper_digits] obtain ds
      where ds: "digit_loop u 10 upper_digits = map (\<lambda>d. upper_digits ! d) ds"
        "\<forall>d \<in> set ds. d < 10" "foldl (\<lambda>v d. v * 10 + d) 0 (rev ds) = unat u"
      by auto
    then have "digit_loop u 10 upper_digits = map (\<lambda>d. word_of_nat (48 + d)) ds"
      by (simp add: decimal_digits del: of_nat_add)
    with False ds show ?thesis
      by auto
  qed
  then obtain ds where ds: "(if u = 0 then [48] else digit_loop u 10 upper_digits) =
      map (\<lambda>d. word_of_nat (48 + d)) ds" "\<forall>d \<in> set ds. d < 10"
      "foldl (\<lambda>v d. v * 10 + d) 0 (rev ds) = unat u"
    by blast
  have "number n 10 (- 1) (- 1) SIGN = Some ((if sint n < 0 then [45] else []) @
      rev (if u = 0 then [48] else digit_loop u 10 upper_digits))"
    by (simp add: number_signed u_def)
  then have "number n 10 (- 1) (- 1) SIGN =
      Some ((if sint n < 0 then [45] else []) @ map (\<lambda>d. word_of_nat (48 + d)) (rev ds))"
    by (simp only: ds(1) rev_map)
  with ds u show ?thesis
    by (intro exI [of _ "rev ds"]) simp
qed


text \<open>
  \<^verbatim>\<open>%*d\<close> takes the width from the arguments but leaves the star in the format, which becomes the
  conversion: the directive is printed as it stands, and its number is not.
\<close>

lemma star_width_not_skipped:
  "vsprintf m [37, 42, 100, 0] [w, n] = Some (3, [37, 42, 100, 0], [])"
  by (simp add: vsprintf_def vsprintf_loop.simps directive_def conv_def is_digit_def Let_def)

section \<open>Widths\<close>

lemma digit_loop_length:
  "unat num < 2 ^ k \<Longrightarrow> length (digit_loop num base digits) \<le> k"
proof (induction k arbitrary: num)
  case 0
  then have "num = 0"
    by (simp add: word_unat_eq_iff)
  then show ?case
    by simp
next
  case (Suc k)
  show ?case
  proof (cases "num = 0 \<or> base < 2")
    case True
    then show ?thesis
      by (subst digit_loop.simps) simp
  next
    case False
    then have "2 \<le> unat base"
      by (simp add: word_less_nat_alt)
    then have "unat num div unat base \<le> unat num div 2"
      by (rule div_le_mono2 [rotated]) simp
    also have "\<dots> < 2 ^ k"
      using Suc.prems by simp
    finally have "unat (num div base) < 2 ^ k"
      by (simp add: unat_div)
    from Suc.IH [OF this] False show ?thesis
      by (simp add: digit_loop_step)
  qed
qed

lemma pad_after [simp]:
  "int (length (pad_loop c n)) = max 0 n" "nat (after_loop n) = 0" "after_loop n < 0"
  by (simp_all add: pad_loop_def after_loop_def)

lemma zeropad_left: "(f :: int) AND (ZEROPAD + LEFT) = 0 \<longleftrightarrow> f AND ZEROPAD = 0 \<and> f AND LEFT = 0"
proof -
  have "f AND (ZEROPAD + LEFT) = (f AND ZEROPAD) OR (f AND LEFT)"
    by (simp add: fmt_flags flip: bit.conj_disj_distrib)
  then show ?thesis
    by (simp add: or_eq_0_iff)
qed

text \<open>
  The layout of a number: the padding, on one of its three places, fills what sign, prefix, zeros
  and digits leave of the width.
\<close>

lemma number_shape:
  assumes "number num base w p f = Some out"
  obtains g c pre tmp where "length pre \<le> 3" and "length tmp \<le> 32"
    and "out = (let n = w - int (length pre) - max p (int (length tmp));
                    zeros = pad_loop 48 (max p (int (length tmp)) - int (length tmp)) in
      (if g AND (ZEROPAD + LEFT) = 0 then pad_loop 32 n else []) @ pre @
      (if g AND (ZEROPAD + LEFT) \<noteq> 0 \<and> g AND LEFT = 0 then pad_loop c n else []) @
      zeros @ tmp @ (if g AND LEFT \<noteq> 0 then pad_loop 32 n else []))"
proof -
  have base: "\<not> (base < 2 \<or> base > 36)"
    using assms by (auto simp: number_def Let_def split: if_splits)
  define g where "g = (if f AND LEFT \<noteq> 0 then f AND NOT ZEROPAD else f)"
  define neg where "neg \<longleftrightarrow> g AND SIGN \<noteq> 0 \<and> sint num < 0"
  define sign :: u8 where
    "sign = (if neg then 45 else if g AND PLUS \<noteq> 0 then 43 else if g AND SPACE \<noteq> 0 then 32 else 0)"
  define u where "u = (if neg then - num else num)"
  define digits where "digits = (if f AND SMALL \<noteq> 0 then lower_digits else upper_digits)"
  define tmp where "tmp = (if u = 0 then [48] else digit_loop u (word_of_int base) digits)"
  define c :: u8 where "c = (if g AND ZEROPAD \<noteq> 0 then 48 else 32)"
  define signs where "signs = (if sign \<noteq> 0 then [sign] else [])"
  define prefix where "prefix = (if g AND SPECIAL \<noteq> 0
    then (if base = 8 then [48] else if base = 16 then [48, digits ! 33] else []) else [])"
  define pre where "pre = signs @ prefix"
  define n where "n = w - int (length pre) - max p (int (length tmp))"
  define zeros where "zeros = pad_loop 48 (max p (int (length tmp)) - int (length tmp))"
  have "unat u < 2 ^ 32"
    by (rule order_less_le_trans [OF unsigned_less]) simp
  then have len: "length tmp \<le> 32"
    using digit_loop_length [of u 32] by (simp add: tmp_def)
  have pre: "length pre \<le> 3"
    by (simp add: pre_def signs_def prefix_def)
  have n1: "(if g AND SPECIAL \<noteq> 0
      then (if base = 16 then (if sign \<noteq> 0 then w - 1 else w) - 2
            else if base = 8 then (if sign \<noteq> 0 then w - 1 else w) - 1
            else if sign \<noteq> 0 then w - 1 else w)
      else if sign \<noteq> 0 then w - 1 else w) = w - int (length pre)"
    by (simp add: pre_def signs_def prefix_def)
  have pair: "(if g AND SIGN \<noteq> 0 \<and> sint num < 0 then (45, - num)
      else (if g AND PLUS \<noteq> 0 then 43 else if g AND SPACE \<noteq> 0 then 32 else 0, num)) = (sign, u)"
    by (simp add: sign_def u_def neg_def)
  have max: "(if int (length tmp) > p then int (length tmp) else p) = max p (int (length tmp))"
    by simp
  have "number num base w p f =
      (let (out, k) = (if g AND (ZEROPAD + LEFT) = 0 then (pad_loop 32 n, after_loop n) else ([], n));
           out = (if sign \<noteq> 0 then out @ [sign] else out);
           out = (if g AND SPECIAL \<noteq> 0
             then (if base = 8 then out @ [48] else if base = 16 then out @ [48, digits ! 33] else out)
             else out);
           (out, k) = (if g AND LEFT = 0 then (out @ pad_loop c k, after_loop k) else (out, k))
       in Some (((out @ zeros) @ rev tmp) @ pad_loop 32 k))"
    unfolding number_def Let_def
    by (simp only: base if_False pair prod.case max n1
        flip: g_def digits_def tmp_def c_def zeros_def n_def)
  with assms have out: "out =
      (if g AND (ZEROPAD + LEFT) = 0 then pad_loop 32 n else []) @ pre @
      (if g AND (ZEROPAD + LEFT) \<noteq> 0 \<and> g AND LEFT = 0 then pad_loop c n else []) @
      zeros @ rev tmp @ (if g AND LEFT \<noteq> 0 then pad_loop 32 n else [])"
    by (auto simp: Let_def pre_def signs_def prefix_def zeropad_left pad_loop_def split: if_splits)
  show thesis
    by (rule that [where g = g and c = c and tmp = "rev tmp", OF pre]) (use len out in \<open>simp_all add: Let_def n_def zeros_def\<close>)
qed

lemma number_layout:
  assumes "number num base w p f = Some out"
  shows "\<exists>c pre tmp. length pre \<le> 3 \<and> length tmp \<le> 32 \<and>
    (let pad = pad_loop c (w - int (length pre) - max p (int (length tmp)));
         zeros = pad_loop 48 (max p (int (length tmp)) - int (length tmp))
     in out \<in> {pad @ pre @ zeros @ tmp, pre @ pad @ zeros @ tmp, pre @ zeros @ tmp @ pad})"
proof -
  obtain g c pre tmp where s: "length pre \<le> 3" "length tmp \<le> 32"
    "out = (let n = w - int (length pre) - max p (int (length tmp));
                zeros = pad_loop 48 (max p (int (length tmp)) - int (length tmp)) in
      (if g AND (ZEROPAD + LEFT) = 0 then pad_loop 32 n else []) @ pre @
      (if g AND (ZEROPAD + LEFT) \<noteq> 0 \<and> g AND LEFT = 0 then pad_loop c n else []) @
      zeros @ tmp @ (if g AND LEFT \<noteq> 0 then pad_loop 32 n else []))"
    using number_shape [OF assms] .
  consider "g AND LEFT \<noteq> 0" | "g AND LEFT = 0" "g AND (ZEROPAD + LEFT) = 0"
    | "g AND LEFT = 0" "g AND (ZEROPAD + LEFT) \<noteq> 0"
    by blast
  then have "\<exists>c. let pad = pad_loop c (w - int (length pre) - max p (int (length tmp)));
         zeros = pad_loop 48 (max p (int (length tmp)) - int (length tmp))
     in out \<in> {pad @ pre @ zeros @ tmp, pre @ pad @ zeros @ tmp, pre @ zeros @ tmp @ pad}"
    by cases (auto simp: s(3) zeropad_left Let_def)
  then show ?thesis using s(1,2) by blast
qed

text \<open>
  A formatted number is at least as long as the width and the precision asked for, and never
  longer than both and the 32 digits and three bytes of sign and prefix need, whatever the base
  and the flags: the bound that a caller's buffer has to meet.
\<close>

theorem number_bounds:
  assumes "number num base w p f = Some out"
  shows "w \<le> int (length out) \<and> p \<le> int (length out) \<and>
    int (length out) \<le> max w (max p 32 + 3)"
proof -
  from number_layout [OF assms] obtain c pre tmp where l: "length pre \<le> 3" "length tmp \<le> 32"
      "let pad = pad_loop c (w - int (length pre) - max p (int (length tmp)));
           zeros = pad_loop 48 (max p (int (length tmp)) - int (length tmp))
       in out \<in> {pad @ pre @ zeros @ tmp, pre @ pad @ zeros @ tmp, pre @ zeros @ tmp @ pad}"
    by blast
  from l(3) have "int (length out) = int (length pre) + max p (int (length tmp)) +
      max 0 (w - int (length pre) - max p (int (length tmp)))"
    by (auto simp: Let_def)
  with l(1,2) show ?thesis
    by linarith
qed

text \<open>\<^verbatim>\<open>%#08x\<close> of 255.\<close>

theorem number_bounds_witness:
  "(8 :: int) \<le> int (length (the (number 255 16 8 (- 1) (SPECIAL OR ZEROPAD OR SMALL)))) \<and>
   the (number 255 16 8 (- 1) (SPECIAL OR ZEROPAD OR SMALL)) = [48, 120, 48, 48, 48, 48, 102, 102]"
proof -
  have "number 255 16 8 (- 1) (SPECIAL OR ZEROPAD OR SMALL) = Some [48, 120, 48, 48, 48, 48, 102, 102]"
    by code_simp
  from number_bounds [OF this] this show ?thesis
    by simp
qed

end
