(* ===== verification/Printk.thy ===== *)
theory Printk
  imports Console Vsprintf
begin

text \<open>
  Printing on the console: \<^verbatim>\<open>kernel/printk.c\<close> and \<^verbatim>\<open>puts\<close> of \<^verbatim>\<open>kernel/console.c\<close>, which format into
  an array of 1024 bytes on the stack and hand what was written to \<^verbatim>\<open>con_write\<close>. \<^term>\<open>None\<close>: the text
  and its terminator do not fit the array, or \<^verbatim>\<open>vsprintf\<close> has no result.
\<close>

section \<open>The operations\<close>

definition printk_buf :: nat where
  "printk_buf = 1024"

definition printk :: "mem \<Rightarrow> u8 list \<Rightarrow> u32 list \<Rightarrow> con \<Rightarrow> (int \<times> con) option" where
  "printk m fmt args s =
     (case vsprintf m fmt args of
        None \<Rightarrow> None
      | Some (i, buf, wr) \<Rightarrow>
          if length buf > printk_buf then None
          else Some (i, con_write (take (nat i) buf) s))"

text \<open>\<^verbatim>\<open>sprintk\<close> leaves the bytes to its caller.\<close>

definition sprintk :: "mem \<Rightarrow> u8 list \<Rightarrow> u32 list \<Rightarrow> (int \<times> u8 list) option" where
  "sprintk m fmt args = map_option (\<lambda>(i, buf, wr). (i, buf)) (vsprintf m fmt args)"

definition puts :: "mem \<Rightarrow> u32 \<Rightarrow> con \<Rightarrow> (int \<times> con) option" where
  "puts m p s = printk m [37, 115, 0] [p] s"

section \<open>Literals and runs of calls\<close>

text \<open>A literal of the source with its terminator; new line, tab and carriage return.\<close>

definition lit :: "string \<Rightarrow> u8 list" where
  "lit s = map of_char s @ [0]"

abbreviation nl :: string where "nl \<equiv> [CHR 0x0A]"
abbreviation tab :: string where "tab \<equiv> [CHR 0x09]"
abbreviation cr :: string where "cr \<equiv> [CHR 0x0D]"

text \<open>Calls of \<^verbatim>\<open>printk\<close> one after the other, their results not looked at.\<close>

fun prints :: "mem \<Rightarrow> (string \<times> u32 list) list \<Rightarrow> con \<Rightarrow> con option" where
  "prints m [] s = Some s"
| "prints m ((fmt, args) # calls) s =
     (case printk m (lit fmt) args s of None \<Rightarrow> None | Some (_, s) \<Rightarrow> prints m calls s)"

section \<open>Strings\<close>

lemma vsprintf_string:
  assumes "str_at m (unat p) t"
  shows "vsprintf m [37, 115, 0] [p] = Some (int (length t), t @ [0], [])"
proof -
  have "map (\<lambda>i. m (unat p + i)) [0..<length t] = t"
    using assms by (intro nth_equalityI) (simp_all add: str_at_def)
  then have "directive m 0 [115, 0] [p] = Some (t, [], [], [0])"
    using str_end_correct [OF assms]
    by (simp add: directive_def conv_def conv_string_def is_digit_def fmt_flags pad_loop_def Let_def)
  then show ?thesis
    by (simp add: vsprintf_def vsprintf_loop.simps)
qed

text \<open>A string of up to 1023 bytes is written as it is, percent signs included.\<close>

lemma puts_writes:
  assumes "str_at m (unat p) t" and "length t < printk_buf"
  shows "puts m p s = Some (int (length t), con_write t s)"
  using assms by (simp add: puts_def printk_def vsprintf_string)

text \<open>A longer one is written beyond the array.\<close>

lemma puts_overflows:
  assumes "str_at m (unat p) t" and "printk_buf \<le> length t"
  shows "puts m p s = None"
  using assms by (simp add: puts_def printk_def vsprintf_string)

text \<open>Text without a directive is printed as it is.\<close>

lemma vsprintf_loop_plain:
  "37 \<notin> set t \<Longrightarrow> 0 \<notin> set t \<Longrightarrow>
   vsprintf_loop m (t @ 0 # rest) args out wr = Some (out @ t, wr)"
  by (induction t arbitrary: out) (subst vsprintf_loop.simps, simp)+

lemma printk_plain:
  assumes "37 \<notin> set t" and "0 \<notin> set t" and "length t < printk_buf"
  shows "printk m (t @ [0]) args s = Some (int (length t), con_write t s)"
  using assms vsprintf_loop_plain [of t m "[]" args "[]" "[]"]
  by (simp add: printk_def vsprintf_def)

lemma prints_append:
  "prints m (xs @ ys) s = Option.bind (prints m xs s) (prints m ys)"
  by (induction m xs s rule: prints.induct) (simp_all split: option.splits)

lemma prints_plain:
  assumes "set (map of_char t) \<inter> {37, 0 :: u8} = {}" and "length t < printk_buf"
  shows "prints m ((t, args) # calls) s = prints m calls (con_write (map of_char t) s)"
  using assms printk_plain [of "map of_char t" m args s] by (simp add: lit_def)

section \<open>Directives\<close>

lemma directive_string:
  assumes "str_at m (unat p) t"
  shows "directive m n (115 # rest) (p # args) = Some (t, [], args, rest)"
proof -
  have "map (\<lambda>i. m (unat p + i)) [0..<length t] = t"
    using assms by (intro nth_equalityI) (simp_all add: str_at_def)
  then show ?thesis
    using str_end_correct [OF assms]
    by (simp add: directive_def conv_def conv_string_def is_digit_def fmt_flags pad_loop_def Let_def)
qed

lemma number_total: "2 \<le> base \<Longrightarrow> base \<le> 36 \<Longrightarrow> \<exists>out. number num base w p f = Some out"
  by (simp add: number_def Let_def case_prod_unfold split del: if_split)

text \<open>Text before a directive, and runs of \<^verbatim>\<open>%s\<close>.\<close>

lemma vsprintf_loop_prefix:
  "37 \<notin> set t \<Longrightarrow> 0 \<notin> set t \<Longrightarrow> vsprintf_loop m (t @ rest) args out wr = vsprintf_loop m rest args (out @ t) wr"
  by (induction t arbitrary: out) (simp, subst vsprintf_loop.simps, simp)

lemma vsprintf_loop_strings:
  "list_all2 (\<lambda>p t. str_at m (unat p) t) ps ts \<Longrightarrow>
   vsprintf_loop m (concat (replicate (length ps) [37, 115]) @ rest) (ps @ args) out wr =
     vsprintf_loop m rest args (out @ concat ts) wr"
proof (induction ps ts arbitrary: out rule: list_all2_induct)
  case (Cons p ps t ts)
  then show ?case by (subst vsprintf_loop.simps) (simp add: directive_string)
qed simp

lemma printk_string:
  assumes "str_at m (unat p) t" and "{37, 0} \<inter> set (map of_char a @ map of_char b) = ({} :: u8 set)"
    and "length a + length t + length b < printk_buf"
  shows "printk m (lit (a @ ''%s'' @ b)) [p] s =
    Some (int (length a + length t + length b), con_write (map of_char a @ t @ map of_char b) s)"
proof -
  have "vsprintf_loop m (lit (a @ ''%s'' @ b)) [p] [] [] =
      vsprintf_loop m (map of_char a @ concat (replicate (length [p]) [37, 115]) @ map of_char b @ [0]) ([p] @ []) [] []"
    by (simp add: lit_def)
  also have "\<dots> = vsprintf_loop m (concat (replicate (length [p]) [37, 115]) @ map of_char b @ [0]) ([p] @ []) (map of_char a) []"
    using assms(2) by (subst vsprintf_loop_prefix) auto
  also have "\<dots> = vsprintf_loop m (map of_char b @ [0]) [] (map of_char a @ t) []"
    using assms(1) by (subst vsprintf_loop_strings [where ts = "[t]"]) simp_all
  also have "\<dots> = Some (map of_char a @ t @ map of_char b, [])"
    using vsprintf_loop_plain [of "map of_char b" m "[]"] assms(2) by auto
  finally show ?thesis using assms(3) by (simp add: printk_def vsprintf_def)
qed

end
