(* ===== verification/Tfs_Cmd.thy ===== *)
theory Tfs_Cmd
  imports Vfs_File Tfs_Readdir Printk
begin

text \<open>
  The file commands of the shell, \<^verbatim>\<open>fs/tfs/tfs_cmd.c\<close>: system calls whose results are printed. File
  names are pointers; the arrays on the stack of a command are stretches of memory whose addresses are
  parameters. What the file system itself prints on its error paths does not appear on the console here.
\<close>

section \<open>State\<close>

text \<open>The file system layer, memory and the console.\<close>

record sys =
  sv :: vfs
  ram :: mem
  tty :: con

definition tell :: "u8 list \<Rightarrow> u32 list \<Rightarrow> sys \<Rightarrow> sys option" where
  "tell fmt args s = map_option (\<lambda>(_, c). s\<lparr>tty := c\<rparr>) (printk (ram s) fmt args (tty s))"

text \<open>The string behind a pointer, with its terminator.\<close>

definition cstr :: "mem \<Rightarrow> u32 \<Rightarrow> u8 list option" where
  "cstr m p = map_option (\<lambda>e. map m [unat p..<e] @ [0]) (str_end m (unat p))"

definition fmt_line :: "string \<Rightarrow> u8 list" where
  "fmt_line t = lit (t @ nl)"

text \<open>A system call on a path, and the error number printed if it is not 0.\<close>

definition path_command ::
  "(vfs \<Rightarrow> u8 list \<Rightarrow> (int \<times> vfs) option) \<Rightarrow> string \<Rightarrow> u32 \<Rightarrow> sys \<Rightarrow> sys option" where
  "path_command call msg p s =
     (case cstr (ram s) p of
        None \<Rightarrow> None
      | Some path \<Rightarrow>
          (case call (sv s) path of
             None \<Rightarrow> None
           | Some (err, v) \<Rightarrow>
               let s = s\<lparr>sv := v\<rparr> in
               if err \<noteq> 0 then tell (fmt_line msg) [word_of_int err] s else Some s))"

section \<open>Commands on paths\<close>

definition cd :: "u32 \<Rightarrow> sys \<Rightarrow> sys option" where
  "cd dst_dir s = path_command sys_chdir ''chdir error: %d'' dst_dir s"

definition cmd_mkdir :: "u32 \<Rightarrow> sys \<Rightarrow> sys option" where
  "cmd_mkdir filename s = path_command sys_mkdir ''mkdir error: %d'' filename s"

definition cmd_rmdir :: "u32 \<Rightarrow> sys \<Rightarrow> sys option" where
  "cmd_rmdir filename s = path_command sys_rmdir ''rmdir error: %d'' filename s"

text \<open>\<open>junk\<close> is the uninitialised result of \<^verbatim>\<open>tfs_unlink\<close> for something that is not a file.\<close>

definition rm :: "int \<Rightarrow> u32 \<Rightarrow> sys \<Rightarrow> sys option" where
  "rm junk filename s = path_command (sys_unlink junk) ''rm file error: %d'' filename s"

text \<open>The descriptor stays open.\<close>

definition touch :: "u32 \<Rightarrow> sys \<Rightarrow> sys option" where
  "touch filename s =
     path_command (\<lambda>v path. map_option (\<lambda>(fd, v). (if fd < 0 then fd else 0, v)) (sys_open v path LOOKUP_CREATE))
       ''touch file error: %d'' filename s"

section \<open>Showing a file\<close>

text \<open>
  The loop of \<^verbatim>\<open>cat\<close>. The buffer is not terminated: \<^verbatim>\<open>printk\<close> goes on in memory up to the next 0.
\<close>

partial_function (option) cat_loop :: "u32 \<Rightarrow> int \<Rightarrow> sys \<Rightarrow> sys option" where
  "cat_loop buf fd s =
     (case sys_read (sv s) (ram s) fd (unat buf) 1024 of
        None \<Rightarrow> None
      | Some (bytes_read, m, v) \<Rightarrow>
          let s = s\<lparr>sv := v, ram := m\<rparr> in
          if bytes_read > 0
          then (case tell [37, 115, 0] [buf] s of None \<Rightarrow> None | Some s \<Rightarrow> cat_loop buf fd s)
          else Some s)"

text \<open>The descriptor stays open.\<close>

definition cat :: "u32 \<Rightarrow> u32 \<Rightarrow> sys \<Rightarrow> sys option" where
  "cat buf filename s =
     (case cstr (ram s) filename of
        None \<Rightarrow> None
      | Some path \<Rightarrow>
          (case sys_open (sv s) path 0 of
             None \<Rightarrow> None
           | Some (fd, v) \<Rightarrow>
               let s = s\<lparr>sv := v\<rparr> in
               if fd < 0 then tell (fmt_line ''open file %s error:%d'') [filename, word_of_int fd] s
               else (case cat_loop buf fd s of None \<Rightarrow> None | Some s \<Rightarrow> tell [10, 0] [] s)))"

section \<open>Showing a directory\<close>

text \<open>\<^verbatim>\<open>struct dirent\<close> as it lies in memory.\<close>

definition dirent_bytes :: "dirent \<Rightarrow> u8 list" where
  "dirent_bytes d = bytes32 (de_ino d) @ bytes32 (de_off d) @
     bytes16 (de_reclen d) @ bytes16 (de_type d) @ de_name d"

definition ls_fmt :: "u8 list" where
  "ls_fmt = map of_char ''%6d'' @ [9, 32] @ map of_char ''%s'' @ [10, 0]"

definition ls_file_fmt :: "u8 list" where
  "ls_file_fmt = map of_char ''%d'' @ [9, 32] @ map of_char ''%s'' @ [10, 0]"

text \<open>
  The loop of \<^verbatim>\<open>ls\<close>. Every entry is freed before the next is allocated; \<open>p\<close> is the address that
  \<^verbatim>\<open>malloc\<close> gives each of them.
\<close>

partial_function (option) ls_loop :: "u32 \<Rightarrow> ofile \<Rightarrow> sys \<Rightarrow> (ofile \<times> sys) option" where
  "ls_loop p d s =
     (case objs (sv s) (o_inode d) of
        None \<Rightarrow> None
      | Some i \<Rightarrow>
          (case tfs_readdir (fsv (sv s)) \<lparr>f_inode = i, f_offset = o_offset d\<rparr> of
             None \<Rightarrow> None
           | Some (de, file', f) \<Rightarrow>
               let s = s\<lparr>sv := (sv s)\<lparr>fsv := f\<rparr>\<rparr>; d = d\<lparr>o_offset := f_offset file'\<rparr> in
               (case de of
                  None \<Rightarrow> Some (d, s)
                | Some e \<Rightarrow>
                    (case tell ls_fmt [de_ino e, p + 12] (s\<lparr>ram := put_bytes (ram s) (unat p) (dirent_bytes e)\<rparr>) of
                       None \<Rightarrow> None
                     | Some s \<Rightarrow> ls_loop p d s))))"

definition ls :: "u32 \<Rightarrow> u32 \<Rightarrow> sys \<Rightarrow> sys option" where
  "ls p filename s =
     (case cstr (ram s) filename of
        None \<Rightarrow> None
      | Some path \<Rightarrow>
          (case opendir (sv s) path of
             None \<Rightarrow> None
           | Some (Inl e, v) \<Rightarrow>
               tell (fmt_line ''open dir %s failed(%d)!'') [filename, word_of_int e] (s\<lparr>sv := v\<rparr>)
           | Some (Inr d, v) \<Rightarrow>
               (case objs v (o_inode d) of
                  None \<Rightarrow> None
                | Some i \<Rightarrow>
                    let close = (\<lambda>s. map_option (\<lambda>v. s\<lparr>sv := v\<rparr>) (tfs_closedir (sv s) (Some d)));
                        s = s\<lparr>sv := v\<rparr> in
                    if i_mode i = TFS_FILE
                    then Option.bind (tell ls_file_fmt [i_ino i, filename] s) close
                    else Option.bind (ls_loop p d s) (\<lambda>(_, s). close s))))"

section \<open>Copying a file\<close>

text \<open>The loop of \<^verbatim>\<open>cp\<close>: the result of \<^verbatim>\<open>sys_write\<close> is only looked at by debugging output.\<close>

partial_function (option) cp_loop :: "u32 \<Rightarrow> int \<Rightarrow> int \<Rightarrow> sys \<Rightarrow> sys option" where
  "cp_loop buf from_fd to_fd s =
     (case sys_read (sv s) (ram s) from_fd (unat buf) 1024 of
        None \<Rightarrow> None
      | Some (n, m, v) \<Rightarrow>
          let s = s\<lparr>sv := v, ram := m\<rparr> in
          if n > 0
          then (case sys_write v m to_fd (unat buf) n of
                  None \<Rightarrow> None
                | Some (_, v) \<Rightarrow> cp_loop buf from_fd to_fd (s\<lparr>sv := v\<rparr>))
          else Some s)"

definition close_fd :: "int \<Rightarrow> sys \<Rightarrow> sys option" where
  "close_fd fd s = map_option (\<lambda>(_, v). s\<lparr>sv := v\<rparr>) (sys_close (sv s) fd)"

definition cp :: "u32 \<Rightarrow> u32 \<Rightarrow> u32 \<Rightarrow> sys \<Rightarrow> sys option" where
  "cp buf from to s =
     (case cstr (ram s) from of
        None \<Rightarrow> None
      | Some path \<Rightarrow>
          (case sys_open (sv s) path 0 of
             None \<Rightarrow> None
           | Some (from_fd, v) \<Rightarrow>
               let s = s\<lparr>sv := v\<rparr> in
               if from_fd < 0 then tell (fmt_line ''open file %s error:%d'') [from, word_of_int from_fd] s
               else
          (case cstr (ram s) to of
             None \<Rightarrow> None
           | Some path \<Rightarrow>
               (case sys_open (sv s) path LOOKUP_CREATE of
                  None \<Rightarrow> None
                | Some (to_fd, v) \<Rightarrow>
                    let s = s\<lparr>sv := v\<rparr> in
                    if to_fd < 0
                    then Option.bind (tell (fmt_line ''open file %s error: %d'') [to, word_of_int to_fd] s)
                           (close_fd from_fd)
                    else Option.bind (cp_loop buf from_fd to_fd s)
                           (\<lambda>s. Option.bind (close_fd from_fd s) (close_fd to_fd))))))"

section \<open>Printing\<close>

lemma cstr_at: "str_at m (unat p) t \<Longrightarrow> cstr m p = Some (t @ [0])"
proof -
  assume t: "str_at m (unat p) t"
  then have "map m [unat p..<unat p + length t] = t"
    by (intro nth_equalityI) (simp_all add: str_at_def)
  then show ?thesis by (simp add: cstr_def str_end_correct [OF t])
qed

lemma tell_string:
  assumes "str_at (ram s) (unat p) t" and "length t < printk_buf"
  shows "tell [37, 115, 0] [p] s = Some (s\<lparr>tty := con_write t (tty s)\<rparr>)"
  using puts_writes [OF assms, of "tty s"] by (simp add: tell_def puts_def)

lemma tell_newline: "tell [10, 0] [] s = Some (s\<lparr>tty := con_write [10] (tty s)\<rparr>)"
  using printk_plain [of "[10]" "ram s" "[]" "tty s"] by (simp add: tell_def printk_buf_def)

lemma str_end_is_at: "str_end m p = Some e \<Longrightarrow> str_at m p (map m [p..<e])"
proof -
  assume "str_end m p = Some e"
  then have "p \<le> e \<and> m e = 0 \<and> (\<forall>x. p \<le> x \<and> x < e \<longrightarrow> m x \<noteq> 0)"
  proof (rule str_end.raw_induct [rotated])
    fix rec :: "mem \<Rightarrow> nat \<Rightarrow> nat option" and m dest y
    assume ih: "\<And>m dest y. rec m dest = Some y \<Longrightarrow>
        dest \<le> y \<and> m y = 0 \<and> (\<forall>x. dest \<le> x \<and> x < y \<longrightarrow> m x \<noteq> (0 :: u8))"
      and r: "(if m dest \<noteq> 0 then rec m (dest + 1) else Some dest) = Some y"
    show "dest \<le> y \<and> m y = 0 \<and> (\<forall>x. dest \<le> x \<and> x < y \<longrightarrow> m x \<noteq> 0)"
    proof (cases "m dest = 0")
      case False
      then have h: "rec m (dest + 1) = Some y" using r by simp
      have "m x \<noteq> 0" if x: "dest \<le> x" "x < y" for x
      proof (cases "x = dest")
        case False
        then have "dest + 1 \<le> x" using x by simp
        with ih [OF h] x show ?thesis by blast
      qed (use False in simp)
      with ih [OF h] show ?thesis by simp
    qed (use r in auto)
  qed
  then show ?thesis by (auto simp: str_at_def)
qed

text \<open>A string of 1024 bytes or more overruns the array in \<^verbatim>\<open>printk\<close>.\<close>

lemma tell_overflow:
  assumes "\<forall>i < printk_buf. ram s (unat p + i) \<noteq> 0"
  shows "tell [37, 115, 0] [p] s = None"
proof (cases "str_end (ram s) (unat p)")
  case None
  then have "directive (ram s) 0 [115, 0] [p] = None"
    by (simp add: directive_def conv_def conv_string_def is_digit_def pad_loop_def Let_def)
  then show ?thesis by (simp add: tell_def printk_def vsprintf_def vsprintf_loop.simps)
next
  case (Some e)
  from str_end_is_at [OF this] have t: "str_at (ram s) (unat p) (map (ram s) [unat p..<e])" .
  have "printk_buf \<le> length (map (ram s) [unat p..<e])"
  proof (rule ccontr)
    assume "\<not> ?thesis"
    then have "ram s (unat p + length (map (ram s) [unat p..<e])) \<noteq> 0" using assms by simp
    with t show False by (simp add: str_at_def)
  qed
  from puts_overflows [OF t this, of "tty s"] show ?thesis by (simp add: tell_def puts_def)
qed

section \<open>Reading a file in one piece\<close>

text \<open>A read at offset 0 that gets the whole of a small file, and the one that finds the end.\<close>

definition small_file :: "vfs \<Rightarrow> nat \<Rightarrow> nat \<Rightarrow> inode \<Rightarrow> u32 list \<Rightarrow> bool" where
  "small_file v fd a inode bs \<longleftrightarrow> readable v fd \<lparr>o_inode = a, o_offset = 0\<rparr> inode bs \<and>
     0 < i_size inode \<and> unat (i_size inode) < 1024"

text \<open>The byte of memory behind the file in the buffer after the read.\<close>

definition byte_behind :: "vfs \<Rightarrow> mem \<Rightarrow> nat \<Rightarrow> inode \<Rightarrow> u32 list \<Rightarrow> u8" where
  "byte_behind v m buf inode bs =
     (let len = unat (i_size inode) in
      if bsize (sbi (fsv v)) dvd len then m (buf + len) else content (fsv v) bs ! len)"

lemma ceil_blocks:
  assumes "0 < B" "0 < (need :: nat)"
  shows "(need + B - 1) div B * B = need \<longleftrightarrow> B dvd need" "need \<le> (need + B - 1) div B * B"
proof -
  have e: "need + B - 1 = (need - 1) + B" using assms by simp
  have "(need + B - 1) div B = (need - 1) div B + 1" unfolding e using assms(1) by (simp add: div_add_self2)
  then have "(need + B - 1) div B * B = ((need - 1) div B + 1) * B" by (simp only:)
  moreover have "need - 1 < ((need - 1) div B + 1) * B"
    using dividend_less_div_times [OF assms(1), of "need - 1"] by (simp add: add.commute)
  ultimately show le: "need \<le> (need + B - 1) div B * B" using assms(2) by simp
  show "(need + B - 1) div B * B = need \<longleftrightarrow> B dvd need"
  proof
    assume "B dvd need"
    then obtain q where q: "need = q * B" by (auto simp: dvd_def mult.commute)
    have "(need + B - 1) div B = ((B - 1) + q * B) div B" unfolding q using assms(1) by (intro arg_cong2 [where f = "(div)"]) simp_all
    also have "\<dots> = q" using assms(1) by (subst div_mult_self1) simp_all
    finally have "(need + B - 1) div B = q" .
    then show "(need + B - 1) div B * B = need" using q by simp
  qed (metis dvd_triv_right)
qed

lemma read_small_file:
  assumes f: "small_file v fd a inode bs"
  defines "len \<equiv> unat (i_size inode)"
  shows "\<exists>m' v'. sys_read v m (int fd) buf 1024 = Some (int len, m', v') \<and>
    (\<forall>i < len. m' (buf + i) = content (fsv v) bs ! i) \<and> m' (buf + len) = byte_behind v m buf inode bs \<and>
    (\<forall>m p. sys_read v' m (int fd) p 1024 = Some (0, m, v')) \<and> files v' ! fd \<noteq> None"
proof -
  let ?fl = "\<lparr>o_inode = a, o_offset = 0\<rparr>" and ?B = "bsize (sbi (fsv v))"
  have r: "readable v fd ?fl inode bs" and s: "0 < len" "len < 1024" "o_offset ?fl < i_size inode"
    using f unfolding small_file_def len_def by (simp_all add: word_less_nat_alt)
  have B: "0 < ?B" using bsize_range(1) [OF fs_ok_sbi] r file_wfD(2) unfolding readable_def
    by (metis less_le_trans zero_less_numeral)
  let ?k = "(len + ?B - 1) div ?B"
  let ?c = "take (?k * ?B) (content (fsv v) bs)"
  have need: "min 1024 (unat (i_size inode) - unat (o_offset ?fl)) = len" using s by (simp add: len_def)
  note x = sys_read_exact [OF r s(3), of 1024, unfolded need]
  obtain f' where rd: "sys_read v m (int fd) buf (int 1024) = Some (int len, memmove (put_bytes m buf ?c) buf buf len,
      set_file (v\<lparr>fsv := f'\<rparr>) (int fd) (?fl\<lparr>o_offset := i_size inode\<rparr>))" "same_volume (fsv v) f'"
    using x(1) [of m buf] by (auto simp: len_def)
  let ?v = "set_file (v\<lparr>fsv := f'\<rparr>) (int fd) (?fl\<lparr>o_offset := i_size inode\<rparr>)"
  have lc: "length ?c = ?k * ?B" using x(2) by simp
  have mem: "memmove (put_bytes m buf ?c) buf buf len = put_bytes m buf ?c"
    by (rule ext) (simp add: memmove_correct)
  have le: "len \<le> ?k * ?B" "?k * ?B = len \<longleftrightarrow> ?B dvd len" using ceil_blocks [OF B s(1)] by simp_all
  have "put_bytes m buf ?c (buf + i) = content (fsv v) bs ! i" if "i < len" for i
  proof -
    have "i < ?k * ?B" using that le(1) by (rule order_less_le_trans)
    then show ?thesis unfolding put_bytes_at lc by simp
  qed
  moreover have "put_bytes m buf ?c (buf + len) = byte_behind v m buf inode bs"
  proof (cases "?B dvd len")
    case True
    then have "\<not> len < length ?c" using le(2) unfolding lc by simp
    then show ?thesis unfolding put_bytes_at byte_behind_def Let_def len_def [symmetric] using True by (simp only: if_False if_True)
  next
    case False
    then have "?k * ?B \<noteq> len" unfolding le(2) .
    with le(1) have l: "len < ?k * ?B" by linarith
    then show ?thesis unfolding put_bytes_at lc byte_behind_def Let_def len_def [symmetric]
      using False by (simp only: if_False if_True nth_take)
  qed
  moreover have "readable ?v fd (?fl\<lparr>o_offset := i_size inode\<rparr>) inode bs"
    using r by (subst readable_next [OF r rd(2)]) (simp add: readable_def)
  then have "sys_read ?v m (int fd) p (int 1024) = Some (0, m, ?v)" for m p
    by (rule sys_read_end) simp_all
  moreover have "files ?v ! fd \<noteq> None" using r by (simp add: set_file_def readable_def)
  ultimately show ?thesis using rd(1) unfolding mem by (intro exI [of _ "put_bytes m buf ?c"] exI [of _ ?v]) simp
qed

lemma length_content: "readable v fd fl inode bs \<Longrightarrow> unat (i_size inode) \<le> length (content (fsv v) bs)"
  unfolding content_def readable_def
  using concat_blocks(3) [of "fblock (fsv v)" "bsize (sbi (fsv v))" bs] fsc.content_len file_wfD(2) by metis

lemma cat_loop_small:
  assumes f: "small_file (sv s) fd a inode bs" and t: "text = take (unat (i_size inode)) (content (fsv (sv s)) bs)"
    and "0 \<notin> set text" and "byte_behind (sv s) (ram s) (unat buf) inode bs = 0"
  shows "\<exists>s'. cat_loop buf (int fd) s = Some s' \<and> tty s' = con_write text (tty s) \<and> files (sv s') ! fd \<noteq> None"
proof -
  obtain m' v' where r: "sys_read (sv s) (ram s) (int fd) (unat buf) 1024 = Some (int (unat (i_size inode)), m', v')"
    "\<forall>i < unat (i_size inode). m' (unat buf + i) = content (fsv (sv s)) bs ! i"
    "m' (unat buf + unat (i_size inode)) = 0"
    "\<And>m p. sys_read v' m (int fd) p 1024 = Some (0, m, v')" "files v' ! fd \<noteq> None"
    using read_small_file [OF f, of "ram s" "unat buf"] unfolding assms(4) by blast
  have l: "length text = unat (i_size inode)" "0 < unat (i_size inode)" "unat (i_size inode) < 1024"
    using length_content f unfolding t small_file_def by (auto simp: word_less_nat_alt)
  have pos: "0 < int (unat (i_size inode))" using l(2) by (simp only: of_nat_0_less_iff)
  let ?s = "s\<lparr>sv := v', ram := m'\<rparr>"
  have "str_at (ram ?s) (unat buf) text" using assms(3) r(2,3) l by (simp add: str_at_def t)
  then have w: "tell [37, 115, 0] [buf] ?s = Some (?s\<lparr>tty := con_write text (tty ?s)\<rparr>)"
    using l by (intro tell_string) (simp_all add: printk_buf_def)
  let ?s' = "?s\<lparr>tty := con_write text (tty s)\<rparr>"
  have "cat_loop buf (int fd) ?s' = Some (?s'\<lparr>sv := v', ram := m'\<rparr>)"
    using r(4) by (subst cat_loop.simps) simp
  then have "cat_loop buf (int fd) s = Some (?s'\<lparr>sv := v', ram := m'\<rparr>)"
    using r(1) w pos by (subst cat_loop.simps) (simp add: Let_def)
  with r(5) show ?thesis by simp
qed

text \<open>
  A file whose first 1024 bytes are not 0 fills the buffer to its end, so that \<^verbatim>\<open>printk\<close> is handed a
  string that does not fit its own array.
\<close>

lemma cat_long_file:
  assumes "str_at (ram s) (unat p) path" and "sys_open (sv s) (path @ [0]) 0 = Some (int fd, v)"
    and r: "readable v fd \<lparr>o_inode = a, o_offset = 0\<rparr> inode bs" and "1024 \<le> unat (i_size inode)"
    and "\<forall>i < 1024. content (fsv v) bs ! i \<noteq> 0"
  shows "cat buf p s = None"
proof -
  let ?fl = "\<lparr>o_inode = a, o_offset = 0\<rparr>" and ?B = "bsize (sbi (fsv v))"
  have o: "o_offset ?fl < i_size inode" using assms(4) by (simp add: word_less_nat_alt)
  have n: "min 1024 (unat (i_size inode) - unat (o_offset ?fl)) = 1024" using assms(4) by simp
  have B: "0 < ?B" using bsize_range(1) [OF fs_ok_sbi] r file_wfD(2) unfolding readable_def
    by (metis less_le_trans zero_less_numeral)
  obtain m' f' where rd: "sys_read v (ram s) (int fd) (unat buf) (int 1024) =
      Some (int 1024, m', set_file (v\<lparr>fsv := f'\<rparr>) (int fd) (?fl\<lparr>o_offset := o_offset ?fl + word_of_nat 1024\<rparr>))"
    "\<forall>i < 1024. m' (unat buf + i) =
       (if unat (o_offset ?fl) mod ?B + i < (1024 + ?B - 1) div ?B * ?B
        then content (fsv v) bs ! (unat (o_offset ?fl) + i) else ram s (unat buf + unat (o_offset ?fl) mod ?B + i))"
    using sys_read_ok [OF r o, of 1024 "ram s" "unat buf", unfolded n] by auto
  have "m' (unat buf + i) \<noteq> 0" if i: "i < 1024" for i
  proof -
    have "unat (o_offset ?fl) mod ?B + i < (1024 + ?B - 1) div ?B * ?B"
      using i ceil_blocks(2) [OF B, of 1024] by simp
    from rd(2) [rule_format, OF i, unfolded if_P [OF this]] show ?thesis using assms(5) i by simp
  qed
  then have "tell [37, 115, 0] [buf] (s\<lparr>sv := set_file (v\<lparr>fsv := f'\<rparr>) (int fd) (?fl\<lparr>o_offset := 1024\<rparr>), ram := m'\<rparr>) = None"
    by (intro tell_overflow) (simp add: printk_buf_def)
  then have "cat_loop buf (int fd) (s\<lparr>sv := v\<rparr>) = None"
    using rd(1) by (subst cat_loop.simps) simp
  then show ?thesis by (simp add: cat_def cstr_at [OF assms(1)] assms(2))
qed

section \<open>Printing a directory\<close>

text \<open>The line of an entry: the inode number in six places, a tab and a blank, the name.\<close>

definition ls_line :: "u32 \<Rightarrow> u8 list \<Rightarrow> u8 list" where
  "ls_line ino name = the (number ino 10 6 (- 1) SIGN) @ [9, 32] @ name @ [10]"

lemma tell_ls_line:
  assumes t: "str_at (ram s) (unat p) t" and l: "length t \<le> 255"
  shows "tell ls_fmt [ino, p] s = Some (s\<lparr>tty := con_write (ls_line ino t) (tty s)\<rparr>)"
proof -
  obtain d where d: "number ino 10 6 (- 1) SIGN = Some d" using number_total [of 10] by fastforce
  have ld: "length d \<le> 35" using number_bounds [OF d] by simp
  have fmt: "ls_fmt = [37, 54, 100, 9, 32, 37, 115, 10, 0]" by (simp add: ls_fmt_def)
  have "directive (ram s) 0 [54, 100, 9, 32, 37, 115, 10, 0] [ino, p] = Some (d, [], [p], [9, 32, 37, 115, 10, 0])"
    using d by (simp add: directive_def conv_def is_digit_def fmt_flags Let_def)
  then have "vsprintf (ram s) ls_fmt [ino, p] = Some (int (length (ls_line ino t)), ls_line ino t @ [0], [])"
    by (simp add: fmt vsprintf_def vsprintf_loop.simps directive_string [OF t] ls_line_def d)
  moreover have "length (ls_line ino t @ [0]) \<le> printk_buf" using ld l by (simp add: ls_line_def d printk_buf_def)
  ultimately show ?thesis by (simp add: tell_def printk_def)
qed

text \<open>The name of an entry as it lies in a \<^verbatim>\<open>struct dirent\<close>.\<close>

lemma dirent_name_at:
  assumes "length (slice (off + 4) TFS_NAME_LEN b) = TFS_NAME_LEN"
  shows "str_at (put_bytes m p (dirent_bytes \<lparr>de_ino = i, de_off = j, de_reclen = r, de_type = t,
      de_name = take TFS_NAME_LEN (d_name b off) @ replicate (256 - TFS_NAME_LEN) 0\<rparr>)) (p + 12) (entry_name b off)"
    (is "str_at (put_bytes m p ?d) _ ?n")
proof -
  let ?name = "slice (off + 4) TFS_NAME_LEN b"
  have d: "drop 12 ?d = ?name @ replicate (256 - TFS_NAME_LEN) 0"
    by (simp add: dirent_bytes_def bytes32_def bytes16_def slice_def d_name_def)
  have l: "length ?d = 12 + 256" using arg_cong [OF d, of length] assms by (simp add: TFS_NAME_LEN_def)
  have at: "put_bytes m p ?d (p + 12 + k) = (?name @ replicate (256 - TFS_NAME_LEN) 0) ! k" if "k < 256" for k
    using that l arg_cong [OF d, of "\<lambda>xs. xs ! k"] by (simp add: put_bytes_at add.assoc)
  have n: "length ?n \<le> TFS_NAME_LEN" "0 \<notin> set ?n"
    using length_takeWhile_le [of "\<lambda>c. c \<noteq> 0" ?name] assms by (auto simp: entry_name_def dest: set_takeWhileD)
  have "?n = take (length ?n) ?name" unfolding entry_name_def by (rule takeWhile_eq_take)
  then have "?name ! k = ?n ! k" if "k < length ?n" for k using that by (metis nth_take)
  then have "put_bytes m p ?d (p + 12 + k) = ?n ! k" if "k < length ?n" for k
    using that at [of k] n(1) assms by (simp add: nth_append TFS_NAME_LEN_def)
  moreover have "(?name @ replicate (256 - TFS_NAME_LEN) 0) ! length ?n = 0"
  proof (cases "length ?n < length ?name")
    case True
    then show ?thesis using nth_length_takeWhile [of "\<lambda>c. c \<noteq> 0" ?name] by (simp add: entry_name_def nth_append)
  next
    case False
    then show ?thesis using n(1) assms by (simp add: nth_append TFS_NAME_LEN_def)
  qed
  then have "put_bytes m p ?d (p + 12 + length ?n) = 0" using at [of "length ?n"] n(1) by (simp add: TFS_NAME_LEN_def)
  ultimately show ?thesis using n(2) by (simp add: str_at_def)
qed

definition show_entry :: "tfs \<Rightarrow> u32 \<times> nat \<Rightarrow> con \<Rightarrow> con" where
  "show_entry f e = (case e of (b, off) \<Rightarrow>
     con_write (ls_line (d_inode (fblock f b) off) (entry_name (fblock f b) off)))"

lemma tell_slot:
  assumes ok: "fs_ok f" and k: "k < length bs * slots f" and p: "unat p + 12 < 2 ^ 32"
    and r: "ram s = put_bytes m (unat p) (dirent_bytes (slot_dirent f bs k))"
  shows "tell ls_fmt [de_ino (slot_dirent f bs k), p + 12] s =
    Some (s\<lparr>tty := show_entry f (slot_place f bs k) (tty s)\<rparr>)"
proof -
  obtain b off where b: "slot_place f bs k = (b, off)" by force
  have "0 < slots f" using slots_size [OF ok] by simp
  then have "off + dirent_size \<le> bsize (sbi f)"
    using b slot_room [OF ok, of "k mod slots f"] by (auto simp: slot_place_def)
  moreover have "length (fblock f b) = bsize (sbi f)" by (rule fsc.content_len [OF ok])
  ultimately have l: "length (slice (off + 4) TFS_NAME_LEN (fblock f b)) = TFS_NAME_LEN"
    by (simp add: dirent_size_def TFS_NAME_LEN_def)
  have d: "slot_dirent f bs k = \<lparr>de_ino = d_inode (fblock f b) off, de_off = word_of_nat (k * dirent_size),
      de_reclen = word_of_nat dirent_size, de_type = 0,
      de_name = take TFS_NAME_LEN (d_name (fblock f b) off) @ replicate (256 - TFS_NAME_LEN) 0\<rparr>"
    by (simp add: slot_dirent_def b)
  have "unat (p + 12) = unat p + 12" using p by (simp add: unat_add_u32)
  then have at: "str_at (ram s) (unat (p + 12)) (entry_name (fblock f b) off)"
    using dirent_name_at [OF l] by (simp only: r d)
  have "length (entry_name (fblock f b) off) \<le> 255"
    using length_takeWhile_le [of "\<lambda>c. c \<noteq> 0" "slice (off + 4) TFS_NAME_LEN (fblock f b)"] l
    by (simp add: entry_name_def TFS_NAME_LEN_def)
  from tell_ls_line [OF at this, of "d_inode (fblock f b) off"] show ?thesis
    by (simp add: d b show_entry_def)
qed

lemma ls_loop_from:
  assumes "fs_ok (fsv (sv s))" and "room (fsv (sv s)) = []" and "objs (sv s) (o_inode d) = Some dir"
    and "dir_wf (fsv (sv s)) dir bs" and "n \<le> length bs * slots (fsv (sv s))"
    and "o_offset d = word_of_nat (n * dirent_size)" and p: "unat p + 12 < 2 ^ 32"
  shows "\<exists>d' s'. ls_loop p d s = Some (d', s') \<and> o_inode d' = o_inode d \<and>
    tty s' = fold (show_entry (fsv (sv s))) (map (slot_place (fsv (sv s)) bs) (used_slots (fsv (sv s)) bs n)) (tty s) \<and>
    same_volume (fsv (sv s)) (fsv (sv s')) \<and> sv s' = (sv s)\<lparr>fsv := fsv (sv s')\<rparr>"
  using assms(1-6)
proof (induction "used_slots (fsv (sv s)) bs n" arbitrary: n s d)
  case Nil
  let ?f = "fsv (sv s)"
  have d: "\<lparr>f_inode = dir, f_offset = o_offset d\<rparr> = \<lparr>f_inode = dir, f_offset = word_of_nat (n * dirent_size)\<rparr>"
    using Nil.prems(6) by simp
  obtain f' where f': "same_volume ?f f'" "tfs_readdir ?f \<lparr>f_inode = dir, f_offset = o_offset d\<rparr> =
      Some (None, \<lparr>f_inode = dir, f_offset = word_of_nat (length bs * slots ?f * dirent_size)\<rparr>, f')"
    using readdir_from [OF Nil.prems(1,2,4,5)] Nil.hyps unfolding d by (auto simp del: of_nat_mult)
  then show ?case using Nil by (subst ls_loop.simps) (simp add: Let_def)
next
  case (Cons k ks)
  let ?f = "fsv (sv s)"
  have d: "\<lparr>f_inode = dir, f_offset = o_offset d\<rparr> = \<lparr>f_inode = dir, f_offset = word_of_nat (n * dirent_size)\<rparr>"
    using Cons.prems(6) by simp
  note k = Cons.hyps(2) [symmetric]
  obtain f' where f': "same_volume ?f f'" "tfs_readdir ?f \<lparr>f_inode = dir, f_offset = o_offset d\<rparr> =
      Some (Some (slot_dirent ?f bs k), \<lparr>f_inode = dir, f_offset = word_of_nat (Suc k * dirent_size)\<rparr>, f')"
    using readdir_from [OF Cons.prems(1,2,4,5)] unfolding d k by (auto simp del: of_nat_mult)
  have lt: "k < length bs * slots ?f" using used_slots_bound [of k ?f bs n] k by simp
  let ?s = "s\<lparr>sv := (sv s)\<lparr>fsv := f'\<rparr>, ram := put_bytes (ram s) (unat p) (dirent_bytes (slot_dirent ?f bs k))\<rparr>"
  let ?s' = "?s\<lparr>tty := show_entry ?f (slot_place ?f bs k) (tty s)\<rparr>"
  let ?d = "d\<lparr>o_offset := word_of_nat (Suc k * dirent_size)\<rparr>"
  have t: "tell ls_fmt [de_ino (slot_dirent ?f bs k), p + 12] ?s = Some ?s'"
    using tell_slot [OF Cons.prems(1) lt p, of ?s "ram s"] by simp
  have step: "ls_loop p d s = ls_loop p ?d ?s'"
    using Cons.prems(3) f'(2) t by (subst ls_loop.simps) (simp add: Let_def del: of_nat_mult)
  note e = same_volume_slots [OF f'(1)] same_volume_views(1) [OF f'(1)]
  have v: "fs_ok f'" "same_mount ?f f'" "fblock f' = fblock ?f" using f'(1) by (simp_all add: same_volume_def)
  then have f: "fs_ok f'" "room f' = []" "fblock f' = fblock ?f" "dir_wf f' dir bs"
    using Cons.prems(2,4) same_volume_keeps(4) [OF f'(1)] by simp_all
  have show_: "show_entry f' = show_entry ?f" by (simp add: show_entry_def fun_eq_iff f(3))
  have "ks = used_slots (fsv (sv ?s')) bs (Suc k)" using used_slots_next [OF k] by (simp add: e)
  from Cons.hyps(1) [OF this, of ?d] obtain d' s' where
    r: "ls_loop p ?d ?s' = Some (d', s')" "o_inode d' = o_inode d" "same_volume f' (fsv (sv s'))"
      "tty s' = fold (show_entry ?f) (map (slot_place ?f bs) (used_slots ?f bs (Suc k))) (tty ?s')"
      "sv s' = (sv ?s')\<lparr>fsv := fsv (sv s')\<rparr>"
    using f Cons.prems(3) lt by (auto simp: e show_ simp del: of_nat_mult)
  then show ?case
    using step same_volume_trans [OF f'(1) r(3)] used_slots_next [OF k] by (simp add: k)
qed

section \<open>A small file for the witnesses\<close>

definition opened :: "vfs \<Rightarrow> vfs" where
  "opened v = v\<lparr>fds := (replicate MAX_FD 0)[0 := 1],
     files := (replicate MAX_FD None)[0 := Some \<lparr>o_inode = 0, o_offset = 0\<rparr>]\<rparr>"

lemma written_once:
  obtains f inode bs where "room f = []" and "bsize (sbi f) = 16384" and "file_wf f inode bs" and "0 < length bs"
    and "i_blksize inode = 16384" and "take 16384 (content f bs) = get_bytes src 0 16384"
proof -
  have r: "length ([] :: u32 list) < TFS_N_BLOCKS" by (simp add: TFS_N_BLOCKS_def)
  let ?i = "\<lambda>w. empty_dir\<lparr>i_data := (i_data empty_dir)[length ([] :: u32 list) := w]\<rparr>"
  obtain w f where a: "file_wf f (?i w) ([] @ [w])" "same_mount layout_fs f"
    by (rule file_wf_alloc [OF empty_file_wf r layout_mounted(3)], rule that)
  have f: "room f = []" "sbi f = big_block_sbi" using a(2) by (simp_all add: layout_fs_def demo_fs_def)
  have sz: "bsize (sbi f) = 16384" using big_block_volume(3) by (simp add: f)
  let ?fl = "\<lparr>f_inode = ?i w, f_offset = 0\<rparr>"
  have wf: "file_wf f (f_inode ?fl) [w]" using a(1) by simp
  have "0 \<le> length [w]" "0 < (1 :: nat)" "0 + 1 \<le> TFS_N_BLOCKS" by (simp_all add: TFS_N_BLOCKS_def)
  from tfs_write_ok [OF wf this, of 0 src 0] obtain fl' :: tfile and f' bs' old where
    w: "written_file f [w] 0 0 1 src 0 (f_inode ?fl) f' (f_inode fl') bs' old" by (auto simp del: One_nat_def)
  have m: "file_wf f' (f_inode fl') bs'" "same_mount f f'" "1 \<le> length bs'"
      "concat (map (fblock f') (slice 0 1 bs')) = get_bytes src 0 16384"
    using w sz by (simp_all add: written_file_def)
  let ?inode = "(f_inode fl')\<lparr>i_blksize := 16384\<rparr>"
  have wf': "file_wf f' ?inode bs'" using m(1) by (simp add: file_wf_def inr_of_def)
  have s': "bsize (sbi f') = 16384" "room f' = []" using m(2) sz f by simp_all
  then have "take (1 * 16384) (content f' bs') = concat (map (fblock f') (take 1 bs'))"
    unfolding content_def using concat_blocks(2) [of "fblock f'" 16384 1 bs'] fsc.content_len [OF file_wfD(2) [OF wf']] by simp
  also have "\<dots> = get_bytes src 0 16384" using m(4) by (simp add: slice_def)
  finally have "take 16384 (content f' bs') = get_bytes src 0 16384" by (simp only: mult_1)
  then show thesis using that [of f' ?inode bs'] s' wf' m(3) by (simp add: Suc_le_eq)
qed

lemma text_file:
  assumes "0 < n" and "n < 1024"
  obtains f inode bs where "room f = []" and "small_file (opened (one_file f inode)) 0 0 inode bs"
    and "unat (i_size inode) = n" and "bsize (sbi f) = 16384"
    and "\<forall>i < 16384. content f bs ! i = src i" and "16384 \<le> length (content f bs)"
proof -
  obtain f inode bs where w: "room f = []" "bsize (sbi f) = 16384" "file_wf f inode bs" "0 < length bs"
    "i_blksize inode = 16384" "take 16384 (content f bs) = get_bytes src 0 16384" by (rule written_once)
  let ?i = "inode\<lparr>i_size := word_of_nat n\<rparr>"
  have n: "unat (word_of_nat n :: u32) = n" using assms(2) by (intro unat_of_nat_u32) simp
  have "file_wf f ?i bs" using w(3) by (simp add: file_wf_def inr_of_def)
  moreover have "(word_of_nat n :: u32) \<noteq> 0" using n assms(1) by auto
  then have "0 < (word_of_nat n :: u32)" by (simp add: word_gt_0)
  ultimately have s: "small_file (opened (one_file f ?i)) 0 0 ?i bs"
    using w(2,4,5) assms n unfolding small_file_def readable_def
    by (simp add: opened_def one_file_def MAX_FD_def Suc_le_eq [symmetric])
  have "content f bs ! i = src i" if "i < 16384" for i
    using arg_cong [OF w(6), of "\<lambda>xs. xs ! i"] that by (simp add: get_bytes_def)
  moreover have "16384 \<le> length (content f bs)" using arg_cong [OF w(6), of length] by simp
  ultimately show thesis using that [of f ?i bs] w(1,2) s n by simp
qed

lemma small_text:
  obtains f inode bs where "room f = []" and "small_file (opened (one_file f inode)) 0 0 inode bs"
    and "i_size inode = 5" and "bsize (sbi f) = 16384"
    and "take 5 (content f bs) = replicate 5 65" and "content f bs ! 5 = 0"
proof -
  obtain f inode bs where f: "room f = []" "small_file (opened (one_file f inode)) 0 0 inode bs"
    "unat (i_size inode) = 5" "bsize (sbi f) = 16384"
    "\<forall>i < 16384. content f bs ! i = (if i < 5 then 65 else 0)" "16384 \<le> length (content f bs)"
    by (rule text_file [of 5]) simp_all
  have "i_size inode = 5" using f(3) by (intro unsigned_word_eqI) simp
  moreover have "take 5 (content f bs) = replicate 5 65" using f(5,6) by (intro nth_equalityI) simp_all
  ultimately show thesis using that [of f inode bs] f by simp
qed

section \<open>Properties\<close>

text \<open>
  \<^verbatim>\<open>cat\<close> shows a small file. If the path opens as a sound file of 1 to 1023 bytes without a 0 among
  them, and the byte that follows it in the buffer - the next one of its last block, or of the stack when
  it ends with a block - is 0, \<^verbatim>\<open>cat\<close> ends, and the console has got the bytes of the file and a new
  line. The descriptor is still open afterwards.
\<close>

theorem cat_shows_file:
  assumes "str_at (ram s) (unat p) path" and "sys_open (sv s) (path @ [0]) 0 = Some (int fd, v)"
    and "small_file v fd a inode bs" and "text = take (unat (i_size inode)) (content (fsv v) bs)"
    and "0 \<notin> set text" and "byte_behind v (ram s) (unat buf) inode bs = 0"
  shows "\<exists>s'. cat buf p s = Some s' \<and> tty s' = con_write [10] (con_write text (tty s)) \<and>
    files (sv s') ! fd \<noteq> None"
proof -
  have f: "small_file (sv (s\<lparr>sv := v\<rparr>)) fd a inode bs" "text = take (unat (i_size inode)) (content (fsv (sv (s\<lparr>sv := v\<rparr>))) bs)"
    "byte_behind (sv (s\<lparr>sv := v\<rparr>)) (ram (s\<lparr>sv := v\<rparr>)) (unat buf) inode bs = 0" using assms(3,4,6) by simp_all
  from cat_loop_small [OF f(1,2) assms(5) f(3)] obtain s' where
    s': "cat_loop buf (int fd) (s\<lparr>sv := v\<rparr>) = Some s'" "tty s' = con_write text (tty s)" "files (sv s') ! fd \<noteq> None" by auto
  then show ?thesis by (simp add: cat_def cstr_at [OF assms(1)] assms(2) tell_newline)
qed

theorem cat_shows_file_witness:
  "\<exists>s s'. cat 4096 256 s = Some s' \<and> tty s' = con_write [10] (con_write [65, 65, 65, 65, 65] (tty s)) \<and>
    files (sv s') ! 0 \<noteq> None"
proof -
  obtain f inode bs where f: "room f = []" "small_file (opened (one_file f inode)) 0 0 inode bs"
    "i_size inode = 5" "bsize (sbi f) = 16384" "take 5 (content f bs) = replicate 5 65" "content f bs ! 5 = 0"
    by (rule small_text)
  define s where "s = \<lparr>sv = one_file f inode, ram = (\<lambda>_. 0)(256 := 47), tty = con_init undefined\<rparr>"
  have "str_at (ram s) (unat (256 :: u32)) [47]" by (simp add: s_def)
  moreover have "sys_open (sv s) ([47] @ [0]) 0 = Some (int 0, opened (one_file f inode))"
    using one_file_open(3) [OF f(1)] by (simp add: s_def opened_def)
  moreover have "[65, 65, 65, 65, 65] = take (unat (i_size inode)) (content (fsv (opened (one_file f inode))) bs)"
  proof -
    have "replicate 5 (65 :: u8) = [65, 65, 65, 65, 65]" by (simp add: numeral_eq_Suc)
    then show ?thesis using f(3,5) by (simp add: opened_def one_file_def)
  qed
  moreover have "byte_behind (opened (one_file f inode)) (ram s) (unat (4096 :: u32)) inode bs = 0"
    using f(3,4,6) by (simp add: byte_behind_def opened_def one_file_def)
  moreover have "0 \<notin> set [65, 65, 65, 65, 65 :: u8]" by simp
  ultimately show ?thesis
    using cat_shows_file [OF _ _ f(2), of s 256 "[47]" "[65, 65, 65, 65, 65]" 4096] by blast
qed

text \<open>
  C19: \<^verbatim>\<open>ls\<close> shows a directory. If the path leads to a well-formed directory and memory is left, \<^verbatim>\<open>ls\<close>
  ends, and the console has got one line for each used entry of the directory, in the order of the
  entries on the disk: the inode number in six places and the whole name. Nothing on the volume has
  changed, and the object of the directory is freed unless it is the current directory.
\<close>

theorem ls_shows_entries:
  assumes "str_at (ram s) (unat p) path" and "namei (sv s) (path @ [0]) 0 = Some (Ptr a, v)"
    and "objs v a = Some dir" and "i_mode dir = TFS_DIR" and "fs_ok (fsv v)" and "dir_wf (fsv v) dir bs"
    and "room (fsv v) = []" and "unat q + 12 < 2 ^ 32"
  shows "\<exists>s'. ls q p s = Some s' \<and> tty s' = fold (show_entry (fsv v)) (entries_of (fsv v) bs) (tty s) \<and>
    same_volume (fsv v) (fsv (sv s')) \<and> (Ptr a \<noteq> pwd v \<longrightarrow> objs (sv s') a = None)"
proof -
  let ?d = "\<lparr>o_inode = a, o_offset = 0\<rparr>" and ?s = "s\<lparr>sv := v\<rparr>"
  have m: "malloc_ok (fsv v) = (True, fsv v)" by (simp add: malloc_ok_def assms(7))
  have o: "opendir (sv s) (path @ [0]) = Some (Inr ?d, v)" by (simp add: opendir_def assms(2,3) m)
  obtain d' s' where l: "ls_loop q ?d ?s = Some (d', s')" "o_inode d' = a" "same_volume (fsv v) (fsv (sv s'))"
    "tty s' = fold (show_entry (fsv v)) (map (slot_place (fsv v) bs) (used_slots (fsv v) bs 0)) (tty s)"
    "sv s' = v\<lparr>fsv := fsv (sv s')\<rparr>"
    using ls_loop_from [of ?s ?d dir bs 0 q] assms(3,5-8) by auto
  have "0 < slots (fsv v)" using slots_size [OF assms(5)] by simp
  then have t: "tty s' = fold (show_entry (fsv v)) (entries_of (fsv v) bs) (tty s)"
    using l(4) by (simp only: entries_of_slots)
  have ob: "objs (sv s') a = Some dir" "pwd (sv s') = pwd v" using assms(3) by (subst l(5), simp)+
  have c: "tfs_closedir (sv s') (Some ?d) = Some (if Ptr a = pwd v then sv s' else (sv s')\<lparr>objs := (objs (sv s'))(a := None)\<rparr>)"
    using ob by (simp add: tfs_closedir_def free_inode_def)
  have "ls q p s = Some (s'\<lparr>sv := if Ptr a = pwd v then sv s' else (sv s')\<lparr>objs := (objs (sv s'))(a := None)\<rparr>\<rparr>)"
    using assms(3,4) by (simp add: ls_def cstr_at [OF assms(1)] o l(1) c TFS_DIR_def TFS_FILE_def Let_def)
  then show ?thesis using t l(3) by simp
qed

theorem ls_shows_entries_witness:
  "\<exists>s s' f bs. ls 8192 256 s = Some s' \<and> listing f bs = {([97], 2)} \<and>
    tty s' = fold (show_entry f) (entries_of f bs) (tty s)"
proof -
  have r: "length ([] :: u32 list) < TFS_N_BLOCKS" and i: "word_of_int 2 \<noteq> (0 :: u32)" by (simp_all add: TFS_N_BLOCKS_def)
  obtain f dir b where e: "entry_added layout_fs empty_dir [] [97] 2 f dir ([] @ [b])"
    by (rule add_block_ok [OF layout_mounted(1-5) r name_a(2,3) i], rule that)
  have f: "fs_ok f" "dir_wf f dir [b]" "listing f [b] = {([97], 2)}"
    using entry_addedD(1,3,4) [OF e] by (simp_all add: listing_def)
  have d: "i_mode dir = TFS_DIR" using arg_cong [OF entry_addedD(5) [OF e], of i_mode] by (simp add: empty_dir_def)
  have m: "room f = []" unfolding same_mountD(4) [OF entry_addedD(2) [OF e]] by (simp add: layout_fs_def demo_fs_def)
  define s where "s = \<lparr>sv = one_file f dir, ram = (\<lambda>_. 0)(256 := 47), tty = con_init undefined\<rparr>"
  have p: "str_at (ram s) (unat (256 :: u32)) [47]" by (simp add: s_def)
  have n: "namei (sv s) ([47] @ [0]) 0 = Some (Ptr 0, one_file f dir)"
    using one_file_open(2) [OF m] by (simp add: s_def)
  have ob: "objs (one_file f dir) 0 = Some dir" and fe: "fsv (one_file f dir) = f" by (simp_all add: one_file_def)
  have q: "unat (8192 :: u32) + 12 < 2 ^ 32" by simp
  obtain s' where "ls 8192 256 s = Some s'" "tty s' = fold (show_entry f) (entries_of f [b]) (tty s)"
    using ls_shows_entries [OF p n ob d _ _ _ q, unfolded fe, OF f(1,2) m] by blast
  with f(3) show ?thesis by blast
qed

end
