(* ===== verification/Tfs_Copy.thy ===== *)
theory Tfs_Copy
  imports Tfs_Cmd
begin

text \<open>
  What \<^verbatim>\<open>cp\<close> achieves: \<^verbatim>\<open>sys_write\<close> at a block boundary, and the copying loop of \<^verbatim>\<open>cp\<close>, which reads and
  writes 1024 bytes at a time, on a volume with blocks of 512 or 1024 bytes.
\<close>

section \<open>Writing through a descriptor\<close>

text \<open>A file that another one grew beside.\<close>

lemma file_wf_beside:
  assumes a: "file_wf f inode bs" and b: "file_wf f' inode' cs'" and m: "same_mount f f'" and g: "grown f cs f' cs'"
  shows "file_wf f' inode bs"
proof -
  have e: "sbi f' = sbi f" "fvalid f' = fvalid f" "bitmap_bits f' = bitmap_bits f" "inode_block f' = inode_block f"
    using m tinode_of_same [OF m] by (simp_all add: bitmap_bits_def)
  have "block_used f' k" if "k < bitmap_bits f" "block_used f k" for k
    using g that by (simp add: grown_def)
  then have "owns f' bs" "owns f' [inode_block f (inr_of inode)]"
    using file_wfD(4,13) [OF a] by (auto simp: owns_def e)
  then show ?thesis using a file_wfD(1,3) [OF b] unfolding file_wf_def e by simp
qed

text \<open>The blocks of a file that a write beside it does not touch.\<close>

lemma grown_apart:
  assumes a: "file_wf f inode bs" and g: "grown f cs f' cs'" and "prefix cs cs'" and "set bs \<inter> set cs = {}"
  shows "set bs \<inter> set cs' = {}"
proof -
  have "cs' = cs @ drop (length cs) cs'" using assms(3) by (auto simp: prefix_def)
  then have "set cs' = set cs \<union> set (drop (length cs) cs')" by (metis set_append)
  moreover have "b \<notin> set (drop (length cs) cs')" if "b \<in> set bs" for b
    using g file_wfD(4) [OF a] that by (auto simp: grown_def owns_def)
  ultimately show ?thesis using assms(4) by auto
qed

lemma content_cong: "\<forall>b \<in> set bs. fblock f' b = fblock f b \<Longrightarrow> content f' bs = content f bs"
  unfolding content_def by (intro arg_cong [where f = concat] map_cong) auto

text \<open>Writing changes only the size and the block numbers of the inode.\<close>

lemma block_for_frame: "block_for f i ix = Some (r, i', f') \<Longrightarrow> i_blksize i' = i_blksize i"
  by (auto simp: block_for_def split: option.splits if_splits prod.splits)

lemma write_chunk_frame: "write_chunk f i offset b off bytes w = Some (r, i', f') \<Longrightarrow> i_blksize i' = i_blksize i"
  by (auto simp: write_chunk_def grow_size_def Let_def split: option.splits if_splits prod.splits)

lemma write_loop_frame:
  "write_loop f i offset m buf ix blocks w = Some (r, i', f') \<Longrightarrow> i_blksize i' = i_blksize i"
proof (induction f i offset m buf ix blocks w arbitrary: r i' f' rule: write_loop.induct)
  case (1 f i offset m buf ix blocks w)
  then show ?case
    by (subst (asm) (2) write_loop.simps)
      (fastforce simp: Let_def split: option.splits if_splits prod.splits sum.splits
        dest!: block_for_frame write_chunk_frame)
qed

lemma tfs_write_frame:
  "tfs_write f fl m buf blocks = Some (r, fl', f') \<Longrightarrow> i_blksize (f_inode fl') = i_blksize (f_inode fl)"
  by (fastforce simp: tfs_write_def Let_def split: option.splits if_splits prod.splits sum.splits
    dest!: block_for_frame write_chunk_frame write_loop_frame)

definition writable :: "vfs \<Rightarrow> nat \<Rightarrow> ofile \<Rightarrow> inode \<Rightarrow> u32 list \<Rightarrow> bool" where
  "writable v fd fl inode bs \<longleftrightarrow> fd < MAX_FD \<and> length (files v) = MAX_FD \<and> files v ! fd = Some fl \<and>
     objs v (o_inode fl) = Some inode \<and> file_wf (fsv v) inode bs \<and>
     i_blksize inode = int (bsize (sbi (fsv v)))"

lemma sys_write_ok:
  assumes w: "writable v fd fl inode bs" and n: "0 < n" "n < 2 ^ 30"
  defines "B \<equiv> bsize (sbi (fsv v))"
  defines "k \<equiv> (n + B - 1) div B"
  assumes o: "unat (o_offset fl) = index * B" and i: "index \<le> length bs" "index + k \<le> TFS_N_BLOCKS"
    and free: "index + k \<le> free_blocks (fsv v) + length bs"
  shows "\<exists>f' inode' bs' old. sys_write v m (int fd) buf (int n) =
      Some (int n, set_file (set_obj (v\<lparr>fsv := f'\<rparr>) (Ptr (o_inode fl)) inode') (int fd)
        (fl\<lparr>o_offset := o_offset fl + word_of_nat n\<rparr>)) \<and>
    written_file (fsv v) bs index 0 k m buf inode f' inode' bs' old \<and>
    unat (i_size inode') = (index + k) * B \<and> i_blksize inode' = i_blksize inode"
proof -
  have wf: "file_wf (fsv v) inode bs" and fl: "files v ! fd = Some fl" "fd < MAX_FD" "objs v (o_inode fl) = Some inode"
    and bl: "i_blksize inode = int B" using w by (simp_all add: writable_def B_def)
  note s = fs_ok_sbi [OF file_wfD(2) [OF wf]]
  have B: "0 < B" "B \<le> 16384" using bsize_range(1,2) [OF s] by (simp_all add: B_def)
  have k: "n \<le> k * B" "0 < k" using ceil_blocks(2) [OF B(1) n(1)] n(1) by (auto simp: k_def intro!: Nat.gr0I)
  have blocks: "drop_bit (block_shift v) (to_int (int n + i_blksize inode - 1)) = int k"
    unfolding k_def bl B_def by (rule request_blocks [OF s]) (use n(2) B(2) in \<open>simp add: B_def\<close>)
  let ?fl = "\<lparr>f_inode = inode, f_offset = o_offset fl\<rparr>"
  have "index = unat (f_offset ?fl) div bsize (sbi (fsv v))" "0 = unat (f_offset ?fl) mod bsize (sbi (fsv v))"
    using B(1) by (simp_all add: o flip: B_def)
  from tfs_write_ok [OF _ i(1) k(2) i(2) this, of m buf] wf free obtain fl' :: tfile and f' bs' old where
    t: "tfs_write (fsv v) ?fl m buf (int k) = Some (int (k * B - 0), fl', f')"
      "f_offset fl' = f_offset ?fl" "i_size (f_inode fl') = f_offset ?fl + word_of_nat (k * B - 0)"
      "written_file (fsv v) bs index 0 k m buf inode f' (f_inode fl') bs' old" by (auto simp: B_def)
  have small: "(index + k) * B < 2 ^ 31" unfolding B_def by (rule size_small(1) [OF s i(2)])
  have "i_size (f_inode fl') = word_of_nat (unat (o_offset fl) + k * B)" using t(3) by (simp del: of_nat_mult)
  also have "unat (o_offset fl) + k * B = (index + k) * B" unfolding o by (simp add: add_mult_distrib)
  finally have sz: "unat (i_size (f_inode fl')) = (index + k) * B"
    using unat_of_nat_u32 [of "(index + k) * B"] small by (simp only:) simp
  have call: "sys_write v m (int fd) buf (int n) =
      Some (int n, set_file (set_obj (v\<lparr>fsv := f'\<rparr>) (Ptr (o_inode fl)) (f_inode fl')) (int fd)
        (fl\<lparr>o_offset := o_offset fl + word_of_nat n\<rparr>))"
  proof -
    have "\<not> bad_fd (int fd)" "fget v (int fd) = Some (Some fl)" using fl by (simp_all add: bad_fd_def fget_def)
    moreover have "min (int n) (int (k * B - 0)) = int n" using k(1) by (simp only: diff_zero min.absorb1 of_nat_le_iff)
    ultimately show ?thesis
      unfolding sys_write_def Let_def by (simp only: if_False option.case fl(3) blocks t(1) prod.case) (use n(1) in simp)
  qed
  show ?thesis using call t(4) sz tfs_write_frame [OF t(1)] by auto
qed

section \<open>Contents\<close>

lemma content_parts:
  assumes "fs_ok f"
  shows "take (i * bsize (sbi f)) (content f bs) = content f (take i bs)"
    "drop (i * bsize (sbi f)) (content f bs) = content f (drop i bs)"
    "length (content f bs) = length bs * bsize (sbi f)"
  unfolding content_def using concat_blocks [of "fblock f" "bsize (sbi f)"] fsc.content_len [OF assms] by simp_all

text \<open>What a write at a block boundary makes of the contents of its file and of another one.\<close>

lemma content_written:
  assumes w: "written_file f bs index 0 k m buf inode f' inode' bs' old" and wf: "file_wf f inode bs"
    and i: "index \<le> length bs"
  defines "B \<equiv> bsize (sbi f)"
  shows "take (index * B) (content f' bs') = take (index * B) (content f bs)"
    "take (k * B) (drop (index * B) (content f' bs')) = get_bytes m buf (k * B)"
proof -
  have w': "file_wf f' inode' bs'" "prefix bs bs'" "index + k \<le> length bs'" "same_mount f f'"
    "concat (map (fblock f') (slice index k bs')) = get_bytes m buf (k * B)"
    "only_changed f f' (insert (inode_block f (inr_of inode)) (set (slice index k bs')))"
    using w by (simp_all add: written_file_def B_def)
  have B: "B = bsize (sbi f')" using w'(4) by (simp add: B_def)
  have ok: "fs_ok f" "fs_ok f'" by (rule file_wfD(2) [OF wf], rule file_wfD(2) [OF w'(1)])
  have tk: "take index bs' = take index bs" using w'(2) i by (auto simp: prefix_def)
  have "fblock f' b = fblock f b" if b: "b \<in> set (take index bs)" for b
  proof -
    have "b \<in> set bs" using b by (rule in_set_takeD)
    then have "fvalid f b" "b \<noteq> s_block_bitmap (sbi f)" "b \<noteq> inode_block f (inr_of inode)"
      using file_wfD(4,8,14) [OF wf] by (auto simp: owns_def)
    moreover have "b \<notin> set (slice index k bs')"
    proof -
      have "set (take index bs') \<inter> set (drop index bs') = {}"
        using file_wfD(5) [OF w'(1)] by (rule set_take_disj_set_drop_if_distinct) simp
      then have "b \<notin> set (drop index bs')" using b unfolding tk [symmetric] by blast
      then show ?thesis unfolding slice_def by (auto dest: in_set_takeD)
    qed
    ultimately show ?thesis using w'(6) by (simp add: only_changed_def)
  qed
  then have "content f' (take index bs') = content f (take index bs)"
    unfolding tk by (intro content_cong) blast
  then show "take (index * B) (content f' bs') = take (index * B) (content f bs)"
    using content_parts(1) [OF ok(1)] content_parts(1) [OF ok(2)] unfolding B [symmetric] B_def [symmetric] by simp
  have "take (k * B) (drop (index * B) (content f' bs')) = content f' (slice index k bs')"
    unfolding slice_def using content_parts(1,2) [OF ok(2)] unfolding B [symmetric] by simp
  then show "take (k * B) (drop (index * B) (content f' bs')) = get_bytes m buf (k * B)"
    using w'(5) by (simp add: content_def)
qed

lemma content_other:
  assumes w: "written_file f bs index 0 k m buf inode f' inode' bs' old"
    and o: "file_wf f other cs" and "set cs \<inter> set bs = {}" and "inode_block f (inr_of inode) \<notin> set cs"
  shows "content f' cs = content f cs" "file_wf f' other cs" "set cs \<inter> set bs' = {}"
proof -
  have w': "file_wf f' inode' bs'" "prefix bs bs'" "grown f bs f' bs'" "same_mount f f'"
    "only_changed f f' (insert (inode_block f (inr_of inode)) (set (slice index k bs')))"
    using w by (simp_all add: written_file_def)
  show wf: "file_wf f' other cs" by (rule file_wf_beside [OF o w'(1,4,3)])
  show d: "set cs \<inter> set bs' = {}" by (rule grown_apart [OF o w'(3,2) assms(3)])
  have "fblock f' b = fblock f b" if b: "b \<in> set cs" for b
  proof -
    have "fvalid f b" "b \<noteq> s_block_bitmap (sbi f)" using file_wfD(4,8) [OF o] b by (auto simp: owns_def)
    moreover have "b \<notin> set (slice index k bs')" using d b by (auto simp: slice_def dest: in_set_takeD in_set_dropD)
    ultimately show ?thesis using w'(5) assms(4) b by (auto simp: only_changed_def)
  qed
  then show "content f' cs = content f cs" by (intro content_cong) blast
qed

lemma get_bytes_take: "a \<le> b \<Longrightarrow> take a (get_bytes m p b) = get_bytes m p a"
  by (simp add: get_bytes_def take_map)

lemma copied_part:
  assumes w: "written_file f bs index 0 k m buf inode f' inode' bs' old" and wf: "file_wf f inode bs"
    and i: "index \<le> length bs" "a = index * bsize (sbi f)" and n: "n \<le> k * bsize (sbi f)"
    and old: "take a (content f bs) = take a src" and l: "a + n \<le> length src"
    and mem: "\<forall>i < n. m (buf + i) = src ! (a + i)"
  shows "take (a + n) (content f' bs') = take (a + n) src"
proof -
  have "take a (content f' bs') = take a src" using content_written(1) [OF w wf i(1)] old by (simp only: i(2))
  moreover have "take n (drop a (content f' bs')) = take n (drop a src)"
  proof (rule nth_equalityI)
    have "take (k * bsize (sbi f)) (drop a (content f' bs')) = get_bytes m buf (k * bsize (sbi f))"
      using content_written(2) [OF w wf i(1)] by (simp only: i(2))
    then have "take n (take (k * bsize (sbi f)) (drop a (content f' bs'))) = get_bytes m buf n"
      by (simp only: get_bytes_take [OF n])
    then have d: "take n (drop a (content f' bs')) = get_bytes m buf n"
      using n by (simp only: take_take min.absorb1)
    show "length (take n (drop a (content f' bs'))) = length (take n (drop a src))" using l by (simp add: d)
    fix j assume "j < length (take n (drop a (content f' bs')))"
    then have "j < n" by (simp add: d)
    then show "take n (drop a (content f' bs')) ! j = take n (drop a src) ! j" using mem l by (simp add: d)
  qed
  ultimately show ?thesis by (simp only: take_add)
qed

section \<open>The loop\<close>

definition ceil_div :: "nat \<Rightarrow> nat \<Rightarrow> nat" where
  "ceil_div n B = (n + B - 1) div B"

text \<open>The source stands at offset \<open>so\<close>, the copy at \<open>o'\<close>, and what is before \<open>o'\<close> has been copied.\<close>

definition copying ::
  "vfs \<Rightarrow> nat \<Rightarrow> nat \<Rightarrow> nat \<Rightarrow> nat \<Rightarrow> inode \<Rightarrow> u32 list \<Rightarrow> inode \<Rightarrow> u32 list \<Rightarrow> u32 \<Rightarrow> u32 \<Rightarrow> bool" where
  "copying v sfd dfd sa da si sbs di dbs so o' \<longleftrightarrow>
     readable v sfd \<lparr>o_inode = sa, o_offset = so\<rparr> si sbs \<and> writable v dfd \<lparr>o_inode = da, o_offset = o'\<rparr> di dbs \<and>
     sfd \<noteq> dfd \<and> sa \<noteq> da \<and> set sbs \<inter> set dbs = {} \<and> inode_block (fsv v) (inr_of di) \<notin> set sbs \<and>
     ceil_div (unat o') (bsize (sbi (fsv v))) \<le> length dbs \<and>
     take (unat o') (content (fsv v) dbs) = take (unat o') (content (fsv v) sbs)"

text \<open>
  The copy after \<open>n\<close> bytes: its size counts whole blocks, and its inode is on the disk.
\<close>

definition saved :: "tfs \<Rightarrow> inode \<Rightarrow> nat \<Rightarrow> bool" where
  "saved f inode n \<longleftrightarrow> unat (i_size inode) = ceil_div n (bsize (sbi f)) * bsize (sbi f) \<and>
     t_size (tinode_of f (inr_of inode)) = i_size inode \<and> t_block (tinode_of f (inr_of inode)) = i_data inode"

text \<open>What the copying up to \<open>n\<close> leaves of the source, of the volume and of the inode of the copy.\<close>

definition copied :: "vfs \<Rightarrow> u32 list \<Rightarrow> inode \<Rightarrow> u32 list \<Rightarrow> nat \<Rightarrow> vfs \<Rightarrow> inode \<Rightarrow> u32 list \<Rightarrow> bool" where
  "copied v sbs di dbs n v' di' dbs' \<longleftrightarrow>
     content (fsv v') sbs = content (fsv v) sbs \<and> same_mount (fsv v) (fsv v') \<and>
     free_blocks (fsv v') + length dbs' = free_blocks (fsv v) + length dbs \<and>
     (0 < n \<longrightarrow> saved (fsv v') di' n) \<and> i_ino di' = i_ino di"

lemma copied_trans:
  assumes "copied v sbs di dbs n v1 di1 dbs1" and "copied v1 sbs di1 dbs1 k v2 di2 dbs2"
  shows "copied v sbs di dbs k v2 di2 dbs2"
  using assms fsc.same_trans [of "fsv v" "fsv v1" "fsv v2"] unfolding copied_def by metis

lemma ceil_div_aligned:
  assumes "0 < (B :: nat)" and "0 < n" and "B dvd a"
  shows "ceil_div (a + n) B = a div B + ceil_div n B"
proof -
  obtain q where q: "a = q * B" using assms(3) by (auto simp: dvd_def mult.commute)
  have e: "a + n + B - 1 = (n + B - 1) + q * B" using assms(2) by (simp add: q)
  have "ceil_div (a + n) B = q + (n + B - 1) div B"
    unfolding ceil_div_def e using assms(1) by (intro div_mult_self1) simp
  then show ?thesis using assms(1) by (simp add: ceil_div_def q)
qed

lemma ceil_div_mult: "0 < B \<Longrightarrow> ceil_div (q * B) B = q"
  using div_mult_self1 [of B "B - 1" q] by (simp add: ceil_div_def add.commute)

lemma ceil_div_mono: "a \<le> b \<Longrightarrow> ceil_div a B \<le> ceil_div b B"
  unfolding ceil_div_def by (rule div_le_mono) simp

lemma ceil_div_le: "0 < B \<Longrightarrow> a \<le> n * B \<Longrightarrow> ceil_div a B \<le> n"
proof -
  assume "0 < B" "a \<le> n * B"
  moreover have "(n + 1) * B = n * B + B" by simp
  ultimately have "a + B - 1 < (n + 1) * B" by linarith
  then have "(a + B - 1) div B < n + 1" by (rule less_mult_imp_div_less)
  then show "ceil_div a B \<le> n" by (simp add: ceil_div_def)
qed

lemma read_aligned:
  assumes r: "readable v fd \<lparr>o_inode = a, o_offset = o'\<rparr> inode bs" and "bsize (sbi (fsv v)) dvd unat o'"
    and lt: "unat o' < unat (i_size inode)"
  defines "n \<equiv> min 1024 (unat (i_size inode) - unat o')"
  shows "\<exists>m' f'. sys_read v m (int fd) buf (int 1024) =
      Some (int n, m', set_file (v\<lparr>fsv := f'\<rparr>) (int fd) \<lparr>o_inode = a, o_offset = o' + word_of_nat n\<rparr>) \<and>
    same_volume (fsv v) f' \<and> (\<forall>i < n. m' (buf + i) = content (fsv v) bs ! (unat o' + i))"
proof -
  let ?fl = "\<lparr>o_inode = a, o_offset = o'\<rparr>" and ?B = "bsize (sbi (fsv v))"
  have "o_offset ?fl < i_size inode" using lt by (simp add: word_less_nat_alt)
  from sys_read_ok [OF r this, of 1024 m buf] obtain m' f' where
    rd: "sys_read v m (int fd) buf (int 1024) = Some (int n, m', set_file (v\<lparr>fsv := f'\<rparr>) (int fd) (?fl\<lparr>o_offset := o' + word_of_nat n\<rparr>))"
      "same_volume (fsv v) f'"
      "\<forall>i < n. m' (buf + i) = (if unat o' mod ?B + i < (n + ?B - 1) div ?B * ?B
         then content (fsv v) bs ! (unat o' + i) else m (buf + unat o' mod ?B + i))"
    by (auto simp: n_def)
  have B: "0 < ?B" using bsize_range(1) [OF fs_ok_sbi [OF file_wfD(2)]] r unfolding readable_def
    by (metis less_le_trans zero_less_numeral)
  have z: "unat o' mod ?B = 0" "0 < n" using assms(2) lt by (simp_all add: n_def)
  have "m' (buf + i) = content (fsv v) bs ! (unat o' + i)" if "i < n" for i
    using rd(3) that ceil_blocks(2) [OF B z(2)] by (simp add: z(1))
  then show ?thesis using rd(1,2) by auto
qed

text \<open>A round of the loop: reading moves the source on,\<close>

lemma copy_read:
  assumes c: "copying v sfd dfd sa da si sbs di dbs o' o'" and al: "bsize (sbi (fsv v)) dvd unat o'"
    and lt: "unat o' < unat (i_size si)"
  defines "n \<equiv> min 1024 (unat (i_size si) - unat o')"
  obtains m' v1 where "sys_read v m (int sfd) buf (int 1024) = Some (int n, m', v1)"
    and "copying v1 sfd dfd sa da si sbs di dbs (o' + word_of_nat n) o'" and "same_volume (fsv v) (fsv v1)"
    and "\<forall>i < n. m' (buf + i) = content (fsv v1) sbs ! (unat o' + i)"
proof -
  let ?s = "\<lparr>o_inode = sa, o_offset = o'\<rparr>"
  have r: "readable v sfd ?s si sbs" and w: "writable v dfd \<lparr>o_inode = da, o_offset = o'\<rparr> di dbs" and ne: "sfd \<noteq> dfd"
    using c by (simp_all add: copying_def)
  obtain m' f1 where rd: "sys_read v m (int sfd) buf (int 1024) =
      Some (int n, m', set_file (v\<lparr>fsv := f1\<rparr>) (int sfd) (?s\<lparr>o_offset := o' + word_of_nat n\<rparr>))"
    "same_volume (fsv v) f1" "\<forall>i < n. m' (buf + i) = content (fsv v) sbs ! (unat o' + i)"
    using read_aligned [OF r al lt, of m buf] by (auto simp: n_def)
  let ?v1 = "set_file (v\<lparr>fsv := f1\<rparr>) (int sfd) (?s\<lparr>o_offset := o' + word_of_nat n\<rparr>)"
  have m1: "fs_ok f1" "same_mount (fsv v) f1" "fblock f1 = fblock (fsv v)" using rd(2) by (simp_all add: same_volume_def)
  have keep: "file_wf f1 inode bs" if "file_wf (fsv v) inode bs" for inode bs
    by (rule file_wf_keep [OF that m1(1,2)]) (simp_all add: m1(3))
  have e: "sbi f1 = sbi (fsv v)" "content f1 = content (fsv v)" "inode_block f1 = inode_block (fsv v)"
    using content_same [OF rd(2)] m1(2) tinode_of_same [OF m1(2)] by simp_all
  have f: "fsv ?v1 = f1" by (simp add: set_file_def)
  have "copying ?v1 sfd dfd sa da si sbs di dbs (o' + word_of_nat n) o'"
    using c ne keep unfolding copying_def readable_def writable_def f by (auto simp: set_file_def e)
  then show thesis using that [OF rd(1)] rd(2,3) unfolding f e by blast
qed

text \<open>and writing takes the copy to the same place.\<close>

lemma copy_write:
  assumes c: "copying v sfd dfd sa da si sbs di dbs so o'" and al: "bsize (sbi (fsv v)) dvd unat o'"
    and n: "0 < n" "n \<le> 1024" "unat o' + n \<le> unat (i_size si)" "unat (o' + word_of_nat n) = unat o' + n"
    and free: "ceil_div (unat (i_size si)) (bsize (sbi (fsv v))) \<le> free_blocks (fsv v) + length dbs"
    and mem: "\<forall>i < n. m (buf + i) = content (fsv v) sbs ! (unat o' + i)"
  obtains v2 di' dbs' where "sys_write v m (int dfd) buf (int n) = Some (int n, v2)"
    and "copying v2 sfd dfd sa da si sbs di' dbs' so (o' + word_of_nat n)"
    and "copied v sbs di dbs (unat o' + n) v2 di' dbs'"
proof -
  let ?f = "fsv v" and ?d = "\<lparr>o_inode = da, o_offset = o'\<rparr>"
  obtain B where Bd: "B = bsize (sbi ?f)" by simp
  have r: "readable v sfd \<lparr>o_inode = sa, o_offset = so\<rparr> si sbs" and w: "writable v dfd ?d di dbs"
    and ap: "set sbs \<inter> set dbs = {}" "inode_block ?f (inr_of di) \<notin> set sbs"
    and len: "ceil_div (unat o') B \<le> length dbs"
    and cp: "take (unat o') (content ?f dbs) = take (unat o') (content ?f sbs)"
    using c by (simp_all add: copying_def Bd)
  have wf: "file_wf ?f si sbs" "file_wf ?f di dbs" using r w by (simp_all add: readable_def writable_def)
  have B: "0 < B" "B dvd unat o'" using bsize_range(1) [OF fs_ok_sbi [OF file_wfD(2) [OF wf(1)]]] al by (simp_all add: Bd)
  have size: "unat (i_size si) \<le> length sbs * B" "length sbs \<le> TFS_N_BLOCKS"
    using r file_wfD(6) [OF wf(1)] by (simp_all add: readable_def Bd)
  let ?k = "(n + B - 1) div B" and ?i = "unat o' div B"
  have ik: "?i + ?k = ceil_div (unat o' + n) B" using ceil_div_aligned [OF B(1) n(1) B(2)] by (simp add: ceil_div_def)
  have oi: "unat o' = ?i * B" using B(2) by simp
  have top: "ceil_div (unat o' + n) B \<le> ceil_div (unat (i_size si)) B" by (rule ceil_div_mono [OF n(3)])
  have i: "?i \<le> length dbs" using len ceil_div_mult [OF B(1), of ?i] oi by simp
  have ik8: "?i + ?k \<le> TFS_N_BLOCKS" unfolding ik using top ceil_div_le [OF B(1) size(1)] size(2) by linarith
  have ikf: "?i + ?k \<le> free_blocks ?f + length dbs" unfolding ik using top free by (simp add: Bd)
  obtain f2 di' dbs' old where wr: "sys_write v m (int dfd) buf (int n) =
      Some (int n, set_file (set_obj (v\<lparr>fsv := f2\<rparr>) (Ptr da) di') (int dfd) (?d\<lparr>o_offset := o' + word_of_nat n\<rparr>))"
    and wf2: "written_file ?f dbs ?i 0 ?k m buf di f2 di' dbs' old"
    and sz: "unat (i_size di') = (?i + ?k) * B" and bl: "i_blksize di' = i_blksize di"
    using sys_write_ok [OF w n(1), of ?i m buf] n(2) oi i ik8 ikf by (auto simp: Bd)
  let ?v2 = "set_file (set_obj (v\<lparr>fsv := f2\<rparr>) (Ptr da) di') (int dfd) (?d\<lparr>o_offset := o' + word_of_nat n\<rparr>)"
  note src = content_other [OF wf2 wf(1) ap]
  have w2: "wrote ?f dbs (insert (inode_block ?f (inr_of di)) (set (slice ?i ?k dbs'))) f2 di' dbs'" "?i + ?k \<le> length dbs'"
    "i_ino di' = i_ino di" "t_size (tinode_of f2 (inr_of di)) = i_size di'" "t_block (tinode_of f2 (inr_of di)) = i_data di'"
    using wf2 by (simp_all add: written_file_def wrote_def)
  note w2' = wroteD [OF w2(1)]
  have l: "unat o' + n \<le> length (content ?f sbs)"
    using n(3) size(1) content_parts(3) [OF file_wfD(2) [OF wf(1)], of sbs] by (simp add: Bd)
  have tk: "take (unat o' + n) (content f2 dbs') = take (unat o' + n) (content f2 sbs)" unfolding src(1)
    by (rule copied_part [OF wf2 wf(2) i]) (use oi ceil_blocks(2) [OF B(1) n(1)] cp l mem in \<open>simp_all flip: Bd\<close>)
  have f: "fsv ?v2 = f2" by (simp add: set_file_def set_obj_def)
  have "copying ?v2 sfd dfd sa da si sbs di' dbs' so (o' + word_of_nat n)"
    using c src(2,3) w2'(1,6,9) w2(2,3) tk bl unfolding ik copying_def readable_def writable_def f
    by (simp add: set_file_def set_obj_def inr_of_def n(4) Bd)
  moreover have "copied v sbs di dbs (unat o' + n) ?v2 di' dbs'" unfolding copied_def f
    using src(1) w2'(2,6) wrote_free [OF w2(1)] sz w2(3-5) unfolding ik by (simp add: saved_def inr_of_def Bd)
  ultimately show thesis using that wr by blast
qed

lemma copy_step:
  assumes c: "copying v sfd dfd sa da si sbs di dbs o' o'" and B: "bsize (sbi (fsv v)) dvd 1024"
    and al: "1024 dvd unat o'" and lt: "unat o' < unat (i_size si)"
    and free: "ceil_div (unat (i_size si)) (bsize (sbi (fsv v))) \<le> free_blocks (fsv v) + length dbs"
  defines "n \<equiv> min 1024 (unat (i_size si) - unat o')"
  obtains m' v1 v2 di' dbs' where "sys_read v m (int sfd) buf 1024 = Some (int n, m', v1)"
    and "sys_write v1 m' (int dfd) buf (int n) = Some (int n, v2)" and "unat (o' + word_of_nat n) = unat o' + n"
    and "copying v2 sfd dfd sa da si sbs di' dbs' (o' + word_of_nat n) (o' + word_of_nat n)"
    and "copied v sbs di dbs (unat o' + n) v2 di' dbs'"
proof -
  have al': "bsize (sbi (fsv v)) dvd unat o'" using B al by (rule dvd_trans)
  obtain m' v1 where r: "sys_read v m (int sfd) buf (int 1024) = Some (int n, m', v1)"
    "copying v1 sfd dfd sa da si sbs di dbs (o' + word_of_nat n) o'" "same_volume (fsv v) (fsv v1)"
    "\<forall>i < n. m' (buf + i) = content (fsv v1) sbs ! (unat o' + i)"
    using copy_read [OF c al' lt, of m buf] unfolding n_def by blast
  have n: "0 < n" "n \<le> 1024" "unat o' + n \<le> unat (i_size si)" using lt by (auto simp: n_def)
  have "unat o' + n < 2 ^ 32" using n(3) unsigned_less [of "i_size si", where ?'a = nat] by simp
  then have "unat (word_of_nat (unat o' + n) :: u32) = unat o' + n" by (rule unat_of_nat_u32)
  then have sum: "unat (o' + word_of_nat n) = unat o' + n" by simp
  have m1: "same_mount (fsv v) (fsv v1)" using r(3) by (simp add: same_volume_def)
  have e: "sbi (fsv v1) = sbi (fsv v)" "free_blocks (fsv v1) = free_blocks (fsv v)" "content (fsv v1) = content (fsv v)"
    using same_volume_keeps(6,7) [OF r(3)] content_same [OF r(3)] m1 by (simp_all add: free_blocks_def)
  obtain v2 di' dbs' where w: "sys_write v1 m' (int dfd) buf (int n) = Some (int n, v2)"
    "copying v2 sfd dfd sa da si sbs di' dbs' (o' + word_of_nat n) (o' + word_of_nat n)"
    "copied v1 sbs di dbs (unat o' + n) v2 di' dbs'"
    using copy_write [OF r(2) al' [folded e(1)] n sum] free r(4) unfolding e by metis
  have "copied v sbs di dbs 0 v1 di dbs" by (simp add: copied_def e m1)
  from copied_trans [OF this w(3)] show thesis using that r(1) w(1,2) sum by simp
qed

text \<open>The loop from where both descriptors stand to the end of the source.\<close>

lemma copy_loop:
  assumes "copying (sv s) sfd dfd sa da si sbs di dbs o' o'" and "bsize (sbi (fsv (sv s))) dvd 1024"
    and "1024 dvd unat o' \<or> o' = i_size si" and "unat o' \<le> unat (i_size si)"
    and "ceil_div (unat (i_size si)) (bsize (sbi (fsv (sv s)))) \<le> free_blocks (fsv (sv s)) + length dbs"
    and "0 < unat o' \<longrightarrow> saved (fsv (sv s)) di (unat o')"
  shows "\<exists>s' di' dbs'. cp_loop buf (int sfd) (int dfd) s = Some s' \<and> tty s' = tty s \<and>
    copying (sv s') sfd dfd sa da si sbs di' dbs' (i_size si) (i_size si) \<and>
    copied (sv s) sbs di dbs (unat (i_size si)) (sv s') di' dbs'"
  using assms
proof (induction "unat (i_size si) - unat o'" arbitrary: s o' di dbs rule: less_induct)
  case less
  have r: "readable (sv s) sfd \<lparr>o_inode = sa, o_offset = o'\<rparr> si sbs" using less.prems(1) by (simp add: copying_def)
  show ?case
  proof (cases "o' = i_size si")
    case True
    have "sys_read (sv s) (ram s) (int sfd) (unat buf) (int 1024) = Some (0, ram s, sv s)"
      by (rule sys_read_end [OF r]) (simp_all add: True)
    then have "cp_loop buf (int sfd) (int dfd) s = Some s" by (subst cp_loop.simps) (simp add: Let_def)
    moreover have "copied (sv s) sbs di dbs (unat (i_size si)) (sv s) di dbs"
      using less.prems(6) True by (simp add: copied_def)
    ultimately show ?thesis using less.prems(1) True by blast
  next
    case False
    then have al: "1024 dvd unat o'" and lt: "unat o' < unat (i_size si)"
      using less.prems(3,4) by (auto simp: order_less_le word_unat_eq_iff)
    let ?n = "min 1024 (unat (i_size si) - unat o')" and ?f = "fsv (sv s)"
    obtain m' v1 v2 di' dbs' where rd: "sys_read (sv s) (ram s) (int sfd) (unat buf) 1024 = Some (int ?n, m', v1)"
      and wr: "sys_write v1 m' (int dfd) (unat buf) (int ?n) = Some (int ?n, v2)"
      and sum: "unat (o' + word_of_nat ?n) = unat o' + ?n"
      and c: "copying v2 sfd dfd sa da si sbs di' dbs' (o' + word_of_nat ?n) (o' + word_of_nat ?n)"
        "copied (sv s) sbs di dbs (unat o' + ?n) v2 di' dbs'"
      by (rule copy_step [OF less.prems(1,2) al lt less.prems(5), of "ram s" "unat buf"])
    define s1 where "s1 = s\<lparr>ram := m', sv := v2\<rparr>"
    have n: "0 < ?n" "unat o' + ?n \<le> unat (i_size si)" using lt by simp_all
    have loop: "cp_loop buf (int sfd) (int dfd) s = cp_loop buf (int sfd) (int dfd) s1"
      using n by (subst cp_loop.simps) (simp only: rd wr option.case prod.case Let_def of_nat_0_less_iff if_True s1_def, simp)
    have e: "sv s1 = v2" "sbi (fsv v2) = sbi ?f" "tty s1 = tty s" using c(2) by (simp_all add: s1_def copied_def)
    have at: "1024 dvd unat o' + ?n \<or> o' + word_of_nat ?n = i_size si"
    proof (cases "1024 \<le> unat (i_size si) - unat o'")
      case False
      then have "unat (o' + word_of_nat ?n) = unat (i_size si)" using lt unfolding sum by simp
      then show ?thesis by (simp add: word_unat_eq_iff)
    qed (use al in simp)
    have m: "unat (i_size si) - unat (o' + word_of_nat ?n) < unat (i_size si) - unat o'"
      using n lt unfolding sum by linarith
    have f: "ceil_div (unat (i_size si)) (bsize (sbi ?f)) \<le> free_blocks (fsv v2) + length dbs'"
      and d: "saved (fsv v2) di' (unat o' + ?n)" using c(2) less.prems(5) n(1) by (simp_all add: copied_def)
    from less.hyps [OF m, of s1 di' dbs', unfolded e sum, OF c(1) less.prems(2) at n(2) f impI [OF d]] show ?thesis
      unfolding loop using copied_trans [OF c(2)] by blast
  qed
qed

section \<open>A volume with small blocks\<close>

definition small_sbi :: tfs_sb_info where
  "small_sbi = \<lparr>s_inodes_count = 100, s_blocks_count = 100, s_free_blocks_count = 90,
     s_free_inodes_count = 90, s_block_shift = 10, s_block_size = 1024, s_inode_bitmap = 1,
     s_inode_bitmap_count = 1, s_block_bitmap = 2, s_block_bitmap_count = 1, s_inode_table = 3,
     s_inode_table_count = 1, s_data_area = 4, s_offset = 2, s_inodes_per_block = 16\<rparr>"

text \<open>The first four blocks are in use: the bitmap is at sector 838.\<close>

definition small_fs :: tfs where
  "small_fs = \<lparr>sbi = small_sbi, stray = small_sbi,
     dsk = blank_disk\<lparr>sec := (\<lambda>s. if s = 838 then 15 # replicate 511 0 else replicate 512 0)\<rparr>,
     cch = cache_init 10 (replicate CACHE_SIZE 0)
       \<lparr>cache_entries = 0, nxt = (\<lambda>_. Head), prv = (\<lambda>_. Head), blk = (\<lambda>_. 0), dat = (\<lambda>_. [])\<rparr>,
     room = [], behind = 0\<rparr>"

lemma small_mounted:
  "mounted small_fs" "layout_ok small_fs" "has_free_block small_fs" "bsize (sbi small_fs) = 1024"
  "unat b < 2 ^ 20 \<Longrightarrow> fvalid small_fs b" "bitmap_bits small_fs = 8192"
  "k < 8192 \<Longrightarrow> block_used small_fs k \<longleftrightarrow> k < 4"
proof -
  have f: "sbi small_fs = small_sbi" "stray small_fs = small_sbi" "behind small_fs = 0" by (simp_all add: small_fs_def)
  have b: "s_block_bitmap small_sbi = 2" "s_inode_bitmap small_sbi = 1" "s_data_area small_sbi = 4" "bsize small_sbi = 2 ^ 10"
    by (simp_all add: small_sbi_def bsize_def)
  show "bsize (sbi small_fs) = 1024" by (simp add: f b)
  have "volume_ok small_sbi (dsk small_fs)"
    using blank_disk_ok by (simp add: volume_ok_def sbi_ok_def small_sbi_def bsize_def tfs_inode_size_def small_fs_def
      disk_ok_def sector_size_def)
  then have "fs_ring small_fs [0..<cache_count 10]"
    unfolding fs_ring_def f b using cache_init_is_coherent [of 10 "replicate CACHE_SIZE 0"]
    by (simp only: small_fs_def tfs.select_convs) simp
  then have ok: "fs_ok small_fs" by (auto simp: fs_ok_def)
  show v: "unat b < 2 ^ 20 \<Longrightarrow> fvalid small_fs b" for b
    by (simp add: fvalid_def f block_ok_def small_fs_def blank_disk_ok)
  show "mounted small_fs" using ok v by (simp add: mounted_def stray_agrees_def f b)
  show bits: "bitmap_bits small_fs = 8192" by (simp add: bitmap_bits_def f b)
  have "block_sectors small_sbi = 2" "unat (block_sector small_sbi 2) = 838"
    by (simp_all add: block_sectors_def block_sector_def small_sbi_def TFS_FS_SECTOR_def)
  then have bm: "fblock small_fs 2 = 15 # replicate 1023 0"
    unfolding fblock_def disk_block_def f
    by (simp add: numeral_2_eq_2 read_run_Suc) (simp add: read_run_def small_fs_def flip: replicate_add)
  show used: "block_used small_fs k \<longleftrightarrow> k < 4" if k: "k < 8192" for k
  proof (cases "k < 8")
    case True
    have "(15 :: u8) = mask 4" by (simp add: mask_eq_exp_minus_1)
    then have "bit (15 :: u8) k \<longleftrightarrow> k < 4" by (simp only: bit_mask_iff) (use True in auto)
    with True show ?thesis unfolding block_used_def bit_at_def f b bm by simp
  next
    case False
    have "k div 8 < 1024" "0 < k div 8" using k False by (simp_all add: less_mult_imp_div_less)
    then have "(15 # replicate 1023 0) ! (k div 8) = (0 :: u8)" by (cases "k div 8") simp_all
    with False show ?thesis unfolding block_used_def bit_at_def f b bm by simp
  qed
  show "has_free_block small_fs" unfolding has_free_block_def by (rule exI [of _ 5]) (simp add: used bits)
  have "fvalid small_fs w \<and> 4 \<le> w \<and> w \<noteq> 2" if "unat w < 8192" "\<not> block_used small_fs (unat w)" for w :: u32
    using that v used [of "unat w"] by (auto simp: word_le_nat_alt)
  then show "layout_ok small_fs" by (simp add: layout_ok_def f b bits)
qed

text \<open>Two inodes of that volume, opened as the root and as the current directory.\<close>

definition two_files :: "tfs \<Rightarrow> inode \<Rightarrow> inode \<Rightarrow> vfs" where
  "two_files f i j = \<lparr>fsv = f, objs = [0 \<mapsto> i, 1 \<mapsto> j], fresh = 2, root = Ptr 0, pwd = Ptr 1,
     cwd = [slash, 0] @ replicate 253 0, fds = replicate MAX_FD 0, files = replicate MAX_FD None\<rparr>"

definition first_open :: "vfs \<Rightarrow> vfs" where
  "first_open v = v\<lparr>fds := (fds v)[0 := 1], files := (files v)[0 := Some \<lparr>o_inode = 0, o_offset = 0\<rparr>]\<rparr>"

definition both_open :: "vfs \<Rightarrow> vfs" where
  "both_open v = first_open v\<lparr>fds := (fds v)[0 := 1, 1 := 1],
     files := (files v)[0 := Some \<lparr>o_inode = 0, o_offset = 0\<rparr>, 1 := Some \<lparr>o_inode = 1, o_offset = 0\<rparr>]\<rparr>"

lemma two_files_open:
  fixes f i j
  assumes "room f = []"
  defines "v \<equiv> two_files f i j"
  shows "sys_open v [47, 0] 0 = Some (int 0, first_open v)"
    "sys_open (first_open v) [0] LOOKUP_CREATE = Some (int 1, both_open v)"
proof -
  have r: "room (fsv v) = []" and u: "unused_from (replicate MAX_FD 0) 0 = 0" "unused_from ((replicate MAX_FD 0)[0 := 1]) 0 = 1"
    using assms(1) by (simp_all add: v_def two_files_def MAX_FD_def numeral_eq_Suc)
  have "namei v [47, 0] 0 = Some (Ptr 0, v)"
    by (simp add: namei_def v_def two_files_def slash_def namei_loop.simps Let_def)
  then show "sys_open v [47, 0] 0 = Some (int 0, first_open v)"
    unfolding sys_open_def using r u
    by (simp add: malloc_ok_def get_unused_fd_def MAX_FD_def first_open_def) (simp add: v_def two_files_def MAX_FD_def)
  have "namei (first_open v) [0] LOOKUP_CREATE = Some (Ptr 1, first_open v)"
    by (simp add: namei_def v_def two_files_def first_open_def slash_def namei_loop.simps Let_def)
  then show "sys_open (first_open v) [0] LOOKUP_CREATE = Some (int 1, both_open v)"
    unfolding sys_open_def using r u
    by (simp add: malloc_ok_def get_unused_fd_def MAX_FD_def first_open_def both_open_def)
      (simp add: v_def two_files_def MAX_FD_def)
qed

lemma ready_to_copy:
  obtains f si w di where "room f = []" and "bsize (sbi f) = 1024" and "i_size si = 600"
    and "has_free_block f" and "copying (both_open (two_files f si di)) 0 1 0 1 si [w] di [] 0 0"
proof -
  let ?e = "empty_dir\<lparr>i_blksize := 1024\<rparr>"
  have s: "sbi small_fs = small_sbi" by (simp add: small_fs_def)
  have d: "s_data_area small_sbi = 4" "s_block_bitmap small_sbi = 2" by (simp_all add: small_sbi_def)
  have o3: "owns small_fs [3]" using small_mounted(7) [of 3] by (simp add: owns_def small_mounted(6) s d)
  have wf: "file_wf small_fs (?e\<lparr>i_ino := n\<rparr>) []" if "n = 1 \<or> n = 2" for n
  proof -
    have "inode_block small_fs (inr_of (?e\<lparr>i_ino := n\<rparr>)) = 3"
      using that by (auto simp: inr_of_def inode_block_def ipb_def s small_sbi_def bsize_def tfs_inode_size_def)
    moreover have "fvalid small_fs 3" by (rule small_mounted(5)) simp
    ultimately show ?thesis using that small_mounted(1,2) o3
      by (auto simp: file_wf_def s d empty_dir_def owns_def)
  qed
  have r: "length ([] :: u32 list) < TFS_N_BLOCKS" by (simp add: TFS_N_BLOCKS_def)
  have wf1: "file_wf small_fs (?e\<lparr>i_ino := 1\<rparr>) []" "file_wf small_fs (?e\<lparr>i_ino := 2\<rparr>) []" by (simp_all only: wf simp_thms)
  let ?i = "\<lambda>w. ?e\<lparr>i_ino := 1, i_data := (i_data (?e\<lparr>i_ino := 1\<rparr>))[length ([] :: u32 list) := w]\<rparr>"
  obtain w f where a: "file_wf f (?i w) ([] @ [w])" "same_mount small_fs f" "grown small_fs [] f ([] @ [w])"
    by (rule file_wf_alloc [OF wf1(1) r small_mounted(3)], rule that)
  have e: "sbi f = small_sbi" "room f = []" "bitmap_bits f = 8192" "bsize (sbi f) = 1024"
    using a(2) small_mounted(4,6) by (simp_all add: s bitmap_bits_def) (simp add: small_fs_def)
  have used: "block_used f k \<longleftrightarrow> k < 4 \<or> k = unat w" if "k < 8192" for k
    using a(3) small_mounted(6,7) that by (simp add: grown_def)
  define k :: nat where "k = (if unat w = 5 then 6 else 5)"
  then have k: "k = 5 \<or> k = 6" "k \<noteq> unat w" by (auto split: if_splits)
  then have "k < 8192" "\<not> block_used f k" using used [of k] by auto
  then have free: "has_free_block f" unfolding has_free_block_def e by blast
  let ?si = "(?i w)\<lparr>i_size := 600\<rparr>" and ?di = "?e\<lparr>i_ino := 2\<rparr>"
  have src: "file_wf f ?si [w]" using a(1) by (simp add: file_wf_def inr_of_def)
  have dst: "file_wf f ?di []"
    by (rule file_wf_beside [OF wf1(2) a(1,2)]) (use a(3) in simp)
  have "inode_block f (inr_of ?di) = inode_block f (inr_of (?i w))"
    by (simp add: inr_of_def inode_block_def ipb_def e small_sbi_def bsize_def tfs_inode_size_def)
  then have "inode_block f (inr_of ?di) \<noteq> w" using file_wfD(14) [OF a(1)] by auto
  then have "copying (both_open (two_files f ?si ?di)) 0 1 0 1 ?si [w] ?di [] 0 0"
    using src dst e(4) unfolding copying_def readable_def writable_def
    by (simp add: both_open_def first_open_def two_files_def MAX_FD_def empty_dir_def ceil_div_def)
  then show thesis using that [of f ?si ?di w] e free by simp
qed

section \<open>Properties\<close>

text \<open>
  C18: \<^verbatim>\<open>cp\<close> copies. If both paths open, the source as a sound file and the destination as an empty or
  other sound file beside it, on a volume with blocks of 512 or 1024 bytes that has enough free blocks,
  \<^verbatim>\<open>cp\<close> ends and prints nothing; the destination is again a sound file whose first bytes are those of the
  source, the source has kept its bytes, both descriptors are free, and the inode of the copy is on the
  disk. The size it has there is that of the source rounded up to whole blocks.
\<close>

theorem cp_copies:
  assumes "str_at (ram s) (unat p) from" and "sys_open (sv s) (from @ [0]) 0 = Some (int sfd, v)"
    and "str_at (ram s) (unat q) to" and "sys_open v (to @ [0]) LOOKUP_CREATE = Some (int dfd, v')"
    and "copying v' sfd dfd sa da si sbs di dbs 0 0" and "bsize (sbi (fsv v')) dvd 1024"
    and "ceil_div (unat (i_size si)) (bsize (sbi (fsv v'))) \<le> free_blocks (fsv v') + length dbs"
  shows "\<exists>s' di' dbs'. cp buf p q s = Some s' \<and> tty s' = tty s \<and> file_wf (fsv (sv s')) di' dbs' \<and> i_ino di' = i_ino di \<and>
    take (unat (i_size si)) (content (fsv (sv s')) dbs') = take (unat (i_size si)) (content (fsv v') sbs) \<and>
    content (fsv (sv s')) sbs = content (fsv v') sbs \<and>
    (0 < unat (i_size si) \<longrightarrow> saved (fsv (sv s')) di' (unat (i_size si))) \<and>
    files (sv s') ! sfd = None \<and> files (sv s') ! dfd = None"
proof -
  let ?s = "s\<lparr>sv := v'\<rparr>"
  have "copying (sv ?s) sfd dfd sa da si sbs di dbs 0 0" "bsize (sbi (fsv (sv ?s))) dvd 1024"
    "1024 dvd unat (0 :: u32) \<or> 0 = i_size si" "unat (0 :: u32) \<le> unat (i_size si)"
    "ceil_div (unat (i_size si)) (bsize (sbi (fsv (sv ?s)))) \<le> free_blocks (fsv (sv ?s)) + length dbs"
    "0 < unat (0 :: u32) \<longrightarrow> saved (fsv (sv ?s)) di (unat (0 :: u32))" using assms(5-7) by simp_all
  from copy_loop [OF this, of buf] obtain s' di' dbs' where l: "cp_loop buf (int sfd) (int dfd) ?s = Some s'" "tty s' = tty s"
    "copying (sv s') sfd dfd sa da si sbs di' dbs' (i_size si) (i_size si)"
    "copied v' sbs di dbs (unat (i_size si)) (sv s') di' dbs'" by auto
  note c = l(3) [unfolded copying_def readable_def writable_def ofile.select_convs]
  let ?v1 = "\<lambda>v. (if Ptr sa = pwd v then v else v\<lparr>objs := (objs v)(sa := None)\<rparr>)"
  have fd: "sfd < MAX_FD" "dfd < MAX_FD" "sfd \<noteq> dfd" "sa \<noteq> da" "length (files (sv s')) = MAX_FD" using c by blast+
  obtain s1 where s1: "close_fd (int sfd) s' = Some s1" "fsv (sv s1) = fsv (sv s')" "tty s1 = tty s'"
    "files (sv s1) = (files (sv s'))[sfd := None]" "objs (sv s1) da = objs (sv s') da"
    using c fd by (auto simp: close_fd_def sys_close_def bad_fd_def fget_def free_inode_def)
  obtain s2 where s2: "close_fd (int dfd) s1 = Some s2" "fsv (sv s2) = fsv (sv s')" "tty s2 = tty s'"
    "files (sv s2) = (files (sv s'))[sfd := None, dfd := None]"
    using c fd s1(2-5) by (auto simp: close_fd_def sys_close_def bad_fd_def fget_def free_inode_def)
  have "cp buf p q s = Some s2"
    unfolding cp_def cstr_at [OF assms(1)] cstr_at [OF assms(3), folded sys.select_convs]
    using assms(2,4) l(1) s1(1) s2(1) by (simp add: Let_def cstr_at [OF assms(3)])
  moreover have "file_wf (fsv (sv s')) di' dbs'"
    "take (unat (i_size si)) (content (fsv (sv s')) dbs') = take (unat (i_size si)) (content (fsv (sv s')) sbs)"
    using c by blast+
  ultimately show ?thesis using l(2,4) [unfolded copied_def] s2(2-4) fd
    by (intro exI [of _ s2] exI [of _ di'] exI [of _ dbs']) simp
qed

theorem cp_copies_witness:
  "\<exists>s s' f bs bs'. cp 4096 256 512 s = Some s' \<and> bsize (sbi f) = 1024 \<and>
    take 600 (content (fsv (sv s')) bs') = take 600 (content f bs) \<and> files (sv s') ! 0 = None"
proof -
  obtain f si w di where f: "room f = []" "bsize (sbi f) = 1024" "i_size si = 600" "has_free_block f"
    "copying (both_open (two_files f si di)) 0 1 0 1 si [w] di [] 0 0" by (rule ready_to_copy)
  define s where "s = \<lparr>sv = two_files f si di, ram = (\<lambda>_. 0)(256 := 47), tty = con_init undefined\<rparr>"
  have p: "str_at (ram s) (unat (256 :: u32)) [47]" "str_at (ram s) (unat (512 :: u32)) []" by (simp_all add: s_def)
  have o: "sys_open (sv s) ([47] @ [0]) 0 = Some (int 0, first_open (two_files f si di))"
    "sys_open (first_open (two_files f si di)) ([] @ [0]) LOOKUP_CREATE = Some (int 1, both_open (two_files f si di))"
    using two_files_open [OF f(1), of si di] by (simp_all add: s_def)
  have fs: "fsv (both_open (two_files f si di)) = f" by (simp add: both_open_def first_open_def two_files_def)
  have "0 < free_blocks f" using f(4) no_free_blocks [of f] by simp
  then have "ceil_div (unat (i_size si)) (bsize (sbi f)) \<le> free_blocks f + length ([] :: u32 list)"
    by (simp add: f(2,3) ceil_div_def)
  with cp_copies [OF p(1) o(1) p(2) o(2) f(5), unfolded fs, of 4096] f(2,3)
  obtain s' dbs' where "cp 4096 256 512 s = Some s'" "take 600 (content (fsv (sv s')) dbs') = take 600 (content f [w])"
    "files (sv s') ! 0 = None" by auto
  then show ?thesis using f(2) by blast
qed

end
