(* ===== verification/Keyboard.thy ===== *)
theory Keyboard
  imports Prelude
begin

text \<open>
  The keyboard driver of \<^verbatim>\<open>kernel/kb.c\<close>: the translation tables, the modifier state,
  the interrupt handler that appends keys to the ring, and \<^verbatim>\<open>get_key\<close>, which waits for the
  handler. The bytes a run reads from the controller are arguments, and the order in which
  interrupts arrive is an explicit list. A table access outside its array has no value of the
  program: it is \<^term>\<open>None\<close> in the handler and \<open>Wild\<close> in \<^verbatim>\<open>get_key\<close>.
\<close>

unbundle bit_operations_syntax

section \<open>Tables\<close>

text \<open>An array initialiser: the leading entries, zeros behind them, then the designated entries.\<close>

definition init256 :: "u8 list \<Rightarrow> (nat \<times> u8) list \<Rightarrow> u8 list" where
  "init256 xs ds = foldl (\<lambda>t (i, v). t[i := v]) (xs @ replicate (256 - length xs) 0) ds"

definition pad_keys :: "(nat \<times> u8) list" where
  "pad_keys = [(0xC8, 0xE2), (0xC9, 0xE6), (0xCB, 0xE4), (0xCD, 0xE5), (0xCF, 0xE1),
     (0xD0, 0xE3), (0xD1, 0xE7), (0xD2, 0xE8), (0xD3, 0xE9)]"

definition normal_map :: "u8 list" where
  "normal_map = init256
    [0, 0x1B, 49, 50, 51, 52, 53, 54,
     55, 56, 57, 48, 45, 61, 8, 9,
     113, 119, 101, 114, 116, 121, 117, 105,
     111, 112, 91, 93, 10, 0, 97, 115,
     100, 102, 103, 104, 106, 107, 108, 59,
     39, 96, 0, 92, 122, 120, 99, 118,
     98, 110, 109, 44, 46, 47, 0, 42,
     0, 32, 0, 0, 0, 0, 0, 0,
     0, 0, 0, 0, 0, 0, 0, 0xE0,
     0xE2, 0xE6, 45, 0xE4, 53, 0xE5, 43, 0xE1,
     0xE3, 0xE7, 0xE8, 0xE9, 0, 0, 0, 0]
    ([(0x97, 0xE0), (0x9C, 10), (0xB5, 47)] @ pad_keys)"

definition shift_map :: "u8 list" where
  "shift_map = init256
    [0, 27, 33, 64, 35, 36, 37, 94,
     38, 42, 40, 41, 95, 43, 8, 9,
     113, 119, 101, 114, 116, 121, 117, 105,
     111, 112, 123, 125, 10, 0, 97, 115,
     100, 102, 103, 104, 106, 107, 108, 58,
     34, 126, 0, 124, 122, 120, 99, 118,
     98, 110, 109, 60, 62, 63, 0, 42,
     0, 32, 0, 0, 0, 0, 0, 0,
     0, 0, 0, 0, 0, 0, 0, 55,
     56, 57, 45, 52, 53, 54, 43, 49,
     50, 51, 48, 46, 0, 0, 0, 0]
    ([(0x97, 0xE0), (0x9C, 10), (0xB5, 47)] @ pad_keys)"

text \<open>\<^verbatim>\<open>#define C(x) (x - '@')\<close>\<close>

definition C :: "u8 \<Rightarrow> u8" where
  "C x = x - 64"

definition ctrl_map :: "u8 list" where
  "ctrl_map = init256
    [0, 0, 0, 0, 0, 0, 0, 0,
     0, 0, 0, 0, 0, 0, 0, 0,
     C 81, C 87, C 69, C 82, C 84, C 89, C 85, C 73,
     C 79, C 80, 0, 0, 13, 0, C 65, C 83,
     C 68, C 70, C 71, C 72, C 74, C 75, C 76, 0,
     0, 32, 0, C 92, C 90, C 88, C 67, C 86,
     C 66, C 78, C 77, 0, 0, C 47, 0, 0]
    ([(0x97, 0xE0), (0xB5, C 47)] @ pad_keys)"

lemma length_init256:
  assumes "length xs \<le> 256"
  shows "length (init256 xs ds) = 256"
proof -
  have "length (foldl (\<lambda>t (i, v). t[i := v]) t ds) = length t" for t :: "u8 list"
    by (induction ds arbitrary: t) auto
  with assms show ?thesis
    by (simp add: init256_def)
qed

lemma length_maps [simp]:
  "length normal_map = 256" "length shift_map = 256" "length ctrl_map = 256"
  by (simp_all add: normal_map_def shift_map_def ctrl_map_def length_init256)

section \<open>State\<close>

definition LSHIFT :: u8 where "LSHIFT = 1"
definition RSHIFT :: u8 where "RSHIFT = 2"
definition LCTRL :: u8 where "LCTRL = 4"
definition RCTRL :: u8 where "RCTRL = 8"
definition LALT :: u8 where "LALT = 16"
definition RALT :: u8 where "RALT = 32"
definition SCROLL_LOCK :: u8 where "SCROLL_LOCK = 1"
definition NUM_LOCK :: u8 where "NUM_LOCK = 2"
definition CAPS_LOCK :: u8 where "CAPS_LOCK = 4"

lemmas kb_flags = LSHIFT_def RSHIFT_def LCTRL_def RCTRL_def LALT_def RALT_def
  SCROLL_LOCK_def NUM_LOCK_def CAPS_LOCK_def

definition KBD_BUF_SIZE :: nat where
  "KBD_BUF_SIZE = 1024"

text \<open>
  The static variables of the file, and the bytes written to ports so far, newest last.
\<close>

record kbd =
  scancode :: u8
  kmode :: u8
  leds :: u8
  kbd_ring_buffer :: "u8 list"
  ri :: int
  wi :: int
  key_left :: int
  got_e0 :: bool
  outs :: "(u8 \<times> u16) list"

definition outb :: "u8 \<Rightarrow> u16 \<Rightarrow> kbd \<Rightarrow> kbd" where
  "outb b p k = k\<lparr>outs := outs k @ [(b, p)]\<rparr>"

section \<open>Keys\<close>

definition revert_char :: "u8 \<Rightarrow> u8" where
  "revert_char ch =
     (if 97 \<le> ch \<and> ch \<le> 122 then ch - 0x20
      else if 65 \<le> ch \<and> ch \<le> 90 then ch + 0x20
      else ch)"

text \<open>\<^verbatim>\<open>unsigned char *maps[]\<close> has six entries, the last two of them null.\<close>

definition kb_maps :: "u8 list option list" where
  "kb_maps = [Some shift_map, Some shift_map, Some ctrl_map, Some ctrl_map, None, None]"

definition store_key :: "u8 \<Rightarrow> kbd \<Rightarrow> kbd" where
  "store_key key k =
     (let k = k\<lparr>kbd_ring_buffer := (kbd_ring_buffer k)[nat (wi k) := key]\<rparr> in
      k\<lparr>wi := (wi k + 1) mod int KBD_BUF_SIZE\<rparr>)"

text \<open>The key that \<^verbatim>\<open>pln\<close> takes from the table it chose, letters reverted for shift and caps lock.\<close>

definition final_key :: "u8 list \<Rightarrow> kbd \<Rightarrow> u8" where
  "final_key tab k =
     (let key = tab ! unat (scancode k);
          key = (if kmode k AND (RSHIFT OR LSHIFT) \<noteq> 0 then revert_char key else key)
      in if leds k AND CAPS_LOCK \<noteq> 0 then revert_char key else key)"

definition pln :: "kbd \<Rightarrow> kbd option" where
  "pln k =
     (let xmode = uint (kmode k AND 0x3f) in
      if scancode k AND 0x80 \<noteq> 0 then Some k
      else if xmode = 0 then Some (store_key (final_key normal_map k) k)
      else if ((xmode - 1) OR xmode) = 2 * xmode - 1 then
        (if nat (xmode - 1) < length kb_maps then
           (case kb_maps ! nat (xmode - 1) of
              None \<Rightarrow> Some k
            | Some tab \<Rightarrow> Some (store_key (final_key tab k) k))
         else None)
      else Some k)"

section \<open>Modifiers and lock keys\<close>

definition set_clear_mode :: "u8 \<Rightarrow> kbd \<Rightarrow> kbd" where
  "set_clear_mode flag k =
     (if scancode k AND 0x80 \<noteq> 0 then k\<lparr>kmode := kmode k AND NOT flag\<rparr>
      else k\<lparr>kmode := kmode k OR flag\<rparr>)"

definition kb_ctrl :: "bool \<Rightarrow> kbd \<Rightarrow> kbd" where
  "kb_ctrl e0 k = set_clear_mode (if e0 then RCTRL else LCTRL) k"

definition kb_alt :: "bool \<Rightarrow> kbd \<Rightarrow> kbd" where
  "kb_alt e0 k = set_clear_mode (if e0 then RALT else LALT) k"

definition kb_shift :: "kbd \<Rightarrow> kbd" where
  "kb_shift k = set_clear_mode (if scancode k AND 0x7f = 0x2A then LSHIFT else RSHIFT) k"

text \<open>\<^verbatim>\<open>kb_wait\<close> polls the controller and changes nothing.\<close>

definition set_leds :: "kbd \<Rightarrow> kbd" where
  "set_leds k = (let k = outb 0xed 0x60 k in outb (leds k) 0x60 k)"

definition sroll :: "kbd \<Rightarrow> kbd" where
  "sroll k = set_leds (k\<lparr>leds := leds k XOR SCROLL_LOCK\<rparr>)"

definition num_lock :: "kbd \<Rightarrow> kbd" where
  "num_lock k = set_leds (k\<lparr>leds := leds k XOR NUM_LOCK\<rparr>)"

definition cap :: "kbd \<Rightarrow> kbd" where
  "cap k =
     (if scancode k AND 0x80 \<noteq> 0 then k
      else set_leds (k\<lparr>leds := leds k XOR CAPS_LOCK\<rparr>))"

section \<open>The interrupt handler\<close>

text \<open>
  An interrupt is given by the bytes that it reads from the ports 0x60 and 0x61. \<^verbatim>\<open>kb_end\<close> is what
  follows the label \<^verbatim>\<open>end\<close>.
\<close>

type_synonym irq = "u8 \<times> u8"

definition kb_end :: "u8 \<Rightarrow> kbd \<Rightarrow> kbd" where
  "kb_end com k = outb 0x20 0x20 (outb (com AND 0x7f) 0x61 (outb (com OR 0x80) 0x61 k))"

definition kb_dispatch :: "kbd \<Rightarrow> kbd option" where
  "kb_dispatch k =
     (let c = scancode k AND 0x7f in
      if c = 0x36 \<or> c = 0x2A then Some (kb_shift k)
      else if c = 0x3A then Some (cap k)
      else if c = 0x1D then Some ((kb_ctrl (got_e0 k) k)\<lparr>got_e0 := False\<rparr>)
      else if c = 0x38 then Some ((kb_alt (got_e0 k) k)\<lparr>got_e0 := False\<rparr>)
      else pln k)"

fun keyboard_interrupt :: "irq \<Rightarrow> kbd \<Rightarrow> kbd option" where
  "keyboard_interrupt (b60, b61) k =
     (let k = k\<lparr>scancode := b60\<rparr> in
      if scancode k = 0xE0 then Some (kb_end b61 (k\<lparr>got_e0 := True\<rparr>))
      else map_option (kb_end b61) (kb_dispatch k))"

fun keyboard_interrupts :: "irq list \<Rightarrow> kbd \<Rightarrow> kbd option" where
  "keyboard_interrupts [] k = Some k"
| "keyboard_interrupts (i # is') k =
     (case keyboard_interrupt i k of
        None \<Rightarrow> None
      | Some k \<Rightarrow> keyboard_interrupts is' k)"

section \<open>Waiting for a key\<close>

text \<open>
  \<open>is\<close> are the interrupts still to come. The first loop of \<^verbatim>\<open>do_get_key\<close> takes them until one has
  stored a key; \<open>n\<close> of the rest come during its \<^verbatim>\<open>sleep\<close>. \<open>Waits\<close>: no interrupt is left and the
  loop goes on; \<open>Wild\<close>: memory outside an array was used.
\<close>

datatype 'a key_out = Got 'a kbd "irq list" | Waits kbd | Wild

fun wait_key :: "kbd \<Rightarrow> irq list \<Rightarrow> unit key_out" where
  "wait_key k [] = (if ri k \<noteq> wi k then Got () k [] else Waits k)"
| "wait_key k (i # is') =
     (if ri k \<noteq> wi k then Got () k (i # is')
      else (case keyboard_interrupt i k of None \<Rightarrow> Wild | Some k \<Rightarrow> wait_key k is'))"

definition do_get_key :: "nat \<Rightarrow> kbd \<Rightarrow> irq list \<Rightarrow> unit key_out" where
  "do_get_key n k is' =
     (let k = k\<lparr>ri := wi k\<rparr> in
      case wait_key k is' of
        Got _ k rest \<Rightarrow>
          (case keyboard_interrupts (take n rest) k of
             None \<Rightarrow> Wild
           | Some k \<Rightarrow> Got () (k\<lparr>key_left := wi k - ri k\<rparr>) (drop n rest))
      | Waits k \<Rightarrow> Waits k
      | Wild \<Rightarrow> Wild)"

lemma wait_key_rest: "wait_key k is' = Got u k' rest \<Longrightarrow> length rest \<le> length is'"
  by (induction k is' rule: wait_key.induct)
    (auto split: if_splits option.splits dest: le_SucI)

lemma wait_key_consumes: "wait_key k is' = Got u k' rest \<Longrightarrow> ri k = wi k \<Longrightarrow> length rest < length is'"
  by (cases is') (auto split: if_splits option.splits dest: wait_key_rest intro: le_imp_less_Suc)

lemma do_get_key_consumes: "do_get_key n k is' = Got u k' rest \<Longrightarrow> length rest < length is'"
  by (auto simp: do_get_key_def Let_def split: key_out.splits option.splits
      dest: wait_key_consumes)

function get_key :: "nat \<Rightarrow> kbd \<Rightarrow> irq list \<Rightarrow> u8 key_out" where
  "get_key n k is' =
     (let left = key_left k; k = k\<lparr>key_left := left - 1\<rparr> in
      if left \<noteq> 0 then
        (if 0 \<le> ri k \<and> ri k < int KBD_BUF_SIZE
         then Got (kbd_ring_buffer k ! nat (ri k)) (k\<lparr>ri := ri k + 1\<rparr>) is'
         else Wild)
      else (case do_get_key n k is' of
              Got _ k rest \<Rightarrow> get_key n k rest
            | Waits k \<Rightarrow> Waits k
            | Wild \<Rightarrow> Wild))"
  by pat_completeness auto
termination
  by (relation "measure (\<lambda>(n, k, is'). length is')") (auto dest!: do_get_key_consumes)

declare get_key.simps [simp del]


text \<open>Several calls in a row, as the callers read a line.\<close>

fun get_keys :: "nat \<Rightarrow> nat \<Rightarrow> kbd \<Rightarrow> irq list \<Rightarrow> u8 list key_out" where
  "get_keys 0 n k is' = Got [] k is'"
| "get_keys (Suc m) n k is' =
     (case get_key n k is' of
        Got c k is' \<Rightarrow>
          (case get_keys m n k is' of
             Got cs k is' \<Rightarrow> Got (c # cs) k is'
           | Waits k \<Rightarrow> Waits k
           | Wild \<Rightarrow> Wild)
      | Waits k \<Rightarrow> Waits k
      | Wild \<Rightarrow> Wild)"

section \<open>What the handler does\<close>

text \<open>
  The modifiers that \<^verbatim>\<open>pln\<close> looks at, as the tables they select: none the normal map, one shift
  the shift map, the left control key the control map; two modifiers at once type nothing.
\<close>

definition modifier_table :: "u8 \<Rightarrow> u8 list option" where
  "modifier_table m =
     (if m AND 0x3f = 0 then Some normal_map
      else if m AND 0x3f = 1 \<or> m AND 0x3f = 2 then Some shift_map
      else if m AND 0x3f = 4 then Some ctrl_map
      else None)"

definition modifier_codes :: "u8 set" where
  "modifier_codes = {0x36, 0x2A, 0x3A, 0x1D, 0x38}"

text \<open>The keys, one at most, that an interrupt with the scan code \<open>b\<close> types.\<close>

definition pressed :: "u8 \<Rightarrow> kbd \<Rightarrow> u8 list" where
  "pressed b k =
     (if 0x80 \<le> b \<or> b \<in> modifier_codes then []
      else (case modifier_table (kmode k) of
              None \<Rightarrow> []
            | Some tab \<Rightarrow> [final_key tab (k\<lparr>scancode := b\<rparr>)]))"

fun typed :: "irq list \<Rightarrow> kbd \<Rightarrow> u8 list" where
  "typed [] k = []"
| "typed (i # is') k =
     pressed (fst i) k @ (case keyboard_interrupt i k of None \<Rightarrow> [] | Some k \<Rightarrow> typed is' k)"

definition kb_ok :: "kbd \<Rightarrow> bool" where
  "kb_ok k \<longleftrightarrow> length (kbd_ring_buffer k) = KBD_BUF_SIZE \<and> 0 \<le> wi k \<and> wi k < int KBD_BUF_SIZE"

text \<open>The test of \<^verbatim>\<open>pln\<close> for a single bit finds the powers of two.\<close>

lemma single_bit:
  assumes "1 \<le> x" and "x < 64"
  shows "((x - 1) OR x) = 2 * x - 1 \<longleftrightarrow> x \<in> {1, 2, 4, 8, 16, 32 :: int}"
proof -
  have "list_all (\<lambda>x :: int. (((x - 1) OR x) = 2 * x - 1) = (x \<in> {1, 2, 4, 8, 16, 32})) [1..63]"
    by code_simp
  with assms show ?thesis
    by (auto simp: list_all_iff)
qed

lemma and_3f: "uint ((m :: u8) AND 0x3f) < 64"
proof -
  have "m AND 0x3f = take_bit 6 m"
    by (simp add: take_bit_eq_mask mask_eq_exp_minus_1)
  then have "uint (m AND 0x3f) = take_bit 6 (uint m)"
    by (simp only: unsigned_take_bit_eq)
  then show ?thesis
    using take_bit_int_less_exp [of 6 "uint m"] by simp
qed

lemma and_80: "(b :: u8) AND 0x80 = 0 \<longleftrightarrow> b < 0x80"
proof -
  have u: "0 \<le> uint b" "uint b < 256"
    using uint_lt2p [of b] by simp_all
  have *: "even (x div 128) \<longleftrightarrow> x < 128" if "0 \<le> x" "x < 256" for x :: int
  proof (cases "x < 128")
    case False
    then have "x div 128 = 1"
      using that div_pos_pos_trivial [of "x - 128" 128] div_add_self2 [of 128 "x - 128"] by simp
    with False show ?thesis
      by simp
  qed (use that in simp)
  have "b AND 0x80 = b AND 2 ^ 7"
    by simp
  then have "b AND 0x80 = 0 \<longleftrightarrow> \<not> bit b 7"
    by (simp only: and_exp_eq_0_iff_not_bit)
  also have "\<dots> \<longleftrightarrow> even (uint b div 2 ^ 7)"
    using bit_iff_odd [of "uint b" 7] bit_uint_iff [of b 7] by auto
  also have "\<dots> \<longleftrightarrow> uint b < 128"
    using * [OF u] by simp
  finally show ?thesis
    by (simp add: word_less_def)
qed

lemma and_7f: "(b :: u8) < 0x80 \<Longrightarrow> b AND 0x7f = b"
proof -
  assume "b < 0x80"
  then have *: "unat b < 2 ^ 7"
    by (simp add: word_less_nat_alt)
  have "b AND 0x7f = take_bit 7 b"
    by (simp add: take_bit_eq_mask mask_eq_exp_minus_1)
  also have "\<dots> = b"
    using * by (intro word_unat_eq_iff [THEN iffD2]) (simp only: unsigned_take_bit_eq take_bit_nat_eq_self)
  finally show ?thesis .
qed

section \<open>The handler, scan code by scan code\<close>

lemma pln_spec:
  assumes "scancode k AND 0x80 = 0"
  shows "pln k =
    (if kmode k AND 0x3f \<in> {8, 16, 32} then None
     else Some (case modifier_table (kmode k) of
                  None \<Rightarrow> k
                | Some tab \<Rightarrow> store_key (final_key tab k) k))"
proof -
  define x where "x = uint (kmode k AND 0x3f)"
  have w: "kmode k AND 0x3f = word_of_int x"
    by (simp add: x_def)
  have x: "0 \<le> x" "x < 64"
    by (simp_all add: x_def and_3f)
  have eq: "kmode k AND 0x3f = word_of_int n \<longleftrightarrow> x = n" if "0 \<le> n" "n < 256" for n
    using that by (simp add: x_def word_uint_eq_iff uint_word_of_int)
  have eqs: "kmode k AND 0x3f = 0 \<longleftrightarrow> x = 0" "kmode k AND 0x3f = 1 \<longleftrightarrow> x = 1"
    "kmode k AND 0x3f = 2 \<longleftrightarrow> x = 2" "kmode k AND 0x3f = 4 \<longleftrightarrow> x = 4"
    "kmode k AND 0x3f = 8 \<longleftrightarrow> x = 8" "kmode k AND 0x3f = 16 \<longleftrightarrow> x = 16"
    "kmode k AND 0x3f = 32 \<longleftrightarrow> x = 32"
    using eq [of 0] eq [of 1] eq [of 2] eq [of 4] eq [of 8] eq [of 16] eq [of 32] by simp_all
  have bit: "((x - 1) OR x) = 2 * x - 1 \<longleftrightarrow> x \<in> {1, 2, 4, 8, 16, 32}" if "x \<noteq> 0"
    using single_bit [of x] x that by simp
  show ?thesis
  proof (cases "x = 0")
    case True
    then show ?thesis
      using assms by (simp add: pln_def modifier_table_def eqs flip: x_def)
  next
    case False
    show ?thesis
    proof (cases "x \<in> {1, 2, 4, 8, 16, 32}")
      case True
      then show ?thesis
        using assms False bit
        by (auto simp: pln_def modifier_table_def eqs kb_maps_def simp flip: x_def)
    next
      case False': False
      then show ?thesis
        using assms False bit
        by (auto simp: pln_def modifier_table_def eqs simp flip: x_def)
    qed
  qed
qed

lemma pln_break: "scancode k AND 0x80 \<noteq> 0 \<Longrightarrow> pln k = Some k"
  by (simp add: pln_def Let_def)

text \<open>The fields that no interrupt touches, and those that only a typed key changes.\<close>

lemma store_key_simps [simp]:
  "ri (store_key c k) = ri k" "key_left (store_key c k) = key_left k"
  "wi (store_key c k) = (wi k + 1) mod int KBD_BUF_SIZE"
  "kbd_ring_buffer (store_key c k) = (kbd_ring_buffer k)[nat (wi k) := c]"
  by (simp_all add: store_key_def)

lemma kb_end_simps [simp]:
  "ri (kb_end c k) = ri k" "key_left (kb_end c k) = key_left k" "wi (kb_end c k) = wi k"
  "kbd_ring_buffer (kb_end c k) = kbd_ring_buffer k"
  by (simp_all add: kb_end_def outb_def)

lemma set_clear_mode_simps [simp]:
  "ri (set_clear_mode f k) = ri k" "key_left (set_clear_mode f k) = key_left k"
  "wi (set_clear_mode f k) = wi k" "kbd_ring_buffer (set_clear_mode f k) = kbd_ring_buffer k"
  by (simp_all add: set_clear_mode_def)

lemma cap_simps [simp]:
  "ri (cap k) = ri k" "key_left (cap k) = key_left k" "wi (cap k) = wi k"
  "kbd_ring_buffer (cap k) = kbd_ring_buffer k"
  by (simp_all add: cap_def set_leds_def outb_def)

lemmas kb_modifiers = kb_shift_def kb_ctrl_def kb_alt_def

text \<open>
  C22: The interrupt handler uses memory outside its table of maps exactly for the make code of an
  ordinary key typed while the only modifier held is right control or one of the two alt keys:
  \<^verbatim>\<open>pln\<close> indexes an array of six with the modifier mask minus one. Every other byte of the
  controller, in every state, is handled.
\<close>

theorem keyboard_interrupt_bounds:
  "keyboard_interrupt (b, c) k = None \<longleftrightarrow>
     b < 0x80 \<and> b \<notin> modifier_codes \<and> kmode k AND 0x3f \<in> {8, 16, 32}"
proof (cases "b < 0x80")
  case True
  then have "b \<noteq> 0xE0"
    by (auto simp: word_less_nat_alt)
  with True show ?thesis
    by (simp add: kb_dispatch_def modifier_codes_def and_7f and_80 pln_spec Let_def)
next
  case False
  then have "b AND 0x80 \<noteq> 0"
    by (simp add: and_80)
  then show ?thesis
    using False by (simp add: kb_dispatch_def pln_break Let_def)
qed

lemma keyboard_interrupt_keys:
  assumes "keyboard_interrupt (b, c) k = Some k'" and "kb_ok k"
  shows "kb_ok k' \<and> ri k' = ri k \<and> key_left k' = key_left k \<and>
    (pressed b k = [] \<and> wi k' = wi k \<and> kbd_ring_buffer k' = kbd_ring_buffer k \<or>
     (\<exists>x. pressed b k = [x] \<and> wi k' = (wi k + 1) mod int KBD_BUF_SIZE \<and>
        kbd_ring_buffer k' = (kbd_ring_buffer k)[nat (wi k) := x]))"
proof (cases "b < 0x80")
  case True
  then have "b \<noteq> 0xE0"
    by (auto simp: word_less_nat_alt)
  show ?thesis
  proof (cases "b \<in> modifier_codes")
    case mod: True
    with True \<open>b \<noteq> 0xE0\<close> assms show ?thesis
      by (auto simp: kb_dispatch_def modifier_codes_def and_7f Let_def kb_ok_def pressed_def
          kb_modifiers)
  next
    case False
    define k1 where "k1 = k\<lparr>scancode := b\<rparr>"
    from False have "kb_dispatch k1 = pln k1"
      using True by (simp add: kb_dispatch_def modifier_codes_def and_7f k1_def Let_def)
    then have "pln k1 \<noteq> None" and k': "k' = kb_end c (the (pln k1))"
      using assms \<open>b \<noteq> 0xE0\<close> by (auto simp: k1_def Let_def)
    then have "k' = kb_end c (case modifier_table (kmode k) of
        None \<Rightarrow> k1 | Some tab \<Rightarrow> store_key (final_key tab k1) k1)"
      using True unfolding k1_def by (simp add: pln_spec and_80 split: if_splits)
    moreover have "\<not> 0x80 \<le> b"
      using True by (simp only: not_le)
    ultimately show ?thesis
      using False assms(2) by (cases "modifier_table (kmode k)")
        (simp_all add: pressed_def kb_ok_def KBD_BUF_SIZE_def k1_def)
  qed
next
  case False
  then have "b AND 0x80 \<noteq> 0"
    by (simp add: and_80)
  then have "kb_dispatch (k\<lparr>scancode := b\<rparr>) \<noteq> None"
      "wi (the (kb_dispatch (k\<lparr>scancode := b\<rparr>))) = wi k"
      "ri (the (kb_dispatch (k\<lparr>scancode := b\<rparr>))) = ri k"
      "key_left (the (kb_dispatch (k\<lparr>scancode := b\<rparr>))) = key_left k"
      "kbd_ring_buffer (the (kb_dispatch (k\<lparr>scancode := b\<rparr>))) = kbd_ring_buffer k"
    by (simp_all add: kb_dispatch_def pln_break kb_modifiers Let_def)
  then show ?thesis
    using assms False by (cases "b = 0xE0") (auto simp: kb_ok_def pressed_def Let_def)
qed

lemma length_pressed: "length (pressed b k) \<le> 1"
  by (simp add: pressed_def split: option.split)

lemma mod_wrap: "n \<le> x \<Longrightarrow> x < 2 * n \<Longrightarrow> x mod n = x - (n :: int)"
  using mod_pos_pos_trivial [of "x - n" n] mod_add_self2 [of "x - n" n] by simp

lemma ring_step:
  assumes "0 \<le> w" and "w < int n" and "0 < i" and "i < n"
  shows "nat w \<noteq> nat ((w + int i) mod int n)"
proof (cases "w + int i < int n")
  case True
  with assms show ?thesis
    by (simp add: eq_nat_nat_iff)
next
  case False
  then have "(w + int i) mod int n = w + int i - int n"
    using assms by (intro mod_wrap) simp_all
  with assms False show ?thesis
    by simp
qed

text \<open>A run of interrupts appends what they type, wherever the ring index stands.\<close>

definition ring_filled :: "kbd \<Rightarrow> u8 list \<Rightarrow> kbd \<Rightarrow> bool" where
  "ring_filled k xs k' \<longleftrightarrow> kb_ok k' \<and> ri k' = ri k \<and> key_left k' = key_left k \<and>
     wi k' = (wi k + int (length xs)) mod int KBD_BUF_SIZE \<and>
     (\<forall>i < KBD_BUF_SIZE. kbd_ring_buffer k' ! nat ((wi k + int i) mod int KBD_BUF_SIZE) =
        (if i < length xs then xs ! i else kbd_ring_buffer k ! nat ((wi k + int i) mod int KBD_BUF_SIZE)))"

lemma ring_filled_Cons:
  assumes k: "kb_ok k" and f: "ring_filled k1 xs k'" and l: "length (x # xs) \<le> KBD_BUF_SIZE"
    and k1: "ri k1 = ri k" "key_left k1 = key_left k" "wi k1 = (wi k + 1) mod int KBD_BUF_SIZE"
      "kbd_ring_buffer k1 = (kbd_ring_buffer k)[nat (wi k) := x]"
  shows "ring_filled k (x # xs) k'"
proof -
  let ?n = "int KBD_BUF_SIZE"
  have ok: "length (kbd_ring_buffer k) = KBD_BUF_SIZE" "0 \<le> wi k" "wi k < ?n"
    using k by (simp_all add: kb_ok_def)
  have shift: "(wi k1 + int i) mod ?n = (wi k + int (Suc i)) mod ?n" for i
    by (simp add: k1(3) mod_simps ac_simps)
  have f': "kbd_ring_buffer k' ! nat ((wi k1 + int i) mod ?n) =
      (if i < length xs then xs ! i else kbd_ring_buffer k1 ! nat ((wi k1 + int i) mod ?n))" if "i < KBD_BUF_SIZE" for i
    using f that by (simp add: ring_filled_def)
  have "kbd_ring_buffer k' ! nat ((wi k + int i) mod ?n) =
      (if i < length (x # xs) then (x # xs) ! i else kbd_ring_buffer k ! nat ((wi k + int i) mod ?n))"
    if i: "i < KBD_BUF_SIZE" for i
  proof (cases i)
    case 0
    have "(wi k1 + int (KBD_BUF_SIZE - 1)) mod ?n = wi k"
      using ok shift [of "KBD_BUF_SIZE - 1"] by (simp add: KBD_BUF_SIZE_def)
    then have "kbd_ring_buffer k' ! nat (wi k) = kbd_ring_buffer k1 ! nat (wi k)"
      using f' [of "KBD_BUF_SIZE - 1"] l by (simp add: KBD_BUF_SIZE_def)
    then show ?thesis using ok 0 by (simp add: k1(4))
  next
    case (Suc i')
    have "nat (wi k) \<noteq> nat ((wi k + int i) mod ?n)" using ok i Suc by (intro ring_step) simp_all
    then show ?thesis using f' [of i'] i by (simp add: Suc k1(4) shift)
  qed
  moreover have "wi k' = (wi k + int (length (x # xs))) mod ?n"
    using f by (simp add: ring_filled_def k1(3) mod_simps ac_simps)
  ultimately show ?thesis using f k1(1,2) by (simp add: ring_filled_def)
qed

lemma keyboard_interrupts_filled:
  assumes "keyboard_interrupts is' k = Some k'" and "kb_ok k" and "length (typed is' k) \<le> KBD_BUF_SIZE"
  shows "ring_filled k (typed is' k) k'"
  using assms
proof (induction is' arbitrary: k)
  case Nil
  then show ?case by (simp add: ring_filled_def kb_ok_def)
next
  case (Cons j is')
  obtain b c where j: "j = (b, c)" by (cases j)
  from Cons.prems(1) obtain k1 where k1: "keyboard_interrupt (b, c) k = Some k1"
      "keyboard_interrupts is' k1 = Some k'"
    by (auto simp: j simp del: keyboard_interrupt.simps split: option.splits)
  note step = keyboard_interrupt_keys [OF k1(1) Cons.prems(2)]
  have ty: "typed (j # is') k = pressed b k @ typed is' k1"
    by (simp add: j k1(1) del: keyboard_interrupt.simps)
  have "length (typed is' k1) \<le> KBD_BUF_SIZE" using Cons.prems(3) unfolding ty by simp
  note ih = Cons.IH [OF k1(2) _ this]
  show ?case
  proof (cases "pressed b k")
    case Nil
    with step ih show ?thesis unfolding ty by (simp add: ring_filled_def)
  next
    case (Cons x xs)
    then have p: "pressed b k = [x]" using length_pressed [of b k] by simp
    with step have k1': "kb_ok k1" "ri k1 = ri k" "key_left k1 = key_left k"
        "wi k1 = (wi k + 1) mod int KBD_BUF_SIZE" "kbd_ring_buffer k1 = (kbd_ring_buffer k)[nat (wi k) := x]"
      by simp_all
    have "length (x # typed is' k1) \<le> KBD_BUF_SIZE" using Cons.prems(3) unfolding ty p by simp
    from ring_filled_Cons [OF Cons.prems(2) ih [OF k1'(1)] this k1'(2-5)] show ?thesis unfolding ty p by simp
  qed
qed

lemmas keyboard_interrupts_ring = keyboard_interrupts_filled [unfolded ring_filled_def]

section \<open>Reading the keys\<close>

text \<open>The handler neither reads nor writes \<^verbatim>\<open>ri\<close> and \<^verbatim>\<open>key_left\<close>.\<close>

definition with_reader :: "int \<Rightarrow> int \<Rightarrow> kbd \<Rightarrow> kbd" where
  "with_reader a b k = k\<lparr>ri := a, key_left := b\<rparr>"

lemma with_reader_simps [simp]:
  "scancode (with_reader a b k) = scancode k" "kmode (with_reader a b k) = kmode k"
  "leds (with_reader a b k) = leds k" "kbd_ring_buffer (with_reader a b k) = kbd_ring_buffer k"
  "wi (with_reader a b k) = wi k" "got_e0 (with_reader a b k) = got_e0 k"
  "ri (with_reader a b k) = a" "key_left (with_reader a b k) = b"
  by (simp_all add: with_reader_def)

lemma with_reader_upd:
  "(with_reader a b k)\<lparr>scancode := c\<rparr> = with_reader a b (k\<lparr>scancode := c\<rparr>)"
  "(with_reader a b k)\<lparr>got_e0 := e\<rparr> = with_reader a b (k\<lparr>got_e0 := e\<rparr>)"
  "(with_reader a b k)\<lparr>leds := c\<rparr> = with_reader a b (k\<lparr>leds := c\<rparr>)"
  "kb_end c (with_reader a b k) = with_reader a b (kb_end c k)"
  "set_clear_mode f (with_reader a b k) = with_reader a b (set_clear_mode f k)"
  "set_leds (with_reader a b k) = with_reader a b (set_leds k)"
  "store_key x (with_reader a b k) = with_reader a b (store_key x k)"
  by (simp_all add: with_reader_def kb_end_def outb_def set_clear_mode_def set_leds_def
      store_key_def)

lemma final_key_reader [simp]: "final_key tab (with_reader a b k) = final_key tab k"
  by (simp add: final_key_def)

lemma pln_reader: "pln (with_reader a b k) = map_option (with_reader a b) (pln k)"
proof (cases "scancode k AND 0x80 = 0")
  case True
  then show ?thesis
    by (simp add: pln_spec with_reader_upd split: option.split)
qed (simp add: pln_break)

lemma kb_dispatch_reader:
  "kb_dispatch (with_reader a b k) = map_option (with_reader a b) (kb_dispatch k)"
  by (simp add: kb_dispatch_def Let_def pln_reader kb_modifiers cap_def with_reader_upd)

lemma keyboard_interrupt_reader:
  "keyboard_interrupt i (with_reader a b k) = map_option (with_reader a b) (keyboard_interrupt i k)"
  by (cases i) (simp add: Let_def with_reader_upd kb_dispatch_reader option.map_comp comp_def)

lemma keyboard_interrupts_reader:
  "keyboard_interrupts is' (with_reader a b k) =
     map_option (with_reader a b) (keyboard_interrupts is' k)"
  by (induction is' arbitrary: k) (simp_all add: keyboard_interrupt_reader split: option.split)

lemma pressed_reader [simp]: "pressed b (with_reader x y k) = pressed b k"
  by (simp add: pressed_def with_reader_upd split: option.split)

lemma with_reader_twice [simp]: "with_reader a b (with_reader c d k) = with_reader a b k"
  by (simp add: with_reader_def)

lemma typed_reader [simp]: "typed is' (with_reader a b k) = typed is' k"
  by (induction is' arbitrary: k) (simp_all add: keyboard_interrupt_reader split: option.split)

lemma kb_ok_reader [simp]: "kb_ok (with_reader a b k) \<longleftrightarrow> kb_ok k"
  by (simp add: kb_ok_def)

lemma wait_key_rest_runs:
  assumes "keyboard_interrupts is' k = Some k'" and "kb_ok k" and "ri k \<noteq> wi k'"
  shows "\<exists>k1 rest. wait_key k is' = Got () k1 rest \<and> keyboard_interrupts rest k1 = Some k' \<and>
    length rest \<le> length is'"
  using assms
proof (induction is' arbitrary: k)
  case (Cons j is')
  obtain b c where j: "j = (b, c)"
    by (cases j)
  show ?case
  proof (cases "ri k = wi k")
    case True
    from Cons.prems(1) obtain k1 where k1: "keyboard_interrupt (b, c) k = Some k1"
        "keyboard_interrupts is' k1 = Some k'"
      by (auto simp: j simp del: keyboard_interrupt.simps split: option.splits)
    have "kb_ok k1" "ri k1 = ri k"
      using keyboard_interrupt_keys [OF k1(1) Cons.prems(2)] by simp_all
    then obtain k2 rest where "wait_key k1 is' = Got () k2 rest"
        "keyboard_interrupts rest k2 = Some k'" "length rest \<le> length is'"
      using Cons.IH [OF k1(2)] Cons.prems(3) by auto
    with True k1(1) show ?thesis
      by (simp add: j del: keyboard_interrupt.simps)
  next
    case False
    with Cons.prems(1) show ?thesis
      by simp
  qed
qed simp

lemma do_get_key_all:
  assumes "keyboard_interrupts is' k = Some k'" and "kb_ok k" and "wi k' \<noteq> wi k"
    and "length is' \<le> n"
  shows "do_get_key n k is' = Got () (with_reader (wi k) (wi k' - wi k) k') []"
proof -
  let ?k = "with_reader (wi k) (key_left k) k"
  have k: "k\<lparr>ri := wi k\<rparr> = ?k"
    by (simp add: with_reader_def)
  have run: "keyboard_interrupts is' ?k = Some (with_reader (wi k) (key_left k) k')"
    using assms(1) by (simp add: keyboard_interrupts_reader)
  then obtain k1 rest where k1: "wait_key ?k is' = Got () k1 rest"
      "keyboard_interrupts rest k1 = Some (with_reader (wi k) (key_left k) k')"
      "length rest \<le> length is'"
    using wait_key_rest_runs [OF run] assms(2,3) by auto
  then show ?thesis
    using assms(4) by (simp add: do_get_key_def k) (simp add: with_reader_def)
qed

lemma get_keys_ready:
  assumes "key_left k = int m" and "0 \<le> ri k" and "ri k + int m \<le> int KBD_BUF_SIZE"
  shows "get_keys m n k is' =
    Got (map (\<lambda>i. kbd_ring_buffer k ! nat (ri k + int i)) [0..<m])
      (with_reader (ri k + int m) 0 k) is'"
  using assms
proof (induction m arbitrary: k)
  case 0
  then show ?case
    by (simp add: with_reader_def)
next
  case (Suc m)
  let ?k = "with_reader (ri k + 1) (int m) k"
  have one: "get_key n k is' = Got (kbd_ring_buffer k ! nat (ri k)) ?k is'"
    using Suc.prems by (subst get_key.simps) (simp add: with_reader_def)
  have rest: "get_keys m n ?k is' =
      Got (map (\<lambda>i. kbd_ring_buffer k ! nat (ri k + int (Suc i))) [0..<m])
        (with_reader (ri k + int (Suc m)) 0 k) is'"
    using Suc.IH [of ?k] Suc.prems by (simp add: with_reader_def ac_simps)
  show ?case
    by (simp add: one rest map_upt_Suc del: upt_Suc)
qed

lemma get_key_fetch:
  assumes "key_left k = 0" and "do_get_key n (with_reader (ri k) (- 1) k) is' = Got () k' rest"
  shows "get_key n k is' = get_key n k' rest"
proof -
  have "k\<lparr>key_left := - 1\<rparr> = with_reader (ri k) (- 1) k"
    by (simp add: with_reader_def)
  with assms show ?thesis
    by (subst get_key.simps) simp
qed

text \<open>The ring at the start, and what the fields count.\<close>

definition kbd0 :: kbd where
  "kbd0 = \<lparr>scancode = 0, kmode = 0, leds = 0, kbd_ring_buffer = replicate KBD_BUF_SIZE 0,
     ri = 0, wi = 0, key_left = 0, got_e0 = False, outs = []\<rparr>"

lemma kb_ok_kbd0 [simp]: "kb_ok kbd0"
  by (simp add: kb_ok_def kbd0_def KBD_BUF_SIZE_def)

text \<open>
  A negative count of keys left is true for \<^verbatim>\<open>if (key_left--)\<close>: the calls go on through the ring,
  and past its end.
\<close>

lemma get_keys_negative:
  assumes "key_left k < 0" and "0 \<le> ri k" and "ri k + int m = int KBD_BUF_SIZE"
  shows "get_keys (Suc m) n k is' = Wild"
  using assms
proof (induction m arbitrary: k)
  case 0
  then have "get_key n k is' = Wild"
    by (subst get_key.simps) simp
  then show ?case
    by simp
next
  case (Suc m)
  let ?k = "with_reader (ri k + 1) (key_left k - 1) k"
  have one: "get_key n k is' = Got (kbd_ring_buffer k ! nat (ri k)) ?k is'"
    using Suc.prems by (subst get_key.simps) (simp add: with_reader_def)
  have "get_keys (Suc m) n ?k is' = Wild"
    using Suc.prems by (intro Suc.IH) simp_all
  then show ?case
    by (simp only: get_keys.simps(2) [of "Suc m"] one key_out.case)
qed

lemma get_key_first:
  assumes "keyboard_interrupts is' k = Some k'" and "kb_ok k" and "key_left k = 0"
    and "wi k' \<noteq> wi k" and "length is' \<le> n"
  shows "get_key n k is' = get_key n (with_reader (wi k) (wi k' - wi k) k') []"
proof (rule get_key_fetch [OF assms(3)])
  let ?k = "with_reader (ri k) (- 1) k"
  have run: "keyboard_interrupts is' ?k = Some (with_reader (ri k) (- 1) k')"
    using assms(1) by (simp add: keyboard_interrupts_reader)
  show "do_get_key n ?k is' = Got () (with_reader (wi k) (wi k' - wi k) k') []"
    using do_get_key_all [OF run] assms(2,4,5) by simp
qed

text \<open>
  Once the keys of a wait wrap around the ring, the count is negative.
\<close>

lemma get_key_wraps:
  assumes "keyboard_interrupts is' k = Some k'" and "kb_ok k" and "key_left k = 0"
    and "int KBD_BUF_SIZE \<le> wi k + int (length (typed is' k))"
    and "length (typed is' k) < KBD_BUF_SIZE" and "length is' \<le> n"
  shows "get_keys (Suc (KBD_BUF_SIZE - nat (wi k))) n k is' = Wild"
proof -
  have ok: "0 \<le> wi k" "wi k < int KBD_BUF_SIZE"
    using assms(2) by (simp_all add: kb_ok_def)
  have "wi k' = (wi k + int (length (typed is' k))) mod int KBD_BUF_SIZE"
    using keyboard_interrupts_ring [OF assms(1,2)] assms(5) by simp
  also have "\<dots> = wi k + int (length (typed is' k)) - int KBD_BUF_SIZE"
    using assms(4,5) ok by (intro mod_wrap) simp_all
  finally have neg: "wi k' < wi k"
    using assms(5) by simp
  let ?r = "with_reader (wi k) (wi k' - wi k) k'"
  have "get_keys (Suc (KBD_BUF_SIZE - nat (wi k))) n k is' =
      get_keys (Suc (KBD_BUF_SIZE - nat (wi k))) n ?r []"
    using get_key_first [OF assms(1,2,3) _ assms(6)] neg by simp
  also have "\<dots> = Wild"
    using ok neg by (intro get_keys_negative) simp_all
  finally show ?thesis .
qed

text \<open>
  C23: Keys are delivered in the order typed. When the interrupts of one wait (the first key
  ends the loop, the rest come during the \<^verbatim>\<open>sleep\<close>) type the keys \<open>typed is' k\<close> and the ring does
  not wrap, that many calls of \<^verbatim>\<open>get_key\<close> return exactly these keys, in this order, and leave
  the reader level with the handler.
\<close>

theorem get_keys_in_order:
  assumes "keyboard_interrupts is' k = Some k'" and "kb_ok k" and "key_left k = 0"
    and "typed is' k \<noteq> []" and "wi k + int (length (typed is' k)) < int KBD_BUF_SIZE"
    and "length is' \<le> n"
  shows "get_keys (length (typed is' k)) n k is' =
    Got (typed is' k) (k'\<lparr>ri := wi k', key_left := 0\<rparr>) []"
proof -
  let ?m = "length (typed is' k)"
  have ok: "0 \<le> wi k"
    using assms(2) by (simp add: kb_ok_def)
  have "?m \<le> KBD_BUF_SIZE"
    using assms(5) ok by simp
  note ring = keyboard_interrupts_ring [OF assms(1,2) this]
  have wi: "wi k' = wi k + int ?m"
    using ring assms(5) ok by simp
  let ?r = "with_reader (wi k) (int ?m) k'"
  have first: "get_key n k is' = get_key n ?r []"
    using get_key_first [OF assms(1,2,3) _ assms(6)] wi assms(4) by simp
  obtain m where m: "?m = Suc m"
    using assms(4) by (cases "typed is' k") auto
  have "get_keys ?m n k is' = get_keys ?m n ?r []"
    by (simp add: m first)
  also have "\<dots> = Got (map (\<lambda>i. kbd_ring_buffer k' ! nat (wi k + int i)) [0..<?m])
      (with_reader (wi k + int ?m) 0 ?r) []"
    using get_keys_ready [of ?r ?m n "[]"] ok assms(5) by simp
  also have "map (\<lambda>i. kbd_ring_buffer k' ! nat (wi k + int i)) [0..<?m] = typed is' k"
  proof (rule nth_equalityI)
    fix i
    assume i: "i < length (map (\<lambda>i. kbd_ring_buffer k' ! nat (wi k + int i)) [0..<?m])"
    then have "(wi k + int i) mod int KBD_BUF_SIZE = wi k + int i" "i < KBD_BUF_SIZE"
      using ok assms(5) by simp_all
    with i ring show "map (\<lambda>i. kbd_ring_buffer k' ! nat (wi k + int i)) [0..<?m] ! i =
        typed is' k ! i"
      by (auto dest!: spec [of _ i])
  qed simp
  finally show ?thesis
    by (simp add: wi with_reader_def)
qed

text \<open>Left shift, the key of \<open>a\<close>, its release, the release of shift and the key of \<open>b\<close>.\<close>

theorem get_keys_in_order_witness:
  "let is' = [(0x2A, 0), (0x1E, 0), (0x9E, 0), (0xAA, 0), (0x30, 0)];
       k' = the (keyboard_interrupts is' kbd0) in
   get_keys 2 5 kbd0 is' = Got [65, 98] (k'\<lparr>ri := wi k', key_left := 0\<rparr>) []"
proof -
  let ?is = "[(0x2A, 0), (0x1E, 0), (0x9E, 0), (0xAA, 0), (0x30, 0)] :: irq list"
  have t: "typed ?is kbd0 = [65, 98]"
    by code_simp
  have "keyboard_interrupts ?is kbd0 \<noteq> None"
    by code_simp
  then have run: "keyboard_interrupts ?is kbd0 = Some (the (keyboard_interrupts ?is kbd0))"
    by simp
  have "key_left kbd0 = 0" "wi kbd0 = 0"
    by (simp_all add: kbd0_def)
  moreover have "(2 :: nat) = length (typed ?is kbd0)"
    by (simp add: t del: typed.simps)
  ultimately show ?thesis
    using get_keys_in_order [OF run kb_ok_kbd0, of 5]
    by (simp add: t KBD_BUF_SIZE_def Let_def numeral_2_eq_2 del: typed.simps keyboard_interrupts.simps
        get_keys.simps)
qed

text \<open>
  The extended codes of the cursor keys leave \<^verbatim>\<open>got_e0\<close> set: the next press of the left control
  key counts as the right one, and the letter typed with it runs off the table.
\<close>

lemma stale_e0:
  "keyboard_interrupts [(0xE0, 0), (0x48, 0), (0xE0, 0), (0xC8, 0), (0x1D, 0), (0x2E, 0)] kbd0 = None"
  by code_simp

end
