(* ===== verification/Traps.thy ===== *)
theory Traps
  imports Printk
begin

text \<open>
  Interrupts: the descriptor table and the interrupt controllers as \<^verbatim>\<open>kernel/traps.c\<close> and the
  \<^verbatim>\<open>_init\<close> functions of the drivers set them up, and what the handlers of the exceptions print before
  they loop for ever. The addresses that the linker gives the entry points of \<^verbatim>\<open>kernel/asm.s\<close> are a
  parameter \<open>adr\<close>; what a port answers, given the bytes sent to ports so far, is a parameter \<open>reply\<close>.
\<close>

unbundle bit_operations_syntax

section \<open>State\<close>

type_synonym u64 = "64 word"

text \<open>The entry points of \<^verbatim>\<open>kernel/asm.s\<close> that the table names.\<close>

datatype handler =
    Divide_error | Debug_trap | Nmi | Int3 | Overflow | Bounds | Invalid_op | Double_fault
  | Coprocessor_segment_overrun | Invalid_TSS | Segment_not_present | Stack_segment
  | General_protection | Reserved | Syscall_interrupt
  | Timer_interrupt | Keyboard_interrupt | Floppy_interrupt

text \<open>The table \<^verbatim>\<open>idt\<close>, the operand of \<^verbatim>\<open>lidt\<close>, and the bytes sent to ports, newest last.\<close>

record machine =
  idt :: "u64 list"
  idt_descr :: "u16 \<times> u32"
  sent :: "(u16 \<times> u8) list"

type_synonym replies = "(u16 \<times> u8) list \<Rightarrow> u16 \<Rightarrow> u8"

definition outb :: "u32 \<Rightarrow> u16 \<Rightarrow> machine \<Rightarrow> machine" where
  "outb value port s = s\<lparr>sent := sent s @ [(port, ucast value)]\<rparr>"

definition inb :: "replies \<Rightarrow> u16 \<Rightarrow> machine \<Rightarrow> u32" where
  "inb reply port s = ucast (reply (sent s) port)"

section \<open>Gates\<close>

text \<open>\<^verbatim>\<open>movw\<close> to the low half of a register.\<close>

definition movw :: "u16 \<Rightarrow> u32 \<Rightarrow> u32" where
  "movw w r = (r AND 0xFFFF0000) OR ucast w"

text \<open>\<^verbatim>\<open>_set_gate\<close>: the words that go to the address of the gate and 4 bytes behind it.\<close>

definition set_gate_words :: "u32 \<Rightarrow> u32 \<Rightarrow> u32 \<Rightarrow> u32 \<times> u32" where
  "set_gate_words type dpl addr =
     (let edx = addr; eax = 0x00080000;
          eax = movw (ucast edx) eax;
          edx = movw (ucast (0x8000 + push_bit 13 dpl + push_bit 8 type)) edx
      in (eax, edx))"

definition gate_bits :: "u32 \<times> u32 \<Rightarrow> u64" where
  "gate_bits g = ucast (fst g) OR push_bit 32 (ucast (snd g))"

definition set_gate :: "nat \<Rightarrow> u32 \<Rightarrow> u32 \<Rightarrow> u32 \<Rightarrow> machine \<Rightarrow> machine" where
  "set_gate n type dpl addr s = s\<lparr>idt := (idt s)[n := gate_bits (set_gate_words type dpl addr)]\<rparr>"

definition set_intr_gate :: "nat \<Rightarrow> u32 \<Rightarrow> machine \<Rightarrow> machine" where
  "set_intr_gate n addr = set_gate n 14 0 addr"

definition set_trap_gate :: "nat \<Rightarrow> u32 \<Rightarrow> machine \<Rightarrow> machine" where
  "set_trap_gate n addr = set_gate n 15 0 addr"

definition set_system_gate :: "nat \<Rightarrow> u32 \<Rightarrow> machine \<Rightarrow> machine" where
  "set_system_gate n addr = set_gate n 15 3 addr"

section \<open>Setting up\<close>

definition ipc_install :: "machine \<Rightarrow> machine" where
  "ipc_install s =
     (let s = outb 0x11 0x20 s; s = outb 0x11 0xA0 s;
          s = outb 0x20 0x21 s; s = outb 0x28 0xA1 s;
          s = outb 0x04 0x21 s; s = outb 0x02 0xA1 s;
          s = outb 0x01 0x21 s; s = outb 0x01 0xA1 s;
          s = outb 0x11 0x21 s; s = outb 0x11 0xA1 s
      in s)"

text \<open>The gates of the exceptions, in the order of the calls.\<close>

definition trap_gates :: "(handler \<Rightarrow> u32) \<Rightarrow> machine \<Rightarrow> machine" where
  "trap_gates adr s =
     (let s = set_trap_gate 0 (adr Divide_error) s;
          s = set_trap_gate 1 (adr Debug_trap) s;
          s = set_trap_gate 2 (adr Nmi) s;
          s = set_system_gate 3 (adr Int3) s;
          s = set_system_gate 4 (adr Overflow) s;
          s = set_system_gate 5 (adr Bounds) s;
          s = set_trap_gate 6 (adr Invalid_op) s;
          s = set_trap_gate 7 (adr Reserved) s;
          s = set_trap_gate 8 (adr Double_fault) s;
          s = set_trap_gate 9 (adr Coprocessor_segment_overrun) s;
          s = set_trap_gate 10 (adr Invalid_TSS) s;
          s = set_trap_gate 11 (adr Segment_not_present) s;
          s = set_trap_gate 12 (adr Stack_segment) s;
          s = set_trap_gate 13 (adr General_protection) s;
          s = set_trap_gate 14 (adr Reserved) s;
          s = set_trap_gate 15 (adr Reserved) s;
          s = set_trap_gate 16 (adr Reserved) s
      in s)"

fun reserved_gates :: "(handler \<Rightarrow> u32) \<Rightarrow> nat \<Rightarrow> nat \<Rightarrow> machine \<Rightarrow> machine" where
  "reserved_gates adr i 0 s = s"
| "reserved_gates adr i (Suc n) s = reserved_gates adr (i + 1) n (set_trap_gate i (adr Reserved) s)"

definition trap_init :: "replies \<Rightarrow> (handler \<Rightarrow> u32) \<Rightarrow> machine \<Rightarrow> machine" where
  "trap_init reply adr s =
     (let s = ipc_install s;
          s = trap_gates adr s;
          s = reserved_gates adr 17 (48 - 17) s;
          s = s\<lparr>idt_descr := (256 * 8 - 1, 0x80000)\<rparr>;
          s = outb (inb reply 0x21 s AND 0xFB) 0x21 s;
          s = outb (inb reply 0xA1 s AND 0xDF) 0xA1 s
      in set_system_gate 0x80 (adr Syscall_interrupt) s)"

definition keyboard_init :: "replies \<Rightarrow> (handler \<Rightarrow> u32) \<Rightarrow> machine \<Rightarrow> machine" where
  "keyboard_init reply adr s =
     (let s = set_trap_gate 0x21 (adr Keyboard_interrupt) s
      in outb (inb reply 0x21 s AND 0xFD) 0x21 s)"

text \<open>\<^verbatim>\<open>hz\<close> is not 0.\<close>

definition timer_init :: "replies \<Rightarrow> (handler \<Rightarrow> u32) \<Rightarrow> nat \<Rightarrow> machine \<Rightarrow> machine" where
  "timer_init reply adr hz s =
     (let divisor = word_of_nat (1193180 div hz);
          s = outb 0x36 0x43 s;
          s = outb (divisor AND 0xFF) 0x40 s;
          s = outb (drop_bit 8 divisor) 0x40 s;
          s = set_trap_gate 0x20 (adr Timer_interrupt) s
      in outb (inb reply 0x21 s AND 0xFE) 0x21 s)"

definition floppy_init :: "replies \<Rightarrow> (handler \<Rightarrow> u32) \<Rightarrow> machine \<Rightarrow> machine" where
  "floppy_init reply adr s =
     (let s = set_trap_gate 0x26 (adr Floppy_interrupt) s
      in outb (inb reply 0x21 s AND NOT 0x40) 0x21 s)"

text \<open>These calls in the order of \<^verbatim>\<open>init\<close>.\<close>

definition init_interrupts :: "replies \<Rightarrow> (handler \<Rightarrow> u32) \<Rightarrow> machine \<Rightarrow> machine" where
  "init_interrupts reply adr s =
     floppy_init reply adr (timer_init reply adr 100 (keyboard_init reply adr (trap_init reply adr s)))"

section \<open>Exceptions\<close>

text \<open>
  What a handler prints before its endless loop. \<open>lng\<close> reads a \<^verbatim>\<open>long\<close> of memory, \<open>user\<close> one of the
  segment 0x17.
\<close>

definition lng :: "mem \<Rightarrow> u32 \<Rightarrow> nat \<Rightarrow> u32" where
  "lng m p i = (let a = unat (p + 4 * word_of_nat i) in le32 (m a) (m (a + 1)) (m (a + 2)) (m (a + 3)))"

record segs =
  fs_reg :: u16
  ds_reg :: u16
  es_reg :: u16

definition die :: "mem \<Rightarrow> (u32 \<Rightarrow> u32) \<Rightarrow> segs \<Rightarrow> u32 \<Rightarrow> u32 \<Rightarrow> u32 \<Rightarrow> con \<Rightarrow> con option" where
  "die m user g str esp_ptr nr c =
     (let esp = lng m esp_ptr;
          head = [(nl, []), (''%s: %04x'' @ nl @ cr, [str, nr AND 0xFFFF]),
            (''EIP:'' @ tab @ ''%04x:%p'' @ nl @ ''EFLAGS:'' @ tab @ ''%p'' @ nl @ ''ESP:'' @ tab @ ''%04x:%p'' @ nl,
              [esp 1, esp 0, esp 2, esp 4, esp 3]),
            (''fs: %04x'' @ nl, [ucast (fs_reg g)]), (''ds: %04x'' @ nl, [ucast (ds_reg g)]),
            (''es: %04x'' @ nl, [ucast (es_reg g)])];
          stack = (if esp 4 = 0x17
            then [(''Stack: '', [])] @ map (\<lambda>i. (''%p '', [user (esp 3 + 4 * word_of_nat i)])) [0..<4] @ [(nl, [])]
            else [])
      in prints m (head @ stack) c)"

text \<open>
  The handlers. \<open>at\<close> gives the address of a literal; the stub in \<^verbatim>\<open>kernel/asm.s\<close> passes a pointer to the
  saved \<^verbatim>\<open>eip\<close> and the error code.
\<close>

type_synonym trap = "(string \<Rightarrow> u32) \<Rightarrow> mem \<Rightarrow> (u32 \<Rightarrow> u32) \<Rightarrow> segs \<Rightarrow> u32 \<Rightarrow> u32 \<Rightarrow> con \<Rightarrow> con option"

definition do_double_fault :: trap where
  "do_double_fault at m user g esp error_code = die m user g (at ''double fault'') esp error_code"

definition do_general_protection :: trap where
  "do_general_protection at m user g esp error_code = die m user g (at ''general protection'') esp error_code"

definition do_divide_error :: trap where
  "do_divide_error at m user g esp error_code = die m user g (at ''divide error'') esp error_code"

definition do_nmi :: trap where
  "do_nmi at m user g esp error_code = die m user g (at ''nmi'') esp error_code"

definition do_debug :: trap where
  "do_debug at m user g esp error_code = die m user g (at ''debug'') esp error_code"

definition do_overflow :: trap where
  "do_overflow at m user g esp error_code = die m user g (at ''overflow'') esp error_code"

definition do_bounds :: trap where
  "do_bounds at m user g esp error_code = die m user g (at ''bounds'') esp error_code"

definition do_invalid_op :: trap where
  "do_invalid_op at m user g esp error_code = die m user g (at ''invalid operand'') esp error_code"

definition do_device_not_available :: trap where
  "do_device_not_available at m user g esp error_code = die m user g (at ''device not available'') esp error_code"

definition do_coprocessor_segment_overrun :: trap where
  "do_coprocessor_segment_overrun at m user g esp error_code = die m user g (at ''coprocessor segment overrun'') esp error_code"

definition do_invalid_TSS :: trap where
  "do_invalid_TSS at m user g esp error_code = die m user g (at ''invalid TSS'') esp error_code"

definition do_segment_not_present :: trap where
  "do_segment_not_present at m user g esp error_code = die m user g (at ''segment not present'') esp error_code"

definition do_stack_segment :: trap where
  "do_stack_segment at m user g esp error_code = die m user g (at ''stack segment'') esp error_code"

definition do_coprocessor_error :: trap where
  "do_coprocessor_error at m user g esp error_code = die m user g (at ''coprocessor error'') esp error_code"

definition do_reserved :: trap where
  "do_reserved at m user g esp error_code = die m user g (at ''reserved (15,17-31) error'') esp error_code"

text \<open>The registers pushed before the call of \<^verbatim>\<open>do_int3\<close>.\<close>

record regs =
  r_fs :: u32
  r_es :: u32
  r_ds :: u32
  r_ebp :: u32
  r_esi :: u32
  r_edi :: u32
  r_edx :: u32
  r_ecx :: u32
  r_ebx :: u32
  r_eax :: u32

definition do_int3 :: "mem \<Rightarrow> u32 \<Rightarrow> regs \<Rightarrow> con \<Rightarrow> con option" where
  "do_int3 m esp r c = prints m
     [(''eax'' @ tab @ tab @ ''ebx'' @ tab @ tab @ ''ecx'' @ tab @ tab @ ''edx'' @ nl @ cr @
       ''%8x'' @ tab @ ''%8x'' @ tab @ ''%8x'' @ tab @ ''%8x'' @ nl @ cr, [r_eax r, r_ebx r, r_ecx r, r_edx r]),
      (''esi'' @ tab @ tab @ ''edi'' @ tab @ tab @ ''ebp'' @ tab @ tab @ ''esp'' @ nl @ cr @
       ''%8x'' @ tab @ ''%8x'' @ tab @ ''%8x'' @ tab @ ''%8x'' @ nl @ cr, [r_esi r, r_edi r, r_ebp r, esp]),
      (nl @ cr @ ''ds'' @ tab @ ''es'' @ tab @ ''fs'' @ tab @ ''tr'' @ nl @ cr @
       ''%4x'' @ tab @ ''%4x'' @ tab @ ''%4x'' @ tab @ nl @ cr, [r_ds r, r_es r, r_fs r]),
      (''EIP: %8x   CS: %4x  EFLAGS: %8x'' @ nl @ cr, [lng m esp 0, lng m esp 1, lng m esp 2])] c"

section \<open>Stopping\<close>

text \<open>The console on which \<^verbatim>\<open>panic\<close> loops; \<open>s\<close> points to the message.\<close>

definition panic :: "mem \<Rightarrow> u32 \<Rightarrow> con \<Rightarrow> con option" where
  "panic m s c = prints m [(''Kernel panic: %s'' @ nl, [s])] c"

definition halt_ports :: "machine \<Rightarrow> machine" where
  "halt_ports s = fold (\<lambda>ch. outb (of_char ch) 0x8900) ''Shutdown'' s"

definition halt :: "mem \<Rightarrow> u32 \<Rightarrow> machine \<Rightarrow> con \<Rightarrow> (machine \<times> con) option" where
  "halt m msg s c = map_option (\<lambda>c. (halt_ports s, c)) (panic m msg c)"

definition reboot :: "mem \<Rightarrow> u32 \<Rightarrow> machine \<Rightarrow> con \<Rightarrow> (machine \<times> con) option" where
  "reboot m msg s c = map_option (\<lambda>c. (outb 0xFE 0x64 s, c)) (panic m msg c)"

section \<open>What a gate says\<close>

text \<open>The fields of an interrupt descriptor as the processor reads them.\<close>

definition gate_offset :: "u64 \<Rightarrow> u32" where
  "gate_offset g = ucast (g AND 0xFFFF) OR (ucast (drop_bit 32 g) AND 0xFFFF0000)"

definition gate_selector :: "u64 \<Rightarrow> u16" where
  "gate_selector g = ucast (drop_bit 16 g)"

definition gate_access :: "u64 \<Rightarrow> u8" where
  "gate_access g = ucast (drop_bit 40 g)"

definition gate_zero :: "u64 \<Rightarrow> u8" where
  "gate_zero g = ucast (drop_bit 32 g)"

text \<open>
  A well-formed trap gate of the code segment: present, 32 bits wide, open to the privilege level \<open>dpl\<close>
  and below, and leading to the address \<open>a\<close>.
\<close>

definition is_trap_gate :: "u64 \<Rightarrow> u32 \<Rightarrow> u8 \<Rightarrow> bool" where
  "is_trap_gate g a dpl \<longleftrightarrow> gate_offset g = a \<and> gate_selector g = 8 \<and> gate_zero g = 0 \<and>
     gate_access g = 0x8F OR push_bit 5 dpl"

lemma and_masks: "(a :: u64) AND 0xFFFF = take_bit 16 a" "(b :: u32) AND 0xFFFF0000 = push_bit 16 (drop_bit 16 b)"
proof -
  show "a AND 0xFFFF = take_bit 16 a" by (simp add: take_bit_eq_mask mask_eq_exp_minus_1)
  have c: "(0xFFFF0000 :: u32) = NOT (mask 16)" by (simp add: mask_eq_exp_minus_1)
  show "b AND 0xFFFF0000 = push_bit 16 (drop_bit 16 b)" unfolding c by (rule bit_eqI) (auto simp: bit_simps)
qed

text \<open>The gate that has the selector \<open>c\<close> and the access byte \<open>t\<close>.\<close>

definition gate_with :: "u16 \<Rightarrow> u8 \<Rightarrow> u32 \<Rightarrow> u32 \<times> u32" where
  "gate_with c t a = (push_bit 16 (ucast c) OR ucast (ucast a :: u16), push_bit 16 (drop_bit 16 a) OR push_bit 8 (ucast t))"

lemma gate_words: "set_gate_words 15 0 a = gate_with 8 0x8F a" "set_gate_words 15 3 a = gate_with 8 0xEF a"
  by (simp_all add: set_gate_words_def gate_with_def movw_def and_masks Let_def)

lemma gate_with_fields:
  "gate_offset (gate_bits (gate_with c t a)) = a" "gate_selector (gate_bits (gate_with c t a)) = c"
  "gate_zero (gate_bits (gate_with c t a)) = 0" "gate_access (gate_bits (gate_with c t a)) = t"
  unfolding gate_offset_def gate_selector_def gate_zero_def gate_access_def gate_bits_def and_masks gate_with_def
    fst_conv snd_conv
  by (rule bit_eqI, auto simp: bit_simps dest: bit_imp_le_length)+

lemma trap_gate_bits:
  "is_trap_gate (gate_bits (set_gate_words 15 0 a)) a 0" "is_trap_gate (gate_bits (set_gate_words 15 3 a)) a 3"
  by (simp_all add: is_trap_gate_def gate_words gate_with_fields)

section \<open>The table after the start\<close>

text \<open>Which handler a vector leads to, and from which privilege level it may be called.\<close>

definition vector :: "nat \<Rightarrow> (handler \<times> u8) option" where
  "vector n =
     (if n = 0x80 then Some (Syscall_interrupt, 3)
      else if n = 0x20 then Some (Timer_interrupt, 0)
      else if n = 0x21 then Some (Keyboard_interrupt, 0)
      else if n = 0x26 then Some (Floppy_interrupt, 0)
      else if n < 17 then Some ([(Divide_error, 0), (Debug_trap, 0), (Nmi, 0), (Int3, 3), (Overflow, 3),
        (Bounds, 3), (Invalid_op, 0), (Reserved, 0), (Double_fault, 0), (Coprocessor_segment_overrun, 0),
        (Invalid_TSS, 0), (Segment_not_present, 0), (Stack_segment, 0), (General_protection, 0),
        (Reserved, 0), (Reserved, 0), (Reserved, 0)] ! n)
      else if n < 48 then Some (Reserved, 0)
      else None)"

lemma set_gate_idt:
  "idt (set_gate k type dpl addr s) = (idt s)[k := gate_bits (set_gate_words type dpl addr)]"
  "sent (set_gate k type dpl addr s) = sent s"
  by (simp_all add: set_gate_def)

lemma outb_idt: "idt (outb v p s) = idt s" "sent (outb v p s) = sent s @ [(p, ucast v)]"
  by (simp_all add: outb_def)

lemmas gates = set_gate_idt outb_idt set_trap_gate_def set_system_gate_def

lemma reserved_gates_idt:
  "k < length (idt s) \<Longrightarrow> idt (reserved_gates adr i n s) ! k =
     (if k \<in> {i..<i + n} then gate_bits (set_gate_words 15 0 (adr Reserved)) else idt s ! k)"
  "length (idt (reserved_gates adr i n s)) = length (idt s)"
  "sent (reserved_gates adr i n s) = sent s"
  by (induction adr i n s rule: reserved_gates.induct) (auto simp: gates nth_list_update)

lemma below17: "(k :: nat) < 17 \<Longrightarrow> k = 0 \<or> k = 1 \<or> k = 2 \<or> k = 3 \<or> k = 4 \<or> k = 5 \<or> k = 6 \<or> k = 7 \<or> k = 8 \<or>
    k = 9 \<or> k = 10 \<or> k = 11 \<or> k = 12 \<or> k = 13 \<or> k = 14 \<or> k = 15 \<or> k = 16"
  by presburger

lemma trap_gates_idt:
  assumes "k < length (idt s)"
  shows "k < 17 \<Longrightarrow> idt (trap_gates adr s) ! k =
      (case the (vector k) of (h, d) \<Rightarrow> gate_bits (set_gate_words 15 (ucast d) (adr h)))"
    "17 \<le> k \<Longrightarrow> idt (trap_gates adr s) ! k = idt s ! k"
proof -
  show "17 \<le> k \<Longrightarrow> idt (trap_gates adr s) ! k = idt s ! k" by (simp add: trap_gates_def gates)
  assume k: "k < 17"
  from below17 [OF k] show "idt (trap_gates adr s) ! k =
      (case the (vector k) of (h, d) \<Rightarrow> gate_bits (set_gate_words 15 (ucast d) (adr h)))"
    using assms by (elim disjE) (simp_all add: trap_gates_def gates vector_def)
qed

lemma trap_gates_frame: "length (idt (trap_gates adr s)) = length (idt s)" "sent (trap_gates adr s) = sent s"
  by (simp_all add: trap_gates_def gates)

lemma init_idt:
  assumes "length (idt s) = 256"
  shows "length (idt (init_interrupts reply adr s)) = 256"
    "k < 256 \<Longrightarrow> idt (init_interrupts reply adr s) ! k =
      (case vector k of Some (h, d) \<Rightarrow> gate_bits (set_gate_words 15 (ucast d) (adr h)) | None \<Rightarrow> idt s ! k)"
proof -
  let ?t = "reserved_gates adr 17 31 (trap_gates adr (ipc_install s))"
  have i: "idt (ipc_install s) = idt s" by (simp add: ipc_install_def gates)
  have l: "length (idt ?t) = 256" by (simp add: reserved_gates_idt trap_gates_frame i assms)
  have e: "idt (init_interrupts reply adr s) = (idt ?t)[0x80 := gate_bits (set_gate_words 15 3 (adr Syscall_interrupt)),
      0x21 := gate_bits (set_gate_words 15 0 (adr Keyboard_interrupt)),
      0x20 := gate_bits (set_gate_words 15 0 (adr Timer_interrupt)),
      0x26 := gate_bits (set_gate_words 15 0 (adr Floppy_interrupt))]"
    by (simp add: init_interrupts_def floppy_init_def timer_init_def keyboard_init_def trap_init_def gates Let_def)
  show "length (idt (init_interrupts reply adr s)) = 256" by (simp add: e l)
  assume k: "k < 256"
  then have "idt ?t ! k = (if k < 48 \<and> 17 \<le> k then gate_bits (set_gate_words 15 0 (adr Reserved))
      else idt (trap_gates adr (ipc_install s)) ! k)"
    by (subst reserved_gates_idt(1)) (auto simp: trap_gates_frame i assms)
  moreover have "idt (trap_gates adr (ipc_install s)) ! k = (if k < 17
      then (case the (vector k) of (h, d) \<Rightarrow> gate_bits (set_gate_words 15 (ucast d) (adr h))) else idt s ! k)"
    using trap_gates_idt [of k "ipc_install s" adr] k by (simp add: i assms)
  ultimately show "idt (init_interrupts reply adr s) ! k =
      (case vector k of Some (h, d) \<Rightarrow> gate_bits (set_gate_words 15 (ucast d) (adr h)) | None \<Rightarrow> idt s ! k)"
    using k l unfolding e by (auto simp: nth_list_update vector_def)
qed

lemma vector_level: "vector k = Some (h, d) \<Longrightarrow> d = 0 \<or> d = 3"
proof -
  assume v: "vector k = Some (h, d)"
  show ?thesis
  proof (cases "k < 17")
    case True
    from below17 [OF this] show ?thesis using v by (elim disjE) (auto simp: vector_def)
  qed (use v in \<open>auto simp: vector_def split: if_splits\<close>)
qed

section \<open>The masks\<close>

text \<open>
  Once its initialisation words have been sent, an interrupt controller answers a read of its second
  port with the mask last written there.
\<close>

definition answers_mask :: "replies \<Rightarrow> bool" where
  "answers_mask reply \<longleftrightarrow> (\<forall>xs p v. p = 0x21 \<or> p = 0xA1 \<longrightarrow> reply (xs @ [(p, v)]) p = v) \<and>
     (\<forall>xs p q v. (p = 0x21 \<or> p = 0xA1) \<and> q \<noteq> p \<longrightarrow> reply (xs @ [(q, v)]) p = reply xs p)"

text \<open>Lines 0 to 7 belong to the first controller, 8 to 15 to the second; a mask bit disables a line.\<close>

definition irq_enabled :: "replies \<Rightarrow> machine \<Rightarrow> nat \<Rightarrow> bool" where
  "irq_enabled reply s n \<longleftrightarrow> \<not> bit (reply (sent s) (if n < 8 then 0x21 else 0xA1)) (n mod 8)"

lemma init_masks:
  assumes "answers_mask reply"
  shows "reply (sent (init_interrupts reply adr s)) 0x21 = 0x10" "reply (sent (init_interrupts reply adr s)) 0xA1 = 0x11"
proof -
  have r: "reply (xs @ [(0x21, v)]) 0x21 = v" "reply (xs @ [(0xA1, v)]) 0xA1 = v"
    "p \<noteq> 0x21 \<Longrightarrow> reply (xs @ [(p, v)]) 0x21 = reply xs 0x21" "p \<noteq> 0xA1 \<Longrightarrow> reply (xs @ [(p, v)]) 0xA1 = reply xs 0xA1"
    for xs p v using assms by (simp_all add: answers_mask_def)
  note d = init_interrupts_def floppy_init_def timer_init_def keyboard_init_def trap_init_def ipc_install_def
    gates trap_gates_frame reserved_gates_idt(3) inb_def Let_def
  show "reply (sent (init_interrupts reply adr s)) 0x21 = 0x10" by (simp add: d r append_assoc [symmetric] del: append_assoc)
  show "reply (sent (init_interrupts reply adr s)) 0xA1 = 0x11" by (simp add: d r append_assoc [symmetric] del: append_assoc)
qed

section \<open>Properties\<close>

text \<open>
  C27: after the start every entry of the interrupt table has the type it must have. The vectors 0 to 47
  and 128 hold well-formed trap gates of the code segment that lead to the handler of that vector; the
  gates of int3, overflow, bounds and the system call may be called from user level and no others; every
  other entry is what it was.
\<close>

theorem interrupt_table_typed:
  assumes "length (idt s) = 256" and "k < 256"
  shows "case vector k of
      Some (h, d) \<Rightarrow> is_trap_gate (idt (init_interrupts reply adr s) ! k) (adr h) d \<and> (d = 3 \<longleftrightarrow> k \<in> {3, 4, 5, 0x80})
    | None \<Rightarrow> idt (init_interrupts reply adr s) ! k = idt s ! k \<and> 48 \<le> k"
proof (cases "vector k")
  case None
  then show ?thesis using init_idt(2) [OF assms] by (auto simp: vector_def split: if_splits)
next
  case (Some v)
  obtain h d where v: "v = (h, d)" by force
  have "d = 3 \<longleftrightarrow> k \<in> {3, 4, 5, 0x80}"
  proof (cases "k < 17")
    case True
    from below17 [OF this] show ?thesis using Some v by (elim disjE) (auto simp: vector_def)
  qed (use Some v in \<open>auto simp: vector_def split: if_splits\<close>)
  moreover have "is_trap_gate (idt (init_interrupts reply adr s) ! k) (adr h) d"
    using init_idt(2) [OF assms] vector_level [where k = k and h = h and d = d] trap_gate_bits [where a = "adr h"] Some v by auto
  ultimately show ?thesis using Some v by simp
qed

theorem interrupt_table_typed_witness:
  "is_trap_gate (idt (init_interrupts (\<lambda>_ _. 0) (\<lambda>h. if h = Reserved then 0x10CAFE else 0)
     \<lparr>idt = replicate 256 0, idt_descr = (0, 0), sent = []\<rparr>) ! 0x27) 0x10CAFE 0"
  using interrupt_table_typed [of "\<lparr>idt = replicate 256 0, idt_descr = (0, 0), sent = []\<rparr>" 39 "\<lambda>_ _. 0"
    "\<lambda>h. if h = Reserved then 0x10CAFE else 0"] by (simp add: vector_def)

text \<open>
  C28: which interrupts the start lets through. If the controllers answer a read of the mask with what
  was written there, all 16 lines are enabled afterwards but 4, 8 and 12. Three of these have a driver:
  the clock, the keyboard and the floppy; line 2 carries the second controller. Every other one leads to
  the handler \<^verbatim>\<open>reserved\<close>, which prints a message and never returns.
\<close>

theorem start_enables_stray_interrupts:
  fixes adr
  assumes "length (idt s) = 256" and "answers_mask reply" and "n < 16"
  defines "t \<equiv> init_interrupts reply adr s"
  shows "(irq_enabled reply t n \<longleftrightarrow> n \<notin> {4, 8, 12}) \<and>
    (n \<notin> {0, 1, 6} \<longrightarrow> is_trap_gate (idt t ! (0x20 + n)) (adr Reserved) 0) \<and>
    is_trap_gate (idt t ! 0x20) (adr Timer_interrupt) 0 \<and> is_trap_gate (idt t ! 0x21) (adr Keyboard_interrupt) 0 \<and>
    is_trap_gate (idt t ! 0x26) (adr Floppy_interrupt) 0"
proof -
  have b: "bit (0x10 :: u8) k \<longleftrightarrow> k = 4" "bit (0x11 :: u8) k \<longleftrightarrow> k = 0 \<or> k = 4" for k
  proof -
    have e: "(0x10 :: u8) = push_bit 4 1" "(0x11 :: u8) = push_bit 4 1 OR 1" by simp_all
    show "bit (0x10 :: u8) k \<longleftrightarrow> k = 4" "bit (0x11 :: u8) k \<longleftrightarrow> k = 0 \<or> k = 4"
      by (simp_all only: e bit_or_iff bit_push_bit_iff bit_1_iff) auto
  qed
  have "irq_enabled reply t n \<longleftrightarrow> n \<notin> {4, 8, 12}"
    using init_masks [OF assms(2), of adr s] assms(3) by (auto simp: irq_enabled_def t_def b simp del: bit_numeral_word_iff) presburger+
  moreover have "is_trap_gate (idt t ! (0x20 + k)) (adr (fst (the (vector (0x20 + k))))) 0" if "k < 16" for k
    using init_idt(2) [OF assms(1), of "0x20 + k" reply adr] trap_gate_bits that by (simp add: t_def vector_def)
  from this [of n] this [of 0] this [of 1] this [of 6]
  have "n \<notin> {0, 1, 6} \<longrightarrow> is_trap_gate (idt t ! (0x20 + n)) (adr Reserved) 0"
    "is_trap_gate (idt t ! 0x20) (adr Timer_interrupt) 0" "is_trap_gate (idt t ! 0x21) (adr Keyboard_interrupt) 0"
    "is_trap_gate (idt t ! 0x26) (adr Floppy_interrupt) 0"
    using assms(3) by (auto simp: vector_def)
  ultimately show ?thesis by blast
qed

text \<open>Such a controller: the last byte sent to the port.\<close>

definition last_sent :: replies where
  "last_sent xs p = foldl (\<lambda>v (q, w). if q = p then w else v) 0 xs"

theorem start_enables_stray_interrupts_witness:
  "\<exists>s. irq_enabled last_sent s 7 \<and> is_trap_gate (idt s ! 0x27) 0x10CAFE 0"
proof -
  have "answers_mask last_sent" by (simp add: answers_mask_def last_sent_def)
  then show ?thesis
    using start_enables_stray_interrupts [of "\<lparr>idt = replicate 256 0, idt_descr = (0, 0), sent = []\<rparr>" last_sent 7
      "\<lambda>h. if h = Reserved then 0x10CAFE else 0"] by auto
qed

end
