(* ===== verification/Paging.thy ===== *)
theory Paging
  imports Traps
begin

text \<open>
  Paging, \<^verbatim>\<open>mm/mm.c\<close>: the use counts of the pages, the page tables, sharing and copying on a write.
  The file belongs to the source but is not linked into the kernel. Memory is a map from the addresses of
  words to words; a run that ends in \<^verbatim>\<open>panic\<close> is \<open>Panic\<close> with the message, an access outside the table
  of counts \<open>Wild\<close>. The byte behind that table, which \<^verbatim>\<open>get_free_page\<close> looks at first, is a field of
  the state. \<^verbatim>\<open>invalidate\<close> changes nothing here.
\<close>

unbundle bit_operations_syntax

section \<open>State\<close>

definition PG_SIZE :: u32 where "PG_SIZE = 0x1000"
definition PG_DIR :: u32 where "PG_DIR = 0x800000"
definition PG_TABLE :: u32 where "PG_TABLE = PG_DIR + PG_SIZE"
definition LOW_MEM :: u32 where "LOW_MEM = 0x100000"
definition PG_MEMORY :: nat where "PG_MEMORY = 32 * 1024 * 1024"
definition PG_PAGES :: nat where "PG_PAGES = PG_MEMORY div 2 ^ 12"
definition USED :: u8 where "USED = 100"

definition MAP_NR :: "u32 \<Rightarrow> nat" where
  "MAP_NR addr = unat (drop_bit 12 addr)"

record mm =
  words :: "u32 \<Rightarrow> u32"
  mem_map :: "u8 list"
  past_map :: u8
  HIGH_MEMORY :: u32
  start_mem :: int
  end_mem :: int

definition mm0 :: "(u32 \<Rightarrow> u32) \<Rightarrow> u8 \<Rightarrow> mm" where
  "mm0 w past = \<lparr>words = w, mem_map = replicate PG_PAGES 0, past_map = past, HIGH_MEMORY = 0,
     start_mem = 0x800000, end_mem = 0x2000000\<rparr>"

datatype 'a outcome = Done 'a | Panic string | Wild

fun seq :: "'a outcome \<Rightarrow> ('a \<Rightarrow> 'b outcome) \<Rightarrow> 'b outcome" where
  "seq (Done x) k = k x"
| "seq (Panic t) k = Panic t"
| "seq Wild k = Wild"

definition store :: "u32 \<Rightarrow> u32 \<Rightarrow> mm \<Rightarrow> mm" where
  "store a w s = s\<lparr>words := (words s)(a := w)\<rparr>"

text \<open>An access to the table of counts.\<close>

definition get_map :: "nat \<Rightarrow> mm \<Rightarrow> u8 outcome" where
  "get_map i s = (if i < PG_PAGES then Done (mem_map s ! i) else if i = PG_PAGES then Done (past_map s) else Wild)"

definition set_map :: "nat \<Rightarrow> u8 \<Rightarrow> mm \<Rightarrow> mm outcome" where
  "set_map i c s =
     (if i < PG_PAGES then Done (s\<lparr>mem_map := (mem_map s)[i := c]\<rparr>)
      else if i = PG_PAGES then Done (s\<lparr>past_map := c\<rparr>) else Wild)"

section \<open>Pages\<close>

text \<open>The search from \<open>i\<close> downwards: 0 when it finds nothing.\<close>

fun free_from :: "nat \<Rightarrow> mm \<Rightarrow> nat outcome" where
  "free_from 0 s = Done 0"
| "free_from (Suc i) s = seq (get_map (Suc i) s) (\<lambda>c. if c = 0 then Done (Suc i) else free_from i s)"

definition get_free_page :: "mm \<Rightarrow> (u32 \<times> mm) outcome" where
  "get_free_page s =
     seq (free_from PG_PAGES s) (\<lambda>i.
       if i \<noteq> 0
       then seq (get_map i s) (\<lambda>c. seq (set_map i (c + 1) s) (\<lambda>s. Done (push_bit 12 (word_of_nat i), s)))
       else Panic ''out of memory'')"

definition free_page :: "u32 \<Rightarrow> mm \<Rightarrow> mm outcome" where
  "free_page addr s =
     (if addr \<ge> HIGH_MEMORY s then Panic ''Trying to free nonexistent page''
      else let addr = unat (drop_bit 12 addr) in
        seq (get_map addr s) (\<lambda>c. seq (set_map addr (c - 1) s) (\<lambda>s.
          if c \<noteq> 0 then Done s
          else seq (set_map addr 0 s) (\<lambda>s. Panic ''Trying to free free page''))))"

section \<open>Freeing and copying page tables\<close>

text \<open>The entries of a table from \<open>p\<close> on, \<open>n\<close> of them.\<close>

fun free_entries :: "u32 \<Rightarrow> nat \<Rightarrow> mm \<Rightarrow> mm outcome" where
  "free_entries p 0 s = Done s"
| "free_entries p (Suc n) s =
     seq (if words s p AND 1 \<noteq> 0 then free_page (0xFFFFF000 AND words s p) s else Done s)
       (\<lambda>s. free_entries (p + 4) n (store p 0 s))"

fun free_dirs :: "u32 \<Rightarrow> nat \<Rightarrow> mm \<Rightarrow> mm outcome" where
  "free_dirs dir 0 s = Done s"
| "free_dirs dir (Suc n) s =
     (if words s dir AND 1 = 0 then free_dirs (dir + 4) n s
      else seq (free_entries (0xFFFFF000 AND words s dir) 1024 s) (\<lambda>s.
           seq (free_page (0xFFFFF000 AND words s dir) s) (\<lambda>s.
           free_dirs (dir + 4) n (store dir 0 s))))"

definition free_page_tables :: "u32 \<Rightarrow> u32 \<Rightarrow> mm \<Rightarrow> (int \<times> mm) outcome" where
  "free_page_tables from sz s =
     (if from AND 0x3FFFFF \<noteq> 0 then Panic ''free_page_tables called with wrong alignment''
      else if from = 0 then Panic ''Trying to free up swapper memory space''
      else
        let n = drop_bit 22 (sz + 0x3FFFFF); dir = drop_bit 20 from AND 0xFFC in
        seq (free_dirs dir (unat n) s) (\<lambda>s. Done (0, s)))"

fun copy_entries :: "u32 \<Rightarrow> u32 \<Rightarrow> nat \<Rightarrow> mm \<Rightarrow> mm outcome" where
  "copy_entries from_table to_table 0 s = Done s"
| "copy_entries from_table to_table (Suc nr) s =
     (let this_page = words s from_table in
      seq (if this_page AND 1 = 0 then Done s
           else
             let this_page = this_page AND NOT 2; s = store to_table this_page s in
             if this_page > LOW_MEM
             then
               let s = store from_table this_page s; n = unat (drop_bit 12 this_page) in
               seq (get_map n s) (\<lambda>c. set_map n (c + 1) s)
             else Done s)
        (copy_entries (from_table + 4) (to_table + 4) nr))"

text \<open>\<open>nr\<close> entries of each directory entry.\<close>

fun copy_dirs :: "nat \<Rightarrow> u32 \<Rightarrow> u32 \<Rightarrow> nat \<Rightarrow> mm \<Rightarrow> mm outcome" where
  "copy_dirs nr from_dir to_dir 0 s = Done s"
| "copy_dirs nr from_dir to_dir (Suc ndir) s =
     (if words s to_dir AND 1 \<noteq> 0 then Panic ''copy_page_tables: already exist''
      else if words s from_dir AND 1 = 0 then copy_dirs nr (from_dir + 4) (to_dir + 4) ndir s
      else
        let from_table = 0xFFFFF000 AND words s from_dir in
        seq (get_free_page s) (\<lambda>(to_table, s).
        seq (copy_entries from_table to_table nr (store to_dir (to_table OR 7) s)) (\<lambda>s.
        copy_dirs nr (from_dir + 4) (to_dir + 4) ndir s)))"

text \<open>\<^verbatim>\<open>get_free_page\<close> never returns 0, so the result \<open>-1\<close> does not occur.\<close>

definition copy_page_tables :: "u32 \<Rightarrow> u32 \<Rightarrow> u32 \<Rightarrow> mm \<Rightarrow> (int \<times> mm) outcome" where
  "copy_page_tables from to sz s =
     (if from AND 0x3FFFFF \<noteq> 0 \<or> to AND 0x3FFFFF \<noteq> 0 then Panic ''copy_page_tables called with wrong alignment''
      else
        let from_dir = drop_bit 20 from AND 0xFFC; to_dir = drop_bit 20 to AND 0xFFC;
            ndir = drop_bit 22 (sz + 0x3FFFFF) in
        seq (copy_dirs (if from = 0 then 0xA0 else 1024) from_dir to_dir (unat ndir) s) (\<lambda>s. Done (0, s)))"

section \<open>Copying on a write\<close>

fun copy_words :: "u32 \<Rightarrow> u32 \<Rightarrow> nat \<Rightarrow> mm \<Rightarrow> mm" where
  "copy_words from to 0 s = s"
| "copy_words from to (Suc n) s = copy_words (from + 4) (to + 4) n (store to (words s from) s)"

definition copy_page :: "u32 \<Rightarrow> u32 \<Rightarrow> mm \<Rightarrow> mm" where
  "copy_page from to s = copy_words from to 1024 s"

definition un_wp_page :: "u32 \<Rightarrow> mm \<Rightarrow> mm outcome" where
  "un_wp_page table_entry s =
     (let old_page = 0xFFFFF000 AND words s table_entry in
      seq (if old_page \<ge> LOW_MEM then seq (get_map (MAP_NR old_page) s) (\<lambda>c. Done (c = 1)) else Done False)
        (\<lambda>alone.
          if alone then Done (store table_entry (words s table_entry OR 2) s)
          else seq (get_free_page s) (\<lambda>(new_page, s).
            seq (if old_page \<ge> LOW_MEM
                 then seq (get_map (MAP_NR old_page) s) (\<lambda>c. set_map (MAP_NR old_page) (c - 1) s)
                 else Done s)
              (\<lambda>s. Done (copy_page old_page new_page (store table_entry (new_page OR 7) s))))))"

definition do_wp_page :: "u32 \<Rightarrow> u32 \<Rightarrow> mm \<Rightarrow> mm outcome" where
  "do_wp_page error_code address s =
     un_wp_page ((drop_bit 10 address AND 0xFFC) + (0xFFFFF000 AND words s (drop_bit 20 address AND 0xFFC))) s"

section \<open>Mapping a page\<close>

text \<open>The two messages that precede a panic are not shown.\<close>

definition put_page :: "u32 \<Rightarrow> u32 \<Rightarrow> mm \<Rightarrow> (u32 \<times> mm) outcome" where
  "put_page page address s =
     (if page < LOW_MEM \<or> page > HIGH_MEMORY s then Panic (nl @ ''put_page:...wrong...'')
      else seq (get_map (unat (drop_bit 12 page)) s) (\<lambda>c.
        if c \<noteq> 1 then Panic ''put_page:...wrong...''
        else
          let page_dir = drop_bit 20 address AND 0xFFC in
          seq (if words s page_dir AND 1 \<noteq> 0 then Done (0xFFFFF000 AND words s page_dir, s)
               else seq (get_free_page s) (\<lambda>(tmp, s). Done (tmp, store page_dir (tmp OR 7) s)))
            (\<lambda>(page_table, s).
              Done (page, store (page_table + 4 * (drop_bit 12 address AND 0x3FF)) (page OR 7) s))))"

definition setp :: "u32 \<Rightarrow> mm \<Rightarrow> mm" where
  "setp address s =
     (let pg_dir = drop_bit 20 address AND 0xFFC;
          s = store pg_dir (words s pg_dir OR 7) s;
          pg_table = words s pg_dir AND 0xFFFFF000
      in store pg_table (words s pg_table OR 7) s)"

text \<open>Neither call returns 0, so nothing is freed.\<close>

definition get_empty_page :: "u32 \<Rightarrow> mm \<Rightarrow> mm outcome" where
  "get_empty_page address s =
     seq (get_free_page s) (\<lambda>(tmp, s).
       seq (put_page tmp address s) (\<lambda>(r, s).
         if r = 0 then seq (free_page tmp s) (\<lambda>_. Panic ''out of memory'') else Done s))"

section \<open>Setting up\<close>

fun fill_tables :: "u32 \<Rightarrow> u32 \<Rightarrow> nat \<Rightarrow> mm \<Rightarrow> mm" where
  "fill_tables p address 0 s = s"
| "fill_tables p address (Suc n) s = fill_tables (p + 4) (address + PG_SIZE) n (store p (address OR 7) s)"

fun fill_rest :: "u32 \<Rightarrow> nat \<Rightarrow> mm \<Rightarrow> mm" where
  "fill_rest p 0 s = s"
| "fill_rest p (Suc n) s = fill_rest (p + 4) n (store p 6 s)"

definition setup_page :: "mm \<Rightarrow> mm" where
  "setup_page s =
     (let s = fill_tables PG_TABLE 0 PG_PAGES s;
          s = fill_tables PG_DIR PG_TABLE 8 s
      in fill_rest (PG_DIR + 4 * 8) (1024 - 8) s)"

fun clear_map :: "nat \<Rightarrow> nat \<Rightarrow> mm \<Rightarrow> mm outcome" where
  "clear_map i 0 s = Done s"
| "clear_map i (Suc n) s = seq (set_map i 0 s) (clear_map (i + 1) n)"

definition mem_init :: "mm \<Rightarrow> mm outcome" where
  "mem_init s =
     (let s = s\<lparr>HIGH_MEMORY := word_of_int (end_mem s)\<rparr>;
          s = s\<lparr>mem_map := replicate PG_PAGES USED\<rparr>;
          i = MAP_NR (word_of_int (start_mem s));
          n = nat ((end_mem s - start_mem s) div 2 ^ 12)
      in seq (clear_map i n (s\<lparr>end_mem := - 1\<rparr>)) (\<lambda>s. Done (setup_page s)))"

text \<open>The calls of \<^verbatim>\<open>printk\<close> that \<^verbatim>\<open>calc_mem\<close> makes.\<close>

definition calc_mem :: "mm \<Rightarrow> (string \<times> u32 list) list" where
  "calc_mem s =
     (let free = length (filter (\<lambda>c. c = 0) (mem_map s));
          dir = (\<lambda>i. words s (PG_DIR + 4 * word_of_nat i));
          used = (\<lambda>i. length (filter (\<lambda>j. words s ((0xFFFFF000 AND dir i) + 4 * word_of_nat j) AND 1 \<noteq> 0) [0..<1024]))
      in (nl @ ''%d pages free (of %d)'' @ nl @ cr, [word_of_nat free, word_of_nat PG_PAGES]) #
        map (\<lambda>i. (''Pg_dir[%d] uses %d pages'' @ nl, [word_of_nat i, word_of_nat (used i)]))
          (filter (\<lambda>i. dir i AND 1 \<noteq> 0) [0..<1024]))"

text \<open>What \<^verbatim>\<open>do_no_page\<close> prints; \<open>m\<close> is memory as bytes.\<close>

definition do_no_page :: "mem \<Rightarrow> segs \<Rightarrow> u32 \<Rightarrow> u32 \<Rightarrow> u32 \<Rightarrow> con \<Rightarrow> con option" where
  "do_no_page m g err_code cr2 esp_ptr c =
     (let esp = lng m esp_ptr in
      prints m
        [(nl @ ''cr2:'' @ tab @ ''%08x'' @ nl @ ''err:'' @ tab @ ''%08x'' @ nl, [cr2, err_code]),
         (''EIP:'' @ tab @ ''%04x:%p'' @ nl @ ''EFLAGS:'' @ tab @ ''%p'' @ nl @ ''ESP:'' @ tab @ ''%04x:%p'' @ nl,
           [esp 1, esp 0, esp 2, esp 4, esp 3]),
         (''fs: %04x'' @ nl, [ucast (fs_reg g)]), (''ds: %04x'' @ nl, [ucast (ds_reg g)]),
         (''es: %04x'' @ nl, [ucast (es_reg g)])] c)"

text \<open>Two test functions; \<open>at\<close> gives the address of a function.\<close>

definition mem_debug :: "(string \<Rightarrow> u32) \<Rightarrow> mm \<Rightarrow> (string \<times> u32 list) list" where
  "mem_debug at s =
     (let dir = (\<lambda>i. words s (PG_DIR + 4 * word_of_nat i)); pg_table1 = dir 1 AND 0xFFFFF000;
          byte = words s 0x401000 AND 0xFF
      in [(nl @ ''The address of mem_init and calc_mem are:%p'' @ tab @ ''%p'' @ nl, [at ''mem_init'', at ''calc_mem''])] @
        concat (map (\<lambda>i. [(''pg_dir[%d]  = %p'' @ tab, [word_of_nat i, dir i]),
          (''*[] = %p'' @ nl, [words s (dir i AND 0xFFFFF000)])]) [0..<8]) @
        [(''pg_table1 = %p'' @ nl, [pg_table1])] @
        map (\<lambda>i. (''*table[1][%d] = %p'' @ nl, [word_of_nat i, words s (pg_table1 + 4 * word_of_nat i)])) [0..<3] @
        [(''Address of ffz= %p'' @ nl, [at ''find_first_zero'']), (''Address of tsb= %p'' @ nl, [at ''testb'']),
         (''the tsb result= %p'' @ nl, [byte]), (''the tsb result= %d'' @ nl, [if byte AND push_bit 7 1 \<noteq> 0 then 1 else 0])])"

definition page_test :: "mem \<Rightarrow> con \<Rightarrow> (mem \<times> con) option" where
  "page_test m c =
     (let m = put_bytes m 0x900006 (map (\<lambda>i. 65 + word_of_nat i) [0..<10] @ [0]) in
      map_option (Pair m) (prints m [(nl @ ''%c'', [ucast (m 0x900006)]), (nl @ ''%s'', [0x900006])] c))"

section \<open>Getting and giving back a page\<close>

definition mm_ok :: "mm \<Rightarrow> bool" where
  "mm_ok s \<longleftrightarrow> length (mem_map s) = PG_PAGES \<and> unat (HIGH_MEMORY s) \<le> PG_PAGES * 2 ^ 12"

text \<open>The use count of a page number, the byte behind the table included.\<close>

definition uses :: "mm \<Rightarrow> nat \<Rightarrow> u8" where
  "uses s i = (if i < PG_PAGES then mem_map s ! i else past_map s)"

lemma PG_PAGES_value: "PG_PAGES = 8192"
  by (simp add: PG_PAGES_def PG_MEMORY_def)

lemma get_map_uses: "i \<le> PG_PAGES \<Longrightarrow> get_map i s = Done (uses s i)"
  by (simp add: get_map_def uses_def)

definition with_uses :: "nat \<Rightarrow> u8 \<Rightarrow> mm \<Rightarrow> mm" where
  "with_uses i c s = (if i < PG_PAGES then s\<lparr>mem_map := (mem_map s)[i := c]\<rparr> else s\<lparr>past_map := c\<rparr>)"

lemma set_map_uses: "i \<le> PG_PAGES \<Longrightarrow> set_map i c s = Done (with_uses i c s)"
  by (simp add: set_map_def with_uses_def)

lemma with_uses_simps [simp]:
  "words (with_uses i c s) = words s" "HIGH_MEMORY (with_uses i c s) = HIGH_MEMORY s"
  "mm_ok (with_uses i c s) = mm_ok s"
  by (simp_all add: with_uses_def mm_ok_def)

lemma uses_with_uses:
  "mm_ok s \<Longrightarrow> i \<le> PG_PAGES \<Longrightarrow> j \<le> PG_PAGES \<Longrightarrow> uses (with_uses i c s) j = (if j = i then c else uses s j)"
  by (auto simp: uses_def with_uses_def mm_ok_def)

lemma uses_store [simp]: "uses (store a w s) = uses s" "mm_ok (store a w s) = mm_ok s" "HIGH_MEMORY (store a w s) = HIGH_MEMORY s"
  "with_uses i c (store a w s) = store a w (with_uses i c s)"
  by (auto simp: uses_def store_def mm_ok_def with_uses_def fun_eq_iff)

lemma words_store: "words (store a w s) = (words s)(a := w)"
  by (simp add: store_def)

lemma free_from_ok:
  "n \<le> PG_PAGES \<Longrightarrow> \<exists>i. free_from n s = Done i \<and> i \<le> n \<and> (i \<noteq> 0 \<longrightarrow> uses s i = 0) \<and>
     (\<forall>j. i < j \<and> j \<le> n \<longrightarrow> uses s j \<noteq> 0)"
proof (induction n)
  case (Suc n)
  show ?case
  proof (cases "uses s (Suc n) = 0")
    case True
    then show ?thesis using Suc.prems by (intro exI [of _ "Suc n"]) (auto simp: get_map_uses)
  next
    case False
    from Suc obtain i where "free_from n s = Done i" "i \<le> n" "i \<noteq> 0 \<longrightarrow> uses s i = 0"
      "\<forall>j. i < j \<and> j \<le> n \<longrightarrow> uses s j \<noteq> 0" by auto
    then show ?thesis using False Suc.prems by (intro exI [of _ i]) (auto simp: get_map_uses le_Suc_eq)
  qed
qed simp

lemma get_free_page_ok:
  "get_free_page s =
    (case free_from PG_PAGES s of
       Done i \<Rightarrow> if i \<noteq> 0 then Done (push_bit 12 (word_of_nat i), with_uses i 1 s) else Panic ''out of memory''
     | _ \<Rightarrow> Wild)"
proof -
  obtain i where "free_from PG_PAGES s = Done i" "i \<le> PG_PAGES" "i \<noteq> 0 \<longrightarrow> uses s i = 0"
    using free_from_ok [of PG_PAGES s] by auto
  then show ?thesis by (simp add: get_free_page_def get_map_uses set_map_uses)
qed

lemma MAP_NR_div: "MAP_NR a = unat a div 2 ^ 12"
  by (simp only: MAP_NR_def unat_drop_bit_eq) (simp add: drop_bit_eq_div)

lemma page_number: "i \<le> PG_PAGES \<Longrightarrow> unat (drop_bit 12 (push_bit 12 (word_of_nat i) :: u32)) = i"
  "i \<le> PG_PAGES \<Longrightarrow> unat (push_bit 12 (word_of_nat i) :: u32) = i * 2 ^ 12"
proof -
  assume "i \<le> PG_PAGES"
  then have i: "i < 2 ^ 20" by (simp add: PG_PAGES_value)
  have p: "(push_bit 12 (word_of_nat i) :: u32) = word_of_nat (i * 2 ^ 12)" by (simp add: push_bit_eq_mult)
  show u: "unat (push_bit 12 (word_of_nat i) :: u32) = i * 2 ^ 12"
    unfolding p using i by (subst unat_of_nat_u32) simp_all
  show "unat (drop_bit 12 (push_bit 12 (word_of_nat i) :: u32)) = i"
    by (simp only: unat_drop_bit_eq u) (simp add: drop_bit_eq_div)
qed

text \<open>A page is handed out only when its count is 0, and the search ends in a panic only when none is.\<close>

lemma get_free_page_cases:
  obtains (page) i where "get_free_page s = Done (push_bit 12 (word_of_nat i), with_uses i 1 s)" "0 < i" "i \<le> PG_PAGES"
      "uses s i = 0" "\<forall>j. i < j \<and> j \<le> PG_PAGES \<longrightarrow> uses s j \<noteq> 0"
    | (full) "get_free_page s = Panic ''out of memory''" "\<forall>j. 0 < j \<and> j \<le> PG_PAGES \<longrightarrow> uses s j \<noteq> 0"
proof -
  obtain i where i: "free_from PG_PAGES s = Done i" "i \<le> PG_PAGES" "i \<noteq> 0 \<longrightarrow> uses s i = 0"
    "\<forall>j. i < j \<and> j \<le> PG_PAGES \<longrightarrow> uses s j \<noteq> 0" using free_from_ok [of PG_PAGES s] by auto
  show thesis
  proof (cases "i = 0")
    case True
    then show thesis using i by (intro full) (simp_all add: get_free_page_ok)
  next
    case False
    then show thesis using i by (intro page [of i]) (simp_all add: get_free_page_ok)
  qed
qed

lemma free_page_ok:
  assumes "addr < HIGH_MEMORY s" and "mm_ok s"
  defines "i \<equiv> MAP_NR addr"
  shows "free_page addr s =
    (if uses s i = 0 then Panic ''Trying to free free page'' else Done (with_uses i (uses s i - 1) s))"
proof -
  have "unat addr < PG_PAGES * 2 ^ 12" using assms(1,2) by (simp add: mm_ok_def word_less_nat_alt)
  then have i: "i < PG_PAGES" by (simp only: i_def MAP_NR_div) (simp add: less_mult_imp_div_less)
  then show ?thesis using assms(1)
    by (simp add: free_page_def Let_def i_def [unfolded MAP_NR_def, symmetric] get_map_uses set_map_uses not_le)
qed

section \<open>Walking the tables\<close>

text \<open>The table entry that the processor uses for an address, with the directory at \<open>dir\<close>.\<close>

definition walk :: "u32 \<Rightarrow> mm \<Rightarrow> u32 \<Rightarrow> u32 option" where
  "walk dir s a =
     (let pde = words s (dir + 4 * drop_bit 22 a) in
      if pde AND 1 = 0 then None
      else
        let pte = words s ((pde AND 0xFFFFF000) + 4 * (drop_bit 12 a AND 0x3FF)) in
        if pte AND 1 = 0 then None else Some pte)"

lemma four_times: "n < 2 ^ 30 \<Longrightarrow> unat (4 * word_of_nat n :: u32) = 4 * n"
proof -
  assume "n < 2 ^ 30"
  then have "unat (word_of_nat (4 * n) :: u32) = 4 * n" by (intro unat_of_nat_u32) simp
  then show ?thesis by simp
qed

lemma four_apart:
  assumes "j < 2 ^ 30" and "k < 2 ^ 30" and "(p :: u32) + 4 * word_of_nat j = p + 4 * word_of_nat k"
  shows "j = k"
proof -
  have "(4 * word_of_nat j :: u32) = 4 * word_of_nat k" using assms(3) by simp
  from arg_cong [OF this, of unat] show ?thesis using four_times assms(1,2) by simp
qed

lemma fill_tables_outside:
  "(\<And>k. k < n \<Longrightarrow> q \<noteq> p + 4 * word_of_nat k) \<Longrightarrow> words (fill_tables p a n s) q = words s q"
proof (induction n arbitrary: p a s)
  case (Suc n)
  have "q \<noteq> (p + 4) + 4 * word_of_nat k" if "k < n" for k
    using Suc.prems [of "Suc k"] that by (simp add: distrib_left add.assoc)
  then show ?case using Suc.IH [of "p + 4"] Suc.prems [of 0] by (simp add: store_def)
qed simp

lemma fill_tables_inside:
  "k < n \<Longrightarrow> n < 2 ^ 30 \<Longrightarrow> words (fill_tables p a n s) (p + 4 * word_of_nat k) = (a + PG_SIZE * word_of_nat k) OR 7"
proof (induction n arbitrary: p a s k)
  case (Suc n)
  show ?case
  proof (cases k)
    case 0
    have "p \<noteq> (p + 4) + 4 * word_of_nat j" if j: "j < n" for j
      using four_apart [of 0 "Suc j" p] j Suc.prems(2) by (auto simp: distrib_left add.assoc)
    from fill_tables_outside [of n p "p + 4", OF this] show ?thesis by (simp add: 0 store_def)
  next
    case (Suc j)
    then show ?thesis using Suc.IH [of j "p + 4" "a + PG_SIZE" "store p (a OR 7) s"] Suc.prems
      by (simp add: distrib_left add.assoc)
  qed
qed simp

lemma fill_rest_words:
  "(\<And>k. k < n \<Longrightarrow> q \<noteq> p + 4 * word_of_nat k) \<Longrightarrow> words (fill_rest p n s) q = words s q"
  "k < n \<Longrightarrow> n < 2 ^ 30 \<Longrightarrow> words (fill_rest p n s) (p + 4 * word_of_nat k) = 6"
proof -
  have out: "(\<And>k. k < n \<Longrightarrow> q \<noteq> p + 4 * word_of_nat k) \<Longrightarrow> words (fill_rest p n s) q = words s q" for p q n s
  proof (induction n arbitrary: p s)
    case (Suc n)
    have "q \<noteq> (p + 4) + 4 * word_of_nat k" if "k < n" for k
      using Suc.prems [of "Suc k"] that by (simp add: distrib_left add.assoc)
    then show ?case using Suc.IH [of "p + 4"] Suc.prems [of 0] by (simp add: store_def)
  qed simp
  then show "(\<And>k. k < n \<Longrightarrow> q \<noteq> p + 4 * word_of_nat k) \<Longrightarrow> words (fill_rest p n s) q = words s q" .
  show "k < n \<Longrightarrow> n < 2 ^ 30 \<Longrightarrow> words (fill_rest p n s) (p + 4 * word_of_nat k) = 6"
  proof (induction n arbitrary: p s k)
    case (Suc n)
    show ?case
    proof (cases k)
      case 0
      have "p \<noteq> (p + 4) + 4 * word_of_nat j" if j: "j < n" for j
        using four_apart [of 0 "Suc j" p] j Suc.prems(2) by (auto simp: distrib_left add.assoc)
      from out [of n p "p + 4", OF this] show ?thesis by (simp add: 0 store_def)
    next
      case (Suc j)
      then show ?thesis using Suc.IH [of j "p + 4" "store p 6 s"] Suc.prems by (simp add: distrib_left add.assoc)
    qed
  qed simp
qed

lemma one_bit: "(a OR 7) AND 1 \<noteq> (0 :: u32)" "(6 :: u32) AND 1 = 0"
proof -
  have "bit ((a OR 7) AND 1) 0" by (simp add: bit_simps)
  then show "(a OR 7) AND 1 \<noteq> 0" by (metis bit_0_eq bot_apply bot_bool_def)
qed simp

lemma page_bits: "(PG_SIZE * w OR 7) AND 0xFFFFF000 = PG_SIZE * w" "((a :: u32) AND 0xFFFFF000) = PG_SIZE * drop_bit 12 a"
proof -
  have m: "(0xFFFFF000 :: u32) = NOT (mask 12)" by (simp add: mask_eq_exp_minus_1)
  have p: "PG_SIZE * w = push_bit 12 w" for w by (simp add: PG_SIZE_def push_bit_eq_mult mult.commute)
  have seven: "(7 :: u32) = mask 3" by (simp add: mask_eq_exp_minus_1)
  show "(PG_SIZE * w OR 7) AND 0xFFFFF000 = PG_SIZE * w" unfolding m p seven by (rule bit_eqI) (auto simp: bit_simps)
  show "(a AND 0xFFFFF000) = PG_SIZE * drop_bit 12 a" unfolding m p by (rule bit_eqI) (auto simp: bit_simps)
qed

lemma index_parts:
  "drop_bit 22 (a :: u32) = word_of_nat (unat a div 2 ^ 22)" "drop_bit 12 a = word_of_nat (unat a div 2 ^ 12)"
  "drop_bit 12 a AND 0x3FF = word_of_nat (unat a div 2 ^ 12 mod 1024)"
proof -
  have u: "unat (drop_bit n a) = unat a div 2 ^ n" for n
    by (simp only: unat_drop_bit_eq) (simp add: drop_bit_eq_div)
  have "drop_bit n a = word_of_nat (unat (drop_bit n a))" for n by simp
  from this [unfolded u] show d: "drop_bit 22 a = word_of_nat (unat a div 2 ^ 22)" "drop_bit 12 a = word_of_nat (unat a div 2 ^ 12)" by blast+
  have "drop_bit 12 a AND 0x3FF = take_bit 10 (drop_bit 12 a)" by (simp add: take_bit_eq_mask mask_eq_exp_minus_1)
  also have "\<dots> = word_of_nat (unat (take_bit 10 (drop_bit 12 a)))" by simp
  also have "unat (take_bit 10 (drop_bit 12 a)) = unat a div 2 ^ 12 mod 1024"
    unfolding unsigned_take_bit_eq u by (simp add: take_bit_eq_mod)
  finally show "drop_bit 12 a AND 0x3FF = word_of_nat (unat a div 2 ^ 12 mod 1024)" .
qed

text \<open>The three regions that \<^verbatim>\<open>setup_page\<close> fills: the tables lie behind the directory.\<close>

lemma dir_below_tables:
  assumes "i < 1024" and "k < 8192"
  shows "PG_DIR + 4 * word_of_nat i \<noteq> PG_TABLE + 4 * word_of_nat k"
proof -
  have e: "PG_TABLE + 4 * word_of_nat k = PG_DIR + 4 * word_of_nat (1024 + k)" by (simp add: PG_TABLE_def PG_SIZE_def)
  show ?thesis unfolding e using four_apart [of i "1024 + k" PG_DIR] assms by fastforce
qed

lemma setup_page_dir:
  assumes "i < 1024"
  shows "words (setup_page s) (PG_DIR + 4 * word_of_nat i) = (if i < 8 then (PG_TABLE + PG_SIZE * word_of_nat i) OR 7 else 6)"
proof -
  let ?t = "fill_tables PG_DIR PG_TABLE 8 (fill_tables PG_TABLE 0 PG_PAGES s)"
  have e: "PG_DIR + 4 * 8 + 4 * word_of_nat k = PG_DIR + 4 * word_of_nat (8 + k)" for k by simp
  show ?thesis
  proof (cases "i < 8")
    case True
    have "PG_DIR + 4 * word_of_nat i \<noteq> PG_DIR + 4 * 8 + 4 * word_of_nat k" if "k < 1024 - 8" for k
      using four_apart [of i "8 + k" PG_DIR] True that unfolding e by auto
    from fill_rest_words(1) [of "1024 - 8", OF this] show ?thesis
      using fill_tables_inside [OF True, of PG_DIR PG_TABLE] True by (simp add: setup_page_def)
  next
    case False
    then obtain k where k: "i = 8 + k" by (metis add_diff_inverse_nat)
    from fill_rest_words(2) [where k = k and n = "1024 - 8" and s = ?t and p = "PG_DIR + 4 * 8"] assms show ?thesis
      unfolding e k by (simp add: setup_page_def Let_def)
  qed
qed

lemma setup_page_table:
  assumes "k < 8192"
  shows "words (setup_page s) (PG_TABLE + 4 * word_of_nat k) = PG_SIZE * word_of_nat k OR 7"
proof -
  have e: "PG_DIR + 4 * 8 + 4 * word_of_nat j = PG_DIR + 4 * word_of_nat (8 + j)" for j by simp
  have "PG_TABLE + 4 * word_of_nat k \<noteq> PG_DIR + 4 * 8 + 4 * word_of_nat j" if "j < 1024 - 8" for j
    using dir_below_tables [of "8 + j" k] assms that unfolding e by auto
  moreover have "PG_TABLE + 4 * word_of_nat k \<noteq> PG_DIR + 4 * word_of_nat j" if "j < 8" for j
    using dir_below_tables [of j k] assms that by auto
  ultimately show ?thesis
    using fill_tables_inside [of k PG_PAGES PG_TABLE 0 s] assms
    by (simp add: setup_page_def fill_rest_words(1) fill_tables_outside PG_PAGES_value)
qed

section \<open>Copying\<close>

lemma shift_four: "(p :: u32) + 4 + 4 * word_of_nat j = p + 4 * word_of_nat (Suc j)"
  by (simp add: distrib_left add.assoc)

lemma copy_words_outside:
  "(\<And>k. k < n \<Longrightarrow> q \<noteq> to + 4 * word_of_nat k) \<Longrightarrow> words (copy_words from to n s) q = words s q"
proof (induction n arbitrary: "from" to s)
  case (Suc n)
  have "q \<noteq> to + 4 + 4 * word_of_nat k" if "k < n" for k unfolding shift_four using Suc.prems [of "Suc k"] that by simp
  from Suc.IH [OF this] show ?case using Suc.prems [of 0] by (simp add: store_def)
qed simp

lemma copy_words_inside:
  assumes "\<And>j k. j < n \<Longrightarrow> k < n \<Longrightarrow> from + 4 * word_of_nat j \<noteq> to + 4 * word_of_nat k" and "n < 2 ^ 30" and "k < n"
  shows "words (copy_words from to n s) (to + 4 * word_of_nat k) = words s (from + 4 * word_of_nat k)"
  using assms
proof (induction n arbitrary: "from" to s k)
  case (Suc n)
  let ?s = "store to (words s from) s"
  have ne: "from + 4 + 4 * word_of_nat j \<noteq> to + 4 + 4 * word_of_nat k" if "j < n" "k < n" for j k
    unfolding shift_four using Suc.prems(1) [of "Suc j" "Suc k"] that by simp
  show ?case
  proof (cases k)
    case 0
    have "to \<noteq> to + 4 + 4 * word_of_nat j" if "j < n" for j
      using four_apart [of 0 "Suc j" to] that Suc.prems(2) unfolding shift_four by auto
    from copy_words_outside [OF this] show ?thesis by (simp add: 0 store_def)
  next
    case (Suc j)
    have "words ?s (from + 4 * word_of_nat k) = words s (from + 4 * word_of_nat k)"
      using Suc.prems(1) [of k 0] Suc.prems(3) by (simp add: store_def)
    then show ?thesis using Suc.IH [OF ne, of j ?s] Suc.prems(2,3) by (simp only: Suc copy_words.simps shift_four)
  qed
qed simp

lemma copy_words_frame [simp]:
  "mem_map (copy_words from to n s) = mem_map s" "past_map (copy_words from to n s) = past_map s"
  by (induction "from" to n s rule: copy_words.induct) (simp_all add: store_def)

section \<open>Properties\<close>

text \<open>
  the page tables of \<^verbatim>\<open>setup_page\<close> map the 32 megabytes of memory to themselves. From the directory
  that is loaded into the processor, the walk for an address below 32 megabytes ends at the page of that
  same address, present, writable and open to user level, and the walk for any other address finds nothing.
\<close>

theorem setup_page_identity:
  "walk PG_DIR (setup_page s) a = (if unat a < PG_MEMORY then Some ((a AND 0xFFFFF000) OR 7) else None)"
proof -
  let ?i = "unat a div 2 ^ 22" and ?j = "unat a div 2 ^ 12 mod 1024" and ?k = "unat a div 2 ^ 12"
  have "unat a < 1024 * 2 ^ 22" by (rule order_less_le_trans [OF unsigned_less]) simp
  then have i: "?i < 1024" by (rule less_mult_imp_div_less)
  note pde = setup_page_dir [OF i, of s]
  have lt: "?i < 8 \<longleftrightarrow> unat a < PG_MEMORY" by (simp add: PG_MEMORY_def div_less_iff_less_mult)
  show ?thesis
  proof (cases "?i < 8")
    case False
    then show ?thesis using lt unfolding walk_def index_parts(1) pde by (simp add: one_bit)
  next
    case True
    have k: "?k < 8192" "?k = 1024 * ?i + ?j"
    proof -
      show "?k < 8192" using True lt by (simp add: PG_MEMORY_def div_less_iff_less_mult)
      have "?i = ?k div 1024" by (simp add: div_mult2_eq [symmetric])
      then show "?k = 1024 * ?i + ?j" by simp
    qed
    have base: "(PG_TABLE + PG_SIZE * word_of_nat ?i OR 7) AND 0xFFFFF000 = PG_TABLE + PG_SIZE * word_of_nat ?i"
      using page_bits(1) [of "0x801 + word_of_nat ?i"] by (simp add: PG_TABLE_def PG_DIR_def PG_SIZE_def distrib_left)
    have at: "PG_TABLE + PG_SIZE * word_of_nat ?i + 4 * word_of_nat ?j = PG_TABLE + 4 * word_of_nat ?k"
      by (subst k(2)) (simp add: PG_SIZE_def distrib_left)
    have pte: "words (setup_page s) (PG_TABLE + PG_SIZE * word_of_nat ?i + 4 * word_of_nat ?j) = (a AND 0xFFFFF000) OR 7"
      unfolding at setup_page_table [OF k(1)] page_bits(2) index_parts(2) ..
    show ?thesis using True lt
      unfolding walk_def Let_def index_parts(1,3) pde if_P [OF True] base pte by (simp add: one_bit)
  qed
qed

text \<open>The address of a page, and the page of an address.\<close>

definition frame :: "nat \<Rightarrow> u32" where
  "frame i = push_bit 12 (word_of_nat i)"

lemma frame_word:
  assumes "i < 2 ^ 20" and "k < 1024"
  shows "MAP_NR (frame i + 4 * word_of_nat k) = i" "unat (frame i) = i * 4096"
proof -
  have f: "frame i = word_of_nat (i * 4096)" by (simp add: frame_def push_bit_eq_mult)
  show "unat (frame i) = i * 4096" unfolding f using assms(1) by (subst unat_of_nat_u32) simp_all
  have "frame i + 4 * word_of_nat k = word_of_nat (i * 4096 + 4 * k)" by (simp add: f)
  moreover have "i * 4096 + 4 * k < 2 ^ 32" using assms by simp
  ultimately have "unat (frame i + 4 * word_of_nat k) = i * 4096 + 4 * k" by (simp only: unat_of_nat_u32)
  then show "MAP_NR (frame i + 4 * word_of_nat k) = i" using assms(2) by (simp add: MAP_NR_div)
qed

lemma MAP_NR_less: "MAP_NR w < 2 ^ 20"
proof -
  have "unat w < 2 ^ 20 * 2 ^ 12" by (rule order_less_le_trans [OF unsigned_less]) simp
  then show ?thesis unfolding MAP_NR_div by (rule less_mult_imp_div_less)
qed

lemma frame_of: "0xFFFFF000 AND w = frame (MAP_NR w)" "LOW_MEM \<le> frame j \<longleftrightarrow> 256 \<le> j" if "j < 2 ^ 20"
proof -
  have "0xFFFFF000 AND w = PG_SIZE * drop_bit 12 w" using page_bits(2) [of w] by (simp only: and.commute)
  also have "\<dots> = push_bit 12 (drop_bit 12 w)" by (simp add: PG_SIZE_def push_bit_eq_mult mult.commute)
  also have "drop_bit 12 w = word_of_nat (MAP_NR w)" by (simp add: MAP_NR_def)
  finally show "0xFFFFF000 AND w = frame (MAP_NR w)" by (simp only: frame_def)
  show "LOW_MEM \<le> frame j \<longleftrightarrow> 256 \<le> j"
    using frame_word(2) [OF that, of 0] by (simp add: word_le_nat_alt LOW_MEM_def)
qed

text \<open>Flags do not change the page of an entry.\<close>

lemma MAP_NR_or: "MAP_NR (w OR 7) = MAP_NR w" "MAP_NR (w OR 2) = MAP_NR w" "(w OR 7) AND 2 \<noteq> (0 :: u32)" "(w OR 2) AND 2 \<noteq> (0 :: u32)"
proof -
  have seven: "(7 :: u32) = mask 3" and two: "(2 :: u32) = push_bit 1 1" by (simp_all add: mask_eq_exp_minus_1)
  have "drop_bit 12 (w OR 7) = drop_bit 12 w" unfolding seven by (rule bit_eqI) (auto simp: bit_simps)
  then show "MAP_NR (w OR 7) = MAP_NR w" by (simp only: MAP_NR_def)
  have "drop_bit 12 (w OR 2) = drop_bit 12 w" unfolding two by (rule bit_eqI) (auto simp: bit_simps)
  then show "MAP_NR (w OR 2) = MAP_NR w" by (simp only: MAP_NR_def)
  have "bit ((w OR 7) AND 2) 1" "bit ((w OR 2) AND 2) 1" unfolding seven two by (simp_all add: bit_simps)
  then show "(w OR 7) AND 2 \<noteq> 0" "(w OR 2) AND 2 \<noteq> 0" by auto
qed

lemma MAP_NR_frame: "i < 2 ^ 20 \<Longrightarrow> MAP_NR (frame i) = i"
  using frame_word(1) [of i 0] by simp

lemma copy_page_ok:
  assumes "i < 2 ^ 20" and "j < 2 ^ 20" and "i \<noteq> j"
  shows "k < 1024 \<Longrightarrow> words (copy_page (frame j) (frame i) s) (frame i + 4 * word_of_nat k) = words s (frame j + 4 * word_of_nat k)"
    "MAP_NR q \<noteq> i \<Longrightarrow> words (copy_page (frame j) (frame i) s) q = words s q"
    "uses (copy_page (frame j) (frame i) s) = uses s"
proof -
  have ne: "frame j + 4 * word_of_nat a \<noteq> frame i + 4 * word_of_nat b" if "a < 1024" "b < 1024" for a b
    using frame_word(1) [OF assms(1) that(2)] frame_word(1) [OF assms(2) that(1)] assms(3) by metis
  show "k < 1024 \<Longrightarrow> words (copy_page (frame j) (frame i) s) (frame i + 4 * word_of_nat k) = words s (frame j + 4 * word_of_nat k)"
    unfolding copy_page_def by (rule copy_words_inside [OF ne]) simp_all
  show "MAP_NR q \<noteq> i \<Longrightarrow> words (copy_page (frame j) (frame i) s) q = words s q"
    unfolding copy_page_def by (rule copy_words_outside) (use frame_word(1) [OF assms(1)] in auto)
  show "uses (copy_page (frame j) (frame i) s) = uses s" by (simp add: copy_page_def uses_def fun_eq_iff)
qed


text \<open>Two entries share a page above the first megabyte: the second one gets a copy.\<close>

definition shared_page :: mm where
  "shared_page = (mm0 (\<lambda>a. if a = 0x400000 \<or> a = 0x500000 then 0x12C005 else a) 100)
     \<lparr>HIGH_MEMORY := 0x2000000, mem_map := (replicate PG_PAGES 100)[300 := 2, 8191 := 0]\<rparr>"


text \<open>
  a page handed out is not in use, and giving it back restores the counts. \<^verbatim>\<open>get_free_page\<close> gives the
  highest page whose count is 0 and sets the count to 1, or panics when every count but that of page 0 is
  positive; a page below the end of memory that is then freed leaves the state as it was.
\<close>

theorem get_then_free_page:
  assumes "mm_ok s" and "get_free_page s = Done (addr, s')"
  shows "uses s (MAP_NR addr) = 0 \<and> uses s' (MAP_NR addr) = 1 \<and> 0 < MAP_NR addr \<and> MAP_NR addr \<le> PG_PAGES \<and>
    (\<forall>j. MAP_NR addr < j \<and> j \<le> PG_PAGES \<longrightarrow> uses s j \<noteq> 0) \<and>
    (\<forall>j \<le> PG_PAGES. j \<noteq> MAP_NR addr \<longrightarrow> uses s' j = uses s j) \<and> words s' = words s \<and>
    free_page addr s' = (if addr < HIGH_MEMORY s then Done s else Panic ''Trying to free nonexistent page'')"
proof -
  from get_free_page_cases [of s] show ?thesis
  proof cases
    case (page i)
    then have e: "addr = frame i" "s' = with_uses i 1 s" using assms(2) by (simp_all add: frame_def)
    have i: "i < 2 ^ 20" using page(3) by (simp add: PG_PAGES_value)
    note n = MAP_NR_frame [OF i]
    have "with_uses i 0 (with_uses i 1 s) = s" if "i < PG_PAGES"
      using that page(4) by (simp add: with_uses_def uses_def list_update_same_conv [THEN iffD2] assms(1) [unfolded mm_ok_def])
    moreover have "i < PG_PAGES" if "frame i < HIGH_MEMORY s"
      using that assms(1) frame_word(2) [OF i, of 0] by (auto simp: mm_ok_def word_less_nat_alt)
    ultimately show ?thesis
      using page(2-5) free_page_ok [of "frame i" s'] assms(1)
      by (auto simp: e n uses_with_uses free_page_def)
  next
    case full
    then show ?thesis using assms(2) by simp
  qed
qed

theorem get_then_free_page_witness:
  "\<exists>addr s'. get_free_page shared_page = Done (addr, s') \<and> MAP_NR addr = 8191 \<and> free_page addr s' = Done shared_page"
proof -
  have ok: "mm_ok shared_page" by (simp add: mm_ok_def shared_page_def PG_PAGES_value)
  have u: "uses shared_page i = (if i = 300 then 2 else if i = 8191 then 0 else 100)" if "i \<le> PG_PAGES" for i
    using that by (auto simp: uses_def shared_page_def PG_PAGES_value mm0_def nth_list_update)
  from get_free_page_cases [of shared_page] show ?thesis
  proof cases
    case (page i)
    then have i: "i = 8191" using u by (auto split: if_splits)
    have n: "MAP_NR (push_bit 12 (word_of_nat i)) = 8191" using MAP_NR_frame [of i] by (simp add: frame_def i)
    have "push_bit 12 (word_of_nat i) < HIGH_MEMORY shared_page" by (simp add: i shared_page_def mm0_def)
    then show ?thesis using get_then_free_page [OF ok page(1)] page(1) n by auto
  next
    case full
    then show ?thesis using u [of 8191] by (auto simp: PG_PAGES_value)
  qed
qed

section \<open>The counts after the start\<close>

lemma clear_map_ok:
  "i + n \<le> PG_PAGES \<Longrightarrow> length (mem_map s) = PG_PAGES \<Longrightarrow> \<exists>m. clear_map i n s = Done (s\<lparr>mem_map := m\<rparr>) \<and>
     length m = PG_PAGES \<and> (\<forall>j < PG_PAGES. m ! j = (if i \<le> j \<and> j < i + n then 0 else mem_map s ! j))"
proof (induction i n s rule: clear_map.induct)
  case (1 i s)
  then show ?case by (intro exI [of _ "mem_map s"]) auto
next
  case (2 i n s)
  let ?s = "s\<lparr>mem_map := (mem_map s)[i := 0]\<rparr>"
  have "set_map i 0 s = Done ?s" using "2.prems"(1) by (simp add: set_map_def)
  moreover obtain m where "clear_map (i + 1) n ?s = Done (?s\<lparr>mem_map := m\<rparr>)" "length m = PG_PAGES"
    "\<forall>j < PG_PAGES. m ! j = (if i + 1 \<le> j \<and> j < i + 1 + n then 0 else mem_map ?s ! j)"
    using "2.IH" [of ?s] "2.prems" by auto
  ultimately show ?case using "2.prems" by (intro exI [of _ m]) (auto simp: nth_list_update)
qed

text \<open>
  The pages that \<^verbatim>\<open>setup_page\<close> gives to the directory and the tables, 2048 to 2056, count as free: they
  will be handed out.
\<close>

lemma mem_init_frees_directory:
  "\<exists>s. mem_init (mm0 w past) = Done s \<and> MAP_NR PG_DIR = 2048 \<and>
    (\<forall>i < PG_PAGES. uses s i = (if 2048 \<le> i then 0 else USED))"
proof -
  let ?s = "mm0 w past\<lparr>HIGH_MEMORY := 0x2000000, mem_map := replicate PG_PAGES USED, end_mem := - 1\<rparr>"
  have "2048 + 6144 \<le> PG_PAGES" "length (mem_map ?s) = PG_PAGES" by (simp_all add: PG_PAGES_value)
  from clear_map_ok [OF this] obtain m where m: "clear_map 2048 6144 ?s = Done (?s\<lparr>mem_map := m\<rparr>)"
    "\<forall>j < PG_PAGES. m ! j = (if 2048 \<le> j \<and> j < 2048 + 6144 then 0 else replicate PG_PAGES USED ! j)" by auto
  have keep: "mem_map (setup_page t) = mem_map t" for t
  proof -
    have "mem_map (fill_tables p a n t) = mem_map t" for p a n t by (induction p a n t rule: fill_tables.induct) (simp_all add: store_def)
    moreover have "mem_map (fill_rest p n t) = mem_map t" for p n t by (induction p n t rule: fill_rest.induct) (simp_all add: store_def)
    ultimately show ?thesis by (simp add: setup_page_def Let_def)
  qed
  have "mem_init (mm0 w past) = Done (setup_page (?s\<lparr>mem_map := m\<rparr>))"
    using m(1) by (simp add: mem_init_def mm0_def MAP_NR_div)
  then show ?thesis using m(2) by (simp add: uses_def keep PG_DIR_def MAP_NR_div PG_PAGES_value)
qed

end
