(* ===== verification/Hexdump.thy ===== *)
theory Hexdump
  imports Printk
begin

text \<open>
  The hex dump of \<^verbatim>\<open>kernel/hexdump.c\<close>: rows of 16 bytes, each printed with its offset, as hexadecimal
  numbers and as characters. The two arrays on the stack are stretches of memory whose addresses
  \<open>hex\<close> and \<open>text\<close> are parameters.
\<close>

section \<open>The operation\<close>

definition dump_fmt :: "u8 list" where
  "dump_fmt = lit (''%08x  %-48s  |%-16s|'' @ nl)"

definition print_row :: "u32 \<Rightarrow> u32 \<Rightarrow> u32 \<Rightarrow> mem \<Rightarrow> con \<Rightarrow> con option" where
  "print_row hex text base m s = map_option snd (printk m dump_fmt [base, hex, text] s)"

definition clear_row :: "u32 \<Rightarrow> u32 \<Rightarrow> mem \<Rightarrow> mem" where
  "clear_row hex text m = memset (memset m (unat hex) 0 (16 * 3 + 1)) (unat text) 0 (16 + 1)"

text \<open>The character for a byte.\<close>

definition shown :: "u8 \<Rightarrow> u8" where
  "shown c = (if c < 0x20 \<or> c > 0x7F then 46 else c)"

text \<open>The loop, \<open>n\<close> bytes before its end.\<close>

fun hexdump_loop :: "u32 \<Rightarrow> u32 \<Rightarrow> nat \<Rightarrow> nat \<Rightarrow> u32 \<Rightarrow> u32 \<Rightarrow> mem \<Rightarrow> con \<Rightarrow> (u32 \<times> mem \<times> con) option" where
  "hexdump_loop hex text 0 i base p m s = Some (base, m, s)"
| "hexdump_loop hex text (Suc n) i base p m s =
     (let index = i mod 16 in
      case (if i \<noteq> 0 \<and> index = 0
            then map_option (\<lambda>s. (base + 0x10, clear_row hex text m, s)) (print_row hex text base m s)
            else Some (base, m, s)) of
        None \<Rightarrow> None
      | Some (base, m, s) \<Rightarrow>
          let c = m (unat p) in
          (case sprintk m (lit ''%02x '') [ucast c] of
             None \<Rightarrow> None
           | Some (_, out) \<Rightarrow>
               let m = put_bytes m (unat hex + index * 3) out;
                   m = m(unat text + index := shown c)
               in hexdump_loop hex text n (i + 1) base (p + 1) m s))"

definition hexdump :: "u32 \<Rightarrow> u32 \<Rightarrow> u32 \<Rightarrow> int \<Rightarrow> mem \<Rightarrow> con \<Rightarrow> con option" where
  "hexdump hex text data len m s =
     (case hexdump_loop hex text (nat len) 0 0 data (clear_row hex text m) s of
        None \<Rightarrow> None
      | Some (base, m, s) \<Rightarrow> print_row hex text base m s)"

section \<open>Hexadecimal numbers\<close>

text \<open>The lowest \<open>w\<close> hexadecimal digits.\<close>

fun hex_digits :: "nat \<Rightarrow> nat \<Rightarrow> u8 list" where
  "hex_digits 0 n = []"
| "hex_digits (Suc w) n = hex_digits w (n div 16) @ [lower_digits ! (n mod 16)]"

lemma length_hex_digits [simp]: "length (hex_digits w n) = w"
  by (induction w n rule: hex_digits.induct) simp_all

lemma lower_digit: "d < 16 \<Longrightarrow> lower_digits ! d \<noteq> 0" "lower_digits ! 0 = 48"
proof -
  have "0 \<notin> set lower_digits" by (simp add: lower_digits_def upt_rec)
  moreover have "length lower_digits = 36" by (simp add: lower_digits_def)
  ultimately show "d < 16 \<Longrightarrow> lower_digits ! d \<noteq> 0" using nth_mem [of d lower_digits] by fastforce
  show "lower_digits ! 0 = 48" by (simp add: lower_digits_def)
qed

lemma hex_digits_nonzero: "0 \<notin> set (hex_digits w n)"
  by (induction w n rule: hex_digits.induct) (auto simp: lower_digit(1) [symmetric])

lemma hex_digits_zero: "hex_digits w 0 = replicate w 48"
  by (induction w) (simp_all add: lower_digit(2) replicate_append_same)

lemma digit_loop_hex:
  "unat n < 16 ^ w \<Longrightarrow> length (digit_loop n 16 lower_digits) \<le> w \<and>
    replicate (w - length (digit_loop n 16 lower_digits)) 48 @ rev (digit_loop n 16 lower_digits) = hex_digits w (unat n)"
proof (induction w arbitrary: n)
  case 0
  then have "n = 0" by (simp add: word_unat_eq_iff)
  then show ?case by simp
next
  case (Suc w)
  show ?case
  proof (cases "n = 0")
    case False
    have u: "unat (n div 16) = unat n div 16" "unat (n mod 16) = unat n mod 16" by (simp_all add: unat_div unat_mod)
    have "unat (n div 16) < 16 ^ w" using Suc.prems by (simp add: u less_mult_imp_div_less mult.commute)
    from Suc.IH [OF this] False show ?thesis by (simp add: digit_loop_step u)
  qed (simp add: hex_digits_zero)
qed

text \<open>\<^verbatim>\<open>%0\<close>\<open>w\<close>\<^verbatim>\<open>x\<close> of a number that fits.\<close>

lemma number_hex:
  assumes "unat n < 16 ^ w" and "0 < w"
  shows "number n 16 (int w) (- 1) (ZEROPAD OR SMALL) = Some (hex_digits w (unat n))"
proof -
  have f: "(ZEROPAD OR SMALL) AND SMALL \<noteq> 0" "(ZEROPAD OR SMALL) AND LEFT = 0" "(ZEROPAD OR SMALL) AND ZEROPAD \<noteq> 0"
    "(ZEROPAD OR SMALL) AND SIGN = 0" "(ZEROPAD OR SMALL) AND PLUS = 0" "(ZEROPAD OR SMALL) AND SPACE = 0"
    "(ZEROPAD OR SMALL) AND SPECIAL = 0" "(ZEROPAD OR SMALL) AND (ZEROPAD + LEFT) \<noteq> 0" by (simp_all add: fmt_flags)
  show ?thesis
  proof (cases "n = 0")
    case True
    have "nat (int w - 1) = w - 1" by simp
    moreover have "replicate (w - 1) 48 @ [48] = replicate w (48 :: u8)" using assms(2) by (cases w) (simp_all add: replicate_append_same)
    ultimately show ?thesis
      by (simp add: number_def Let_def f True pad_loop_def after_loop_def hex_digits_zero)
  next
    case False
    note d = digit_loop_hex [OF assms(1)]
    have "digit_loop n 16 lower_digits \<noteq> []" using False by (simp add: digit_loop_step)
    moreover have "nat (int w - int (length (digit_loop n 16 lower_digits))) = w - length (digit_loop n 16 lower_digits)" by simp
    ultimately show ?thesis using d False
      by (simp add: number_def Let_def f pad_loop_def after_loop_def)
  qed
qed

section \<open>Rows\<close>

definition hex_column :: "u8 list \<Rightarrow> u8 list" where
  "hex_column bs = concat (map (\<lambda>c. hex_digits 2 (unat c) @ [32]) bs)"

definition text_column :: "u8 list \<Rightarrow> u8 list" where
  "text_column bs = map shown bs"

text \<open>What is printed for up to 16 bytes: offset, numbers in a field of 48, characters in one of 16.\<close>

definition row :: "u32 \<Rightarrow> u8 list \<Rightarrow> u8 list" where
  "row base bs = hex_digits 8 (unat base) @ [32, 32] @
     (hex_column bs @ replicate (48 - length (hex_column bs)) 32) @ [32, 32, 124] @
     (text_column bs @ replicate (16 - length (text_column bs)) 32) @ [124, 10]"

lemma length_hex_column [simp]: "length (hex_column bs) = 3 * length bs"
  by (induction bs) (simp_all add: hex_column_def)

lemma length_text_column [simp]: "length (text_column bs) = length bs"
  by (simp add: text_column_def)

lemma columns_nonzero: "0 \<notin> set (hex_column bs)" "0 \<notin> set (text_column bs)"
  using hex_digits_nonzero [of 2] by (auto simp: hex_column_def text_column_def shown_def split: if_splits)

lemma directive_left:
  assumes "str_at m (unat p) t" and "rest = 115 # s"
  shows "directive m n (45 # 52 # 56 # rest) (p # args) = Some (t @ replicate (48 - length t) 32, [], args, s)"
    "directive m n (45 # 49 # 54 # rest) (p # args) = Some (t @ replicate (16 - length t) 32, [], args, s)"
proof -
  have "map (\<lambda>i. m (unat p + i)) [0..<length t] = t"
    using assms(1) by (intro nth_equalityI) (simp_all add: str_at_def)
  moreover have "nat (48 - int (length t)) = 48 - length t" "nat (16 - int (length t)) = 16 - length t" by simp_all
  ultimately show "directive m n (45 # 52 # 56 # rest) (p # args) = Some (t @ replicate (48 - length t) 32, [], args, s)"
    "directive m n (45 # 49 # 54 # rest) (p # args) = Some (t @ replicate (16 - length t) 32, [], args, s)"
    using str_end_correct [OF assms(1)]
    by (simp_all add: assms(2) directive_def conv_def conv_string_def is_digit_def fmt_flags pad_loop_def Let_def)
qed

lemma print_row_ok:
  assumes h: "str_at m (unat hex) (hex_column bs)" and t: "str_at m (unat text) (text_column bs)" and "length bs \<le> 16"
  shows "print_row hex text base m s = Some (con_write (row base bs) s)"
proof -
  have fmt: "dump_fmt = [37, 48, 56, 120, 32, 32, 37, 45, 52, 56, 115, 32, 32, 124, 37, 45, 49, 54, 115, 124, 10, 0]"
    by (simp add: dump_fmt_def lit_def)
  have "unat base < 16 ^ 8" using unsigned_less [of base] by simp
  from number_hex [OF this] have n: "number base 16 8 (- 1) (ZEROPAD OR SMALL) = Some (hex_digits 8 (unat base))" by simp
  then have "directive m 0 (48 # 56 # 120 # rest) (base # args) = Some (hex_digits 8 (unat base), [], args, rest)" for rest args
    by (simp add: directive_def conv_def is_digit_def fmt_flags Let_def)
  then have "vsprintf m dump_fmt [base, hex, text] = Some (int (length (row base bs)), row base bs @ [0], [])"
    by (simp add: fmt vsprintf_def vsprintf_loop.simps directive_left [OF h] directive_left [OF t] row_def)
  moreover have "length (row base bs @ [0]) \<le> printk_buf" using assms(3) by (simp add: row_def printk_buf_def)
  ultimately show ?thesis by (simp add: print_row_def printk_def)
qed

section \<open>The loop\<close>

text \<open>The arrays hold the columns of the bytes \<open>bs\<close>, and zeros behind them.\<close>

definition holding :: "u32 \<Rightarrow> u32 \<Rightarrow> mem \<Rightarrow> u8 list \<Rightarrow> bool" where
  "holding hex text m bs \<longleftrightarrow>
     (\<forall>k < 49. m (unat hex + k) = (if k < 3 * length bs then hex_column bs ! k else 0)) \<and>
     (\<forall>k < 17. m (unat text + k) = (if k < length bs then text_column bs ! k else 0))"

definition arrays_apart :: "u32 \<Rightarrow> u32 \<Rightarrow> bool" where
  "arrays_apart hex text \<longleftrightarrow> unat hex + 49 \<le> unat text \<or> unat text + 17 \<le> unat hex"

text \<open>The data lies outside both arrays and does not wrap.\<close>

definition data_apart :: "u32 \<Rightarrow> u32 \<Rightarrow> u32 \<Rightarrow> nat \<Rightarrow> bool" where
  "data_apart hex text p n \<longleftrightarrow> unat p + n \<le> 2 ^ 32 \<and>
     (unat p + n \<le> unat hex \<or> unat hex + 49 \<le> unat p) \<and> (unat p + n \<le> unat text \<or> unat text + 17 \<le> unat p)"

lemma memset_at: "memset m p c n a = (if p \<le> a \<and> a < p + n then c else m a)"
  by (induction m p c n rule: memset.induct) (auto simp: fun_upd_def)

lemma clear_row_holding: "arrays_apart hex text \<Longrightarrow> holding hex text (clear_row hex text m) []"
  by (auto simp: holding_def clear_row_def memset_at)

lemma clear_row_data:
  "data_apart hex text p n \<Longrightarrow> k < n \<Longrightarrow> clear_row hex text m (unat p + k) = m (unat p + k)"
  by (auto simp: data_apart_def clear_row_def memset_at)

lemma holding_row:
  assumes h: "holding hex text m bs" and l: "length bs \<le> 16"
  shows "print_row hex text base m s = Some (con_write (row base bs) s)"
proof (rule print_row_ok [OF _ _ l])
  show "str_at m (unat hex) (hex_column bs)" "str_at m (unat text) (text_column bs)"
    using h l columns_nonzero [of bs] by (auto simp: str_at_def holding_def)
qed

lemma holding_next:
  assumes h: "holding hex text m bs" and l: "length bs < 16" and a: "arrays_apart hex text"
  shows "holding hex text ((put_bytes m (unat hex + length bs * 3) (hex_digits 2 (unat c) @ [32, 0]))
    (unat text + length bs := shown c)) (bs @ [c])" (is "holding _ _ ?m _")
proof -
  let ?d = "hex_digits 2 (unat c)" and ?n = "length bs"
  have col: "hex_column (bs @ [c]) = hex_column bs @ ?d @ [32]" by (simp add: hex_column_def)
  have "?m (unat hex + k) = (if k < 3 * length (bs @ [c]) then hex_column (bs @ [c]) ! k else 0)" if k: "k < 49" for k
  proof -
    have ne: "unat hex + k \<noteq> unat text + ?n" using a l k by (auto simp: arrays_apart_def)
    have m: "m (unat hex + k) = (if k < 3 * ?n then hex_column bs ! k else 0)" using h k by (simp add: holding_def)
    consider "k < 3 * ?n" | j where "k = 3 * ?n + j" "j < 3" | "3 * ?n + 3 = k" | "3 * ?n + 3 < k"
      using that by (metis add_diff_inverse_nat linorder_neqE_nat nat_add_left_cancel_less)
    then show ?thesis
    proof cases
      case 2
      then show ?thesis using ne
        by (auto simp: put_bytes_def col nth_append mult.commute [of ?n 3] less_Suc_eq numeral_3_eq_3)
    next
      case 3
      then have "k - 3 * ?n = 3" by simp
      then show ?thesis using 3 ne by (simp add: put_bytes_def col nth_append mult.commute [of ?n 3])
    qed (use ne m in \<open>simp_all add: put_bytes_def col nth_append mult.commute [of ?n 3]\<close>)
  qed
  moreover have "?m (unat text + k) = (if k < length (bs @ [c]) then text_column (bs @ [c]) ! k else 0)" if k: "k < 17" for k
  proof -
    have out: "\<not> (unat hex + ?n * 3 \<le> unat text + k \<and> unat text + k < unat hex + ?n * 3 + 4)"
      using a l k by (auto simp: arrays_apart_def)
    have m: "m (unat text + k) = (if k < ?n then text_column bs ! k else 0)" using h k by (simp add: holding_def)
    show ?thesis using out m by (auto simp: put_bytes_def text_column_def nth_append less_Suc_eq)
  qed
  ultimately show ?thesis by (simp add: holding_def)
qed

lemma sprintk_byte: "sprintk m (lit ''%02x '') [ucast (c :: u8)] = Some (3, hex_digits 2 (unat c) @ [32, 0])"
proof -
  have c: "unat c < 256" using unsigned_less [of c] by simp
  then have u: "unat (ucast c :: u32) = unat c" by (simp add: unsigned_ucast_eq take_bit_nat_eq_self)
  have "unat (ucast c :: u32) < 16 ^ 2" using c by (simp add: u)
  from number_hex [OF this] have n: "number (ucast c) 16 2 (- 1) (ZEROPAD OR SMALL) = Some (hex_digits 2 (unat c))"
    by (simp add: u del: hex_digits.simps)
  have l: "lit ''%02x '' = [37, 48, 50, 120, 32, 0]" by (simp add: lit_def)
  have "directive m 0 [48, 50, 120, 32, 0] [ucast c] = Some (hex_digits 2 (unat c), [], [], [32, 0])"
    using n by (simp add: directive_def conv_def is_digit_def fmt_flags Let_def del: hex_digits.simps)
  then show ?thesis by (simp add: sprintk_def l vsprintf_def vsprintf_loop.simps del: hex_digits.simps)
qed

text \<open>The rows of a run of bytes; there is always one.\<close>

function rows :: "u32 \<Rightarrow> u8 list \<Rightarrow> u8 list list" where
  "rows base bs = (if length bs \<le> 16 then [row base bs] else row base (take 16 bs) # rows (base + 16) (drop 16 bs))"
  by pat_completeness auto
termination by (relation "measure (length \<circ> snd)") auto

declare rows.simps [simp del]

text \<open>\<open>bs\<close> are the bytes of the row begun; the number \<open>i\<close> of the byte that follows tells where it stands.\<close>

lemma data_apart_next:
  assumes "data_apart hex text p (Suc n)"
  shows "data_apart hex text (p + 1) n" and "k < n \<Longrightarrow> unat (p + 1) + k = unat p + Suc k"
proof -
  have "data_apart hex text (p + 1) n \<and> (k < n \<longrightarrow> unat (p + 1) + k = unat p + Suc k)" for k
  proof (cases "unat p + 1 < 2 ^ 32")
    case True
    then have "unat (p + 1) = unat p + 1" by (simp add: unat_word_ariths)
    then show ?thesis using assms by (auto simp: data_apart_def)
  next
    case False
    then have "n = 0" "unat p = 2 ^ 32 - 1" using assms by (auto simp: data_apart_def)
    then have "unat (p + 1) = 0" by (simp add: unat_word_ariths)
    with \<open>n = 0\<close> show ?thesis by (simp add: data_apart_def)
  qed
  then show "data_apart hex text (p + 1) n" "k < n \<Longrightarrow> unat (p + 1) + k = unat p + Suc k" by blast+
qed

text \<open>Adding the byte \<open>c\<close> as the \<open>b\<close>-th of a row leaves the data behind it alone.\<close>

definition add_shown :: "u32 \<Rightarrow> u32 \<Rightarrow> nat \<Rightarrow> u8 \<Rightarrow> mem \<Rightarrow> mem" where
  "add_shown hex text b c m =
     (put_bytes m (unat hex + b * 3) (hex_digits 2 (unat c) @ [32, 0]))(unat text + b := shown c)"

lemma add_shown_data:
  assumes "data_apart hex text p (Suc n)" and "b < 16" and "\<And>k. k < Suc n \<Longrightarrow> m' (unat p + k) = m (unat p + k)"
  shows "map (\<lambda>k. add_shown hex text b c m' (unat (p + 1) + k)) [0..<n] = map (\<lambda>k. m (unat p + Suc k)) [0..<n]"
proof (intro map_cong refl)
  fix k assume "k \<in> set [0..<n]"
  then have k: "k < n" by simp
  have "unat p + Suc k \<noteq> unat text + b" "\<not> (unat hex + b * 3 \<le> unat p + Suc k \<and> unat p + Suc k < unat hex + b * 3 + 4)"
    using assms(1,2) k unfolding data_apart_def by linarith+
  then show "add_shown hex text b c m' (unat (p + 1) + k) = m (unat p + Suc k)"
    using assms(3) [of "Suc k"] k unfolding data_apart_next(2) [OF assms(1) k] add_shown_def
    by (simp only: put_bytes_def fun_upd_apply length_append length_hex_digits) (auto simp del: hex_digits.simps)
qed

lemma hexdump_loop_rows:
  assumes "holding hex text m bs" and "length bs \<le> 16" and "i mod 16 = length bs mod 16" and "i = 0 \<longleftrightarrow> bs = []"
    and a: "arrays_apart hex text" and "data_apart hex text p n"
  shows "\<exists>base' m' s' cs. hexdump_loop hex text n i base p m s = Some (base', m', s') \<and> holding hex text m' cs \<and>
    length cs \<le> 16 \<and> con_write (row base' cs) s' = fold con_write (rows base (bs @ map (\<lambda>k. m (unat p + k)) [0..<n])) s"
  using assms(1-4,6)
proof (induction n arbitrary: bs i base p m s)
  case 0
  then show ?case by (auto simp: rows.simps)
next
  case (Suc n)
  let ?c = "m (unat p)" and ?ds = "map (\<lambda>k. m (unat p + Suc k)) [0..<n]"
  let ?next = "\<lambda>m b. add_shown hex text b ?c m"
  have ds: "map (\<lambda>k. m (unat p + k)) [0..<Suc n] = ?c # ?ds" by (simp add: upt_conv_Cons map_Suc_upt [symmetric] del: upt_Suc)
  note d = data_apart_next(1) [OF Suc.prems(5)]
  show ?case
  proof (cases "length bs = 16")
    case True
    let ?m = "clear_row hex text m" and ?s = "con_write (row base bs) s"
    have b: "i \<noteq> 0" "i mod 16 = 0" "(i + 1) mod 16 = length [?c] mod 16" using Suc.prems(3,4) True by (auto simp: mod_Suc)
    have c: "?m (unat p + k) = m (unat p + k)" if "k < Suc n" for k using clear_row_data [OF Suc.prems(5) that] .
    have step: "hexdump_loop hex text (Suc n) i base p m s =
        hexdump_loop hex text n (i + 1) (base + 0x10) (p + 1) (?next ?m 0) ?s"
      using b(1,2) c [of 0] holding_row [OF Suc.prems(1,2)]
      by (simp add: Let_def sprintk_byte add_shown_def del: hex_digits.simps)
    have h: "holding hex text (?next ?m 0) [?c]"
      using holding_next [OF clear_row_holding [OF a] _ a, of m ?c] by (simp add: add_shown_def)
    have k: "map (\<lambda>k. ?next ?m 0 (unat (p + 1) + k)) [0..<n] = ?ds" by (rule add_shown_data [OF Suc.prems(5)]) (use c in simp_all)
    have l: "length [?c] \<le> 16" "i + 1 = 0 \<longleftrightarrow> [?c] = []" by simp_all
    note ih = Suc.IH [OF h l(1) b(3) l(2) d, of "base + 0x10" ?s, unfolded k]
    have "rows base (bs @ ?c # ?ds) = row base bs # rows (base + 0x10) (?c # ?ds)" using True by (subst rows.simps) simp
    then show ?thesis unfolding step ds using ih unfolding append_Cons append_Nil by (simp only: fold_simps)
  next
    case False
    then have l: "length bs < 16" using Suc.prems(2) by simp
    then have b: "i mod 16 = length bs" "\<not> (i \<noteq> 0 \<and> i mod 16 = 0)" "(i + 1) mod 16 = length (bs @ [?c]) mod 16"
      using Suc.prems(3,4) by (auto simp: mod_Suc)
    have step: "hexdump_loop hex text (Suc n) i base p m s =
        hexdump_loop hex text n (i + 1) base (p + 1) (?next m (length bs)) s"
      using b(1) Suc.prems(4) by (auto simp: Let_def sprintk_byte add_shown_def simp del: hex_digits.simps)
    have h: "holding hex text (?next m (length bs)) (bs @ [?c])"
      using holding_next [OF Suc.prems(1) l a, of ?c] by (simp only: add_shown_def)
    have k: "map (\<lambda>k. ?next m (length bs) (unat (p + 1) + k)) [0..<n] = ?ds" by (rule add_shown_data [OF Suc.prems(5) l]) simp
    have l1: "length (bs @ [?c]) \<le> 16" "i + 1 = 0 \<longleftrightarrow> bs @ [?c] = []" using l by simp_all
    from Suc.IH [OF h l1(1) b(3) l1(2) d, of base s, unfolded k]
    show ?thesis unfolding step ds append_assoc append_Cons append_Nil .
  qed
qed

text \<open>
  C31: the hex dump shows the bytes. If the data does not overlap the arrays of the function and both lie
  apart, \<^verbatim>\<open>hexdump\<close> ends, and the console has got one row for every 16 bytes and one for the rest:
  the offset in 8 hexadecimal digits, the two digits of each byte in a field of 48, and the characters
  between bars, a dot for a byte below 32 or above 127. No data, or a negative length, gives one empty row.
\<close>

theorem hexdump_shows:
  assumes "arrays_apart hex text" and "data_apart hex text data (nat len)"
  shows "hexdump hex text data len m s =
    Some (fold con_write (rows 0 (map (\<lambda>k. m (unat data + k)) [0..<nat len])) s)"
proof -
  let ?m = "clear_row hex text m"
  have e: "map (\<lambda>k. ?m (unat data + k)) [0..<nat len] = map (\<lambda>k. m (unat data + k)) [0..<nat len]"
    using clear_row_data [OF assms(2)] by simp
  from hexdump_loop_rows [OF clear_row_holding [OF assms(1)] _ _ _ assms, of 0 0 m s] obtain base m' s' cs where
    l: "hexdump_loop hex text (nat len) 0 0 data ?m s = Some (base, m', s')" "holding hex text m' cs" "length cs \<le> 16"
      "con_write (row base cs) s' = fold con_write (rows 0 (map (\<lambda>k. m (unat data + k)) [0..<nat len])) s"
    by (auto simp: e)
  show ?thesis using holding_row [OF l(2,3), of base s'] by (simp add: hexdump_def l(1,4))
qed

theorem hexdump_shows_witness:
  "\<forall>s. hexdump 4096 8192 100 1 (\<lambda>a. if a = 100 then 0x41 else 0) s =
    Some (con_write (replicate 8 48 @ [32, 32] @ [52, 49, 32] @ replicate 45 32 @ [32, 32, 124] @
      [65] @ replicate 15 32 @ [124, 10]) s)"
proof
  fix s
  have "arrays_apart 4096 8192" "data_apart 4096 8192 100 (nat 1)" by (simp_all add: arrays_apart_def data_apart_def)
  moreover have "hex_digits 2 65 = [52, 49]" by (simp add: numeral_2_eq_2 decimal_digits)
  ultimately show "hexdump 4096 8192 100 1 (\<lambda>a. if a = 100 then 0x41 else 0) s =
    Some (con_write (replicate 8 48 @ [32, 32] @ [52, 49, 32] @ replicate 45 32 @ [32, 32, 124] @
      [65] @ replicate 15 32 @ [124, 10]) s)"
    using hexdump_shows [of 4096 8192 100 1 "\<lambda>a. if a = 100 then 0x41 else 0" s]
    by (simp add: rows.simps row_def hex_column_def text_column_def shown_def hex_digits_zero del: hex_digits.simps)
qed

end
