(* ===== verification/Clock.thy ===== *)
theory Clock
  imports Prelude "HOL-Library.Signed_Division"
begin

text \<open>
  The clock: the seconds of a date (\<^verbatim>\<open>kernel/mktime.c\<close>), the reading of the real-time clock
  (\<^verbatim>\<open>get_current_time\<close> of \<^verbatim>\<open>init/init.c\<close>), and the timer requests of \<^verbatim>\<open>kernel/timer.c\<close>.
\<close>

unbundle bit_operations_syntax

section \<open>Seconds of a date\<close>

record tm =
  tm_sec :: int
  tm_min :: int
  tm_hour :: int
  tm_mday :: int
  tm_mon :: int
  tm_year :: int

definition MINUTE :: int where "MINUTE = 60"
definition HOUR :: int where "HOUR = 60 * MINUTE"
definition DAY :: int where "DAY = 24 * HOUR"
definition YEAR :: int where "YEAR = 365 * DAY"

lemmas time_units = MINUTE_def HOUR_def DAY_def YEAR_def

definition month :: "int list" where
  "month =
    [0,
     DAY * 31,
     DAY * (31 + 28),
     DAY * (31 + 28 + 31),
     DAY * (31 + 28 + 31 + 30),
     DAY * (31 + 28 + 31 + 30 + 31),
     DAY * (31 + 28 + 31 + 30 + 31 + 30),
     DAY * (31 + 28 + 31 + 30 + 31 + 30 + 31),
     DAY * (31 + 28 + 31 + 30 + 31 + 30 + 31 + 31),
     DAY * (31 + 28 + 31 + 30 + 31 + 30 + 31 + 31 + 30),
     DAY * (31 + 28 + 31 + 30 + 31 + 30 + 31 + 31 + 30 + 31),
     DAY * (31 + 28 + 31 + 30 + 31 + 30 + 31 + 31 + 30 + 31 + 30)]"

text \<open>
  The sum is computed in 32 bits; \<open>/\<close> and \<open>%\<close> truncate. A month outside the table has no result.
\<close>

definition kernel_mktime :: "tm \<Rightarrow> u32 option" where
  "kernel_mktime t =
     (let year = tm_year t - 1;
          leap = (if tm_year t smod 4 \<noteq> 0 then 0 else if tm_year t smod 100 \<noteq> 0 then 0 else 1 :: int);
          res = YEAR * year + DAY * (year sdiv 4) in
      if tm_mon t < 0 \<or> tm_mon t \<ge> int (length month) then None
      else
        let res = res + month ! nat (tm_mon t);
            res = (if tm_mon t > 1 \<and> leap \<noteq> 0 then res + DAY else res);
            res = res + DAY * (tm_mday t - 1);
            res = res + HOUR * tm_hour t;
            res = res + MINUTE * tm_min t;
            res = res + tm_sec t
        in Some (word_of_int res))"

section \<open>Reading the real-time clock\<close>

definition BCD_TO_BIN :: "int \<Rightarrow> int" where
  "BCD_TO_BIN val = (val AND 0xF) + drop_bit 4 val * 10"

text \<open>
  One round of the loop reads seven registers; \<open>again\<close> is the second reading of the seconds. The
  rounds go on until both readings agree; with no such round there is no result. The month is
  counted from 0 for \<^verbatim>\<open>kernel_mktime\<close> only.
\<close>

fun cmos_rounds :: "(tm \<times> int) list \<Rightarrow> tm option" where
  "cmos_rounds [] = None"
| "cmos_rounds ((t, again) # rs) = (if tm_sec t \<noteq> again then cmos_rounds rs else Some t)"

definition get_current_time :: "(tm \<times> int) list \<Rightarrow> (tm \<times> u32) option" where
  "get_current_time rs =
     (case cmos_rounds rs of
        None \<Rightarrow> None
      | Some t \<Rightarrow>
          let t = \<lparr>tm_sec = BCD_TO_BIN (tm_sec t), tm_min = BCD_TO_BIN (tm_min t),
                  tm_hour = BCD_TO_BIN (tm_hour t), tm_mday = BCD_TO_BIN (tm_mday t),
                  tm_mon = BCD_TO_BIN (tm_mon t), tm_year = BCD_TO_BIN (tm_year t)\<rparr>
          in map_option (Pair t) (kernel_mktime (t\<lparr>tm_mon := tm_mon t - 1\<rparr>)))"

section \<open>A calendar\<close>

text \<open>Every fourth year is a leap year, as it is for the two-digit years of the clock.\<close>

definition year_len :: "nat \<Rightarrow> int" where
  "year_len y = (if 4 dvd y then 366 else 365)"

definition month_len :: "nat \<Rightarrow> nat \<Rightarrow> int" where
  "month_len y m = (if m = 1 \<and> 4 dvd y then 29 else [31, 28, 31, 30, 31, 30, 31, 31, 30, 31, 30, 31] ! m)"

text \<open>The days from the first of January of the year 1 to a date, months and days from 0.\<close>

definition days :: "nat \<Rightarrow> nat \<Rightarrow> int \<Rightarrow> int" where
  "days y m d = (\<Sum>k = 1..<y. year_len k) + (\<Sum>k = 0..<m. month_len y k) + d"

lemma year_days:
  assumes "1 \<le> y"
  shows "(\<Sum>k = 1..<y. year_len k) = 365 * (int y - 1) + (int y - 1) div 4"
  using assms
proof (induction y rule: dec_induct)
  case (step y)
  have "4 dvd y \<longleftrightarrow> int y mod 4 = 0"
    by (metis dvd_eq_mod_eq_0 of_nat_dvd_iff of_nat_numeral)
  moreover have "int y div 4 = (int y - 1) div 4 + (if int y mod 4 = 0 then 1 else 0)"
    by presburger
  ultimately show ?case
    using step by (simp add: year_len_def)
qed simp

lemma month_days:
  assumes "m < 12"
  shows "DAY * (\<Sum>k = 0..<m. month_len y k) = month ! m + (if 1 < m \<and> 4 dvd y then DAY else 0)"
proof -
  have "m = 0 \<or> m = 1 \<or> m = 2 \<or> m = 3 \<or> m = 4 \<or> m = 5 \<or> m = 6 \<or> m = 7 \<or> m = 8 \<or> m = 9 \<or>
      m = 10 \<or> m = 11"
    using assms by presburger
  then show ?thesis
    by (elim disjE) (simp_all add: month_len_def month_def time_units eval_nat_numeral)
qed

text \<open>
  C37: \<^verbatim>\<open>kernel_mktime\<close> computes, modulo \<open>2 ^ 32\<close>, the seconds from the first of January of the year
  1 to a date of the calendar, except that it is one day short from March on in a leap year that no
  hundred divides: the test for the leap year is inverted there.
\<close>

theorem kernel_mktime_calendar:
  assumes "1 \<le> y" and "m < 12"
  shows "kernel_mktime \<lparr>tm_sec = s, tm_min = mi, tm_hour = h, tm_mday = d, tm_mon = int m, tm_year = int y\<rparr> =
    Some (word_of_int
      (86400 * (days y m (d - 1) - (if 1 < m \<and> 4 dvd y \<and> \<not> 100 dvd y then 1 else 0)) +
       3600 * h + 60 * mi + s))"
proof -
  have dvd: "4 dvd y \<longleftrightarrow> int y mod 4 = 0" "100 dvd y \<longleftrightarrow> int y mod 100 = 0"
    by (metis dvd_eq_mod_eq_0 of_nat_dvd_iff of_nat_numeral)+
  have pos: "(int y - 1) sdiv 4 = (int y - 1) div 4" "int y smod 4 = int y mod 4"
      "int y smod 100 = int y mod 100"
    using assms(1) by (simp_all add: signed_divide_int_def signed_modulo_int_def sgn_if)
  have "YEAR * (int y - 1) + DAY * ((int y - 1) div 4) = DAY * (\<Sum>k = 1..<y. year_len k)"
    unfolding year_days [OF assms(1)] by (simp add: time_units)
  moreover have "month ! m = DAY * (\<Sum>k = 0..<m. month_len y k) - (if 1 < m \<and> 4 dvd y then DAY else 0)"
    by (simp add: month_days [OF assms(2)])
  moreover have "length month = 12"
    by (simp add: month_def)
  ultimately show ?thesis
    using assms(2)
    by (simp add: kernel_mktime_def Let_def pos dvd days_def)
      (auto simp: time_units algebra_simps intro!: arg_cong [where f = word_of_int])
qed

text \<open>The first of March of the year 8, a leap year: the seconds of the day before.\<close>

theorem kernel_mktime_calendar_witness:
  "kernel_mktime \<lparr>tm_sec = 0, tm_min = 0, tm_hour = 0, tm_mday = 1, tm_mon = 2, tm_year = 8\<rparr> =
     Some (word_of_int (86400 * (days 8 2 0 - 1))) \<and>
   kernel_mktime \<lparr>tm_sec = 0, tm_min = 0, tm_hour = 0, tm_mday = 1, tm_mon = 2, tm_year = 8\<rparr> =
   kernel_mktime \<lparr>tm_sec = 0, tm_min = 0, tm_hour = 0, tm_mday = 29, tm_mon = 1, tm_year = 8\<rparr>"
  using kernel_mktime_calendar [of 8 2 0 0 0 1] kernel_mktime_calendar [of 8 1 0 0 0 29]
  by (simp add: days_def month_len_def numeral_2_eq_2)

lemma BCD_round_trip:
  assumes "0 \<le> n" and "n < 100"
  shows "BCD_TO_BIN (16 * (n div 10) + n mod 10) = n"
proof -
  have "list_all (\<lambda>n. BCD_TO_BIN (16 * (n div 10) + n mod 10) = n) [0..99]"
    by code_simp
  with assms show ?thesis
    by (auto simp: list_all_iff)
qed

section \<open>Timer requests\<close>

text \<open>
  A slot of the table; \<open>fn\<close> and \<open>nxt\<close> are \<^term>\<open>None\<close> for the null pointer, a pointer to a slot being its
  index and a function its number. The state holds what the functions of the file and the
  interrupt handler change, and the calls made so far, newest last; what the functions called do
  comes after the step that calls them.
\<close>

record timer_slot =
  slot_ticks :: u32
  slot_fn :: "nat option"
  slot_next :: "nat option"

record timers =
  timer_ticks :: u32
  count_down :: u32
  timer_list :: "timer_slot list"
  next_timer :: "nat option"
  called :: "nat list"

definition TIME_REQUESTS :: nat where
  "TIME_REQUESTS = 64"

definition timers0 :: timers where
  "timers0 = \<lparr>timer_ticks = 0, count_down = 0,
     timer_list = replicate TIME_REQUESTS \<lparr>slot_ticks = 0, slot_fn = None, slot_next = None\<rparr>,
     next_timer = None, called = []\<rparr>"

fun free_request :: "timer_slot list \<Rightarrow> nat option" where
  "free_request [] = None"
| "free_request (p # ps) = (if slot_fn p = None then Some 0 else map_option Suc (free_request ps))"

text \<open>
  The loop that moves a request behind earlier ones: it takes the following slot's ticks off, then
  swaps functions and ticks with it. A cycle of slots would keep it going.
\<close>

partial_function (option) sink_timer :: "nat \<Rightarrow> timer_slot list \<Rightarrow> timer_slot list option" where
  "sink_timer p l =
     (case slot_next (l ! p) of
        None \<Rightarrow> Some l
      | Some q \<Rightarrow>
          if slot_ticks (l ! p) > slot_ticks (l ! q) then
            let a = (l ! p)\<lparr>slot_ticks := slot_ticks (l ! p) - slot_ticks (l ! q)\<rparr>;
                b = l ! q;
                l = l[p := a\<lparr>slot_fn := slot_fn b, slot_ticks := slot_ticks b\<rparr>];
                l = l[q := b\<lparr>slot_fn := slot_fn a, slot_ticks := slot_ticks a\<rparr>]
            in sink_timer q l
          else Some l)"

text \<open>No result: all slots are taken, and \<^verbatim>\<open>panic\<close> does not return.\<close>

definition add_timer :: "u32 \<Rightarrow> nat option \<Rightarrow> timers \<Rightarrow> timers option" where
  "add_timer ticks fn s =
     (case fn of
        None \<Rightarrow> Some s
      | Some f \<Rightarrow>
          if ticks = 0 then Some (s\<lparr>called := called s @ [f]\<rparr>)
          else (case free_request (timer_list s) of
                  None \<Rightarrow> None
                | Some p \<Rightarrow>
                    let l = timer_list s;
                        l = l[p := (l ! p)\<lparr>slot_fn := Some f, slot_ticks := ticks\<rparr>]
                    in (case sink_timer p l of
                          None \<Rightarrow> None
                        | Some l \<Rightarrow> Some (s\<lparr>timer_list := l, next_timer := Some p\<rparr>))))"

text \<open>The loop of \<^verbatim>\<open>do_timer\<close> over the requests that are due.\<close>

partial_function (option) run_due :: "timers \<Rightarrow> timers option" where
  "run_due s =
     (case next_timer s of
        None \<Rightarrow> Some s
      | Some p \<Rightarrow>
          if slot_ticks (timer_list s ! p) = 0 then
            let fn = slot_fn (timer_list s ! p);
                s = s\<lparr>timer_list := (timer_list s)[p := (timer_list s ! p)\<lparr>slot_fn := None\<rparr>]\<rparr>;
                s = s\<lparr>next_timer := slot_next (timer_list s ! p)\<rparr>
            in (case fn of
                  None \<Rightarrow> None
                | Some f \<Rightarrow> run_due (s\<lparr>called := called s @ [f]\<rparr>))
          else Some s)"

definition do_timer :: "timers \<Rightarrow> timers option" where
  "do_timer s =
     (let s = (if count_down s \<noteq> 0 then s\<lparr>count_down := count_down s - 1\<rparr> else s) in
      case next_timer s of
        None \<Rightarrow> Some s
      | Some p \<Rightarrow>
          run_due (s\<lparr>timer_list := (timer_list s)
            [p := (timer_list s ! p)\<lparr>slot_ticks := slot_ticks (timer_list s ! p) - 1\<rparr>]\<rparr>))"

text \<open>The handler of the timer interrupt: it counts the tick first.\<close>

definition timer_interrupt :: "timers \<Rightarrow> timers option" where
  "timer_interrupt s = do_timer (s\<lparr>timer_ticks := timer_ticks s + 1\<rparr>)"

fun ticks :: "nat \<Rightarrow> timers \<Rightarrow> timers option" where
  "ticks 0 s = Some s"
| "ticks (Suc n) s = (case timer_interrupt s of None \<Rightarrow> None | Some s \<Rightarrow> ticks n s)"

text \<open>\<^verbatim>\<open>sleep\<close> with \<open>n\<close> interrupts still to come: it waits until the ticks have reached the sum.\<close>

fun sleep_until :: "u32 \<Rightarrow> nat \<Rightarrow> timers \<Rightarrow> timers option" where
  "sleep_until t n s =
     (if timer_ticks s < t then
        (case n of
           0 \<Rightarrow> None
         | Suc n \<Rightarrow> (case timer_interrupt s of None \<Rightarrow> None | Some s \<Rightarrow> sleep_until t n s))
      else Some s)"

definition sleep :: "u32 \<Rightarrow> nat \<Rightarrow> timers \<Rightarrow> timers option" where
  "sleep sleep_value n s = sleep_until (timer_ticks s + sleep_value) n s"

section \<open>When a request is served\<close>

text \<open>No code sets the link of a slot, so all of them stay null.\<close>

definition timers_ok :: "timers \<Rightarrow> bool" where
  "timers_ok s \<longleftrightarrow> (\<forall>p < length (timer_list s). slot_next (timer_list s ! p) = None)"

lemma timers_ok_timers0 [simp]: "timers_ok timers0"
  by (simp add: timers_ok_def timers0_def)

definition armed :: "timers \<Rightarrow> nat \<Rightarrow> nat \<Rightarrow> u32 \<Rightarrow> bool" where
  "armed s p f k \<longleftrightarrow> next_timer s = Some p \<and> p < length (timer_list s) \<and>
     timer_list s ! p = \<lparr>slot_ticks = k, slot_fn = Some f, slot_next = None\<rparr>"

lemma free_request_Some: "free_request l = Some p \<Longrightarrow> p < length l \<and> slot_fn (l ! p) = None"
  by (induction l arbitrary: p) (auto split: if_splits)

lemma add_timer_arms:
  assumes "timers_ok s" and "t \<noteq> 0" and "add_timer t (Some f) s = Some s'"
  shows "\<exists>p. armed s' p f t \<and> called s' = called s"
proof -
  from assms(2,3) obtain p where p: "free_request (timer_list s) = Some p"
    by (auto simp: add_timer_def split: option.splits)
  let ?l = "(timer_list s)[p := (timer_list s ! p)\<lparr>slot_fn := Some f, slot_ticks := t\<rparr>]"
  have "p < length (timer_list s)"
    using free_request_Some [OF p] by simp
  moreover from this have n: "slot_next (timer_list s ! p) = None"
    using assms(1) by (simp add: timers_ok_def)
  moreover have "sink_timer p ?l = Some ?l"
    using calculation by (subst sink_timer.simps) simp
  ultimately have "s' = s\<lparr>timer_list := ?l, next_timer := Some p\<rparr>" "armed s' p f t"
    using assms(2,3) p by (auto simp: add_timer_def Let_def armed_def)
  then show ?thesis
    by auto
qed

lemma timer_interrupt_idle:
  assumes "next_timer s = None"
  shows "\<exists>s'. timer_interrupt s = Some s' \<and> next_timer s' = None \<and> called s' = called s"
  using assms by (simp add: timer_interrupt_def do_timer_def Let_def)

lemma ticks_idle:
  "next_timer s = None \<Longrightarrow> \<exists>s'. ticks n s = Some s' \<and> called s' = called s"
proof (induction n arbitrary: s)
  case (Suc n)
  obtain s1 where s1: "timer_interrupt s = Some s1" "next_timer s1 = None" "called s1 = called s"
    using timer_interrupt_idle [OF Suc.prems] by blast
  then show ?case
    using Suc.IH [OF s1(2)] by simp
qed simp

lemma timer_interrupt_armed:
  assumes "armed s p f k" and "k \<noteq> 0"
  shows "\<exists>s'. timer_interrupt s = Some s' \<and>
    (if k = 1 then next_timer s' = None \<and> called s' = called s @ [f]
     else armed s' p f (k - 1) \<and> called s' = called s)"
proof -
  define s0 where "s0 = (let s = s\<lparr>timer_ticks := timer_ticks s + 1\<rparr> in
    if count_down s \<noteq> 0 then s\<lparr>count_down := count_down s - 1\<rparr> else s)"
  have s0: "timer_list s0 = timer_list s" "next_timer s0 = next_timer s" "called s0 = called s"
    by (simp_all add: s0_def Let_def)
  let ?slot = "\<lparr>slot_ticks = k - 1, slot_fn = Some f, slot_next = None\<rparr>"
  let ?s = "s0\<lparr>timer_list := (timer_list s0)[p := ?slot]\<rparr>"
  have a: "next_timer s = Some p" "p < length (timer_list s)"
      "timer_list s ! p = \<lparr>slot_ticks = k, slot_fn = Some f, slot_next = None\<rparr>"
    using assms(1) by (simp_all add: armed_def)
  have run: "timer_interrupt s = run_due ?s"
    using a s0 by (simp add: timer_interrupt_def do_timer_def Let_def s0_def)
  show ?thesis
  proof (cases "k = 1")
    case True
    let ?t = "?s\<lparr>timer_list := (timer_list ?s)[p := ?slot\<lparr>slot_fn := None\<rparr>],
      next_timer := None, called := called ?s @ [f]\<rparr>"
    have "run_due ?s = run_due ?t"
      using a s0 True by (subst run_due.simps) simp
    also have "\<dots> = Some ?t"
      by (subst run_due.simps) simp
    finally show ?thesis
      using True s0 by (simp add: run)
  next
    case False
    then have "k - 1 \<noteq> 0"
      by simp
    then have "run_due ?s = Some ?s"
      using a s0 by (subst run_due.simps) simp
    with False a s0 show ?thesis
      by (simp add: run armed_def)
  qed
qed

lemma ticks_armed:
  assumes "armed s p f k" and "k \<noteq> 0"
  shows "\<exists>s'. ticks n s = Some s' \<and>
    called s' = (if n < unat k then called s else called s @ [f])"
  using assms
proof (induction n arbitrary: s k)
  case 0
  then show ?case
    by (simp add: unat_gt_0)
next
  case (Suc n)
  obtain s1 where s1: "timer_interrupt s = Some s1"
      "if k = 1 then next_timer s1 = None \<and> called s1 = called s @ [f]
       else armed s1 p f (k - 1) \<and> called s1 = called s"
    using timer_interrupt_armed [OF Suc.prems] by blast
  show ?case
  proof (cases "k = 1")
    case True
    then show ?thesis
      using s1 ticks_idle [of s1 n] by auto
  next
    case False
    then have "k - 1 \<noteq> 0"
      by simp
    moreover have "unat (k - 1) = unat k - 1"
      using Suc.prems(2) by (simp add: unat_minus_one)
    ultimately show ?thesis
      using s1 False Suc.IH [of s1 "k - 1"] by auto
  qed
qed

text \<open>
  C38: A request for \<open>t\<close> ticks is served by the interrupt that counts the \<open>t\<close>-th tick from then on,
  not before and not again; and whatever request was pending before it is never served, since
  \<^verbatim>\<open>add_timer\<close> makes the new slot the head without linking the old one behind it.
\<close>

theorem newest_timer_fires:
  assumes "timers_ok s" and "t \<noteq> 0" and "add_timer t (Some f) s = Some s'"
  shows "\<exists>s''. ticks n s' = Some s'' \<and>
    called s'' = (if n < unat t then called s else called s @ [f])"
  using add_timer_arms [OF assms] ticks_armed [OF _ assms(2)] by metis

text \<open>A request 7 for two ticks, then a request 9 for three ticks: only the second is served.\<close>

theorem newest_timer_fires_witness:
  "\<exists>s s' s''. add_timer 2 (Some 7) timers0 = Some s \<and> add_timer 3 (Some 9) s = Some s' \<and>
    ticks 5 s' = Some s'' \<and> called s'' = [9]"
proof -
  let ?z = "\<lparr>slot_ticks = 0, slot_fn = None, slot_next = None\<rparr>"
  let ?a = "\<lparr>slot_ticks = 2, slot_fn = Some 7, slot_next = None\<rparr>"
  let ?b = "\<lparr>slot_ticks = 3, slot_fn = Some 9, slot_next = None\<rparr>"
  let ?s = "timers0\<lparr>timer_list := ?a # ?z # replicate 62 ?z, next_timer := Some 0\<rparr>"
  let ?s' = "timers0\<lparr>timer_list := ?a # ?b # replicate 62 ?z, next_timer := Some 1\<rparr>"
  have l: "timer_list timers0 = ?z # ?z # replicate 62 ?z"
    using replicate_add [of 2 62 ?z] by (simp add: timers0_def TIME_REQUESTS_def numeral_2_eq_2)
  have s: "add_timer 2 (Some 7) timers0 = Some ?s" "add_timer 3 (Some 9) ?s = Some ?s'"
    by (simp_all add: add_timer_def l Let_def sink_timer.simps)
  have "timers_ok ?s"
    by (auto simp: timers_ok_def nth_Cons split: nat.split)
  from newest_timer_fires [OF this _ s(2), of 5] s show ?thesis
    by (auto simp: timers0_def)
qed

end
