(* ===== verification/Shell.thy ===== *)
theory Shell
  imports Printk
begin

text \<open>
  The shell, \<^verbatim>\<open>kernel/shell.c\<close>: reading numbers, editing a command line, splitting it into words
  and choosing the command. Here a command is a value of the type
  \<open>action\<close>; what it does is in \<open>Commands\<close>. \<^term>\<open>None\<close>: an access outside an array.
\<close>

unbundle bit_operations_syntax

section \<open>Numbers\<close>

text \<open>
  \<^verbatim>\<open>char\<close> is signed and promoted; the sums are 32-bit. Strings are what their pointers see.
\<close>

definition hex_rest :: "u8 \<Rightarrow> int" where
  "hex_rest c = (if sint c < 57 then sint c - 48 else (sint c OR 0x20) - 97)"

fun atoi_hex :: "u32 \<Rightarrow> u8 list \<Rightarrow> u32 option" where
  "atoi_hex acc [] = None"
| "atoi_hex acc (c # s) =
     (if c \<noteq> 0 then atoi_hex (acc * 16 + word_of_int (hex_rest c)) s else Some acc)"

fun atoi_dec :: "u32 \<Rightarrow> u8 list \<Rightarrow> u32 option" where
  "atoi_dec acc [] = None"
| "atoi_dec acc (c # s) =
     (if c \<noteq> 0 then atoi_dec (acc * 10 + word_of_int (sint c) - 48) s else Some acc)"

definition hex_prefix :: "u8 list \<Rightarrow> bool" where
  "hex_prefix s \<longleftrightarrow> (case s of a # b # _ \<Rightarrow> a = 48 \<and> sint b OR 0x20 = 120 | _ \<Rightarrow> False)"

definition atoi :: "u8 list \<Rightarrow> u32 option" where
  "atoi s = (if hex_prefix s then atoi_hex 0 (drop 2 s) else atoi_dec 0 s)"

fun try_hex :: "u8 list \<Rightarrow> bool option" where
  "try_hex [] = None"
| "try_hex (c # s) =
     (if c = 0 then Some True
      else if (48 \<le> sint c \<and> sint c \<le> 57) \<or> (97 \<le> (sint c OR 0x20) \<and> (sint c OR 0x20) \<le> 102)
      then try_hex s
      else Some False)"

fun all_digits :: "u8 list \<Rightarrow> bool option" where
  "all_digits [] = None"
| "all_digits (c # s) =
     (if c = 0 then Some True else if sint c > 57 \<or> sint c < 48 then Some False else all_digits s)"

definition is_digits :: "u8 list \<Rightarrow> bool option" where
  "is_digits s =
     (if hex_prefix s
      then (case try_hex (drop 2 s) of
              None \<Rightarrow> None
            | Some True \<Rightarrow> Some True
            | Some False \<Rightarrow> all_digits s)
      else all_digits s)"

section \<open>Commands\<close>

definition is_command :: "u8 list \<Rightarrow> string \<Rightarrow> bool" where
  "is_command com_buf command \<longleftrightarrow> strcmp com_buf (lit command) = Some 0"

text \<open>What \<^verbatim>\<open>run_command\<close> calls, with the arguments: \<^term>\<open>None\<close> is the null pointer.\<close>

type_synonym arg = "u8 list option"

datatype action =
    About | Cat arg | Cd arg | Clear | Cp arg arg | Date | Exec "arg list" | Halt | Hello | Help
  | Hexdump_usage | Hexdump_addr u32 u32 | Hexdump_string "u8 list" u32
  | Mkdir_usage | Mkdir arg | Rmdir arg | Rm arg | Touch arg | Ls arg | Pwd | Version | Reboot
  | Debug | Unknown

definition nth_arg :: "arg list \<Rightarrow> nat \<Rightarrow> arg" where
  "nth_arg argv i = (if i < length argv then argv ! i else None)"

definition run_hexdump :: "arg list \<Rightarrow> action option" where
  "run_hexdump argv =
     (if length argv \<noteq> 3 then Some Hexdump_usage
      else (case (nth_arg argv 1, nth_arg argv 2) of
              (Some a, Some n) \<Rightarrow>
                (case is_digits a of
                   None \<Rightarrow> None
                 | Some d \<Rightarrow>
                     (case atoi n of
                        None \<Rightarrow> None
                      | Some n \<Rightarrow>
                          if d then map_option (\<lambda>a. Hexdump_addr a n) (atoi a)
                          else Some (Hexdump_string a n)))
            | _ \<Rightarrow> None))"

text \<open>\<open>argv\<close> holds the \<^verbatim>\<open>argc\<close> arguments given; the rest of the array is null.\<close>

definition run_command :: "u8 list \<Rightarrow> arg list \<Rightarrow> action option" where
  "run_command command argv =
     (if is_command command ''about'' then Some About
      else if is_command command ''cat'' then Some (Cat (nth_arg argv 1))
      else if is_command command ''cd'' then Some (Cd (nth_arg argv 1))
      else if is_command command ''clear'' then Some Clear
      else if is_command command ''cp'' then Some (Cp (nth_arg argv 1) (nth_arg argv 2))
      else if is_command command ''date'' then Some Date
      else if is_command command ''exec'' then Some (Exec (tl argv))
      else if is_command command ''halt'' then Some Halt
      else if is_command command ''hello'' then Some Hello
      else if is_command command ''help'' then Some Help
      else if is_command command ''hexdump'' then run_hexdump argv
      else if is_command command ''mkdir'' then
        Some (if length argv \<noteq> 2 then Mkdir_usage else Mkdir (nth_arg argv 1))
      else if is_command command ''rmdir'' then Some (Rmdir (nth_arg argv 1))
      else if is_command command ''rm'' then Some (Rm (nth_arg argv 1))
      else if is_command command ''touch'' then Some (Touch (nth_arg argv 1))
      else if is_command command ''ls'' then
        Some (Ls (if length argv = 1 then Some (lit ''.'') else nth_arg argv 1))
      else if is_command command ''pwd'' then Some Pwd
      else if is_command command ''version'' then Some Version
      else if is_command command ''reboot'' then Some Reboot
      else if is_command command ''debug'' then Some Debug
      else Some Unknown)"

section \<open>Splitting the line\<close>

definition MAX_OPTION :: nat where
  "MAX_OPTION = 10"

function skip_word :: "u8 list \<Rightarrow> nat \<Rightarrow> nat option" where
  "skip_word buf p =
     (if p \<ge> length buf then None
      else if buf ! p \<noteq> 32 \<and> buf ! p \<noteq> 0 then skip_word buf (p + 1)
      else Some p)"
  by pat_completeness auto
termination
  by (relation "measure (\<lambda>(buf, p). length buf - p)") auto

function skip_spaces :: "u8 list \<Rightarrow> nat \<Rightarrow> nat option" where
  "skip_spaces buf p =
     (if p \<ge> length buf then None
      else if buf ! p \<noteq> 0 \<and> buf ! p = 32 then skip_spaces buf (p + 1)
      else Some p)"
  by pat_completeness auto
termination
  by (relation "measure (\<lambda>(buf, p). length buf - p)") auto

declare skip_word.simps [simp del] skip_spaces.simps [simp del]

text \<open>\<open>argv\<close> are the offsets in the buffer of the arguments found; their number is \<^verbatim>\<open>argc\<close>.\<close>

function parse_loop :: "u8 list \<Rightarrow> nat \<Rightarrow> nat list \<Rightarrow> (u8 list \<times> nat list) option" where
  "parse_loop buf p argv =
     (if buf ! p \<noteq> 0 \<and> length argv < MAX_OPTION then
        let buf = buf[p := 0]; p = p + 1; argv = argv @ [p] in
        (case skip_word buf p of
           None \<Rightarrow> None
         | Some p \<Rightarrow>
        (case skip_spaces buf p of
           None \<Rightarrow> None
         | Some p \<Rightarrow> if buf ! p = 0 then Some (buf, argv) else parse_loop buf (p - 1) argv))
      else Some (buf, argv))"
  by pat_completeness auto
termination
  by (relation "measure (\<lambda>(buf, p, argv). MAX_OPTION - length argv)") auto

declare parse_loop.simps [simp del]

definition parse_args :: "u8 list \<Rightarrow> (u8 list \<times> nat list) option" where
  "parse_args buf = (case skip_word buf 0 of None \<Rightarrow> None | Some p \<Rightarrow> parse_loop buf p [0])"

text \<open>The buffer afterwards, and what is run.\<close>

definition parse_command :: "u8 list \<Rightarrow> (u8 list \<times> action) option" where
  "parse_command buf =
     (case parse_args buf of
        None \<Rightarrow> None
      | Some (buf, argv) \<Rightarrow>
          map_option (Pair buf) (run_command buf (map (\<lambda>p. Some (drop p buf)) argv)))"

section \<open>Editing the line\<close>

definition BUFFER_SIZE :: nat where
  "BUFFER_SIZE = 512"

record shell =
  index :: nat
  command_buffer :: "u8 list"
  scon :: con
  ran_cmds :: "action list"

text \<open>\<^verbatim>\<open>puts\<close> of a literal: see the lemma \<open>puts_writes\<close>.\<close>

definition say :: "string \<Rightarrow> shell \<Rightarrow> shell" where
  "say t s = s\<lparr>scon := con_write (map of_char t) (scon s)\<rparr>"

definition shell_putchar :: "u8 \<Rightarrow> shell \<Rightarrow> shell" where
  "shell_putchar key s = s\<lparr>scon := fst (putchar (ucast key) (scon s))\<rparr>"

definition reset_line :: "shell \<Rightarrow> shell" where
  "reset_line s =
     say ''thunix $ ''
       (s\<lparr>command_buffer := replicate (index s) 0 @ drop (index s) (command_buffer s), index := 0\<rparr>)"

text \<open>\<^verbatim>\<open>enter_command\<close> with the key that \<^verbatim>\<open>get_key\<close> returned.\<close>

definition enter_command :: "u8 \<Rightarrow> shell \<Rightarrow> shell option" where
  "enter_command key s =
     (if key = 10 then
        (if index s \<ge> length (command_buffer s) then None
         else
           let s = s\<lparr>command_buffer := (command_buffer s)[index s := 0]\<rparr>;
               s = shell_putchar key s in
           if index s = 0 then Some (reset_line s)
           else (case parse_command (command_buffer s) of
                   None \<Rightarrow> None
                 | Some (buf, a) \<Rightarrow>
                     Some (reset_line (s\<lparr>command_buffer := buf, ran_cmds := ran_cmds s @ [a]\<rparr>))))
      else if key = 8 then
        Some (if index s \<noteq> 0 then shell_putchar key (s\<lparr>index := index s - 1\<rparr>) else s)
      else if key = 3 then Some (reset_line (say (''^C'' @ [CHR 0x0A]) s))
      else if index s \<ge> length (command_buffer s) then None
      else Some (shell_putchar key
        (s\<lparr>command_buffer := (command_buffer s)[index s := key], index := index s + 1\<rparr>)))"

fun enter_keys :: "u8 list \<Rightarrow> shell \<Rightarrow> shell option" where
  "enter_keys [] s = Some s"
| "enter_keys (k # ks) s = (case enter_command k s of None \<Rightarrow> None | Some s \<Rightarrow> enter_keys ks s)"

definition shell_init :: "con \<Rightarrow> shell" where
  "shell_init c =
     say ''thunix $ ''
       \<lparr>index = 0, command_buffer = replicate BUFFER_SIZE 0, scon = c, ran_cmds = []\<rparr>"

section \<open>Words of a line\<close>

text \<open>
  A line of words, before and after the splitting: \<open>line 32\<close> has a space after each word but the last,
  \<open>line 0\<close> a terminator. \<open>offsets\<close> are where the words begin.
\<close>

fun line :: "u8 \<Rightarrow> u8 list list \<Rightarrow> u8 list \<Rightarrow> u8 list" where
  "line sep [] rest = 0 # rest"
| "line sep [w] rest = w @ 0 # rest"
| "line sep (w # v # ws) rest = w @ sep # line sep (v # ws) rest"

fun offsets :: "nat \<Rightarrow> u8 list list \<Rightarrow> nat list" where
  "offsets p [] = []"
| "offsets p (w # ws) = p # offsets (p + length w + 1) ws"

definition is_word :: "u8 list \<Rightarrow> bool" where
  "is_word w \<longleftrightarrow> w \<noteq> [] \<and> 0 \<notin> set w \<and> 32 \<notin> set w"

lemma skip_word_stops:
  "0 \<notin> set w \<Longrightarrow> 32 \<notin> set w \<Longrightarrow> c = 0 \<or> c = 32 \<Longrightarrow>
   skip_word (pre @ w @ c # rest) (length pre) = Some (length pre + length w)"
proof (induction w arbitrary: pre)
  case Nil
  then show ?case
    by (subst skip_word.simps) auto
next
  case (Cons x w)
  then have "skip_word ((pre @ [x]) @ w @ c # rest) (length (pre @ [x])) =
      Some (length (pre @ [x]) + length w)"
    by (intro Cons.IH) auto
  with Cons.prems show ?case
    by (subst skip_word.simps) (auto simp: nth_append)
qed

lemma skip_spaces_none: "p < length buf \<Longrightarrow> buf ! p \<noteq> 32 \<Longrightarrow> skip_spaces buf p = Some p"
  by (subst skip_spaces.simps) simp

lemma skip_spaces_one:
  "p + 1 < length buf \<Longrightarrow> buf ! p = 32 \<Longrightarrow> buf ! (p + 1) \<noteq> 32 \<Longrightarrow> skip_spaces buf p = Some (p + 1)"
  by (subst skip_spaces.simps) (simp add: skip_spaces_none)

lemma line_first: "is_word w \<Longrightarrow> \<exists>c t. line sep (w # ws) rest = c # t \<and> c \<noteq> 32 \<and> c \<noteq> 0"
  by (cases w; cases ws) (auto simp: is_word_def)

lemma parse_loop_words:
  assumes "ws \<noteq> []" and "\<forall>w \<in> set ws. is_word w" and "length argv + length ws \<le> MAX_OPTION"
  shows "parse_loop (pre @ 32 # line 32 ws rest) (length pre) argv =
    Some (pre @ 0 # line 0 ws rest, argv @ offsets (length pre + 1) ws)"
  using assms
proof (induction ws arbitrary: pre argv rule: induct_list012)
  case (2 w)
  have w: "0 \<notin> set w" "32 \<notin> set w"
    using 2 by (auto simp: is_word_def)
  let ?buf = "pre @ 0 # w @ 0 # rest"
  have "skip_word ?buf (length pre + 1) = Some (length pre + 1 + length w)"
    using skip_word_stops [OF w, of 0 "pre @ [0]" rest] by simp
  moreover have "?buf ! (length pre + 1 + length w) = 0"
    using nth_append_length [of "pre @ 0 # w" 0 rest] by simp
  moreover from this have "skip_spaces ?buf (length pre + 1 + length w) = Some (length pre + 1 + length w)"
    by (intro skip_spaces_none) simp_all
  ultimately show ?case
    using 2 by (subst parse_loop.simps) (simp add: Let_def)
next
  case (3 w v ws)
  have w: "0 \<notin> set w" "32 \<notin> set w"
    using 3 by (auto simp: is_word_def)
  obtain c t where ct: "line 32 (v # ws) rest = c # t" "c \<noteq> 32" "c \<noteq> 0"
    using line_first [of v 32 ws rest] 3 by auto
  let ?buf = "pre @ 0 # w @ 32 # c # t"
  let ?p = "length pre + 1 + length w"
  have "skip_word ?buf (length pre + 1) = Some ?p"
    using skip_word_stops [OF w, of 32 "pre @ [0]" "c # t"] by simp
  moreover have n: "?buf ! ?p = 32" "?buf ! (?p + 1) = c"
    using nth_append_length [of "pre @ 0 # w" 32 "c # t"]
      nth_append_length [of "pre @ 0 # w @ [32]" c t] by simp_all
  moreover have "skip_spaces ?buf ?p = Some (?p + 1)"
    using n ct(2) by (intro skip_spaces_one) simp_all
  moreover have "parse_loop ((pre @ 0 # w) @ 32 # line 32 (v # ws) rest) (length (pre @ 0 # w))
      (argv @ [length pre + 1]) =
      Some ((pre @ 0 # w) @ 0 # line 0 (v # ws) rest,
        (argv @ [length pre + 1]) @ offsets (length (pre @ 0 # w) + 1) (v # ws))"
    using 3 by (intro "3.IH") auto
  ultimately show ?case
    using 3 ct by (subst parse_loop.simps) (simp add: Let_def)
qed simp

lemma parse_args_words:
  assumes "ws \<noteq> []" and "\<forall>w \<in> set ws. is_word w" and "length ws \<le> MAX_OPTION"
  shows "parse_args (line 32 ws rest) = Some (line 0 ws rest, offsets 0 ws)"
proof (cases ws rule: remdups_adj.cases)
  case (2 w)
  have w: "0 \<notin> set w" "32 \<notin> set w"
    using assms 2 by (auto simp: is_word_def)
  have "skip_word (w @ 0 # rest) 0 = Some (length w)"
    using skip_word_stops [OF w, of 0 "[]" rest] by simp
  then show ?thesis
    using 2 by (simp add: parse_args_def) (subst parse_loop.simps, simp)
next
  case (3 w v vs)
  have w: "0 \<notin> set w" "32 \<notin> set w"
    using assms 3 by (auto simp: is_word_def)
  have "skip_word (w @ 32 # line 32 (v # vs) rest) 0 = Some (length w)"
    using skip_word_stops [OF w, of 32 "[]" "line 32 (v # vs) rest"] by simp
  moreover have "parse_loop (w @ 32 # line 32 (v # vs) rest) (length w) [0] =
      Some (w @ 0 # line 0 (v # vs) rest, [0] @ offsets (length w + 1) (v # vs))"
    using assms 3 by (intro parse_loop_words) auto
  ultimately show ?thesis
    using 3 by (simp add: parse_args_def)
qed (use assms in simp)

lemma offsets_words:
  assumes "i < length ws" and "\<forall>w \<in> set ws. 0 \<notin> set w"
  shows "is_str (drop (offsets (length pre) ws ! i) (pre @ line 0 ws rest)) (ws ! i)"
  using assms
proof (induction ws arbitrary: pre i rule: induct_list012)
  case (2 w)
  then show ?case
    by (simp add: is_str_def)
next
  case (3 w v ws)
  show ?case
  proof (cases i)
    case 0
    then show ?thesis
      using 3 by (simp add: is_str_def)
  next
    case (Suc j)
    have "is_str (drop (offsets (length (pre @ w @ [0])) (v # ws) ! j)
        ((pre @ w @ [0]) @ line 0 (v # ws) rest)) ((v # ws) ! j)"
      using 3 Suc by (intro "3.IH") auto
    then show ?thesis
      using Suc by simp
  qed
qed simp

lemma length_offsets [simp]: "length (offsets p ws) = length ws"
  by (induction ws arbitrary: p) simp_all

text \<open>
  C39: A line of at most ten words with single spaces between them is split into exactly these
  words: the arguments, in their order, are the strings that stand at the offsets found in the
  buffer after the splitting.
\<close>

theorem parse_splits_words:
  assumes "ws \<noteq> []" and "\<forall>w \<in> set ws. is_word w" and "length ws \<le> MAX_OPTION"
  shows "\<exists>buf argv. parse_args (line 32 ws rest) = Some (buf, argv) \<and> length argv = length ws \<and>
    length buf = length (line 32 ws rest) \<and>
    (\<forall>i < length ws. is_str (drop (argv ! i) buf) (ws ! i))"
proof -
  have "\<forall>w \<in> set ws. 0 \<notin> set w"
    using assms(2) by (auto simp: is_word_def)
  then have "\<forall>i < length ws. is_str (drop (offsets 0 ws ! i) (line 0 ws rest)) (ws ! i)"
    using offsets_words [of _ ws "[]" rest] by simp
  moreover have "length (line 0 ws rest) = length (line 32 ws rest)"
    by (induction ws rule: induct_list012) simp_all
  ultimately show ?thesis
    using parse_args_words [OF assms] by simp
qed

text \<open>\<open>cp a b\<close>\<close>

theorem parse_splits_words_witness:
  "\<exists>buf argv. parse_args [99, 112, 32, 97, 32, 98, 0] = Some (buf, argv) \<and> length argv = 3 \<and>
    is_str (drop (argv ! 2) buf) [98]"
proof -
  have "\<exists>buf argv. parse_args (line 32 [[99, 112], [97], [98]] []) = Some (buf, argv) \<and>
      length argv = length [[99, 112], [97], [98 :: u8]] \<and>
      length buf = length (line 32 [[99, 112], [97], [98]] []) \<and>
      (\<forall>i < length [[99, 112], [97], [98 :: u8]].
        is_str (drop (argv ! i) buf) ([[99, 112], [97], [98]] ! i))"
    by (rule parse_splits_words) (simp_all add: is_word_def MAX_OPTION_def)
  then show ?thesis
    by (force simp: numeral_3_eq_3 numeral_2_eq_2)
qed

section \<open>The line as a list\<close>

definition shell_ok :: "shell \<Rightarrow> bool" where
  "shell_ok s \<longleftrightarrow> length (command_buffer s) = BUFFER_SIZE \<and> index s \<le> BUFFER_SIZE"

definition cmdline :: "shell \<Rightarrow> u8 list" where
  "cmdline s = take (index s) (command_buffer s)"

text \<open>What the keys other than enter and control-C do to the line: backspace takes the last byte.\<close>

fun edit1 :: "u8 list \<Rightarrow> u8 \<Rightarrow> u8 list" where
  "edit1 l k = (if k = 8 then butlast l else l @ [k])"

definition edit :: "u8 list \<Rightarrow> u8 list \<Rightarrow> u8 list" where
  "edit l ks = foldl edit1 l ks"

text \<open>Whether the line never outgrows the buffer.\<close>

fun line_fits :: "u8 list \<Rightarrow> u8 list \<Rightarrow> bool" where
  "line_fits l [] \<longleftrightarrow> True"
| "line_fits l (k # ks) \<longleftrightarrow> (k = 8 \<or> length l < BUFFER_SIZE) \<and> line_fits (edit1 l k) ks"

lemma shell_putchar_simps [simp]:
  "index (shell_putchar k s) = index s" "command_buffer (shell_putchar k s) = command_buffer s"
  "ran_cmds (shell_putchar k s) = ran_cmds s"
  by (simp_all add: shell_putchar_def)

lemma length_cmdline [simp]: "shell_ok s \<Longrightarrow> length (cmdline s) = index s"
  by (simp add: shell_ok_def cmdline_def)

lemma enter_key:
  assumes "shell_ok s" and "k \<noteq> 10" and "k \<noteq> 3"
  shows "if k = 8 \<or> length (cmdline s) < BUFFER_SIZE
    then \<exists>s'. enter_command k s = Some s' \<and> shell_ok s' \<and> cmdline s' = edit1 (cmdline s) k \<and> ran_cmds s' = ran_cmds s
    else enter_command k s = None"
proof -
  have ok: "length (command_buffer s) = BUFFER_SIZE" "index s \<le> BUFFER_SIZE"
    using assms(1) by (simp_all add: shell_ok_def)
  consider "k = 8" "index s = 0" | "k = 8" "index s \<noteq> 0" | "k \<noteq> 8" "index s < BUFFER_SIZE"
    | "k \<noteq> 8" "index s = BUFFER_SIZE"
    using ok by linarith
  then show ?thesis
  proof cases
    case 2
    then have "butlast (take (index s) (command_buffer s)) = take (index s - 1) (command_buffer s)"
      using ok by (simp add: butlast_take)
    with 2 ok show ?thesis
      by (simp add: enter_command_def shell_ok_def cmdline_def)
  next
    case 3
    then have "take (Suc (index s)) ((command_buffer s)[index s := k]) =
        take (index s) (command_buffer s) @ [k]"
      using ok by (simp add: take_Suc_conv_app_nth)
    with 3 ok assms show ?thesis
      by (simp add: enter_command_def shell_ok_def cmdline_def)
  qed (use assms ok in \<open>simp_all add: enter_command_def cmdline_def\<close>)
qed

text \<open>
  C40: Typing refines the editing of a list: as long as the line fits the 512 bytes of the command
  buffer, the keys leave in it the line that appending and taking back bytes gives, and no command
  is run; the key that makes the line longer is stored behind the buffer.
\<close>

theorem shell_edits_line:
  assumes "shell_ok s" and "10 \<notin> set keys" and "3 \<notin> set keys"
  shows "if line_fits (cmdline s) keys
    then \<exists>s'. enter_keys keys s = Some s' \<and> shell_ok s' \<and> cmdline s' = edit (cmdline s) keys \<and>
      ran_cmds s' = ran_cmds s
    else enter_keys keys s = None"
  using assms
proof (induction keys arbitrary: s)
  case Nil
  then show ?case
    by (simp add: edit_def)
next
  case (Cons k keys)
  have k: "k \<noteq> 10" "k \<noteq> 3"
    using Cons.prems by auto
  note step = enter_key [OF Cons.prems(1) k]
  show ?case
  proof (cases "k = 8 \<or> length (cmdline s) < BUFFER_SIZE")
    case True
    with step obtain s1 where s1: "enter_command k s = Some s1" "shell_ok s1"
        "cmdline s1 = edit1 (cmdline s) k" "ran_cmds s1 = ran_cmds s"
      by (simp only: if_True) blast
    have "if line_fits (edit1 (cmdline s) k) keys
      then \<exists>s'. enter_keys keys s1 = Some s' \<and> shell_ok s' \<and>
        cmdline s' = edit (edit1 (cmdline s) k) keys \<and> ran_cmds s' = ran_cmds s
      else enter_keys keys s1 = None"
      using Cons.IH [OF s1(2)] Cons.prems(2,3) unfolding s1(3,4) by simp
    with True s1(1) show ?thesis
      by (simp add: edit_def del: edit1.simps split: if_split_asm)
  next
    case False
    with step show ?thesis
      by simp
  qed
qed

text \<open>\<open>l\<close>, \<open>d\<close>, backspace, \<open>s\<close> after the start.\<close>

theorem shell_edits_line_witness:
  "\<exists>s'. enter_keys [108, 100, 8, 115] (shell_init con0) = Some s' \<and> cmdline s' = [108, 115]"
proof -
  have ok: "shell_ok (shell_init con0)" and l: "cmdline (shell_init con0) = []"
    by (simp_all add: shell_ok_def shell_init_def say_def cmdline_def BUFFER_SIZE_def)
  have "line_fits [] [108, 100, 8, 115]"
    by (simp add: BUFFER_SIZE_def)
  with shell_edits_line [OF ok, of "[108, 100, 8, 115]"] show ?thesis
    by (auto simp: l edit_def)
qed

section \<open>The shell and its console\<close>

text \<open>
  Typing keys other than down, left and right keeps the console good: the shell reaches it
  through \<open>con_write\<close> only, with the keys and its own texts.
\<close>

definition same_device :: "shell \<Rightarrow> shell \<Rightarrow> bool" where
  "same_device s t \<longleftrightarrow> con_ok (scon t) \<and> only_video (vmem (scon s)) (vmem (scon t))"

lemma say_device:
  "con_ok (scon s) \<Longrightarrow> \<forall>c \<in> set (map of_char t). harmless c \<Longrightarrow> same_device s (say t s)"
  using con_dev.put_law [of "scon s" "map of_char t"] by (simp add: same_device_def say_def)

lemma byte_of_int: "ucast (ucast (k :: u8) :: u32) = k"
  by (rule bit_word_eqI) (simp add: bit_simps)

lemma shell_putchar_device:
  "con_ok (scon s) \<Longrightarrow> harmless k \<Longrightarrow> same_device s (shell_putchar k s)"
  using con_dev.put_law [of "scon s" "[k]"]
  by (simp add: same_device_def shell_putchar_def putchar_def byte_of_int)

lemma reset_line_device: "con_ok (scon s) \<Longrightarrow> same_device s (reset_line s)"
  using say_device [of "s\<lparr>command_buffer := replicate (index s) 0 @ drop (index s) (command_buffer s),
    index := 0\<rparr>" "''thunix $ ''"]
  by (simp add: reset_line_def same_device_def harmless_def)

lemma same_device_trans: "same_device s t \<Longrightarrow> same_device t u \<Longrightarrow> same_device s u"
  by (auto simp: same_device_def intro: only_video_trans)

lemma enter_command_device:
  assumes "enter_command k s = Some s'" and ok: "con_ok (scon s)" and k: "harmless k"
  shows "same_device s s'"
proof -
  have put: "same_device s (shell_putchar j t)" if "scon t = scon s" "k = j" for t j
    using shell_putchar_device [of t k] ok k that by (simp add: same_device_def)
  have refl: "con_ok (scon t) \<Longrightarrow> same_device t t" for t
    by (simp add: same_device_def)
  have reset: "same_device s (reset_line t)" if "same_device s t" for t
    using that reset_line_device [of t] by (auto simp: same_device_def intro: only_video_trans)
  have caret: "same_device s (say (''^C'' @ [CHR 0x0A]) s)"
    using ok by (intro say_device) (simp_all add: harmless_def)
  have upd: "same_device s (t\<lparr>command_buffer := b, ran_cmds := r\<rparr>)" if "same_device s t" for t b r
    using that by (simp add: same_device_def)
  show ?thesis
    using assms(1) ok
    by (auto simp: enter_command_def Let_def split: if_splits option.splits
        intro!: reset caret [simplified] upd put intro: refl)
qed

lemma shell_keeps_console:
  "enter_keys ks s = Some s' \<Longrightarrow> con_ok (scon s) \<Longrightarrow> \<forall>k \<in> set ks. harmless k \<Longrightarrow> same_device s s'"
proof (induction ks arbitrary: s)
  case Nil
  then show ?case
    by (simp add: same_device_def)
next
  case (Cons k ks)
  then obtain s1 where s1: "enter_command k s = Some s1" "enter_keys ks s1 = Some s'"
    by (auto split: option.splits)
  have one: "same_device s s1"
    using enter_command_device [OF s1(1)] Cons.prems by simp
  then show ?case
    using Cons.IH [OF s1(2)] Cons.prems(3) by (auto simp: same_device_def intro: only_video_trans)
qed

section \<open>Faults of the number reader\<close>

text \<open>
  The digit 9 is not below \<open>'9'\<close>, and a letter counts from 0: \<open>0x9\<close> reads as \<open>-40\<close>, \<open>0xa\<close> as 0.
\<close>

lemma atoi_hex_digit_9: "atoi (lit ''0x9'') = Some (- 40)"
  by code_simp

lemma atoi_hex_letter: "atoi (lit ''0xa'') = Some 0"
  by code_simp

end
