(* ===== verification/Malloc.thy ===== *)
theory Malloc
  imports Prelude
begin

text \<open>
  The kernel allocator \<^verbatim>\<open>mm/malloc.c\<close>: a boundary list of blocks, each headed by a
  \<^verbatim>\<open>struct mem_struct\<close>, that tiles the megabyte from \<^verbatim>\<open>0x800000\<close>. Addresses and sizes
  are integers (\<open>tiled\<close> bounds them by the arena, so the C arithmetic on them does not wrap;
  only the rounding of the request is done at 32 bits). The headers are a function of the address;
  \<^verbatim>\<open>NULL\<close> is \<open>0\<close>, and a step that reads a header through it has no result (\<^term>\<open>None\<close>).
\<close>

section \<open>State\<close>

record mem_struct =
  ms_prev :: int
  ms_size :: int
  ms_free :: int

record heap =
  hdr :: "int \<Rightarrow> mem_struct"
  next_start :: int

definition MEM_SIZE :: int where "MEM_SIZE = 0x100000"
definition memory :: int where "memory = 0x800000"
definition mem_end :: int where "mem_end = memory + MEM_SIZE"
definition hdr_size :: int where "hdr_size = 12"

lemmas arena_defs = MEM_SIZE_def memory_def mem_end_def hdr_size_def

definition set_size :: "int \<Rightarrow> int \<Rightarrow> heap \<Rightarrow> heap" where
  "set_size a n h = h\<lparr>hdr := (hdr h)(a := (hdr h a)\<lparr>ms_size := n\<rparr>)\<rparr>"

definition set_free :: "int \<Rightarrow> int \<Rightarrow> heap \<Rightarrow> heap" where
  "set_free a n h = h\<lparr>hdr := (hdr h)(a := (hdr h a)\<lparr>ms_free := n\<rparr>)\<rparr>"

definition set_prev :: "int \<Rightarrow> int \<Rightarrow> heap \<Rightarrow> heap" where
  "set_prev a p h = h\<lparr>hdr := (hdr h)(a := (hdr h a)\<lparr>ms_prev := p\<rparr>)\<rparr>"

lemmas set_defs = set_size_def set_free_def set_prev_def

section \<open>Operations\<close>

text \<open>\<^verbatim>\<open>if (next) next->prev = prev;\<close>, the step that ends every merge and split.\<close>

definition link_prev :: "int \<Rightarrow> int \<Rightarrow> heap \<Rightarrow> heap" where
  "link_prev next prev h = (if next \<noteq> 0 then set_prev next prev h else h)"

definition get_next :: "heap \<Rightarrow> int \<Rightarrow> int" where
  "get_next h mm =
     (let next = mm + ms_size (hdr h mm) in if next \<ge> mem_end then 0 else next)"

definition merge_front :: "heap \<Rightarrow> int \<Rightarrow> int \<Rightarrow> heap \<times> int" where
  "merge_front h mm prev =
     (let next = get_next h mm;
          h = set_size prev (ms_size (hdr h prev) + ms_size (hdr h mm)) h;
          h = link_prev next prev h
      in (h, prev))"

definition merge_back :: "heap \<Rightarrow> int \<Rightarrow> int \<Rightarrow> heap \<times> int" where
  "merge_back h mm next =
     (let h = set_free mm 1 h;
          h = set_size mm (ms_size (hdr h mm) + ms_size (hdr h next)) h;
          next = get_next h next;
          h = link_prev next mm h
      in (h, mm))"

definition merge_both :: "heap \<Rightarrow> int \<Rightarrow> int \<Rightarrow> int \<Rightarrow> heap \<times> int" where
  "merge_both h mm prev next =
     (let h = set_size prev (ms_size (hdr h prev) + (ms_size (hdr h mm) + ms_size (hdr h next))) h;
          next = get_next h next;
          h = link_prev next prev h
      in (h, prev))"

definition try_merge_front :: "heap \<Rightarrow> int \<Rightarrow> heap \<times> int" where
  "try_merge_front h mm =
     (let h = set_free mm 1 h in
      if ms_free (hdr h (ms_prev (hdr h mm))) \<noteq> 0 then merge_front h mm (ms_prev (hdr h mm))
      else (h, mm))"

text \<open>\<^verbatim>\<open>next->free\<close> is read without a check that there is a next block.\<close>

definition try_merge_back :: "heap \<Rightarrow> int \<Rightarrow> (heap \<times> int) option" where
  "try_merge_back h mm =
     (let next = get_next h mm; h = set_free mm 1 h in
      if next = 0 then None
      else if ms_free (hdr h next) \<noteq> 0 then Some (fst (merge_back h mm next), mm)
      else Some (h, mm))"

definition size_needed :: "int \<Rightarrow> int" where
  "size_needed req = sint ((word_of_int req + 12 + 3) AND NOT 3 :: u32)"

text \<open>The search loop. It follows sizes read from memory, so it is not known to end.\<close>

partial_function (option) find_fit :: "heap \<Rightarrow> int \<Rightarrow> int \<Rightarrow> int option" where
  "find_fit h need next =
     (if next = 0 then Some 0
      else if ms_free (hdr h next) \<noteq> 0 \<and> ms_size (hdr h next) \<ge> need then Some next
      else find_fit h need (get_next h next))"

definition split_block :: "heap \<Rightarrow> int \<Rightarrow> int \<Rightarrow> heap" where
  "split_block h good need =
     (let total = ms_size (hdr h good);
          h = set_free good 0 h;
          h = set_size good need h;
          next = get_next h good
      in if next \<noteq> 0
         then let h = set_size next (total - need) h in
              if ms_size (hdr h next) \<le> hdr_size
              then let h = set_size good total h in h\<lparr>next_start := get_next h good\<rparr>
              else let h = set_prev next good h;
                       h = set_free next 1 h;
                       h = h\<lparr>next_start := next\<rparr>;
                       prev = next;
                       next = get_next h next
                   in link_prev next prev h
         else h\<lparr>next_start := memory\<rparr>)"

definition malloc :: "heap \<Rightarrow> int \<Rightarrow> (int \<times> heap) option" where
  "malloc h req =
     (let need = size_needed req in
      case find_fit h need (next_start h) of
        None \<Rightarrow> None
      | Some found \<Rightarrow>
          let good = (if found \<noteq> 0 then found else next_start h) in
          if good = 0 then None
          else if ms_size (hdr h good) < need then Some (0, h)
          else if ms_size (hdr h good) = need
          then let h = set_free good 0 h in
               Some (good + hdr_size, h\<lparr>next_start := get_next h good\<rparr>)
          else Some (good + hdr_size, split_block h good need))"

definition kfree :: "heap \<Rightarrow> int \<Rightarrow> heap option" where
  "kfree h ptr =
     (let mm = ptr - hdr_size;
          prev = ms_prev (hdr h mm);
          next = get_next h mm;
          is_free = (\<lambda>a. ms_free (hdr h a) \<noteq> 0);
          finish = (\<lambda>(h, mm). Some (if mm < next_start h then h\<lparr>next_start := mm\<rparr> else h))
      in if ms_free (hdr h mm) = 1 then Some h
         else if prev = 0 then Option.bind (try_merge_back h mm) finish
         else if next = 0 then finish (try_merge_front h mm)
         else if is_free prev \<and> \<not> is_free next then finish (fst (merge_front h mm prev), mm)
         else if \<not> is_free prev \<and> is_free next then finish (fst (merge_back h mm next), mm)
         else if is_free prev \<and> is_free next then finish (fst (merge_both h mm prev next), mm)
         else finish (set_free mm 1 h, mm))"

definition malloc_init :: "heap \<Rightarrow> heap" where
  "malloc_init h =
     h\<lparr>hdr := (hdr h)(memory := \<lparr>ms_prev = 0, ms_size = MEM_SIZE, ms_free = 1\<rparr>),
       next_start := memory\<rparr>"

section \<open>The block list\<close>

text \<open>
  \<open>seg h p a xs q b\<close>: the headers at the addresses \<open>xs\<close> tile the memory from \<open>a\<close> to
  \<open>b\<close>, the first one pointing back to \<open>p\<close>; \<open>q\<close> is the last address before \<open>b\<close>.
\<close>

fun seg :: "heap \<Rightarrow> int \<Rightarrow> int \<Rightarrow> int list \<Rightarrow> int \<Rightarrow> int \<Rightarrow> bool" where
  "seg h p a [] q b \<longleftrightarrow> a = b \<and> p = q"
| "seg h p a (x # xs) q b \<longleftrightarrow>
     x = a \<and> ms_prev (hdr h a) = p \<and> hdr_size \<le> ms_size (hdr h a) \<and> 4 dvd ms_size (hdr h a) \<and>
     seg h a (a + ms_size (hdr h a)) xs q b"

definition tiled :: "heap \<Rightarrow> int list \<Rightarrow> bool" where
  "tiled h xs \<longleftrightarrow> xs \<noteq> [] \<and> (\<exists>q. seg h 0 memory xs q mem_end)"

definition is_free :: "heap \<Rightarrow> int \<Rightarrow> bool" where
  "is_free h a \<longleftrightarrow> ms_free (hdr h a) \<noteq> 0"

lemma seg_append:
  "seg h p a (xs @ ys) q b \<longleftrightarrow> (\<exists>q' b'. seg h p a xs q' b' \<and> seg h q' b' ys q b)"
  by (induction xs arbitrary: p a) auto

lemma seg_bounds: "seg h p a xs q b \<Longrightarrow> a \<le> b \<and> (\<forall>x \<in> set xs. a \<le> x \<and> x + ms_size (hdr h x) \<le> b)"
proof (induction xs arbitrary: p a)
  case Nil
  then show ?case by simp
next
  case (Cons x xs)
  from Cons.prems have s: "seg h a (a + ms_size (hdr h a)) xs q b" and "hdr_size \<le> ms_size (hdr h a)"
    and x: "x = a" by auto
  with Cons.IH [OF s] show ?case by (auto simp: hdr_size_def)
qed

lemma seg_sizes: "seg h p a xs q b \<Longrightarrow> x \<in> set xs \<Longrightarrow> hdr_size \<le> ms_size (hdr h x) \<and> 4 dvd ms_size (hdr h x)"
  by (induction xs arbitrary: p a) auto

lemma seg_cong:
  "(\<And>x. x \<in> set xs \<Longrightarrow> ms_prev (hdr h x) = ms_prev (hdr h' x) \<and> ms_size (hdr h x) = ms_size (hdr h' x))
   \<Longrightarrow> seg h p a xs q b = seg h' p a xs q b"
proof (induction xs arbitrary: p a)
  case Nil
  then show ?case by simp
next
  case (Cons x xs)
  have "seg h p' a' xs q b = seg h' p' a' xs q b" for p' a'
    using Cons by simp
  moreover have "ms_prev (hdr h x) = ms_prev (hdr h' x)" "ms_size (hdr h x) = ms_size (hdr h' x)"
    using Cons.prems by simp_all
  ultimately show ?case by auto
qed

lemma seg_distinct: "seg h p a xs q b \<Longrightarrow> distinct xs"
proof (induction xs arbitrary: p a)
  case Nil
  then show ?case by simp
next
  case (Cons x xs)
  then have s: "seg h a (a + ms_size (hdr h a)) xs q b" and x: "x = a" "hdr_size \<le> ms_size (hdr h a)"
    by auto
  from seg_bounds [OF s] x have "x \<notin> set xs" by (auto simp: hdr_size_def)
  with Cons.IH [OF s] show ?case by simp
qed

text \<open>Distinct blocks do not overlap.\<close>

lemma seg_disjoint:
  assumes "seg h p a xs q b" and "x \<in> set xs" and "y \<in> set xs" and "x < y"
  shows "x + ms_size (hdr h x) \<le> y"
  using assms
proof (induction xs arbitrary: p a)
  case Nil
  then show ?case by simp
next
  case (Cons z xs)
  then have s: "seg h a (a + ms_size (hdr h a)) xs q b" and z: "z = a" "hdr_size \<le> ms_size (hdr h a)"
    by auto
  from seg_bounds [OF s] Cons show ?case using s z
    by (auto simp: hdr_size_def)
qed

lemma seg_hd: "seg h p a (x # xs) q b \<Longrightarrow> x = a"
  by simp

definition hd0 :: "int list \<Rightarrow> int" where
  "hd0 xs = (case xs of [] \<Rightarrow> 0 | x # _ \<Rightarrow> x)"

lemma hd0_simps [simp]: "hd0 [] = 0" "hd0 (x # xs) = x"
  by (simp_all add: hd0_def)

lemma get_next_seg:
  assumes "seg h p a (x # xs) q mem_end"
  shows "get_next h x = hd0 xs"
proof (cases xs)
  case Nil
  with assms show ?thesis by (auto simp: get_next_def)
next
  case (Cons y ys)
  from assms Cons have s: "seg h a (a + ms_size (hdr h a)) (y # ys) q mem_end" and "x = a" by auto
  moreover from seg_bounds [OF s] seg_sizes [OF s, of y] have "y < mem_end"
    by (auto simp: hdr_size_def)
  ultimately show ?thesis by (simp add: get_next_def Cons)
qed

lemma find_fit_seg:
  assumes "seg h p a xs q mem_end" and "0 < a"
  shows "find_fit h need (hd0 xs) =
    Some (case List.find (\<lambda>x. is_free h x \<and> need \<le> ms_size (hdr h x)) xs of
            None \<Rightarrow> 0 | Some g \<Rightarrow> g)"
  using assms
proof (induction xs arbitrary: p a)
  case Nil
  then show ?case by (simp add: find_fit.simps)
next
  case (Cons x xs)
  then have s: "seg h a (a + ms_size (hdr h a)) xs q mem_end" and x: "x = a" and pos: "0 < a + ms_size (hdr h a)"
    by (auto simp: hdr_size_def)
  have n: "get_next h x = hd0 xs" using Cons.prems(1) by (rule get_next_seg)
  have "find_fit h need x = (if is_free h x \<and> need \<le> ms_size (hdr h x) then Some x else find_fit h need (hd0 xs))"
    using Cons.prems(2) x by (subst find_fit.simps) (use n x in \<open>simp add: is_free_def\<close>)
  with Cons.IH [OF s pos] show ?case by simp
qed

section \<open>Rounding of the request\<close>

lemma and_not3_u32: "(w :: u32) AND NOT 3 = push_bit 2 (drop_bit 2 w)"
proof -
  have "(3 :: u32) = mask 2" by (simp add: mask_eq_exp_minus_1)
  then have "NOT 3 = NOT (mask 2 :: u32)" by simp
  moreover have "w AND NOT (mask 2) = push_bit 2 (drop_bit 2 w)"
  proof (rule bit_word_eqI)
    fix n assume "n < LENGTH(32)"
    moreover have "2 \<le> n \<Longrightarrow> Suc (Suc (n - 2)) = n" by simp
    ultimately show "bit (w AND NOT (mask 2)) n = bit (push_bit 2 (drop_bit 2 w)) n"
      by (auto simp: bit_simps)
  qed
  ultimately show ?thesis by simp
qed

lemma size_needed_eq:
  assumes "0 \<le> req" and "req \<le> 2 ^ 30"
  shows "size_needed req = 4 * ((req + 15) div 4)"
proof -
  define w where "w = (word_of_int (req + 15) :: u32)"
  have w: "word_of_int req + 12 + 3 = w" by (simp add: w_def)
  have uw: "uint w = req + 15"
    using assms by (simp only: w_def uint_word_of_int) (simp add: mod_pos_pos_trivial)
  have "uint (push_bit 2 (drop_bit 2 w)) = 4 * ((req + 15) div 4)"
    unfolding unsigned_push_bit_eq unsigned_drop_bit_eq uw
    using assms by (simp add: push_bit_eq_mult drop_bit_eq_div take_bit_int_eq_self)
  moreover have "sint x = uint x" if "uint x < 2 ^ 31" for x :: u32
    unfolding sint_uint
    by (rule signed_take_bit_int_eq_self, rule order_trans [OF _ uint_ge_0]) (use that in auto)
  ultimately show ?thesis
    unfolding size_needed_def w and_not3_u32 using assms by simp
qed

lemma size_needed_bounds:
  assumes "0 \<le> req" and "req \<le> 2 ^ 30"
  shows "req + hdr_size \<le> size_needed req" and "hdr_size \<le> size_needed req"
    and "4 dvd size_needed req"
  using assms by (simp_all add: size_needed_eq hdr_size_def)

section \<open>Splitting a block\<close>

lemma hdr_set [simp]:
  "hdr (set_size a n h) x = (if x = a then (hdr h a)\<lparr>ms_size := n\<rparr> else hdr h x)"
  "hdr (set_free a n h) x = (if x = a then (hdr h a)\<lparr>ms_free := n\<rparr> else hdr h x)"
  "hdr (set_prev a n h) x = (if x = a then (hdr h a)\<lparr>ms_prev := n\<rparr> else hdr h x)"
  by (simp_all add: set_defs)

lemma next_start_set [simp]:
  "next_start (set_size a n h) = next_start h"
  "next_start (set_free a n h) = next_start h"
  "next_start (set_prev a n h) = next_start h"
  "next_start (link_prev a n h) = next_start h"
  by (simp_all add: set_defs link_prev_def)

lemma hdr_link_prev:
  "hdr (link_prev a n h) x = (if x = a \<and> a \<noteq> 0 then (hdr h a)\<lparr>ms_prev := n\<rparr> else hdr h x)"
  by (simp add: link_prev_def)

lemma link_prev_same [simp]:
  "ms_size (hdr (link_prev a n h) x) = ms_size (hdr h x)"
  "ms_free (hdr (link_prev a n h) x) = ms_free (hdr h x)"
  by (simp_all add: hdr_link_prev)

lemma seg_link:
  assumes "seg h p a xs q b" and "0 < a"
  shows "\<exists>q'. seg (link_prev (hd0 xs) p' h) p' a xs q' b"
proof (cases xs)
  case Nil
  with assms show ?thesis by simp
next
  case (Cons y ys)
  with assms(1) have y: "y = a" and s: "seg h a (a + ms_size (hdr h a)) ys q b" by auto
  from seg_distinct [OF assms(1)] Cons have "y \<notin> set ys" by simp
  then have "seg (link_prev y p' h) a (a + ms_size (hdr h a)) ys q b"
    using s by (subst seg_cong [of ys _ h]) (auto simp: hdr_link_prev)
  with Cons y assms show ?thesis by (auto simp: hdr_link_prev)
qed

lemma seg_split:
  "seg h p a (pre @ g # post) q b \<longleftrightarrow>
     seg h p a pre (ms_prev (hdr h g)) g \<and> hdr_size \<le> ms_size (hdr h g) \<and> 4 dvd ms_size (hdr h g) \<and>
     seg h g (g + ms_size (hdr h g)) post q b"
  by (auto simp: seg_append)

text \<open>The addresses strictly inside a block are no block.\<close>

lemma inside_not_block:
  assumes "seg h p a (pre @ g # post) q b" and "g < x" and "x < g + ms_size (hdr h g)"
  shows "x \<notin> set (pre @ g # post)"
proof
  assume x: "x \<in> set (pre @ g # post)"
  with assms(2) seg_disjoint [OF assms(1), of g x] assms(3) show False by simp
qed

text \<open>Where a split puts its second header, and the heap when it has written both sizes.\<close>

definition cut_heap :: "heap \<Rightarrow> int \<Rightarrow> int \<Rightarrow> heap" where
  "cut_heap h g need = set_size (g + need) (ms_size (hdr h g) - need) (set_size g need (set_free g 0 h))"

lemma split_places:
  assumes t: "tiled h (pre @ g # post)" and need: "hdr_size \<le> need" and room: "need < ms_size (hdr h g)"
  shows "g + need < mem_end" "g + need \<noteq> 0" "g \<noteq> g + need" "0 < g + ms_size (hdr h g)"
    "g + need \<notin> set (pre @ g # post)" "\<forall>x \<in> set (pre @ post). x \<noteq> g \<and> x \<noteq> g + need"
    "get_next h g = hd0 post" "hd0 post \<in> set post \<union> {0}" "hd0 post \<notin> set pre \<union> {g, g + need}"
proof -
  obtain q where s: "seg h 0 memory (pre @ g # post) q mem_end" using t by (auto simp: tiled_def)
  have g: "memory \<le> g" "g + ms_size (hdr h g) \<le> mem_end" using seg_bounds [OF s] by auto
  show n: "g + need < mem_end" "g + need \<noteq> 0" "g \<noteq> g + need" "0 < g + ms_size (hdr h g)"
    using g room need by (auto simp: arena_defs)
  show out: "g + need \<notin> set (pre @ g # post)"
    using s by (rule inside_not_block) (use need room in \<open>auto simp: hdr_size_def\<close>)
  have dist: "distinct (pre @ g # post)" using s by (rule seg_distinct)
  show "\<forall>x \<in> set (pre @ post). x \<noteq> g \<and> x \<noteq> g + need" using dist out by auto
  show "get_next h g = hd0 post"
    using s [unfolded seg_split] by (intro get_next_seg [of h "ms_prev (hdr h g)" g g post q]) auto
  show hd: "hd0 post \<in> set post \<union> {0}" by (cases post) auto
  have "0 \<notin> set (pre @ g # post)" using seg_bounds [OF s] by (force simp: arena_defs)
  then show "hd0 post \<notin> set pre \<union> {g, g + need}" using hd dist out n by auto
qed

lemma cut_heap_hdr:
  assumes "g \<noteq> g + need"
  shows "x \<noteq> g \<Longrightarrow> x \<noteq> g + need \<Longrightarrow> hdr (cut_heap h g need) x = hdr h x"
    "ms_prev (hdr (cut_heap h g need) g) = ms_prev (hdr h g)" "ms_size (hdr (cut_heap h g need) g) = need"
    "ms_free (hdr (cut_heap h g need) g) = 0" "ms_size (hdr (cut_heap h g need) (g + need)) = ms_size (hdr h g) - need"
  using assms by (simp_all add: cut_heap_def)

lemma split_block_cut:
  assumes "g + need < mem_end" "g + need \<noteq> 0" "g \<noteq> g + need"
  shows "split_block h g need =
    (let h2 = cut_heap h g need; n = g + need in
     if ms_size (hdr h2 n) \<le> hdr_size
     then let h = set_size g (ms_size (hdr h g)) h2 in h\<lparr>next_start := get_next h g\<rparr>
     else let h = (set_free n 1 (set_prev n g h2))\<lparr>next_start := n\<rparr> in link_prev (get_next h n) n h)"
proof -
  have "get_next (set_size g need (set_free g 0 h)) g = g + need" using assms(1) by (simp add: get_next_def)
  then show ?thesis using assms(2) by (simp add: split_block_def Let_def cut_heap_def)
qed

text \<open>What a split promises; \<open>xs\<close> are the other blocks, \<open>xs'\<close> all blocks after it.\<close>

definition split_off :: "heap \<Rightarrow> int list \<Rightarrow> int \<Rightarrow> int \<Rightarrow> heap \<Rightarrow> int list \<Rightarrow> bool" where
  "split_off h xs g need h' xs' \<longleftrightarrow> tiled h' xs' \<and> \<not> is_free h' g \<and> need \<le> ms_size (hdr h' g) \<and>
     (\<forall>x \<in> set xs. ms_size (hdr h' x) = ms_size (hdr h x) \<and> is_free h' x = is_free h x) \<and>
     next_start h' \<in> set xs' \<union> {0}"

text \<open>The rest is too small for a header: the block keeps its size.\<close>

lemma split_nothing:
  assumes t: "tiled h (pre @ g # post)" and need: "hdr_size \<le> need"
    and room: "need < ms_size (hdr h g)" and small: "ms_size (hdr h g) - need \<le> hdr_size"
  shows "split_off h (pre @ post) g need (split_block h g need) (pre @ g # post)"
proof -
  note n = split_places [OF t need room] and h2 = cut_heap_hdr [OF split_places(3) [OF t need room], where h = h]
  let ?h3 = "set_size g (ms_size (hdr h g)) (cut_heap h g need)" and ?h = "split_block h g need"
  have "get_next ?h3 g = hd0 post" unfolding n(7) [symmetric] by (simp add: get_next_def)
  then have h': "?h = ?h3\<lparr>next_start := hd0 post\<rparr>"
    using small by (simp add: split_block_cut [OF n(1-3)] Let_def h2)
  have same: "ms_prev (hdr ?h x) = ms_prev (hdr h x) \<and> ms_size (hdr ?h x) = ms_size (hdr h x)"
    if "x \<in> set (pre @ g # post)" for x
  proof (cases "x = g")
    case False
    moreover have "x \<noteq> g + need" using that n(5) by auto
    ultimately show ?thesis by (simp add: h' h2)
  qed (simp add: h' h2)
  obtain q where "seg h 0 memory (pre @ g # post) q mem_end" using t by (auto simp: tiled_def)
  then have "seg ?h 0 memory (pre @ g # post) q mem_end" using same by (subst seg_cong [of _ ?h h]) auto
  then have "tiled ?h (pre @ g # post)" by (auto simp: tiled_def)
  then show ?thesis using n(6,8) h2 room by (auto simp: split_off_def h' is_free_def)
qed

text \<open>The rest becomes a free block of its own.\<close>

lemma split_rest:
  assumes t: "tiled h (pre @ g # post)" and need: "hdr_size \<le> need" "4 dvd need"
    and room: "need < ms_size (hdr h g)" and big: "\<not> ms_size (hdr h g) - need \<le> hdr_size"
  shows "split_off h (pre @ post) g need (split_block h g need) (pre @ g # (g + need) # post)"
    and "is_free (split_block h g need) (g + need)"
proof -
  note n = split_places [OF t need(1) room] and h2 = cut_heap_hdr [OF split_places(3) [OF t need(1) room], where h = h]
  let ?n = "g + need" and ?tot = "ms_size (hdr h g)" and ?h = "split_block h g need"
  let ?h3 = "(set_free ?n 1 (set_prev ?n g (cut_heap h g need)))\<lparr>next_start := ?n\<rparr>"
  obtain q where s: "seg h 0 memory (pre @ g # post) q mem_end" using t by (auto simp: tiled_def)
  note sp = s [unfolded seg_split]
  have "get_next ?h3 ?n = hd0 post" unfolding n(7) [symmetric] by (simp add: get_next_def h2)
  then have h': "?h = link_prev (hd0 post) ?n ?h3"
    using big by (simp add: split_block_cut [OF n(1-3)] Let_def h2)
  have "seg ?h3 g (g + ?tot) post q mem_end"
    using sp n(6) by (subst seg_cong [of _ _ h]) (auto simp: h2)
  from seg_link [OF this n(4), of ?n] obtain q' where tail: "seg ?h ?n (g + ?tot) post q' mem_end" by (auto simp: h')
  have pre: "seg ?h 0 memory pre (ms_prev (hdr h g)) g"
    using sp n(6,9) by (subst seg_cong [of _ _ h]) (auto simp: h' hdr_link_prev h2)
  have g': "ms_prev (hdr ?h g) = ms_prev (hdr h g)" "ms_size (hdr ?h g) = need" "ms_free (hdr ?h g) = 0"
    using n(3,9) h2 by (auto simp: h' hdr_link_prev)
  have n': "ms_prev (hdr ?h ?n) = g" "ms_size (hdr ?h ?n) = ?tot - need" "ms_free (hdr ?h ?n) = 1"
    using n(9) h2 by (auto simp: h' hdr_link_prev)
  have "4 dvd ?tot - need" using sp need by simp
  with tail n' big have "seg ?h g ?n (?n # post) q' mem_end" by (simp add: hdr_size_def)
  then have "tiled ?h (pre @ g # ?n # post)" using pre g' need unfolding tiled_def seg_split by auto
  then show "split_off h (pre @ post) g need ?h (pre @ g # ?n # post)"
    using g' n(6) h2 by (auto simp: split_off_def is_free_def h')
  show "is_free ?h ?n" using n' by (simp add: is_free_def)
qed

section \<open>malloc\<close>

definition fits :: "heap \<Rightarrow> int \<Rightarrow> int \<Rightarrow> bool" where
  "fits h need x \<longleftrightarrow> is_free h x \<and> need \<le> ms_size (hdr h x)"

text \<open>No two neighbouring blocks are both free.\<close>

definition coalesced :: "heap \<Rightarrow> int list \<Rightarrow> bool" where
  "coalesced h xs \<longleftrightarrow> successively (\<lambda>a b. \<not> (is_free h a \<and> is_free h b)) xs"

lemma coalesced_cong:
  "(\<And>x. x \<in> set xs \<Longrightarrow> is_free h x = is_free h' x) \<Longrightarrow> coalesced h xs = coalesced h' xs"
  unfolding coalesced_def by (rule successively_cong) auto

lemma coalesced_append:
  "coalesced h (xs @ ys) \<longleftrightarrow> coalesced h xs \<and> coalesced h ys \<and>
     (xs = [] \<or> ys = [] \<or> \<not> (is_free h (last xs) \<and> is_free h (hd ys)))"
  by (auto simp: coalesced_def successively_append_iff)

lemma coalesced_Cons:
  "coalesced h (x # ys) \<longleftrightarrow> coalesced h ys \<and> (ys = [] \<or> \<not> (is_free h x \<and> is_free h (hd ys)))"
  by (cases ys) (auto simp: coalesced_def)

text \<open>What a successful \<^verbatim>\<open>malloc\<close> does to the block list when the search finds \<open>g\<close>.\<close>

definition alloc_post :: "heap \<Rightarrow> int list \<Rightarrow> int \<Rightarrow> int \<Rightarrow> heap \<Rightarrow> int list \<Rightarrow> bool" where
  "alloc_post h xs g need h' xs' \<longleftrightarrow>
     tiled h' xs' \<and> set xs \<subseteq> set xs' \<and> is_free h g \<and> \<not> is_free h' g \<and>
     need \<le> ms_size (hdr h' g) \<and>
     (\<forall>x \<in> set xs - {g}. ms_size (hdr h' x) = ms_size (hdr h x) \<and> is_free h' x = is_free h x) \<and>
     (\<forall>x \<in> set xs' - set xs. is_free h' x) \<and>
     (coalesced h xs \<longrightarrow> coalesced h' xs') \<and> next_start h' \<in> set xs' \<union> {0}"

lemma find_fit_list:
  assumes "tiled h (pre @ rest)" and "next_start h = hd0 rest"
  shows "find_fit h need (next_start h) =
    Some (case List.find (fits h need) rest of None \<Rightarrow> 0 | Some g \<Rightarrow> g)"
proof (cases rest)
  case Nil
  then show ?thesis using assms by (simp add: find_fit.simps)
next
  case (Cons r rs)
  from assms(1) obtain q q' b' where s: "seg h 0 memory pre q' b'" "seg h q' b' rest q mem_end"
    by (auto simp: tiled_def seg_append)
  from seg_bounds [OF s(1)] have "0 < b'" by (auto simp: arena_defs)
  from find_fit_seg [OF s(2) this] assms(2) show ?thesis
    by (simp add: fits_def [abs_def])
qed

lemma tiled_nonzero: "tiled h xs \<Longrightarrow> x \<in> set xs \<Longrightarrow> memory \<le> x \<and> x + hdr_size \<le> mem_end"
  using seg_bounds seg_sizes by (fastforce simp: tiled_def)

lemma tiled_distinct: "tiled h xs \<Longrightarrow> distinct xs"
  unfolding tiled_def using seg_distinct by blast

lemma exact_post:
  assumes t: "tiled h (pre @ g # post)" and f: "is_free h g" and e: "ms_size (hdr h g) = need"
  shows "alloc_post h (pre @ g # post) g need
    ((set_free g 0 h)\<lparr>next_start := get_next (set_free g 0 h) g\<rparr>) (pre @ g # post)"
proof -
  let ?h = "(set_free g 0 h)\<lparr>next_start := get_next (set_free g 0 h) g\<rparr>"
  from t obtain q where s: "seg h 0 memory (pre @ g # post) q mem_end" by (auto simp: tiled_def)
  have ne: "\<forall>x \<in> set pre \<union> set post. x \<noteq> g" using seg_distinct [OF s] by auto
  have "get_next (set_free g 0 h) g = hd0 post"
    using s [unfolded seg_split] get_next_seg [of h "ms_prev (hdr h g)" g g post q]
    by (simp add: get_next_def)
  moreover have "hd0 post \<in> set post \<union> {0}" by (cases post) auto
  moreover have "seg ?h 0 memory (pre @ g # post) q mem_end"
    using s by (subst seg_cong [of _ _ h]) auto
  moreover have "coalesced ?h pre = coalesced h pre" "coalesced ?h post = coalesced h post"
    using ne by (auto intro!: coalesced_cong simp: is_free_def)
  then have "coalesced h (pre @ g # post) \<Longrightarrow> coalesced ?h (pre @ g # post)"
    using f seg_distinct [OF s] by (auto simp: coalesced_append coalesced_Cons is_free_def)
  ultimately show ?thesis
    using f e seg_distinct [OF s] by (auto simp: alloc_post_def tiled_def is_free_def)
qed

lemma split_post:
  assumes t: "tiled h (pre @ g # post)" and f: "is_free h g"
    and need: "hdr_size \<le> need" "4 dvd need" and room: "need < ms_size (hdr h g)"
  obtains xs' where "alloc_post h (pre @ g # post) g need (split_block h g need) xs'"
proof -
  let ?h = "split_block h g need" and ?n = "g + need"
  define xs' where "xs' = (if ms_size (hdr h g) - need \<le> hdr_size then pre @ g # post
                  else pre @ g # ?n # post)"
  have *: "split_off h (pre @ post) g need ?h xs'" "hdr_size < ms_size (hdr h g) - need \<Longrightarrow> is_free ?h ?n"
    using split_nothing [OF t need(1) room] split_rest [OF t need room] by (auto simp: xs'_def)
  note so = *(1) [unfolded split_off_def]
  note dist = tiled_distinct [OF t]
  have c: "coalesced ?h xs'" if "coalesced h (pre @ g # post)"
  proof -
    have "coalesced h post" "coalesced h pre" "post = [] \<or> \<not> is_free h (hd post)"
      using that f by (auto simp: coalesced_append coalesced_Cons)
    moreover have "coalesced ?h post = coalesced h post" "coalesced ?h pre = coalesced h pre"
      using so by (auto intro!: coalesced_cong)
    moreover have "post \<noteq> [] \<Longrightarrow> is_free ?h (hd post) = is_free h (hd post)"
      using so by simp
    ultimately show ?thesis
      using so by (auto simp: xs'_def coalesced_append coalesced_Cons)
  qed
  have "set xs' - set (pre @ g # post) \<subseteq> (if hdr_size < ms_size (hdr h g) - need then {?n} else {})"
    by (auto simp: xs'_def)
  then have "\<forall>x \<in> set xs' - set (pre @ g # post). is_free ?h x"
    using *(2) by (auto split: if_splits)
  then have "alloc_post h (pre @ g # post) g need ?h xs'"
    using so f c dist by (auto simp: alloc_post_def xs'_def)
  then show thesis by (rule that)
qed

theorem malloc_found:
  assumes t: "tiled h (pre @ rest)" and ns: "next_start h = hd0 rest"
    and req: "0 \<le> req" "req \<le> 2 ^ 30"
    and found: "List.find (fits h (size_needed req)) rest = Some g"
  obtains h' xs' where "malloc h req = Some (g + hdr_size, h')"
    and "alloc_post h (pre @ rest) g (size_needed req) h' xs'"
proof -
  let ?need = "size_needed req"
  note need = size_needed_bounds [OF req]
  from found have fit: "fits h ?need g" and "g \<in> set rest"
    by (auto simp: find_Some_iff)
  then obtain r1 post where "rest = r1 @ g # post" by (auto dest: split_list)
  with t have tg: "tiled h ((pre @ r1) @ g # post)" and eq: "pre @ rest = (pre @ r1) @ g # post" by auto
  have g0: "g \<noteq> 0" using tiled_nonzero [OF tg, of g] by (auto simp: arena_defs)
  have ff: "find_fit h ?need (next_start h) = Some g"
    using find_fit_list [OF t ns] found by simp
  show thesis
  proof (cases "ms_size (hdr h g) = ?need")
    case True
    with fit exact_post [OF tg _ True] show thesis
      by (intro that) (auto simp: malloc_def ff g0 fits_def eq Let_def)
  next
    case False
    with fit have room: "?need < ms_size (hdr h g)" and "is_free h g" by (auto simp: fits_def)
    from split_post [OF tg this(2) need(2,3) this(1)] obtain xs'
      where "alloc_post h (pre @ rest) g ?need (split_block h g ?need) xs'" by (auto simp: eq)
    moreover have "malloc h req = Some (g + hdr_size, split_block h g ?need)"
      using room g0 by (simp add: malloc_def ff)
    ultimately show thesis by (rule that [rotated])
  qed
qed

section \<open>free\<close>

definition total_size :: "heap \<Rightarrow> int list \<Rightarrow> int" where
  "total_size h xs = sum_list (map (\<lambda>x. ms_size (hdr h x)) xs)"

lemma seg_end: "seg h p a xs q b \<Longrightarrow> b = a + total_size h xs \<and> 4 dvd total_size h xs \<and> 0 \<le> total_size h xs"
proof (induction xs arbitrary: p a)
  case Nil
  then show ?case by (simp add: total_size_def)
next
  case (Cons x xs)
  from Cons.prems have s: "seg h a (a + ms_size (hdr h a)) xs q b"
    and x: "x = a" "hdr_size \<le> ms_size (hdr h a)" "4 dvd ms_size (hdr h a)" by auto
  from Cons.IH [OF s] x show ?case by (auto simp: total_size_def hdr_size_def)
qed

text \<open>
  The shape of every merge: block \<open>c\<close> takes over the blocks \<open>mid\<close> that follow it. Free flags
  may change on the way.
\<close>

lemma absorb_tiled:
  assumes t: "tiled h (pre @ c # mid @ post)"
    and same: "\<forall>x \<in> set pre \<union> set post. ms_prev (hdr h0 x) = ms_prev (hdr h x) \<and> ms_size (hdr h0 x) = ms_size (hdr h x)"
    and c: "ms_prev (hdr h0 c) = ms_prev (hdr h c)" "ms_size (hdr h0 c) = ms_size (hdr h c) + total_size h mid"
  shows "tiled (link_prev (hd0 post) c h0) (pre @ c # post)"
proof -
  from t obtain q where s: "seg h 0 memory (pre @ c # (mid @ post)) q mem_end" by (auto simp: tiled_def)
  note sp = s [unfolded seg_split]
  from sp obtain q1 b1 where m: "seg h c (c + ms_size (hdr h c)) mid q1 b1"
    and p: "seg h q1 b1 post q mem_end" by (auto simp: seg_append)
  from seg_end [OF m] have b1: "b1 = c + ms_size (hdr h0 c)" and tot: "4 dvd total_size h mid" "0 \<le> total_size h mid"
    using c by auto
  have sz: "hdr_size \<le> ms_size (hdr h0 c)" "4 dvd ms_size (hdr h0 c)" using sp tot c by auto
  have b1pos: "0 < b1" using tiled_nonzero [OF t, of c] sz b1 by (auto simp: arena_defs)
  have "seg h0 q1 b1 post q mem_end" using p same by (subst seg_cong [of _ _ h]) auto
  from seg_link [OF this b1pos, of c] obtain q' where
    tail: "seg (link_prev (hd0 post) c h0) c b1 post q' mem_end" by blast
  have hd: "hd0 post = 0 \<or> hd0 post \<in> set post" by (cases post) auto
  have "c \<noteq> 0" using tiled_nonzero [OF t, of c] by (auto simp: arena_defs)
  then have hd_ne: "hd0 post \<noteq> c" "x \<in> set pre \<Longrightarrow> hd0 post = 0 \<or> x \<noteq> hd0 post" for x
    using hd tiled_distinct [OF t] by auto
  have "seg (link_prev (hd0 post) c h0) 0 memory pre (ms_prev (hdr h c)) c"
    using sp same hd_ne(2) by (subst seg_cong [of _ _ h]) (auto simp: hdr_link_prev)
  then show ?thesis
    using tail sz b1 c hd_ne(1) unfolding tiled_def seg_split
    by (auto simp: hdr_link_prev)
qed

lemma get_next_tiled: "tiled h (pre @ x # post) \<Longrightarrow> get_next h x = hd0 post"
proof -
  assume "tiled h (pre @ x # post)"
  then obtain q where "seg h (ms_prev (hdr h x)) x (x # post) q mem_end"
    by (auto simp: tiled_def seg_append)
  then show ?thesis by (rule get_next_seg)
qed

lemma prev_tiled: "tiled h (pre @ p # x # post) \<Longrightarrow> ms_prev (hdr h x) = p"
  unfolding tiled_def seg_split by auto

lemma prev_first: "tiled h (x # post) \<Longrightarrow> ms_prev (hdr h x) = 0"
  unfolding tiled_def by auto

text \<open>
  What \<^verbatim>\<open>free\<close> promises: the list stays tiled; the block \<open>g\<close> lies inside a block that is now
  free; the blocks still in use keep their place, size and flag; neighbours stay coalesced.
\<close>

definition free_post :: "heap \<Rightarrow> int list \<Rightarrow> int \<Rightarrow> heap \<Rightarrow> int list \<Rightarrow> bool" where
  "free_post h xs g h' xs' \<longleftrightarrow>
     tiled h' xs' \<and> set xs' \<subseteq> set xs \<and>
     (\<exists>c \<in> set xs'. is_free h' c \<and> c \<le> g \<and> g + ms_size (hdr h g) \<le> c + ms_size (hdr h' c)) \<and>
     (\<forall>x \<in> set xs - {g}. \<not> is_free h x \<longrightarrow>
        x \<in> set xs' \<and> \<not> is_free h' x \<and> ms_size (hdr h' x) = ms_size (hdr h x)) \<and>
     (coalesced h xs \<longrightarrow> coalesced h' xs')"

lemma free_post_next_start [simp]:
  "free_post h xs g (h'\<lparr>next_start := n\<rparr>) xs' = free_post h xs g h' xs'"
proof -
  have "tiled (h'\<lparr>next_start := n\<rparr>) xs' = tiled h' xs'"
    unfolding tiled_def by (metis (no_types, lifting) seg_cong heap.select_convs(1) heap.surjective heap.update_convs(2))
  moreover have "coalesced (h'\<lparr>next_start := n\<rparr>) xs' = coalesced h' xs'"
    by (rule coalesced_cong) (simp add: is_free_def)
  ultimately show ?thesis by (simp add: free_post_def is_free_def)
qed

text \<open>The common core: \<open>c\<close> takes over \<open>mid\<close>, becomes free, and both its neighbours are in use.\<close>

lemma absorb_post:
  assumes t: "tiled h (pre @ c # mid @ post)"
    and g: "g \<in> set (c # mid)" and cm: "\<forall>x \<in> set (c # mid) - {g}. is_free h x"
    and nb: "pre = [] \<or> \<not> is_free h (last pre)" "post = [] \<or> \<not> is_free h (hd post)"
    and h0: "\<forall>x \<in> set pre \<union> set post. hdr h0 x = hdr h x"
    and c: "ms_prev (hdr h0 c) = ms_prev (hdr h c)" "is_free h0 c"
      "ms_size (hdr h0 c) = ms_size (hdr h c) + total_size h mid"
  shows "free_post h (pre @ c # mid @ post) g (link_prev (hd0 post) c h0) (pre @ c # post)"
proof -
  let ?h = "link_prev (hd0 post) c h0"
  have tiled': "tiled ?h (pre @ c # post)" using t h0 c by (intro absorb_tiled) auto
  have flag: "is_free ?h x = is_free h0 x" for x by (simp add: is_free_def)
  have pp: "x \<in> set pre \<union> set post \<Longrightarrow> is_free ?h x = is_free h x \<and> ms_size (hdr ?h x) = ms_size (hdr h x)" for x
    using h0 by (simp add: is_free_def)
  from t obtain q where s: "seg h 0 memory (pre @ c # (mid @ post)) q mem_end" by (auto simp: tiled_def)
  then obtain q1 b1 where m: "seg h c (c + ms_size (hdr h c)) mid q1 b1"
    unfolding seg_split by (auto simp: seg_append)
  from seg_end [OF m] c(3) have b1: "b1 = c + ms_size (hdr ?h c)" and "0 \<le> total_size h mid" by auto
  have cover: "c \<le> g \<and> g + ms_size (hdr h g) \<le> c + ms_size (hdr ?h c)"
  proof (cases "g = c")
    case True
    with c(3) \<open>0 \<le> total_size h mid\<close> show ?thesis by simp
  next
    case False
    with g seg_bounds [OF m] b1 s [unfolded seg_split] show ?thesis by (auto simp: hdr_size_def)
  qed
  have co: "coalesced ?h (pre @ c # post)" if "coalesced h (pre @ c # mid @ post)"
  proof -
    have "coalesced h pre" "coalesced h post"
      using that by (simp_all add: coalesced_append coalesced_Cons)
    moreover have "coalesced ?h pre = coalesced h pre" "coalesced ?h post = coalesced h post"
      using pp by (auto intro!: coalesced_cong)
    moreover have "pre = [] \<or> \<not> is_free ?h (last pre)" "post = [] \<or> \<not> is_free ?h (hd post)"
      using nb pp by auto
    ultimately show ?thesis by (auto simp: coalesced_append coalesced_Cons)
  qed
  show ?thesis
    unfolding free_post_def
    using tiled' cover co c(2) flag pp cm by auto
qed

lemma link_prev_id: "tiled h (pre @ c # post) \<Longrightarrow> (\<forall>x \<in> set post. hdr h0 x = hdr h x) \<Longrightarrow>
  link_prev (hd0 post) c h0 = h0"
  using prev_tiled [of h pre c]
  by (cases post) (auto simp: link_prev_def set_prev_def fun_eq_iff intro!: heap.equality)

text \<open>\<^verbatim>\<open>finish\<close> of \<^const>\<open>kfree\<close>: the search pointer moves down to the freed header.\<close>

definition finish_free :: "heap \<times> int \<Rightarrow> heap option" where
  "finish_free = (\<lambda>(h, mm). Some (if mm < next_start h then h\<lparr>next_start := mm\<rparr> else h))"

lemma finish_free_post:
  assumes "free_post h xs g h1 xs'"
  obtains h' where "finish_free (h1, m) = Some h'" and "free_post h xs g h' xs'"
proof (rule that)
  show "finish_free (h1, m) = Some (if m < next_start h1 then h1\<lparr>next_start := m\<rparr> else h1)"
    by (simp add: finish_free_def)
  show "free_post h xs g (if m < next_start h1 then h1\<lparr>next_start := m\<rparr> else h1) xs'"
    using assms by simp
qed

lemma free_ne: "tiled h (pre @ g # post) \<Longrightarrow> x \<in> set pre \<union> set post \<Longrightarrow> x \<noteq> g"
  using tiled_distinct by fastforce

lemma free_alone:
  assumes t: "tiled h (pre @ g # post)" and used: "\<not> is_free h g"
    and co: "coalesced h (pre @ g # post)"
    and "pre = [] \<or> \<not> is_free h (last pre)" and "post = [] \<or> \<not> is_free h (hd post)"
  shows "free_post h (pre @ g # post) g (set_free g 1 h) (pre @ g # post)"
proof -
  have "free_post h (pre @ g # [] @ post) g (link_prev (hd0 post) g (set_free g 1 h)) (pre @ g # post)"
    using t assms free_ne [OF t] by (intro absorb_post) (auto simp: total_size_def is_free_def)
  then show ?thesis using link_prev_id [OF t, of "set_free g 1 h"] free_ne [OF t] by auto
qed

lemma free_back:
  assumes t: "tiled h (pre @ g # post)" and used: "\<not> is_free h g"
    and co: "coalesced h (pre @ g # post)"
    and "pre = [] \<or> \<not> is_free h (last pre)" and post: "post = n # post'" and "is_free h n"
  shows "free_post h (pre @ g # post) g (fst (merge_back h g n)) (pre @ g # post')"
proof -
  have ne: "g \<noteq> n" "n \<notin> set post'" "n \<notin> set pre" using tiled_distinct [OF t] post by auto
  let ?h0 = "set_size g (ms_size (hdr h g) + ms_size (hdr h n)) (set_free g 1 h)"
  have "get_next ?h0 n = hd0 post'"
    using get_next_tiled [of h "pre @ [g]" n post'] t post ne by (simp add: get_next_def)
  then have m: "fst (merge_back h g n) = link_prev (hd0 post') g ?h0"
    using ne by (simp add: merge_back_def Let_def)
  have "post' = [] \<or> \<not> is_free h (hd post')"
    using co post assms(6) by (simp add: coalesced_append coalesced_Cons)
  then have "free_post h (pre @ g # [n] @ post') g (link_prev (hd0 post') g ?h0) (pre @ g # post')"
    using t assms post free_ne [OF t] ne by (intro absorb_post) (auto simp: total_size_def is_free_def)
  then show ?thesis by (simp add: m post)
qed

lemma free_front:
  assumes t: "tiled h (pre @ g # post)" and used: "\<not> is_free h g"
    and co: "coalesced h (pre @ g # post)"
    and pre: "pre = pre' @ [p]" and "is_free h p" and "post = [] \<or> \<not> is_free h (hd post)"
    and h1: "h1 = h \<or> h1 = set_free g 1 h"
  shows "free_post h (pre @ g # post) g (fst (merge_front h1 g p)) (pre' @ p # post)"
proof -
  have ne: "g \<noteq> p" "p \<notin> set post" "p \<notin> set pre'" using tiled_distinct [OF t] pre by auto
  let ?h0 = "set_size p (ms_size (hdr h p) + ms_size (hdr h g)) h1"
  have "get_next h1 g = hd0 post"
    using get_next_tiled [OF t] h1 by (auto simp: get_next_def)
  then have m: "fst (merge_front h1 g p) = link_prev (hd0 post) p ?h0"
    using ne h1 by (auto simp: merge_front_def Let_def)
  have "pre' = [] \<or> \<not> is_free h (last pre')"
    using co pre assms(5) by (simp add: coalesced_append coalesced_Cons)
  then have "free_post h (pre' @ p # [g] @ post) g (link_prev (hd0 post) p ?h0) (pre' @ p # post)"
    using t assms pre free_ne [OF t] ne h1 by (intro absorb_post) (auto simp: total_size_def is_free_def)
  then show ?thesis by (simp add: m pre)
qed

lemma free_both:
  assumes t: "tiled h (pre @ g # post)" and used: "\<not> is_free h g"
    and co: "coalesced h (pre @ g # post)"
    and pre: "pre = pre' @ [p]" and post: "post = n # post'" and "is_free h p" and "is_free h n"
  shows "free_post h (pre @ g # post) g (fst (merge_both h g p n)) (pre' @ p # post')"
proof -
  have ne: "g \<noteq> p" "p \<noteq> n" "n \<noteq> g" "p \<notin> set post'" "p \<notin> set pre'" "n \<notin> set post'" "n \<notin> set pre'"
    using tiled_distinct [OF t] pre post by auto
  let ?h0 = "set_size p (ms_size (hdr h p) + (ms_size (hdr h g) + ms_size (hdr h n))) h"
  have "get_next ?h0 n = hd0 post'"
    using get_next_tiled [of h "pre @ [g]" n post'] t post ne by (simp add: get_next_def)
  then have m: "fst (merge_both h g p n) = link_prev (hd0 post') p ?h0"
    using ne by (simp add: merge_both_def Let_def)
  have "pre' = [] \<or> \<not> is_free h (last pre')" "post' = [] \<or> \<not> is_free h (hd post')"
    using co pre post assms(6,7) by (simp_all add: coalesced_append coalesced_Cons)
  then have "free_post h (pre' @ p # [g, n] @ post') g (link_prev (hd0 post') p ?h0) (pre' @ p # post')"
    using t assms pre free_ne [OF t] ne by (intro absorb_post) (auto simp: total_size_def is_free_def)
  then show ?thesis by (simp add: m pre post)
qed

lemma kfree_cases:
  assumes "ms_free (hdr h g) \<noteq> 1"
  shows "kfree h (g + hdr_size) =
    (let prev = ms_prev (hdr h g); next = get_next h g in
     if prev = 0 then Option.bind (try_merge_back h g) finish_free
     else if next = 0 then finish_free (try_merge_front h g)
     else if is_free h prev \<and> \<not> is_free h next then finish_free (fst (merge_front h g prev), g)
     else if \<not> is_free h prev \<and> is_free h next then finish_free (fst (merge_back h g next), g)
     else if is_free h prev \<and> is_free h next then finish_free (fst (merge_both h g prev next), g)
     else finish_free (set_free g 1 h, g))"
  using assms by (simp add: kfree_def Let_def finish_free_def is_free_def)

text \<open>The first block, the last block, and a block between two others.\<close>

definition frees :: "heap \<Rightarrow> int list \<Rightarrow> int \<Rightarrow> bool" where
  "frees h xs g \<longleftrightarrow> (\<exists>h1 m xs'. kfree h (g + hdr_size) = finish_free (h1, m) \<and> free_post h xs g h1 xs')"

lemma kfree_first:
  assumes t: "tiled h (g # n # post)" and used: "ms_free (hdr h g) = 0" and co: "coalesced h (g # n # post)"
  shows "frees h (g # n # post) g"
proof -
  have u: "\<not> is_free h g" using used by (simp add: is_free_def)
  have t': "tiled h ([] @ g # n # post)" and co': "coalesced h ([] @ g # n # post)" using t co by simp_all
  have nz: "n \<noteq> 0" using tiled_nonzero [OF t, of n] by (auto simp: arena_defs)
  have ne: "g \<noteq> n" using tiled_distinct [OF t] by auto
  have k: "kfree h (g + hdr_size) = finish_free
      (if is_free h n then fst (merge_back (set_free g 1 h) g n) else set_free g 1 h, g)"
    using used nz ne prev_first [OF t] get_next_tiled [OF t']
    by (simp add: kfree_cases [of h g] try_merge_back_def Let_def is_free_def)
  have mb: "merge_back (set_free g 1 h) g n = merge_back h g n"
    using ne by (simp add: merge_back_def Let_def set_free_def)
  show ?thesis
  proof (cases "is_free h n")
    case True
    with free_back [OF t' u co' _ refl True] k mb show ?thesis by (auto simp: frees_def)
  next
    case False
    with free_alone [OF t' u co'] k show ?thesis by (auto simp: frees_def)
  qed
qed

lemma kfree_last:
  assumes t: "tiled h (pre @ [p, g])" and used: "ms_free (hdr h g) = 0" and co: "coalesced h (pre @ [p, g])"
  shows "frees h (pre @ [p, g]) g"
proof -
  have u: "\<not> is_free h g" using used by (simp add: is_free_def)
  have e: "pre @ [p, g] = (pre @ [p]) @ g # []" by simp
  note t' = t [unfolded e] and co' = co [unfolded e]
  have ne: "p \<noteq> 0" "g \<noteq> p" using tiled_nonzero [OF t, of p] tiled_distinct [OF t] by (auto simp: arena_defs)
  have k: "kfree h (g + hdr_size) = finish_free
      (if is_free h p then merge_front (set_free g 1 h) g p else (set_free g 1 h, g))"
    using used ne prev_tiled [OF t] get_next_tiled [OF t']
    by (simp add: kfree_cases [of h g] try_merge_front_def Let_def is_free_def)
  show ?thesis
  proof (cases "is_free h p")
    case True
    with free_front [OF t' u co' refl True, of "set_free g 1 h"] k show ?thesis
      unfolding frees_def e by (auto simp del: append_assoc) (metis prod.collapse)
  next
    case False
    with free_alone [OF t' u co'] k show ?thesis unfolding frees_def e by (auto simp del: append_assoc)
  qed
qed

lemma kfree_middle:
  assumes t: "tiled h (pre @ p # g # n # post)" and used: "ms_free (hdr h g) = 0"
    and co: "coalesced h (pre @ p # g # n # post)"
  shows "frees h (pre @ p # g # n # post) g"
proof -
  have u: "\<not> is_free h g" using used by (simp add: is_free_def)
  have e: "pre @ p # g # n # post = (pre @ [p]) @ g # (n # post)" by simp
  note t' = t [unfolded e] and co' = co [unfolded e]
  have nz: "p \<noteq> 0" "n \<noteq> 0" using tiled_nonzero [OF t, of p] tiled_nonzero [OF t, of n] by (auto simp: arena_defs)
  note k = kfree_cases [of h g, unfolded prev_tiled [OF t] get_next_tiled [OF t'] hd0_simps Let_def]
  consider (front) "is_free h p" "\<not> is_free h n" | (rear) "\<not> is_free h p" "is_free h n"
    | (both) "is_free h p" "is_free h n" | (none) "\<not> is_free h p" "\<not> is_free h n" by blast
  then show ?thesis
  proof cases
    case front
    show ?thesis unfolding frees_def e
      using free_front [OF t' u co' refl front(1), of h] front k used nz by (auto simp del: append_assoc)
  next
    case rear
    show ?thesis unfolding frees_def e
      using free_back [OF t' u co' _ refl rear(2)] rear k used nz by (auto simp del: append_assoc)
  next
    case both
    show ?thesis unfolding frees_def e
      using free_both [OF t' u co' refl refl both] both k used nz by (auto simp del: append_assoc)
  next
    case none
    show ?thesis unfolding frees_def e
      using free_alone [OF t' u co'] none k used nz by (auto simp del: append_assoc)
  qed
qed

theorem kfree_ok:
  assumes t: "tiled h xs" and g: "g \<in> set xs" and used: "ms_free (hdr h g) = 0"
    and co: "coalesced h xs" and two: "2 \<le> length xs"
  obtains h' xs' where "kfree h (g + hdr_size) = Some h'" and "free_post h xs g h' xs'"
proof -
  obtain pre post where xs: "xs = pre @ g # post" using g by (auto dest: split_list)
  have "frees h xs g"
  proof (cases pre rule: rev_cases)
    case Nil
    with two obtain n post' where "xs = g # n # post'" unfolding xs by (cases post) auto
    then show ?thesis using kfree_first t used co by simp
  next
    case (snoc pre' p)
    then show ?thesis using kfree_last kfree_middle t used co unfolding xs by (cases post) simp_all
  qed
  then obtain h1 m xs' where k: "kfree h (g + hdr_size) = finish_free (h1, m)" "free_post h xs g h1 xs'"
    by (auto simp: frees_def)
  then obtain h' where "finish_free (h1, m) = Some h'" "free_post h xs g h' xs'" by (metis finish_free_post)
  with k that show thesis by simp
qed

section \<open>Properties\<close>

lemma seg_sorted: "seg h p a xs q b \<Longrightarrow> sorted_wrt (<) xs"
proof (induction xs arbitrary: p a)
  case Nil
  then show ?case by simp
next
  case (Cons x xs)
  then have s: "seg h a (a + ms_size (hdr h a)) xs q b" and x: "x = a" "hdr_size \<le> ms_size (hdr h a)"
    by auto
  from Cons.IH [OF s] seg_bounds [OF s] x show ?case by (auto simp: hdr_size_def)
qed

lemma tiled_at_next_start:
  assumes "tiled h xs" and "n \<in> set xs"
  obtains pre rest where "xs = pre @ n # rest" and "\<forall>x \<in> set xs. n \<le> x \<longleftrightarrow> x \<in> set (n # rest)"
proof -
  from assms(2) obtain pre rest where xs: "xs = pre @ n # rest" by (auto dest: split_list)
  have "sorted_wrt (<) xs" using assms(1) seg_sorted by (auto simp: tiled_def)
  then have "\<forall>x \<in> set xs. n \<le> x \<longleftrightarrow> x \<in> set (n # rest)"
    by (force simp: xs sorted_wrt_append)
  with xs show thesis by (rule that)
qed

lemma tiled_disjoint:
  assumes "tiled h xs" and "x \<in> set xs" and "g \<in> set xs" and "x \<noteq> g"
  shows "x + ms_size (hdr h x) \<le> g \<or> g + ms_size (hdr h g) \<le> x"
  using assms seg_disjoint unfolding tiled_def by (metis linorder_neqE)


definition boot_heap :: heap where
  "boot_heap = malloc_init \<lparr>hdr = (\<lambda>_. \<lparr>ms_prev = 0, ms_size = 0, ms_free = 0\<rparr>), next_start = 0\<rparr>"

lemma boot_heap_tiled: "tiled boot_heap [memory]" "coalesced boot_heap [memory]"
  "next_start boot_heap = memory" "is_free boot_heap memory" "ms_size (hdr boot_heap memory) = MEM_SIZE"
  by (simp_all add: tiled_def coalesced_def boot_heap_def malloc_init_def arena_defs is_free_def)


text \<open>
  C2: free returns memory. On a tiled, coalesced heap of at least two blocks, freeing a block in use
  returns; the block then lies inside a free block, merged with its free neighbours; every other
  block in use keeps its place, size and flag; the heap stays tiled and coalesced.
\<close>

theorem kfree_merges:
  assumes "tiled h xs" and "coalesced h xs" and "g \<in> set xs" and "ms_free (hdr h g) = 0"
    and "2 \<le> length xs"
  shows "\<exists>h' xs'. kfree h (g + hdr_size) = Some h' \<and> free_post h xs g h' xs' \<and> coalesced h' xs'"
proof -
  obtain h' xs' where "kfree h (g + hdr_size) = Some h'" "free_post h xs g h' xs'"
    using assms by (auto elim: kfree_ok)
  with assms(2) show ?thesis by (auto simp: free_post_def)
qed

text \<open>A heap with a block in use between two free ones.\<close>

definition three_blocks :: heap where
  "three_blocks =
     \<lparr>hdr = (\<lambda>a. if a = memory then \<lparr>ms_prev = 0, ms_size = 64, ms_free = 1\<rparr>
             else if a = memory + 64 then \<lparr>ms_prev = memory, ms_size = 128, ms_free = 0\<rparr>
             else \<lparr>ms_prev = memory + 64, ms_size = MEM_SIZE - 192, ms_free = 1\<rparr>),
      next_start = memory\<rparr>"

theorem kfree_merges_witness:
  "\<exists>h' xs'. kfree three_blocks (memory + 64 + hdr_size) = Some h' \<and>
     free_post three_blocks [memory, memory + 64, memory + 192] (memory + 64) h' xs' \<and> coalesced h' xs'"
  by (rule kfree_merges)
    (simp_all add: tiled_def coalesced_def is_free_def three_blocks_def arena_defs)

lemma malloc_exhausted_aux:
  assumes "tiled h xs" and "next_start h \<in> set xs"
    and none: "\<forall>x \<in> set xs. next_start h \<le> x \<longrightarrow> \<not> fits h (size_needed req) x"
  shows "find_fit h (size_needed req) (next_start h) = Some 0" and "next_start h \<noteq> 0"
proof -
  obtain pre rest where xs: "xs = pre @ next_start h # rest"
    and ge: "\<forall>x \<in> set xs. next_start h \<le> x \<longleftrightarrow> x \<in> set (next_start h # rest)"
    using assms(1,2) by (rule tiled_at_next_start)
  have "\<forall>x \<in> set (next_start h # rest). \<not> fits h (size_needed req) x"
    using none ge xs by auto
  then have "List.find (fits h (size_needed req)) (next_start h # rest) = None"
    by (auto simp: find_None_iff)
  with find_fit_list [of h pre "next_start h # rest"] assms(1) xs
  show "find_fit h (size_needed req) (next_start h) = Some 0" by simp
  show "next_start h \<noteq> 0" using tiled_nonzero [OF assms(1,2)] by (auto simp: arena_defs)
qed

text \<open>
  malloc with nothing to give. When no free block at or after the search pointer is large
  enough, malloc fails with NULL and an unchanged heap if the block at the search pointer is too
  small; otherwise it hands out that block although it is in use.
\<close>

theorem malloc_without_fit:
  assumes "tiled h xs" and "next_start h \<in> set xs"
    and "\<forall>x \<in> set xs. next_start h \<le> x \<longrightarrow> \<not> fits h (size_needed req) x"
  shows "if ms_size (hdr h (next_start h)) < size_needed req then malloc h req = Some (0, h)
         else \<not> is_free h (next_start h) \<and>
              (\<exists>h'. malloc h req = Some (next_start h + hdr_size, h'))"
proof (cases "ms_size (hdr h (next_start h)) < size_needed req")
  case True
  with malloc_exhausted_aux [OF assms] show ?thesis by (simp add: malloc_def)
next
  case False
  with malloc_exhausted_aux [OF assms] have "\<exists>h'. malloc h req = Some (next_start h + hdr_size, h')"
    by (simp add: malloc_def Let_def)
  with False assms(2,3) show ?thesis by (auto simp: fits_def)
qed

theorem malloc_without_fit_witness:
  "if ms_size (hdr boot_heap (next_start boot_heap)) < size_needed 0x200000
   then malloc boot_heap 0x200000 = Some (0, boot_heap)
   else \<not> is_free boot_heap (next_start boot_heap) \<and>
        (\<exists>h'. malloc boot_heap 0x200000 = Some (next_start boot_heap + hdr_size, h'))"
proof (rule malloc_without_fit)
  show "\<forall>x \<in> set [memory]. next_start boot_heap \<le> x \<longrightarrow> \<not> fits boot_heap (size_needed 0x200000) x"
    by (simp add: boot_heap_tiled fits_def size_needed_eq MEM_SIZE_def)
qed (simp_all add: boot_heap_tiled)

text \<open>
  the same memory handed out twice. From the boot heap, four allocations and one free end with
  the fourth allocation returning the address of the second, which is still in use.
\<close>

theorem malloc_double_allocation:
  "\<exists>p1 h1 p2 h2 h3 p3 h4 h5.
     malloc boot_heap 100 = Some (p1, h1) \<and> malloc h1 1048436 = Some (p2, h2) \<and>
     kfree h2 p1 = Some h3 \<and> malloc h3 100 = Some (p3, h4) \<and> p3 \<noteq> p2 \<and>
     malloc h4 1000 = Some (p2, h5)"
  by (simp add: malloc_def split_block_def kfree_def try_merge_back_def boot_heap_def malloc_init_def
      Let_def get_next_def arena_defs size_needed_eq find_fit.simps link_prev_def)

text \<open>
  malloc through NULL. Taking the last block exactly leaves the search pointer NULL, and every
  later malloc reads a header through it (no result); freeing the only block of the heap does too.
\<close>

theorem malloc_null_search:
  "\<exists>p h1. malloc boot_heap (MEM_SIZE - hdr_size) = Some (p, h1) \<and> next_start h1 = 0 \<and>
     (\<forall>req. malloc h1 req = None) \<and> kfree h1 p = None"
  by (simp add: malloc_def kfree_def try_merge_back_def boot_heap_def malloc_init_def
      Let_def get_next_def arena_defs size_needed_eq find_fit.simps)

end
