(* ===== verification/Commands.thy ===== *)
theory Commands
  imports Tfs_Cmd Hexdump Traps Clock Shell Malloc
begin

text \<open>
  What the commands of \<^verbatim>\<open>kernel/shell.c\<close> do, and \<^verbatim>\<open>init/init.c\<close>, which starts the kernel: the places where
  all components meet. A command gets its arguments as pointers. The addresses of arrays on the stack and
  of literals are parameters.
\<close>

section \<open>State\<close>

text \<open>The files, memory and console; the interrupt table and the ports; the heap.\<close>

record kernel =
  os :: sys
  irq :: machine
  arena :: heap

text \<open>Addresses: the arrays of 1024 and of 512 bytes of a command, the entry of \<^verbatim>\<open>ls\<close>, the arrays of
  \<^verbatim>\<open>hexdump\<close>, and the literals.\<close>

record places =
  buf1024 :: u32
  buf512 :: u32
  dirent_at :: u32
  hex_at :: u32
  text_at :: u32
  lit_at :: "string \<Rightarrow> u32"

definition report :: "(string \<times> u32 list) list \<Rightarrow> sys \<Rightarrow> sys option" where
  "report calls s = map_option (\<lambda>c. s\<lparr>tty := c\<rparr>) (prints (ram s) calls (tty s))"

section \<open>Commands that print\<close>

definition version_string :: string where
  "version_string = ''v0.7''"

definition about :: "places \<Rightarrow> sys \<Rightarrow> sys option" where
  "about p s = report
     [(''%s'', [lit_at p nl]),
      (tab @ ''thunix, a 32-bit operating system, made by Alexander.'' @ nl, []),
      (tab @ ''mostly written by c and little asm language.'' @ nl, []),
      (tab @ ''the lastest version is thunix-%s'' @ nl, [lit_at p version_string]),
      (tab @ ''the website is http://www.osdever.cn'' @ nl, []),
      (''%s'', [lit_at p nl]),
      (tab @ ''as the ram_fs we used, that's to say our all data crated.'' @ nl, []),
      (tab @ ''twill cleard after the shutdown'' @ nl, []),
      (tab @ ''so, it's just a test system, Yeah, that's it!'' @ nl, []),
      (nl @ tab @ ''That's it ...'' @ nl, []),
      (''%s'', [lit_at p nl])] s"

text \<open>The lines of \<^verbatim>\<open>help\<close>. The first one is itself printed with \<^verbatim>\<open>%s\<close>.\<close>

definition help_lines :: "string list" where
  "help_lines =
     [''thunix, version %s'' @ nl, nl,
      ''about'' @ tab @ tab @ ''something about thunix'' @ nl,
      ''clear           clear the screen'' @ nl,
      ''date            display the current date'' @ nl,
      ''help'' @ tab @ tab @ ''will print this page'' @ nl,
      ''hexdump'' @ tab @ tab @ ''dump the data or file as hex number'' @ nl,
      ''mkdir           will make a new directory'' @ nl,
      ''ls '' @ tab @ tab @ ''will list the '/' root driectory'' @ nl,
      ''halt            shut down the computer'' @ nl,
      ''hello'' @ tab @ tab @ ''a test command, just print 'hello thunix'' @ [CHR 0x27] @ nl,
      ''reboot          reboot the computer'' @ nl,
      ''version         print the current version'' @ nl]"

definition help_cmd :: "places \<Rightarrow> sys \<Rightarrow> sys option" where
  "help_cmd p s = report
     [(''%s'', [lit_at p nl]),
      (concat (replicate 13 ''%s''), map (lit_at p) help_lines @ [lit_at p version_string]),
      (''%s'', [lit_at p nl])] s"

definition version :: "places \<Rightarrow> sys \<Rightarrow> sys option" where
  "version p s = report [(''%s'' @ nl, [lit_at p version_string])] s"

text \<open>\<open>rounds\<close> are the readings of the clock.\<close>

definition date :: "(tm \<times> int) list \<Rightarrow> sys \<Rightarrow> sys option" where
  "date rounds s =
     (case get_current_time rounds of
        None \<Rightarrow> None
      | Some (t, _) \<Rightarrow>
          report [(''%d/%02d/%02d %d:%d:%d'' @ nl,
            map word_of_int [tm_year t + 2000, tm_mon t, tm_mday t, tm_hour t, tm_min t, tm_sec t])] s)"

definition pwd_cmd :: "places \<Rightarrow> sys \<Rightarrow> sys option" where
  "pwd_cmd p s =
     (case sys_getcwd (sv s) 512 of
        None \<Rightarrow> None
      | Some (ret, bytes) \<Rightarrow>
          let s = s\<lparr>ram := put_bytes (ram s) (unat (buf512 p)) bytes\<rparr> in
          report ((if ret < 0 then [(''pwd error: %d'' @ nl, [word_of_int ret])] else []) @
            [(''%s'' @ nl, [buf512 p])]) s)"

text \<open>\<open>entry\<close> is the program that is loaded.\<close>

definition exec :: "con prog \<Rightarrow> u32 \<Rightarrow> u32 list \<Rightarrow> sys \<Rightarrow> (int \<times> sys) option" where
  "exec entry file argv s =
     (case cstr (ram s) file of
        None \<Rightarrow> None
      | Some path \<Rightarrow>
          (case sys_execve entry (sv s) (ram s) path (Some argv) (tty s) of
             None \<Rightarrow> None
           | Some (err, m, v, c) \<Rightarrow>
               let s = s\<lparr>sv := v, ram := m, tty := c\<rparr> in
               map_option (Pair err) (if err < 0 then report [(''exec failed: %d'' @ nl, [word_of_int err])] s else Some s)))"

text \<open>The key that \<^verbatim>\<open>hello\<close> waits for is not looked at.\<close>

definition hello :: "sys \<Rightarrow> sys option" where
  "hello s = report [(''hello thunix'' @ nl, []), (''Press any key to continue...'', []), (nl, [])] s"

definition dump :: "places \<Rightarrow> u32 \<Rightarrow> u32 \<Rightarrow> sys \<Rightarrow> sys option" where
  "dump p data len s =
     map_option (\<lambda>c. s\<lparr>tty := c\<rparr>) (hexdump (hex_at p) (text_at p) data (sint len) (ram s) (tty s))"

text \<open>\<^verbatim>\<open>Debug\<close> of \<^verbatim>\<open>kernel/fd.c\<close> reads a sector of the bitmap into its array and dumps a part of it.\<close>

definition Debug_fd :: "bool \<Rightarrow> places \<Rightarrow> sys \<Rightarrow> sys option" where
  "Debug_fd bounce p s =
     (case floppy_read bounce (dsk (fsv (sv s))) 838 (get_bytes (ram s) (unat (buf512 p)) sector_size) of
        (_, buf) \<Rightarrow> dump p (buf512 p) 128 (s\<lparr>ram := put_bytes (ram s) (unat (buf512 p)) buf\<rparr>))"

definition debug_command :: "u32 \<Rightarrow> u32 list \<Rightarrow> sys \<Rightarrow> sys option" where
  "debug_command command argv s = report ((''command = %s'' @ nl, [command]) #
     map (\<lambda>i. (''argv[%d] = %s'' @ nl, [word_of_nat i, argv ! i])) [0..<length argv]) s"

section \<open>Running a command\<close>

text \<open>
  The call that \<^verbatim>\<open>run_command\<close> makes once it has chosen: \<open>argv\<close> are the pointers to the words of the
  line. \<open>Halted\<close>: the machine stays in the loop of \<^verbatim>\<open>panic\<close>.
\<close>

datatype verdict = Back kernel | Halted kernel

definition arg_at :: "u32 list \<Rightarrow> nat \<Rightarrow> u32" where
  "arg_at argv i = (if i < length argv then argv ! i else 0)"

text \<open>The array \<^verbatim>\<open>argv\<close>, which \<^verbatim>\<open>parse_command\<close> has cleared: null pointers follow the words.\<close>

definition argv_array :: "u32 list \<Rightarrow> u32 list" where
  "argv_array argv = argv @ replicate (MAX_OPTION - length argv) 0"

text \<open>What the machine gives: the readings of the clock, a loaded program, the result \<^verbatim>\<open>tfs_unlink\<close> does not set.\<close>

record world =
  rounds :: "(tm \<times> int) list"
  entry :: "con prog"
  junk :: int
  bounce :: bool

definition on_sys :: "(sys \<Rightarrow> sys option) \<Rightarrow> kernel \<Rightarrow> verdict option" where
  "on_sys f k = map_option (\<lambda>s. Back (k\<lparr>os := s\<rparr>)) (f (os k))"

definition stop_with ::
  "(mem \<Rightarrow> u32 \<Rightarrow> machine \<Rightarrow> con \<Rightarrow> (machine \<times> con) option) \<Rightarrow> u32 \<Rightarrow> kernel \<Rightarrow> verdict option" where
  "stop_with f msg k = map_option (\<lambda>(i, c). Halted (k\<lparr>irq := i, os := (os k)\<lparr>tty := c\<rparr>\<rparr>))
     (f (ram (os k)) msg (irq k) (tty (os k)))"

fun perform :: "world \<Rightarrow> places \<Rightarrow> u32 list \<Rightarrow> action \<Rightarrow> kernel \<Rightarrow> verdict option" where
  "perform w p argv About k = on_sys (about p) k"
| "perform w p argv (Cat _) k = on_sys (cat (buf1024 p) (arg_at argv 1)) k"
| "perform w p argv (Cd _) k = on_sys (cd (arg_at argv 1)) k"
| "perform w p argv Clear k = on_sys (\<lambda>s. Some (s\<lparr>tty := cls (tty s)\<rparr>)) k"
| "perform w p argv (Cp _ _) k = on_sys (cp (buf1024 p) (arg_at argv 1) (arg_at argv 2)) k"
| "perform w p argv Date k = on_sys (date (rounds w)) k"
| "perform w p argv (Exec _) k = on_sys (\<lambda>s. map_option snd (exec (entry w) (arg_at argv 1) (tl (argv_array argv)) s)) k"
| "perform w p argv Halt k = stop_with halt (lit_at p ''Thunix doesn't know how to halt this machine yet!'') k"
| "perform w p argv Hello k = on_sys hello k"
| "perform w p argv Help k = on_sys (help_cmd p) k"
| "perform w p argv Hexdump_usage k = on_sys (report [(''hexdump usage: hexdump 'mem_addr or string' length'' @ nl, [])]) k"
| "perform w p argv (Hexdump_addr a n) k = on_sys (dump p a n) k"
| "perform w p argv (Hexdump_string _ n) k =
     on_sys (\<lambda>s. Option.bind (report [(''Not a valid memory addrss, try hexdump it as string'' @ nl, [])] s)
       (dump p (arg_at argv 1) n)) k"
| "perform w p argv Mkdir_usage k = on_sys (report [(''mkdir usage: mkdir dir'' @ nl, [])]) k"
| "perform w p argv (Mkdir _) k = on_sys (cmd_mkdir (arg_at argv 1)) k"
| "perform w p argv (Rmdir _) k = on_sys (cmd_rmdir (arg_at argv 1)) k"
| "perform w p argv (Rm _) k = on_sys (rm (junk w) (arg_at argv 1)) k"
| "perform w p argv (Touch _) k = on_sys (touch (arg_at argv 1)) k"
| "perform w p argv (Ls _) k =
     on_sys (ls (dirent_at p) (if length argv = 1 then lit_at p ''.'' else arg_at argv 1)) k"
| "perform w p argv Pwd k = on_sys (pwd_cmd p) k"
| "perform w p argv Version k = on_sys (version p) k"
| "perform w p argv Reboot k = stop_with reboot (lit_at p ''Sorry, reboot doesn't supported...'') k"
| "perform w p argv Debug k = on_sys (Debug_fd (bounce w) p) k"
| "perform w p argv Unknown k =
     on_sys (report [(''unknown command, please type 'help' for more information'' @ nl, [])]) k"

section \<open>Start of the kernel\<close>

definition drive_type :: "string list" where
  "drive_type = [''no floppy drive'', ''360kb 5.25in floppy drive'', ''1.2mb 5.25in floppy drive'',
     ''720kb 3.5in'', ''1.44mb 3.5in'', ''2.88mb 3.5in'']"

text \<open>\<open>c\<close> is what the CMOS holds; it counts drive types that the table of six does not have.\<close>

definition detect_floppy_drive :: "u8 \<Rightarrow> sys \<Rightarrow> sys option" where
  "detect_floppy_drive c s =
     (let high = unat (drop_bit 4 c); low = unat (c AND 0xF) in
      if high \<ge> length drive_type \<or> low \<ge> length drive_type then None
      else report [(''Floppy drive A is an:'' @ nl, []), (drive_type ! high, []),
        (nl @ ''Floppy drive B is an:'' @ nl, []), (drive_type ! low, []), (nl, [])] s)"

definition con_msg :: string where "con_msg = ''Console initialization ...''"
definition kb_msg :: string where "kb_msg = ''Keyboard initialization ...''"
definition time_msg :: string where "time_msg = ''Timer clock initialization ...''"
definition flp_msg :: string where "flp_msg = ''Floppy initialization ...''"

definition report_ok :: "places \<Rightarrow> kernel \<Rightarrow> kernel option" where
  "report_ok p k = map_option (\<lambda>s. k\<lparr>os := s\<rparr>) (report [(tab @ tab @ ''%s'' @ nl, [lit_at p ''[OK]''])] (os k))"

definition announce :: "places \<Rightarrow> string \<Rightarrow> kernel \<Rightarrow> kernel option" where
  "announce p msg k = map_option (\<lambda>s. k\<lparr>os := s\<rparr>) (report [(''%s'', [lit_at p msg])] (os k))"

text \<open>\<open>mount\<close> is the result of \<^verbatim>\<open>fs_init\<close>; when nothing can be mounted, the start goes on without files.\<close>

definition start_files :: "places \<Rightarrow> vfs option option \<Rightarrow> kernel \<Rightarrow> kernel option" where
  "start_files p mount k =
     (case report [(''fs system initialiaztion...'', [])] (os k) of
        None \<Rightarrow> None
      | Some s \<Rightarrow>
          (case mount of
             None \<Rightarrow> None
           | Some None \<Rightarrow> Some (k\<lparr>os := s\<rparr>)
           | Some (Some v) \<Rightarrow> report_ok p (k\<lparr>os := s\<lparr>sv := v\<rparr>\<rparr>)))"

definition banner :: "string list" where
  "banner = [nl, tab @ ''**************************'' @ nl, tab @ ''*                        *'' @ nl,
     tab @ ''*   Welcome to Thunix    *'' @ nl, tab @ ''*                        *'' @ nl,
     tab @ ''**************************'' @ nl, tab @ ''Type 'help' for more information'' @ nl, nl]"

text \<open>Up to the prompt of the shell.\<close>

definition init ::
  "replies \<Rightarrow> (handler \<Rightarrow> u32) \<Rightarrow> places \<Rightarrow> (tm \<times> int) list \<Rightarrow> vfs option option \<Rightarrow> kernel \<Rightarrow> (kernel \<times> shell) option" where
  "init reply adr p rds mount k =
     (let k = k\<lparr>arena := malloc_init (arena k)\<rparr>;
          k = k\<lparr>irq := trap_init reply adr (irq k)\<rparr>;
          k = k\<lparr>os := (os k)\<lparr>tty := con_init (tty (os k))\<rparr>\<rparr> in
      Option.bind (announce p kb_msg k) (\<lambda>k.
      let k = k\<lparr>irq := keyboard_init reply adr (irq k)\<rparr> in
      Option.bind (report_ok p k) (\<lambda>k.
      Option.bind (announce p time_msg k) (\<lambda>k.
      let k = k\<lparr>irq := timer_init reply adr 100 (irq k)\<rparr> in
      Option.bind (report_ok p k) (\<lambda>k.
      Option.bind (report [(''Getting Current time ....'', [])] (os k)) (\<lambda>s.
      Option.bind (get_current_time rds) (\<lambda>_.
      Option.bind (report_ok p (k\<lparr>os := s\<rparr>)) (\<lambda>k.
      Option.bind (announce p flp_msg k) (\<lambda>k.
      let k = k\<lparr>irq := floppy_init reply adr (irq k)\<rparr> in
      Option.bind (report_ok p k) (\<lambda>k.
      Option.bind (start_files p mount k) (\<lambda>k.
      Option.bind (report (map (\<lambda>t. (t, [])) banner) (os k)) (\<lambda>s.
      Some (k\<lparr>os := s\<rparr>, shell_init (tty s))))))))))))))"

section \<open>Printing of the start\<close>

text \<open>The literals lie where the compiler put them.\<close>

definition literals :: "places \<Rightarrow> mem \<Rightarrow> string list \<Rightarrow> bool" where
  "literals p m ts \<longleftrightarrow> (\<forall>t \<in> set ts. str_at m (unat (lit_at p t)) (map of_char t))"

lemma report_string:
  assumes "str_at (ram s) (unat q) t" and "{37, 0} \<inter> set (map of_char a @ map of_char b) = ({} :: u8 set)"
    and "length a + length t + length b < printk_buf"
  shows "report ((a @ ''%s'' @ b, [q]) # calls) s =
    report calls (s\<lparr>tty := con_write (map of_char a @ t @ map of_char b) (tty s)\<rparr>)"
  by (simp add: report_def printk_string [OF assms, simplified] option.map_comp comp_def)

lemma report_plain:
  assumes "set (map of_char t) \<inter> {37, 0 :: u8} = {}" and "length t < printk_buf"
  shows "report ((t, args) # calls) s = report calls (s\<lparr>tty := con_write (map of_char t) (tty s)\<rparr>)"
  unfolding report_def prints_plain [OF assms] by (simp add: option.map_comp comp_def)

lemma report_done: "report [] s = Some s"
  by (simp add: report_def)

lemma report_texts:
  "(\<forall>t \<in> set ts. set (map of_char t) \<inter> {37, 0 :: u8} = {} \<and> length t < printk_buf) \<Longrightarrow>
   report (map (\<lambda>t. (t, [])) ts) s = Some (s\<lparr>tty := fold con_write (map (map of_char) ts) (tty s)\<rparr>)"
  by (induction ts arbitrary: s) (simp_all add: report_done report_plain)

definition say_on :: "u8 list \<Rightarrow> kernel \<Rightarrow> kernel" where
  "say_on t k = k\<lparr>os := (os k)\<lparr>tty := con_write t (tty (os k))\<rparr>\<rparr>"

lemma say_on_frame [simp]:
  "irq (say_on t k) = irq k" "arena (say_on t k) = arena k" "sv (os (say_on t k)) = sv (os k)"
  "ram (os (say_on t k)) = ram (os k)" "tty (os (say_on t k)) = con_write t (tty (os k))"
  by (simp_all add: say_on_def)

definition ok_line :: "u8 list" where
  "ok_line = [9, 9] @ map of_char ''[OK]'' @ [10]"

lemma report_ok_says:
  assumes "literals p (ram (os k)) (''[OK]'' # ts)"
  shows "report_ok p k = Some (say_on ok_line k)"
proof -
  have "str_at (ram (os k)) (unat (lit_at p ''[OK]'')) (map of_char ''[OK]'')" using assms by (simp add: literals_def)
  from report_string [OF this, of "tab @ tab" nl "[]"] show ?thesis
    by (simp add: report_ok_def report_done say_on_def ok_line_def printk_buf_def)
qed

lemma announce_says:
  assumes "literals p (ram (os k)) ts" and "msg \<in> set ts" and "length msg < printk_buf"
  shows "announce p msg k = Some (say_on (map of_char msg) k)"
proof -
  have "str_at (ram (os k)) (unat (lit_at p msg)) (map of_char msg)" using assms(1,2) by (simp add: literals_def)
  from report_string [OF this, of "[]" "[]" "[]"] show ?thesis using assms(3)
    by (simp add: announce_def report_done say_on_def)
qed

text \<open>
  \<^verbatim>\<open>help\<close> shows its lines as they stand: the first one with the directive \<^verbatim>\<open>%s\<close> in it, the number of the
  version being an argument too many.
\<close>

lemma help_shows_directive:
  assumes "literals p (ram s) (nl # help_lines)"
  shows "help_cmd p s = Some (s\<lparr>tty := fold con_write [[10], concat (map (map of_char) help_lines), [10]] (tty s)\<rparr>) \<and>
    hd help_lines = ''thunix, version %s'' @ nl"
proof -
  have n: "report ((''%s'', [lit_at p nl]) # calls) s' = report calls (s'\<lparr>tty := con_write [10] (tty s')\<rparr>)"
    if "ram s' = ram s" for calls s'
    using report_string [of s' "lit_at p nl" "[10]" "[]" "[]"] assms that by (simp add: literals_def printk_buf_def)
  have "list_all2 (\<lambda>q t. str_at (ram s) (unat q) t) (map (lit_at p) help_lines) (map (map of_char) help_lines)"
    using assms by (simp add: list_all2_conv_all_nth literals_def)
  note l = vsprintf_loop_strings [OF this, of "[0]" "[lit_at p version_string]" "[]" "[]", unfolded append_Nil]
  have len: "length help_lines = 13" by (simp add: help_lines_def)
  have f: "lit (concat (replicate 13 ''%s'')) = concat (replicate 13 [37, 115]) @ [0]"
    by (simp add: lit_def map_concat)
  have "length (concat (map (map of_char) help_lines) :: u8 list) + 1 \<le> printk_buf"
    by (simp add: help_lines_def printk_buf_def)
  then have "printk (ram s) (lit (concat (replicate 13 ''%s''))) (map (lit_at p) help_lines @ [lit_at p version_string]) c =
      Some (int (length (concat (map (map of_char) help_lines) :: u8 list)), con_write (concat (map (map of_char) help_lines)) c)" for c
    using l by (simp add: printk_def vsprintf_def f len vsprintf_loop.simps [of _ "[0]"])
  then have "report ((concat (replicate 13 ''%s''), map (lit_at p) help_lines @ [lit_at p version_string]) # calls) s' =
      report calls (s'\<lparr>tty := con_write (concat (map (map of_char) help_lines)) (tty s')\<rparr>)" if "ram s' = ram s" for calls s'
    using that by (simp only: report_def prints.simps option.case prod.case) (simp add: option.map_comp comp_def)
  then show ?thesis by (simp only: help_cmd_def n) (simp add: n report_done help_lines_def)
qed

text \<open>What the start writes to the console.\<close>

definition start_texts :: "u8 list list" where
  "start_texts = [map of_char kb_msg, ok_line, map of_char time_msg, ok_line,
     map of_char ''Getting Current time ....'', ok_line, map of_char flp_msg, ok_line,
     map of_char ''fs system initialiaztion...'', ok_line] @ map (map of_char) banner"

lemma malloc_init_tiled: "tiled (malloc_init h) [memory]" "is_free (malloc_init h) memory"
  by (simp_all add: tiled_def malloc_init_def arena_defs is_free_def)

lemma start_harmless: "\<forall>bs \<in> set (start_texts @ [map of_char ''thunix $ '']). \<forall>c \<in> set bs. harmless c"
  by (simp add: start_texts_def ok_line_def kb_msg_def time_msg_def flp_msg_def banner_def harmless_def)

section \<open>Properties\<close>


text \<open>A memory with literals, each 4096 times its length from the beginning.\<close>

definition lit_memory :: "string list \<Rightarrow> mem" where
  "lit_memory ts a = (case find (\<lambda>t. length t = a div 4096) ts of
     None \<Rightarrow> 0 | Some t \<Rightarrow> if a mod 4096 < length t then of_char (t ! (a mod 4096)) else 0)"

definition lit_places :: places where
  "lit_places = \<lparr>buf1024 = 0, buf512 = 0, dirent_at = 0, hex_at = 0, text_at = 0,
     lit_at = (\<lambda>t. 4096 * word_of_nat (length t))\<rparr>"

lemma lit_memory_at:
  assumes "find (\<lambda>u. length u = length t) ts = Some t" and "length t < 4096" and "0 \<notin> set (map of_char t :: u8 list)"
  shows "str_at (lit_memory ts) (unat (lit_at lit_places t)) (map of_char t)"
proof -
  have u: "unat (lit_at lit_places t) = 4096 * length t"
  proof -
    have e: "(4096 * word_of_nat (length t) :: u32) = word_of_nat (4096 * length t)" by simp
    show ?thesis unfolding lit_places_def places.select_convs e using assms(2) by (subst unat_of_nat_u32) simp_all
  qed
  define q where "q = 4096 * length t"
  have "lit_memory ts (q + i) = (if i < length t then of_char (t ! i) else 0)" if "i \<le> length t" for i
    using that assms(1,2) by (simp add: lit_memory_def q_def)
  then show ?thesis unfolding u q_def [symmetric] using assms(3) by (simp add: str_at_def)
qed


end
