(* ===== verification/Session.thy ===== *)
theory Session
  imports Commands
begin

text \<open>
  The kernel at its prompt: \<^verbatim>\<open>enter_command\<close> and \<^verbatim>\<open>parse_command\<close> of \<^verbatim>\<open>kernel/shell.c\<close> with the command
  buffer in memory and the command that was chosen carried out. \<open>Shell\<close> has the editing and the
  splitting of a line, \<open>Commands\<close> what a command does; here they are put together with the files, the
  console and memory. \<open>at\<close> is the address of the command buffer.
\<close>

section \<open>The operations\<close>

text \<open>The shell as it lies in the kernel, and back.\<close>

definition the_shell :: "u32 \<Rightarrow> nat \<Rightarrow> kernel \<Rightarrow> shell" where
  "the_shell at i k =
     \<lparr>index = i, command_buffer = get_bytes (ram (os k)) (unat at) BUFFER_SIZE, scon = tty (os k), ran_cmds = []\<rparr>"

definition put_shell :: "u32 \<Rightarrow> shell \<Rightarrow> kernel \<Rightarrow> kernel" where
  "put_shell at sh k =
     k\<lparr>os := (os k)\<lparr>ram := put_bytes (ram (os k)) (unat at) (command_buffer sh), tty := scon sh\<rparr>\<rparr>"

text \<open>The prompt with its index, or the loop in which a command ends.\<close>

datatype typing = Prompt nat kernel | Stopped kernel

text \<open>The enter key on a line that is not empty.\<close>

definition run_line :: "world \<Rightarrow> places \<Rightarrow> u32 \<Rightarrow> nat \<Rightarrow> kernel \<Rightarrow> typing option" where
  "run_line w p at i k =
     (if i \<ge> BUFFER_SIZE then None
      else
        let sh = the_shell at i k;
            sh = shell_putchar 10 (sh\<lparr>command_buffer := (command_buffer sh)[i := 0]\<rparr>)
        in
          case parse_args (command_buffer sh) of
            None \<Rightarrow> None
          | Some (buf, argv) \<Rightarrow>
              (case run_command buf (map (\<lambda>a. Some (drop a buf)) argv) of
                 None \<Rightarrow> None
               | Some a \<Rightarrow>
                   (case perform w p (map (\<lambda>a. at + word_of_nat a) argv) a
                      (put_shell at (sh\<lparr>command_buffer := buf\<rparr>) k) of
                      None \<Rightarrow> None
                    | Some (Halted k) \<Rightarrow> Some (Stopped k)
                    | Some (Back k) \<Rightarrow>
                        let sh = reset_line (the_shell at i k) in Some (Prompt (index sh) (put_shell at sh k)))))"

definition type_key :: "world \<Rightarrow> places \<Rightarrow> u32 \<Rightarrow> u8 \<Rightarrow> nat \<Rightarrow> kernel \<Rightarrow> typing option" where
  "type_key w p at key i k =
     (if key = 10 \<and> i \<noteq> 0 then run_line w p at i k
      else map_option (\<lambda>sh. Prompt (index sh) (put_shell at sh k)) (enter_command key (the_shell at i k)))"

fun type_keys :: "world \<Rightarrow> places \<Rightarrow> u32 \<Rightarrow> u8 list \<Rightarrow> nat \<Rightarrow> kernel \<Rightarrow> typing option" where
  "type_keys w p at [] i k = Some (Prompt i k)"
| "type_keys w p at (key # keys) i k =
     (case type_key w p at key i k of
        Some (Prompt i k) \<Rightarrow> type_keys w p at keys i k
      | r \<Rightarrow> r)"

section \<open>Typing a line\<close>

lemma type_keys_append:
  "type_keys w p at xs i k = Some (Prompt j l) \<Longrightarrow> type_keys w p at (xs @ ys) i k = type_keys w p at ys j l"
  by (induction xs arbitrary: i k) (auto split: option.splits typing.splits)

lemma get_bytes_nth [simp]: "i < n \<Longrightarrow> get_bytes m a n ! i = m (a + i)"
  by (simp add: get_bytes_def)

lemma length_get_bytes_at [simp]: "length (get_bytes m a n) = n"
  by (simp add: get_bytes_def)

lemma put_one: "i < n \<Longrightarrow> put_bytes m a ((get_bytes m a n)[i := x]) = m(a + i := x)"
  by (rule ext) (auto simp: put_bytes_def nth_list_update)

lemma put_bytes_Cons: "put_bytes (m(a := x)) (a + 1) xs = put_bytes m a (x # xs)"
  by (rule ext) (auto simp: put_bytes_def nth_Cons')

lemma put_bytes_at_Nil [simp]: "put_bytes m a [] = m"
  by (rule ext) (auto simp: put_bytes_def)

lemma put_bytes_single: "put_bytes m a [x] = m(a := x)"
  using put_bytes_Cons [of m a x "[]"] by simp

definition plain_keys :: "u8 list \<Rightarrow> bool" where
  "plain_keys ks \<longleftrightarrow> 10 \<notin> set ks \<and> 8 \<notin> set ks \<and> 3 \<notin> set ks"

definition echoed :: "u32 \<Rightarrow> nat \<Rightarrow> u8 list \<Rightarrow> kernel \<Rightarrow> kernel" where
  "echoed at i ks k =
     k\<lparr>os := (os k)\<lparr>ram := put_bytes (ram (os k)) (unat at + i) ks,
                    tty := fold (\<lambda>x. con_write [x]) ks (tty (os k))\<rparr>\<rparr>"

lemma ucast_key: "ucast (ucast (x :: u8) :: u32) = x"
  by (rule byte_of_int)

lemma type_plain_keys:
  "plain_keys ks \<Longrightarrow> i + length ks \<le> BUFFER_SIZE \<Longrightarrow>
   type_keys w p at ks i k = Some (Prompt (i + length ks) (echoed at i ks k))"
proof (induction ks arbitrary: i k)
  case Nil
  then show ?case by (simp add: echoed_def)
next
  case (Cons x ks)
  have "type_key w p at x i k = Some (Prompt (i + 1) (echoed at i [x] k))"
    using Cons.prems
    by (simp add: type_key_def enter_command_def plain_keys_def the_shell_def shell_putchar_def put_shell_def echoed_def
        putchar_def ucast_key put_one put_bytes_single)
  moreover have "type_keys w p at ks (i + 1) (echoed at i [x] k) =
      Some (Prompt (i + 1 + length ks) (echoed at (i + 1) ks (echoed at i [x] k)))"
    using Cons.prems by (intro Cons.IH) (simp_all add: plain_keys_def)
  moreover have "echoed at (i + 1) ks (echoed at i [x] k) = echoed at i (x # ks) k"
    using put_bytes_Cons [of "ram (os k)" "unat at + i" x ks] by (simp add: echoed_def put_bytes_single)
  ultimately show ?case by simp
qed

text \<open>The keys of a line of words.\<close>

fun spaced :: "u8 list list \<Rightarrow> u8 list" where
  "spaced [] = []"
| "spaced [w] = w"
| "spaced (w # v # ws) = w @ 32 # spaced (v # ws)"

lemma line_spaced: "line 32 ws rest = spaced ws @ 0 # rest"
  by (induction ws rule: spaced.induct) simp_all

lemma length_line: "length (line sep ws rest) = length (spaced ws) + 1 + length rest"
  by (induction ws rule: spaced.induct) simp_all

text \<open>What lies in the buffer behind the line, and the kernel when the command is called.\<close>

definition line_rest :: "u32 \<Rightarrow> u8 list list \<Rightarrow> kernel \<Rightarrow> u8 list" where
  "line_rest at ws k =
     get_bytes (ram (os k)) (unat at + length (spaced ws) + 1) (BUFFER_SIZE - length (spaced ws) - 1)"

definition typed_line :: "u32 \<Rightarrow> u8 list list \<Rightarrow> kernel \<Rightarrow> kernel" where
  "typed_line at ws k =
     k\<lparr>os := (os k)\<lparr>ram := put_bytes (ram (os k)) (unat at) (line 0 ws (line_rest at ws k)),
                    tty := con_write [10] (fold (\<lambda>x. con_write [x]) (spaced ws) (tty (os k)))\<rparr>\<rparr>"

definition pointers :: "u32 \<Rightarrow> u8 list list \<Rightarrow> u32 list" where
  "pointers at ws = map (\<lambda>a. at + word_of_nat a) (offsets 0 ws)"

definition prompted :: "u32 \<Rightarrow> nat \<Rightarrow> kernel \<Rightarrow> kernel" where
  "prompted at n k = put_shell at (reset_line (the_shell at n k)) k"

definition chosen :: "u32 \<Rightarrow> u8 list list \<Rightarrow> kernel \<Rightarrow> action option" where
  "chosen at ws k =
     (let buf = line 0 ws (line_rest at ws k) in run_command buf (map (\<lambda>a. Some (drop a buf)) (offsets 0 ws)))"

lemma put_bytes_over: "length xs \<le> length ys \<Longrightarrow> put_bytes (put_bytes m a xs) a ys = put_bytes m a ys"
  by (rule ext) (auto simp: put_bytes_def)

lemma typed_buffer:
  assumes "length (spaced ws) < BUFFER_SIZE"
  shows "(get_bytes (ram (os (echoed at 0 (spaced ws) k))) (unat at) BUFFER_SIZE)[length (spaced ws) := 0] =
    line 32 ws (line_rest at ws k)"
proof (rule nth_equalityI)
  show l: "length ((get_bytes (ram (os (echoed at 0 (spaced ws) k))) (unat at) BUFFER_SIZE)[length (spaced ws) := 0]) =
      length (line 32 ws (line_rest at ws k))"
    using assms by (simp add: length_line line_rest_def)
  fix i assume "i < length ((get_bytes (ram (os (echoed at 0 (spaced ws) k))) (unat at) BUFFER_SIZE)[length (spaced ws) := 0])"
  then show "(get_bytes (ram (os (echoed at 0 (spaced ws) k))) (unat at) BUFFER_SIZE)[length (spaced ws) := 0] ! i =
      line 32 ws (line_rest at ws k) ! i"
    by (auto simp: line_spaced line_rest_def echoed_def nth_list_update nth_append nth_Cons' put_bytes_at)
qed

lemma index_reset: "index (reset_line s) = 0"
  by (simp add: reset_line_def say_def)

text \<open>
  Typing a line of words and the enter key calls the command with pointers to the words, and then
  shows the prompt.
\<close>

lemma typed_line_runs:
  assumes "ws \<noteq> []" and "\<forall>v \<in> set ws. is_word v \<and> plain_keys v" and "length ws \<le> MAX_OPTION"
    and "length (spaced ws) < BUFFER_SIZE"
  shows "type_keys w p at (spaced ws @ [10]) 0 k =
    (case chosen at ws k of
       None \<Rightarrow> None
     | Some a \<Rightarrow>
         (case perform w p (pointers at ws) a (typed_line at ws k) of
            None \<Rightarrow> None
          | Some (Halted k) \<Rightarrow> Some (Stopped k)
          | Some (Back k) \<Rightarrow> Some (Prompt 0 (prompted at (length (spaced ws)) k))))"
proof -
  let ?n = "length (spaced ws)" and ?k = "echoed at 0 (spaced ws) k"
  have plain: "plain_keys (spaced ws)" using assms(2)
    by (induction ws rule: spaced.induct) (auto simp: plain_keys_def)
  have n: "?n \<noteq> 0" using assms(1,2) by (cases ws rule: spaced.cases) (auto simp: is_word_def)
  have a: "parse_args (line 32 ws (line_rest at ws k)) = Some (line 0 ws (line_rest at ws k), offsets 0 ws)"
    using assms(1-3) by (intro parse_args_words) auto
  have "put_shell at (shell_putchar 10 (the_shell at ?n ?k\<lparr>command_buffer := b\<rparr>)\<lparr>command_buffer := line 0 ws (line_rest at ws k)\<rparr>) ?k =
      typed_line at ws k" for b
    using put_bytes_over [of "spaced ws" "line 0 ws (line_rest at ws k)"]
    by (simp add: put_shell_def the_shell_def shell_putchar_def putchar_def echoed_def typed_line_def length_line)
  then have "type_key w p at 10 ?n ?k =
    (case chosen at ws k of
       None \<Rightarrow> None
     | Some a \<Rightarrow>
         (case perform w p (pointers at ws) a (typed_line at ws k) of
            None \<Rightarrow> None
          | Some (Halted k) \<Rightarrow> Some (Stopped k)
          | Some (Back k) \<Rightarrow> Some (Prompt 0 (prompted at ?n k))))"
    using assms(4) n a typed_buffer [OF assms(4), of at k]
    by (simp add: type_key_def run_line_def chosen_def pointers_def prompted_def Let_def the_shell_def
        index_reset cong: option.case_cong verdict.case_cong)
  then show ?thesis
    using type_plain_keys [OF plain, of 0 w p at k] assms(4)
    by (subst type_keys_append) (auto split: option.splits typing.splits verdict.splits)
qed

section \<open>The words in memory\<close>

lemma is_str_put_bytes:
  assumes "is_str (drop a xs) v"
  shows "str_at (put_bytes m p xs) (p + a) v"
proof -
  obtain rest where d: "drop a xs = v @ 0 # rest" and z: "0 \<notin> set v" using assms by (auto simp: is_str_def)
  have l: "a + length v < length xs" using arg_cong [OF d, of length] by simp
  have x: "xs ! (a + i) = (v @ 0 # rest) ! i" if "a + i < length xs" for i using that d by (metis less_imp_le nth_drop le_add1 order.strict_trans1 add.commute)
  show ?thesis unfolding str_at_def
  proof (intro conjI allI impI z)
    show "put_bytes m p xs (p + a + i) = v ! i" if "i < length v" for i
      using that l x [of i] put_bytes_at [of m p xs "a + i"] by (simp add: nth_append add.assoc)
    show "put_bytes m p xs (p + a + length v) = 0"
      using l x [of "length v"] put_bytes_at [of m p xs "a + length v"] by (simp add: add.assoc)
  qed
qed

lemma offsets_range:
  "i < length ws \<Longrightarrow> p + i \<le> offsets p ws ! i \<and> offsets p ws ! i + length (ws ! i) \<le> p + length (spaced ws)"
proof (induction ws arbitrary: p i rule: spaced.induct)
  case (3 w v ws)
  show ?case
  proof (cases i)
    case (Suc j)
    have "j < length (v # ws)" using "3.prems" Suc by simp
    from "3.IH" [OF this, of "p + length w + 1"] show ?thesis
      by (simp only: Suc offsets.simps(2) [of p w] nth_Cons_Suc spaced.simps) simp
  qed simp
qed simp_all

lemma unat_pointer:
  assumes "i < length ws" and "unat at + BUFFER_SIZE < 2 ^ 32" and "length (spaced ws) < BUFFER_SIZE"
  shows "unat (pointers at ws ! i) = unat at + offsets 0 ws ! i"
proof -
  have "offsets 0 ws ! i < BUFFER_SIZE" using offsets_range [OF assms(1), of 0] assms(3) by simp
  then have l: "unat at + offsets 0 ws ! i < 2 ^ 32" using assms(2) by linarith
  have "at + word_of_nat (offsets 0 ws ! i) = word_of_nat (unat at + offsets 0 ws ! i)" by simp
  then show ?thesis using assms(1) l by (simp only: pointers_def nth_map length_offsets) (rule unat_of_nat_u32)
qed

lemma word_in_memory:
  assumes "i < length ws" and "\<forall>v \<in> set ws. is_word v" and "unat at + BUFFER_SIZE < 2 ^ 32"
    and "length (spaced ws) < BUFFER_SIZE"
  shows "str_at (ram (os (typed_line at ws k))) (unat (pointers at ws ! i)) (ws ! i)"
proof -
  have "\<forall>v \<in> set ws. 0 \<notin> set v" using assms(2) by (auto simp: is_word_def)
  then have "is_str (drop (offsets 0 ws ! i) (line 0 ws (line_rest at ws k))) (ws ! i)"
    using offsets_words [of i ws "[]" "line_rest at ws k"] assms(1) by simp
  then show ?thesis unfolding unat_pointer [OF assms(1,3,4)] by (simp add: typed_line_def is_str_put_bytes)
qed

lemma is_command_word:
  assumes "is_str buf v" and "0 \<notin> set (map of_char t :: u8 list)"
  shows "is_command buf t \<longleftrightarrow> v = map of_char t"
proof -
  have "is_str (lit t) (map of_char t)" using assms(2) by (auto simp: is_str_def lit_def)
  from strcmp_is_str [OF assms(1) this] show ?thesis by (auto simp: is_command_def)
qed

lemma first_word: "ws \<noteq> [] \<Longrightarrow> \<forall>v \<in> set ws. is_word v \<Longrightarrow> is_str (line 0 ws rest) (hd ws)"
  by (cases ws rule: spaced.cases) (auto simp: is_str_def is_word_def)

section \<open>A session\<close>



end
