(* ===== verification/Syscall.thy ===== *)
theory Syscall
  imports Printk
begin

text \<open>
  System calls: the table of \<^verbatim>\<open>kernel/sys.c\<close>, the entry \<^verbatim>\<open>syscall_interrupt\<close> of \<^verbatim>\<open>kernel/asm.s\<close>, the stubs
  of \<^verbatim>\<open>include/syscall.h\<close>, and \<^verbatim>\<open>printf\<close> of \<^verbatim>\<open>user/printf.c\<close> on top of them.
\<close>

section \<open>The table\<close>

text \<open>An operation gets the three registers that may hold arguments.\<close>

type_synonym syscall = "mem \<Rightarrow> u32 \<times> u32 \<times> u32 \<Rightarrow> con \<Rightarrow> (int \<times> con) option"

definition sys_conwrite :: syscall where
  "sys_conwrite m args c =
     (case args of (str, _, _) \<Rightarrow>
        map_option (\<lambda>e. (0, con_write (map m [unat str..<e]) c)) (str_end m (unat str)))"

definition sys_test1 :: syscall where
  "sys_test1 m args c =
     (case args of (nr, _, _) \<Rightarrow>
        map_option (\<lambda>c. (0, c)) (prints m [(''Hello test with 1 argument: %d'' @ nl, [nr])] c))"

definition sys_test2 :: syscall where
  "sys_test2 m args c =
     (case args of (nr, str, _) \<Rightarrow>
        map_option (\<lambda>c. (0, c)) (prints m [(''Hello test with 2 arguments: %d'' @ tab @ '' %s'' @ nl, [nr, str])] c))"

definition syscall_table :: "syscall list" where
  "syscall_table = [sys_conwrite, sys_test1, sys_test2]"

section \<open>The entry\<close>

record cpu =
  eax :: u32
  ebx :: u32
  ecx :: u32
  edx :: u32
  esi :: u32
  edi :: u32
  ebp :: u32
  ds :: u32
  es :: u32
  fs :: u32
  stack :: "u32 list"

definition push :: "u32 \<Rightarrow> cpu \<Rightarrow> cpu" where
  "push w s = s\<lparr>stack := w # stack s\<rparr>"

definition pop :: "(u32 \<Rightarrow> cpu \<Rightarrow> cpu) \<Rightarrow> cpu \<Rightarrow> cpu" where
  "pop put s = put (hd (stack s)) (s\<lparr>stack := tl (stack s)\<rparr>)"

definition push_all :: "cpu \<Rightarrow> cpu" where
  "push_all s =
     (let s = push (eax s) s; s = push (ecx s) s; s = push (edx s) s; s = push (ebx s) s;
          s = push (edi s) s; s = push (esi s) s; s = push (ebp s) s;
          s = push (ds s) s; s = push (es s) s
      in push (fs s) s)"

definition syscall_ret :: "cpu \<Rightarrow> cpu" where
  "syscall_ret s =
     (let s = pop (\<lambda>w s. s\<lparr>fs := w\<rparr>) s; s = pop (\<lambda>w s. s\<lparr>es := w\<rparr>) s; s = pop (\<lambda>w s. s\<lparr>ds := w\<rparr>) s;
          s = pop (\<lambda>w s. s\<lparr>ebp := w\<rparr>) s; s = pop (\<lambda>w s. s\<lparr>esi := w\<rparr>) s; s = pop (\<lambda>w s. s\<lparr>edi := w\<rparr>) s;
          s = pop (\<lambda>w s. s\<lparr>ebx := w\<rparr>) s; s = pop (\<lambda>w s. s\<lparr>edx := w\<rparr>) s; s = pop (\<lambda>w s. s\<lparr>ecx := w\<rparr>) s
      in pop (\<lambda>w s. s\<lparr>eax := w\<rparr>) s)"

text \<open>
  The called function leaves its result in \<^verbatim>\<open>eax\<close> and may change \<^verbatim>\<open>ecx\<close> and \<^verbatim>\<open>edx\<close>: \<open>j\<close>. The number 3
  passes the test and calls what lies behind the table: no result.
\<close>

definition syscall_interrupt :: "u32 \<times> u32 \<Rightarrow> mem \<Rightarrow> cpu \<Rightarrow> con \<Rightarrow> (cpu \<times> con) option" where
  "syscall_interrupt j m s c =
     (let nr = unat (eax s); s = push_all s in
      if nr > 3 then Some (syscall_ret (s\<lparr>eax := word_of_int (- errno_num ENOSYS)\<rparr>), c)
      else if nr \<ge> length syscall_table then None
      else
        let s = push (edx s) s; s = push (ecx s) s; s = push (ebx s) s in
        (case (syscall_table ! nr) m (stack s ! 0, stack s ! 1, stack s ! 2) c of
           None \<Rightarrow> None
         | Some (r, c) \<Rightarrow>
             let s = s\<lparr>eax := word_of_int r, ecx := fst j, edx := snd j\<rparr>;
                 s = s\<lparr>stack := drop 3 (stack s)\<rparr>
             in Some (syscall_ret s, c)))"

section \<open>Stubs\<close>

definition NR_conwrite :: nat where "NR_conwrite = 0"
definition NR_test1 :: nat where "NR_test1 = 1"
definition NR_test2 :: nat where "NR_test2 = 2"

text \<open>\<^verbatim>\<open>_syscall1\<close> and \<^verbatim>\<open>_syscall2\<close>; the registers that are not set hold what they held.\<close>

definition syscall_result :: "cpu \<Rightarrow> int" where
  "syscall_result s = (let res = sint (eax s) in if res \<ge> 0 then res else - 1)"

definition syscall1 :: "nat \<Rightarrow> u32 \<Rightarrow> u32 \<times> u32 \<Rightarrow> mem \<Rightarrow> cpu \<Rightarrow> con \<Rightarrow> (int \<times> con) option" where
  "syscall1 nr a j m s c =
     map_option (\<lambda>(s, c). (syscall_result s, c))
       (syscall_interrupt j m (s\<lparr>eax := word_of_nat nr, ebx := a\<rparr>) c)"

definition syscall2 :: "nat \<Rightarrow> u32 \<Rightarrow> u32 \<Rightarrow> u32 \<times> u32 \<Rightarrow> mem \<Rightarrow> cpu \<Rightarrow> con \<Rightarrow> (int \<times> con) option" where
  "syscall2 nr a b j m s c =
     map_option (\<lambda>(s, c). (syscall_result s, c))
       (syscall_interrupt j m (s\<lparr>eax := word_of_nat nr, ebx := a, ecx := b\<rparr>) c)"

definition conwrite :: "u32 \<Rightarrow> u32 \<times> u32 \<Rightarrow> mem \<Rightarrow> cpu \<Rightarrow> con \<Rightarrow> (int \<times> con) option" where
  "conwrite str = syscall1 NR_conwrite str"

definition test1 :: "u32 \<Rightarrow> u32 \<times> u32 \<Rightarrow> mem \<Rightarrow> cpu \<Rightarrow> con \<Rightarrow> (int \<times> con) option" where
  "test1 nr = syscall1 NR_test1 nr"

definition test2 :: "u32 \<Rightarrow> u32 \<Rightarrow> u32 \<times> u32 \<Rightarrow> mem \<Rightarrow> cpu \<Rightarrow> con \<Rightarrow> (int \<times> con) option" where
  "test2 nr str = syscall2 NR_test2 nr str"

section \<open>Output of programs\<close>

text \<open>
  \<open>buf\<close> is the address of the array of 1024 bytes on the stack; the text and its terminator go there
  and are read again by the kernel.
\<close>

definition printf :: "u32 \<Rightarrow> u8 list \<Rightarrow> u32 list \<Rightarrow> u32 \<times> u32 \<Rightarrow> mem \<Rightarrow> cpu \<Rightarrow> con \<Rightarrow> (int \<times> mem \<times> con) option" where
  "printf buf fmt args j m s c =
     (case vsprintf m fmt args of
        None \<Rightarrow> None
      | Some (i, text, wr) \<Rightarrow>
          if length text > 1024 then None
          else let m = put_bytes m (unat buf) text in
            map_option (\<lambda>(_, c). (i, m, c)) (conwrite buf j m s c))"

definition sprintf :: "mem \<Rightarrow> u8 list \<Rightarrow> u32 list \<Rightarrow> (int \<times> u8 list) option" where
  "sprintf m fmt args = map_option (\<lambda>(i, buf, wr). (i, buf)) (vsprintf m fmt args)"

section \<open>Lemmas\<close>

lemma ret_restores:
  assumes "stack s = fs t # es t # ds t # ebp t # esi t # edi t # ebx t # edx t # ecx t # eax t # stack t"
  shows "syscall_ret s = t"
  using assms by (simp add: syscall_ret_def pop_def Let_def)

lemma push_all_stack:
  "stack (push_all s) = fs s # es s # ds s # ebp s # esi s # edi s # ebx s # edx s # ecx s # eax s # stack s"
  "ebx (push_all s) = ebx s" "ecx (push_all s) = ecx s" "edx (push_all s) = edx s"
  by (simp_all add: push_all_def push_def Let_def)

text \<open>Every register comes back as it was, \<^verbatim>\<open>eax\<close> too.\<close>

lemma syscall_interrupt_frame:
  "syscall_interrupt j m s c =
     (if unat (eax s) > 3 then Some (s, c)
      else if unat (eax s) = 3 then None
      else map_option (\<lambda>(_, c). (s, c)) ((syscall_table ! unat (eax s)) m (ebx s, ecx s, edx s) c))"
proof -
  have l: "unat (eax s) \<ge> length syscall_table \<longleftrightarrow> unat (eax s) \<ge> 3" by (simp add: syscall_table_def numeral_3_eq_3)
  show ?thesis
    unfolding syscall_interrupt_def l Let_def
    by (auto simp: push_def push_all_stack intro!: ret_restores split: option.splits)
qed

text \<open>What a stub for the number \<open>nr\<close> does.\<close>

lemma syscall1_frame:
  assumes "nr < 2 ^ 31"
  shows "syscall1 nr a j m s c =
    (if nr > 3 then Some (int nr, c)
     else if nr = 3 then None
     else map_option (\<lambda>(_, c). (int nr, c)) ((syscall_table ! nr) m (a, ecx s, edx s) c))"
proof -
  have n: "unat (word_of_nat nr :: u32) = nr" "sint (word_of_nat nr :: u32) = int nr"
    using assms sint_small [of "word_of_nat nr"] by (simp_all add: unat_of_nat_u32)
  show ?thesis
    by (simp add: syscall1_def syscall_interrupt_frame n syscall_result_def option.map_comp comp_def case_prod_unfold)
qed

lemma conwrite_shows:
  assumes "str_at m (unat p) t"
  shows "conwrite p j m s c = Some (0, con_write t c)"
proof -
  have "map m [unat p..<unat p + length t] = t"
    using assms by (intro nth_equalityI) (simp_all add: str_at_def)
  then show ?thesis
    using str_end_correct [OF assms]
    by (simp add: conwrite_def NR_conwrite_def syscall1_frame syscall_table_def sys_conwrite_def)
qed

text \<open>The text reaches the console through the buffer, if it has no byte 0.\<close>

lemma printf_shows:
  assumes "vsprintf_loop m fmt args [] [] = Some (out, wr)" and "0 \<notin> set out"
  shows "printf buf fmt args j m s c =
    (if length out + 1 > 1024 then None
     else Some (int (length out), put_bytes m (unat buf) (out @ [0]), con_write out c))"
proof -
  have v: "vsprintf m fmt args = Some (int (length out), out @ [0], wr)" using assms(1) by (simp add: vsprintf_def)
  have "str_at (put_bytes m (unat buf) (out @ [0])) (unat buf) out"
    using assms(2) by (auto simp: str_at_def put_bytes_at nth_append in_set_conv_nth)
  from conwrite_shows [OF this] show ?thesis by (simp add: printf_def v Let_def)
qed

section \<open>Properties\<close>

text \<open>
  C29: the results of system calls are lost. A stub never gives what the kernel's function returned, nor
  the error for a number that is not in the table: \<^verbatim>\<open>eax\<close> comes back from the stack, so the result is
  the number of the call. Only the console tells what happened.
\<close>

theorem syscall_gives_its_number:
  assumes "nr < 2 ^ 31" and "nr \<noteq> 3"
  shows "syscall1 nr a j m s c =
    (if nr < 3 then map_option (\<lambda>(_, c). (int nr, c)) ((syscall_table ! nr) m (a, ecx s, edx s) c)
     else Some (int nr, c))"
  using assms by (simp add: syscall1_frame)

theorem syscall_gives_its_number_witness:
  "syscall1 77 0 (0, 0) (\<lambda>_. 0) \<lparr>eax = 0, ebx = 0, ecx = 0, edx = 0, esi = 0, edi = 0, ebp = 0, ds = 0, es = 0,
     fs = 0, stack = []\<rparr> (con_init undefined) = Some (77, con_init undefined)"
  using syscall_gives_its_number [of 77 0 "(0, 0)" "\<lambda>_. 0"] by simp

text \<open>
  C30: what a program prints with \<^verbatim>\<open>printf\<close> is what the kernel would print with \<^verbatim>\<open>printk\<close>, and both return
  the same, if the text has no byte 0; \<^verbatim>\<open>printf\<close> goes through its own buffer, the stub, the interrupt,
  the table and \<^verbatim>\<open>strlen\<close>. A text that does not fit overruns both.
\<close>

theorem printf_equals_printk:
  assumes "\<And>i text wr. vsprintf m fmt args = Some (i, text, wr) \<Longrightarrow> 0 \<notin> set (butlast text)"
  shows "map_option (\<lambda>(i, _, c). (i, c)) (printf buf fmt args j m s c) = printk m fmt args c"
proof (cases "vsprintf_loop m fmt args [] []")
  case None
  then show ?thesis by (simp add: printf_def printk_def vsprintf_def)
next
  case (Some r)
  obtain out wr where r: "r = (out, wr)" by force
  have v: "vsprintf m fmt args = Some (int (length out), out @ [0], wr)" using Some r by (simp add: vsprintf_def)
  then have "0 \<notin> set out" using assms by fastforce
  from printf_shows [OF Some [unfolded r] this] show ?thesis
    by (simp add: printk_def v printk_buf_def)
qed

theorem printf_equals_printk_witness:
  "\<exists>c'. map_option (\<lambda>(i, _, c). (i, c)) (printf 4096 (lit ''number of arguments'') [] (0, 0) (\<lambda>_. 0)
     \<lparr>eax = 0, ebx = 0, ecx = 0, edx = 0, esi = 0, edi = 0, ebp = 0, ds = 0, es = 0, fs = 0, stack = []\<rparr>
     (con_init undefined)) = Some (19, c')"
proof -
  have v: "vsprintf_loop (\<lambda>_. 0) (lit ''number of arguments'') [] [] [] = Some (map of_char ''number of arguments'', [])"
    using vsprintf_loop_plain [of "map of_char ''number of arguments''" "\<lambda>_. 0" "[]" "[]" "[]" "[]"] by (simp add: lit_def)
  have z: "0 \<notin> set (butlast (map of_char ''number of arguments'' @ [0 :: u8]))" by simp
  have e: "map_option (\<lambda>(i, _, c). (i, c)) (printf 4096 (lit ''number of arguments'') [] (0, 0) (\<lambda>_. 0) s (con_init undefined)) =
      printk (\<lambda>_. 0) (lit ''number of arguments'') [] (con_init undefined)" for s
    by (rule printf_equals_printk) (use v z in \<open>auto simp: vsprintf_def\<close>)
  show ?thesis unfolding e using v by (simp add: printk_def vsprintf_def printk_buf_def)
qed

end
