(* ===== verification/User.thy ===== *)
theory User
  imports Session Syscall
begin

text \<open>
  Programs: \<^verbatim>\<open>user/user-test.c\<close>, whose \<^verbatim>\<open>main\<close> prints its arguments with \<^verbatim>\<open>printf\<close> and the calls of
  \<^verbatim>\<open>user/usys.c\<close>, and what happens when it is started at the prompt: the shell, the path lookup, the
  loading of the file, the program, its system calls and the console together.
\<close>

section \<open>The test program\<close>

text \<open>
  Where the compiler and the machine put things: the array of \<^verbatim>\<open>printf\<close>, the registers when a system
  call is made and the two that it may change, and the literal of the last call.
\<close>

record placed =
  stack_buf :: u32
  regs :: cpu
  clobbered :: "u32 \<times> u32"
  hello_at :: u32

definition user_printf :: "placed \<Rightarrow> string \<Rightarrow> u32 list \<Rightarrow> mem \<Rightarrow> con \<Rightarrow> (mem \<times> con) option" where
  "user_printf u fmt args m c = map_option snd (printf (stack_buf u) (lit fmt) args (clobbered u) m (regs u) c)"

definition count_fmt :: string where
  "count_fmt = ''number of arguments: %d'' @ nl @ ''And they are:'' @ nl"

definition arg_fmt :: string where
  "arg_fmt = ''%s'' @ nl"

text \<open>The loop over the arguments from \<open>i\<close> on; behind the vector there is nothing to read.\<close>

fun show_args :: "placed \<Rightarrow> u32 list \<Rightarrow> nat \<Rightarrow> nat \<Rightarrow> mem \<Rightarrow> con \<Rightarrow> (mem \<times> con) option" where
  "show_args u argv i 0 m c = Some (m, c)"
| "show_args u argv i (Suc n) m c =
     (if i \<ge> length argv then None
      else case user_printf u arg_fmt [argv ! i] m c of
        None \<Rightarrow> None
      | Some (m, c) \<Rightarrow> show_args u argv (i + 1) n m c)"

definition user_main :: "placed \<Rightarrow> con prog" where
  "user_main u m argc argv v c =
     (case user_printf u count_fmt [word_of_int argc] m c of
        None \<Rightarrow> None
      | Some (m, c) \<Rightarrow>
          (case show_args u (case argv of None \<Rightarrow> [] | Some argv \<Rightarrow> argv) 0 (nat argc) m c of
             None \<Rightarrow> None
           | Some (m, c) \<Rightarrow>
               map_option (\<lambda>(_, c). (0, m, v, c)) (test2 512 (hello_at u) (clobbered u) m (regs u) c)))"

section \<open>What it prints\<close>

definition hello_text :: "u8 list" where
  "hello_text = map of_char ''Hello thunix system call''"

text \<open>For less than ten arguments their number is one digit.\<close>

definition count_text :: "nat \<Rightarrow> u8 list" where
  "count_text n = map of_char ''number of arguments: '' @ [48 + word_of_nat n, 10] @ map of_char ''And they are:'' @ [10]"

definition test2_text :: "u8 list" where
  "test2_text = map of_char ''Hello test with 2 arguments: 512'' @ [9, 32] @ hello_text @ [10]"

lemma digit_shown:
  assumes "n < 10"
  shows "number (word_of_nat n) 10 (- 1) (- 1) SIGN = Some [48 + word_of_nat n]"
proof -
  have "n = 0 \<or> n = 1 \<or> n = 2 \<or> n = 3 \<or> n = 4 \<or> n = 5 \<or> n = 6 \<or> n = 7 \<or> n = 8 \<or> n = 9" using assms by auto
  then show ?thesis
    by (elim disjE) (simp_all add: number_signed digit_loop.simps do_div_def upper_digits_def)
qed

lemma directive_number: "number w 10 (- 1) (- 1) SIGN = Some out \<Longrightarrow> directive m k (100 # rest) (w # args) = Some (out, [], args, rest)"
  by (simp add: directive_def conv_def is_digit_def fmt_flags Let_def)

text \<open>A string outside the array of \<^verbatim>\<open>printf\<close> is still there after a call.\<close>

definition away :: "placed \<Rightarrow> nat \<Rightarrow> nat \<Rightarrow> bool" where
  "away u p n \<longleftrightarrow> unat (stack_buf u) + 1024 \<le> p \<or> p + n < unat (stack_buf u)"

lemma str_at_away:
  "str_at m p t \<Longrightarrow> away u p (length t) \<Longrightarrow> length xs \<le> 1024 \<Longrightarrow> str_at (put_bytes m (unat (stack_buf u)) xs) p t"
  by (erule str_at_cong) (auto simp: away_def put_bytes_def)

lemma printf_count:
  assumes "n < 10"
  shows "user_printf u count_fmt [word_of_nat n] m c =
    Some (put_bytes m (unat (stack_buf u)) (count_text n @ [0]), con_write (count_text n) c)"
proof -
  let ?a = "map of_char ''number of arguments: '' :: u8 list" and ?b = "[10] @ map of_char ''And they are:'' @ [10] :: u8 list"
  have l: "lit count_fmt = ?a @ 37 # 100 # ?b @ [0]"
    by (simp add: lit_def count_fmt_def)
  have "vsprintf_loop m (?a @ 37 # 100 # ?b @ [0]) [word_of_nat n] [] [] = vsprintf_loop m (37 # 100 # ?b @ [0]) [word_of_nat n] ?a []"
    by (subst vsprintf_loop_prefix) simp_all
  also have "\<dots> = vsprintf_loop m (?b @ [0]) [] (?a @ [48 + word_of_nat n]) []"
    using directive_number [OF digit_shown [OF assms]] by (subst vsprintf_loop.simps) simp
  also have "\<dots> = Some ((?a @ [48 + word_of_nat n]) @ ?b, [])" by (rule vsprintf_loop_plain) simp_all
  finally have v: "vsprintf_loop m (?a @ 37 # 100 # ?b @ [0]) [word_of_nat n] [] [] = Some (count_text n, [])"
    by (simp add: count_text_def)
  have "(48 + word_of_nat n :: u8) \<noteq> 0"
  proof -
    have "n = 0 \<or> n = 1 \<or> n = 2 \<or> n = 3 \<or> n = 4 \<or> n = 5 \<or> n = 6 \<or> n = 7 \<or> n = 8 \<or> n = 9" using assms by auto
    then show ?thesis by (elim disjE) simp_all
  qed
  then have "0 \<notin> set (count_text n)" by (simp add: count_text_def)
  from printf_shows [OF v this, of "stack_buf u" "clobbered u" "regs u" c] show ?thesis
    unfolding user_printf_def l by (simp add: count_text_def)
qed

lemma printf_line:
  assumes "str_at m (unat p) t" and "length t + 2 \<le> 1024"
  shows "user_printf u arg_fmt [p] m c =
    Some (put_bytes m (unat (stack_buf u)) ((t @ [10]) @ [0]), con_write (t @ [10]) c)"
proof -
  have l: "lit arg_fmt = [37, 115, 10, 0]" by (simp add: lit_def arg_fmt_def)
  have "vsprintf_loop m [37, 115, 10, 0] [p] [] [] = vsprintf_loop m ([10] @ 0 # []) [] t []"
    using directive_string [OF assms(1)] by (subst vsprintf_loop.simps) simp
  also have "\<dots> = Some (t @ [10], [])" by (rule vsprintf_loop_plain) simp_all
  finally have v: "vsprintf_loop m [37, 115, 10, 0] [p] [] [] = Some (t @ [10], [])" .
  have "0 \<notin> set (t @ [10])" using assms(1) by (simp add: str_at_def)
  from printf_shows [OF v this, of "stack_buf u" "clobbered u" "regs u" c] show ?thesis
    using assms(2) unfolding user_printf_def l by simp
qed

lemma test2_shows:
  assumes "str_at m (unat q) hello_text"
  shows "\<exists>r. test2 512 q j m s c = Some (r, con_write test2_text c)"
proof -
  let ?a = "map of_char ''Hello test with 2 arguments: '' :: u8 list" and ?five = "[53, 49, 50] :: u8 list"
  have l: "lit (''Hello test with 2 arguments: %d'' @ tab @ '' %s'' @ nl) = ?a @ 37 # 100 # [9, 32] @ 37 # 115 # [10] @ [0]"
    by (simp add: lit_def)
  have n: "number 512 10 (- 1) (- 1) SIGN = Some ?five"
    by (simp add: number_signed digit_loop.simps do_div_def upper_digits_def)
  have "vsprintf_loop m (?a @ 37 # 100 # [9, 32] @ 37 # 115 # [10] @ [0]) [512, q] [] [] =
      vsprintf_loop m (37 # 100 # [9, 32] @ 37 # 115 # [10] @ [0]) [512, q] ?a []"
    by (subst vsprintf_loop_prefix) simp_all
  also have "\<dots> = vsprintf_loop m ([9, 32] @ 37 # 115 # [10] @ [0]) [q] (?a @ ?five) []"
    using directive_number [OF n] by (subst vsprintf_loop.simps) simp
  also have "\<dots> = vsprintf_loop m (37 # 115 # [10] @ [0]) [q] ((?a @ ?five) @ [9, 32]) []"
    by (subst vsprintf_loop_prefix) simp_all
  also have "\<dots> = vsprintf_loop m ([10] @ 0 # []) [] (((?a @ ?five) @ [9, 32]) @ hello_text) []"
    using directive_string [OF assms] by (subst vsprintf_loop.simps) simp
  also have "\<dots> = Some ((((?a @ ?five) @ [9, 32]) @ hello_text) @ [10], [])" by (rule vsprintf_loop_plain) simp_all
  finally have v: "vsprintf_loop m (?a @ 37 # 100 # [9, 32] @ 37 # 115 # [10] @ [0]) [512, q] [] [] = Some (test2_text, [])"
    by (simp add: test2_text_def)
  have "length test2_text + 1 \<le> printk_buf" by (simp add: test2_text_def hello_text_def printk_buf_def)
  then have k: "printk m (lit (''Hello test with 2 arguments: %d'' @ tab @ '' %s'' @ nl)) [512, q] c =
      Some (int (length test2_text), con_write test2_text c)"
    unfolding l printk_def vsprintf_def v by simp
  have "sys_test2 m (512, q, e) c = Some (0, con_write test2_text c)" for e
    unfolding sys_test2_def by (simp add: k del: append_Cons append.simps)
  then show ?thesis
    by (simp add: test2_def syscall2_def NR_test2_def syscall_interrupt_frame syscall_table_def)
qed

section \<open>The whole program\<close>

lemma show_args_ok:
  assumes "i + length ts \<le> length argv"
    and "\<forall>j < length ts. str_at m (unat (argv ! (i + j))) (ts ! j) \<and> away u (unat (argv ! (i + j))) (length (ts ! j)) \<and>
      length (ts ! j) + 2 \<le> 1024"
  shows "\<exists>m'. show_args u argv i (length ts) m c = Some (m', fold con_write (map (\<lambda>t. t @ [10]) ts) c) \<and>
    (\<forall>p t. str_at m p t \<longrightarrow> away u p (length t) \<longrightarrow> str_at m' p t)"
  using assms
proof (induction ts arbitrary: i m c)
  case (Cons t ts)
  have t: "str_at m (unat (argv ! i)) t" "length t + 2 \<le> 1024" using Cons.prems(2) by force+
  let ?m = "put_bytes m (unat (stack_buf u)) ((t @ [10]) @ [0])"
  have keep: "str_at ?m p x" if "str_at m p x" "away u p (length x)" for p x
    using that t(2) by (intro str_at_away) simp_all
  have "\<forall>j < length ts. str_at ?m (unat (argv ! (i + 1 + j))) (ts ! j) \<and> away u (unat (argv ! (i + 1 + j))) (length (ts ! j)) \<and>
      length (ts ! j) + 2 \<le> 1024"
  proof (intro allI impI)
    fix j assume "j < length ts"
    then show "str_at ?m (unat (argv ! (i + 1 + j))) (ts ! j) \<and> away u (unat (argv ! (i + 1 + j))) (length (ts ! j)) \<and>
        length (ts ! j) + 2 \<le> 1024"
      using Cons.prems(2) [rule_format, of "Suc j"] keep by simp
  qed
  moreover have "i + 1 + length ts \<le> length argv" using Cons.prems(1) by simp
  ultimately obtain m' where "show_args u argv (i + 1) (length ts) ?m (con_write (t @ [10]) c) =
      Some (m', fold con_write (map (\<lambda>t. t @ [10]) ts) (con_write (t @ [10]) c))"
    "\<forall>p t. str_at ?m p t \<longrightarrow> away u p (length t) \<longrightarrow> str_at m' p t" using Cons.IH by blast
  then show ?case using Cons.prems(1) keep by (auto simp: printf_line [OF t])
qed simp

text \<open>The arguments and the literal lie outside the array of \<^verbatim>\<open>printf\<close>.\<close>

lemma user_main_shows:
  assumes "length ts < 10" and "length ts \<le> length argv"
    and "\<forall>j < length ts. str_at m (unat (argv ! j)) (ts ! j) \<and> away u (unat (argv ! j)) (length (ts ! j)) \<and>
      length (ts ! j) + 2 \<le> 1024"
    and "str_at m (unat (hello_at u)) hello_text" and "away u (unat (hello_at u)) (length hello_text)"
  shows "\<exists>m'. user_main u m (int (length ts)) (Some argv) v c = Some (0, m', v, con_write test2_text
    (fold con_write (map (\<lambda>t. t @ [10]) ts) (con_write (count_text (length ts)) c)))"
proof -
  let ?m = "put_bytes m (unat (stack_buf u)) (count_text (length ts) @ [0])"
  have keep: "str_at ?m p x" if "str_at m p x" "away u p (length x)" for p x
    using that by (intro str_at_away) (simp_all add: count_text_def)
  have "\<forall>j < length ts. str_at ?m (unat (argv ! (0 + j))) (ts ! j) \<and> away u (unat (argv ! (0 + j))) (length (ts ! j)) \<and>
      length (ts ! j) + 2 \<le> 1024" using assms(3) keep by simp
  moreover have "0 + length ts \<le> length argv" using assms(2) by simp
  ultimately obtain m' where s: "show_args u argv 0 (length ts) ?m (con_write (count_text (length ts)) c) =
      Some (m', fold con_write (map (\<lambda>t. t @ [10]) ts) (con_write (count_text (length ts)) c))"
    "\<forall>p t. str_at ?m p t \<longrightarrow> away u p (length t) \<longrightarrow> str_at m' p t"
    using show_args_ok by blast
  have "str_at m' (unat (hello_at u)) hello_text" using s(2) keep assms(4,5) by blast
  from test2_shows [OF this, of "clobbered u" "regs u"] show ?thesis
    by (auto simp: user_main_def printf_count [OF assms(1)] s(1) simp del: append_Cons append.simps)
qed

section \<open>Started from the prompt\<close>

lemma count_args_null: "0 \<notin> set ps \<Longrightarrow> count_args (ps @ 0 # qs) = Some (int (length ps))"
  by (induction ps) auto

text \<open>A literal of the program: the file has it where it will be loaded.\<close>

definition in_file :: "u8 list \<Rightarrow> nat \<Rightarrow> u8 list \<Rightarrow> nat \<Rightarrow> bool" where
  "in_file t p bytes n \<longleftrightarrow> exec_buf \<le> p \<and> p + length t < exec_buf + n \<and>
     (\<forall>i \<le> length t. bytes ! (p - exec_buf + i) = (t @ [0]) ! i)"

lemma in_file_loaded:
  assumes "in_file t p bytes n" and "0 \<notin> set t" and "\<forall>i < n. m (exec_buf + i) = bytes ! i"
  shows "str_at m p t"
proof -
  have "m (p + i) = (t @ [0]) ! i" if "i \<le> length t" for i
  proof -
    have "p - exec_buf + i < n" "exec_buf + (p - exec_buf + i) = p + i" using assms(1) that by (auto simp: in_file_def)
    then show ?thesis using assms(1,3) that by (metis in_file_def)
  qed
  from this [of "length t"] this show ?thesis using assms(2) by (simp add: str_at_def nth_append)
qed

text \<open>The words of the line as the vector of a program: the first one is gone, null pointers follow.\<close>

lemma argument_vector:
  assumes "length ws < MAX_OPTION" and "ws \<noteq> []" and "unat at + BUFFER_SIZE < 2 ^ 32" and "length (spaced ws) < BUFFER_SIZE"
  defines "argv \<equiv> tl (argv_array (pointers at ws))"
  shows "count (Some argv) = Some (int (length ws - 1))" and "length ws - 1 \<le> length argv"
    and "j < length ws - 1 \<Longrightarrow> argv ! j = pointers at ws ! Suc j"
proof -
  have l: "length (pointers at ws) = length ws" by (simp add: pointers_def)
  obtain z where z: "MAX_OPTION - length ws = Suc z" using assms(1) by (metis Suc_diff_Suc)
  have v: "argv = tl (pointers at ws) @ 0 # replicate z 0"
    using assms(2) l by (simp add: argv_def argv_array_def z tl_append split: list.splits) (metis length_0_conv)
  have "pointers at ws ! Suc j \<noteq> 0" if "Suc j < length ws" for j
    using unat_pointer [OF that assms(3,4)] offsets_range [OF that, of 0] by auto
  then have "0 \<notin> set (tl (pointers at ws))" by (auto simp: in_set_conv_nth l nth_tl)
  from count_args_null [OF this] show "count (Some argv) = Some (int (length ws - 1))" by (simp add: count_def v l)
  show "length ws - 1 \<le> length argv" by (simp add: v l)
  show "j < length ws - 1 \<Longrightarrow> argv ! j = pointers at ws ! Suc j" by (simp add: v nth_append l nth_tl)
qed

lemma away_word:
  assumes "away u (unat at) BUFFER_SIZE" and "i < length ws" and "unat at + BUFFER_SIZE < 2 ^ 32"
    and "length (spaced ws) < BUFFER_SIZE"
  shows "away u (unat (pointers at ws ! i)) (length (ws ! i))"
    and "unat (pointers at ws ! i) + length (ws ! i) < unat at + BUFFER_SIZE"
  unfolding unat_pointer [OF assms(2-4)]
  using assms(1,4) offsets_range [OF assms(2), of 0] by (auto simp: away_def)

text \<open>\<^verbatim>\<open>exec\<close> with the words of a typed line, the first of which is its own name.\<close>

lemma exec_typed_line:
  assumes "ws = cmd # name # args" and "\<forall>v \<in> set ws. is_word v" and "length args < 8" and "length (spaced ws) < BUFFER_SIZE"
    and "unat at + BUFFER_SIZE \<le> exec_buf" and "s = os (typed_line at ws k)"
    and "sys_open (sv s) (name @ [0]) 0 = Some (int fd, v)"
    and "readable v fd \<lparr>o_inode = a, o_offset = 0\<rparr> inode bs"
    and "in_file hello_text (unat (hello_at u)) (content (fsv v) bs) (unat (i_size inode))"
    and "away u (unat at) BUFFER_SIZE" and "away u (unat (hello_at u)) (length hello_text)"
  shows "\<exists>s'. exec (user_main u) (arg_at (pointers at ws) 1) (tl (argv_array (pointers at ws))) s = Some (0, s') \<and>
    tty s' = con_write test2_text (fold con_write (map (\<lambda>t. t @ [10]) (name # args))
      (con_write (count_text (Suc (length args))) (tty s)))"
proof -
  have at: "unat at + BUFFER_SIZE < 2 ^ 32" using assms(5) by (simp add: exec_buf_def)
  have ws: "length ws < MAX_OPTION" "ws \<noteq> []" "length ws - 1 = Suc (length args)" "length (pointers at ws) = length ws"
    using assms(1,3) by (simp_all add: MAX_OPTION_def pointers_def)
  note arg = argument_vector [OF ws(1,2) at assms(4)]
  have w: "str_at (ram s) (unat (pointers at ws ! i)) (ws ! i)" if "i < length ws" for i
    using word_in_memory [OF that assms(2) at assms(4)] by (simp add: assms(6))
  have path: "cstr (ram s) (arg_at (pointers at ws) 1) = Some (name @ [0])"
    using w [of 1] cstr_at assms(1) by (simp add: arg_at_def pointers_def)
  have argc: "count (Some (tl (argv_array (pointers at ws)))) = Some (int (length (name # args)))" using arg(1) ws(3) by simp
  obtain m v2 where e: "sys_execve (user_main u) (sv s) (ram s) (name @ [0]) (Some (tl (argv_array (pointers at ws)))) (tty s) =
      user_main u m (int (length (name # args))) (Some (tl (argv_array (pointers at ws)))) v2 (tty s)"
    "\<forall>i < unat (i_size inode). m (exec_buf + i) = content (fsv v) bs ! i" "\<forall>x < exec_buf. m x = ram s x"
    by (rule sys_execve_enters [OF assms(7,8) argc])
  have "\<forall>j < length (name # args). str_at m (unat (tl (argv_array (pointers at ws)) ! j)) ((name # args) ! j) \<and>
      away u (unat (tl (argv_array (pointers at ws)) ! j)) (length ((name # args) ! j)) \<and> length ((name # args) ! j) + 2 \<le> 1024"
  proof (intro allI impI)
    fix j assume j: "j < length (name # args)"
    then have s: "Suc j < length ws" "j < length ws - 1" "ws ! Suc j = (name # args) ! j" using assms(1) by simp_all
    note a = away_word [OF assms(10) s(1) at assms(4), unfolded s(3)]
    have "str_at m (unat (pointers at ws ! Suc j)) ((name # args) ! j)"
      using w [OF s(1)] unfolding s(3) by (rule str_at_cong) (use a(2) assms(5) e(3) in auto)
    moreover have "length ((name # args) ! j) + 2 \<le> 1024"
      using offsets_range [OF s(1), of 0] assms(4) unfolding s(3) by (simp add: BUFFER_SIZE_def)
    ultimately show "str_at m (unat (tl (argv_array (pointers at ws)) ! j)) ((name # args) ! j) \<and>
        away u (unat (tl (argv_array (pointers at ws)) ! j)) (length ((name # args) ! j)) \<and> length ((name # args) ! j) + 2 \<le> 1024"
      unfolding arg(3) [OF s(2)] using a(1) by blast
  qed
  moreover have "str_at m (unat (hello_at u)) hello_text"
    by (rule in_file_loaded [OF assms(9) _ e(2)]) (simp add: hello_text_def)
  moreover have "length (name # args) < 10" "length (name # args) \<le> length (tl (argv_array (pointers at ws)))"
    using assms(3) arg(2) ws(3) by simp_all
  ultimately obtain m' where r: "user_main u m (int (length (name # args))) (Some (tl (argv_array (pointers at ws)))) v2 (tty s) =
      Some (0, m', v2, con_write test2_text (fold con_write (map (\<lambda>t. t @ [10]) (name # args))
        (con_write (count_text (length (name # args))) (tty s))))"
    using user_main_shows assms(11) by blast
  show ?thesis unfolding exec_def path option.case e(1) r by simp
qed

section \<open>Properties\<close>

text \<open>
  C21: Typing \<open>exec\<close>, the name of the test program and its arguments at the prompt runs the program. When
  the name opens as a sound file that has the literal of the program at its place, and the array of \<^verbatim>\<open>printf\<close>
  touches neither the literal nor the command buffer, the console has got the keys, the number of
  arguments with the name among them, the name and each argument on a line of its own, the line of
  the system call with its two arguments, and the next prompt, in this order.
\<close>

theorem typed_exec_runs_program:
  assumes "\<forall>v \<in> set (name # args). is_word v \<and> plain_keys v" and "length args < 8" and "length (spaced (name # args)) < 500"
    and "unat at + BUFFER_SIZE \<le> exec_buf" and "sys_open (sv (os k)) (name @ [0]) 0 = Some (int fd, v)"
    and "readable v fd \<lparr>o_inode = a, o_offset = 0\<rparr> inode bs" and "entry w = user_main u"
    and "in_file hello_text (unat (hello_at u)) (content (fsv v) bs) (unat (i_size inode))"
    and "away u (unat at) BUFFER_SIZE" and "away u (unat (hello_at u)) (length hello_text)"
  shows "\<exists>k'. type_keys w p at (map of_char ''exec '' @ spaced (name # args) @ [10]) 0 k = Some (Prompt 0 k') \<and>
    tty (os k') = con_write (map of_char ''thunix $ '') (con_write test2_text
      (fold con_write (map (\<lambda>t. t @ [10]) (name # args)) (con_write (count_text (Suc (length args))) (con_write [10]
        (fold (\<lambda>x. con_write [x]) (map of_char ''exec '' @ spaced (name # args)) (tty (os k)))))))"
proof -
  let ?ws = "map of_char ''exec'' # name # args"
  let ?k = "typed_line at ?ws k"
  have sp: "spaced ?ws = map of_char ''exec '' @ spaced (name # args)" by simp
  have ws: "?ws \<noteq> []" "\<forall>v \<in> set ?ws. is_word v \<and> plain_keys v" "length ?ws \<le> MAX_OPTION"
    "length (spaced ?ws) < BUFFER_SIZE" "\<forall>v \<in> set ?ws. is_word v" unfolding sp
    using assms(1-3) by (simp_all add: is_word_def plain_keys_def MAX_OPTION_def BUFFER_SIZE_def)
  have "\<exists>x. chosen at ?ws k = Some (Exec x)"
    using is_command_word [OF first_word [OF ws(1,5), of "line_rest at ?ws k"]]
    by (simp add: chosen_def run_command_def Let_def)
  then obtain x where ch: "chosen at ?ws k = Some (Exec x)" by blast
  have "sys_open (sv (os ?k)) (name @ [0]) 0 = Some (int fd, v)" using assms(5) by (simp add: typed_line_def)
  from exec_typed_line [OF refl ws(5) assms(2) ws(4) assms(4) refl this assms(6,8-10)] obtain s' where
    s': "exec (user_main u) (arg_at (pointers at ?ws) 1) (tl (argv_array (pointers at ?ws))) (os ?k) = Some (0, s')"
    "tty s' = con_write test2_text (fold con_write (map (\<lambda>t. t @ [10]) (name # args))
      (con_write (count_text (Suc (length args))) (tty (os ?k))))" by blast
  have "type_keys w p at (spaced ?ws @ [10]) 0 k = Some (Prompt 0 (prompted at (length (spaced ?ws)) (?k\<lparr>os := s'\<rparr>)))"
    unfolding typed_line_runs [OF ws(1-4)] using ch s'(1) assms(7) by (simp add: on_sys_def)
  moreover have "tty (os (prompted at n (?k\<lparr>os := s'\<rparr>))) = con_write (map of_char ''thunix $ '') (tty s')" for n
    by (simp add: prompted_def put_shell_def reset_line_def say_def the_shell_def)
  moreover have "tty (os ?k) = con_write [10] (fold (\<lambda>x. con_write [x]) (map of_char ''exec '' @ spaced (name # args)) (tty (os k)))"
    unfolding sp [symmetric] by (simp add: typed_line_def)
  ultimately show ?thesis using s'(2) unfolding sp append_assoc by metis
qed

theorem typed_exec_runs_program_witness:
  "\<exists>w p k k'. type_keys w p 8192 (map of_char ''exec '' @ spaced [[47], [97]] @ [10]) 0 k = Some (Prompt 0 k') \<and>
    tty (os k') = con_write (map of_char ''thunix $ '') (con_write test2_text
      (fold con_write [[47, 10], [97, 10]] (con_write (count_text 2) (con_write [10]
        (fold (\<lambda>x. con_write [x]) (map of_char ''exec '' @ spaced [[47], [97]]) (tty (os k)))))))"
proof -
  define src :: mem where "src = put_bytes (\<lambda>_. 0) 0 hello_text"
  obtain f inode bs where f: "room f = []" "small_file (opened (one_file f inode)) 0 0 inode bs"
    "unat (i_size inode) = 25" "\<forall>i < 16384. content f bs ! i = src i" by (rule text_file [of 25]) simp_all
  define k :: kernel where "k = \<lparr>os = \<lparr>sv = one_file f inode, ram = (\<lambda>_. 0), tty = con_init undefined\<rparr>,
    irq = \<lparr>idt = [], idt_descr = (0, 0), sent = []\<rparr>, arena = undefined\<rparr>"
  define u where "u = \<lparr>stack_buf = 4096, regs = undefined, clobbered = (0, 0), hello_at = 0x1600000\<rparr>"
  define w where "w = \<lparr>rounds = [], entry = user_main u, junk = 0, bounce = False\<rparr>"
  have r: "readable (opened (one_file f inode)) 0 \<lparr>o_inode = 0, o_offset = 0\<rparr> inode bs"
    using f(2) by (simp add: small_file_def)
  have n: "\<forall>v \<in> set [[47], [97]]. is_word v \<and> plain_keys v" "length [[97 :: u8]] < 8"
    "length (spaced [[47], [97]]) < 500" "unat (8192 :: u32) + BUFFER_SIZE \<le> exec_buf"
    by (simp_all add: is_word_def plain_keys_def BUFFER_SIZE_def exec_buf_def)
  have o: "sys_open (sv (os k)) ([47] @ [0]) 0 = Some (int 0, opened (one_file f inode))"
    using one_file_open(3) [OF f(1)] by (simp add: k_def opened_def)
  have l: "length hello_text = 24" by (simp add: hello_text_def)
  have "content f bs ! i = (hello_text @ [0]) ! i" if "i \<le> 24" for i
    using that f(4) by (auto simp: src_def put_bytes_def nth_append l)
  then have h: "in_file hello_text (unat (hello_at u)) (content (fsv (opened (one_file f inode))) bs) (unat (i_size inode))"
    by (simp add: in_file_def u_def exec_buf_def f(3) l opened_def one_file_def)
  have a: "away u (unat (8192 :: u32)) BUFFER_SIZE" "away u (unat (hello_at u)) (length hello_text)" "entry w = user_main u"
    by (simp_all add: away_def u_def w_def)
  have "length [[97 :: u8]] + 1 = 2" "map (\<lambda>t. t @ [10]) [[47], [97]] = [[47, 10], [97, 10 :: u8]]" by simp_all
  then show ?thesis using typed_exec_runs_program [OF n o r a(3) h a(1,2)] by (simp only: list.size add_Suc_right add_0_right Suc_1 One_nat_def) metis
qed

end
