(* ===== verification/Flat.thy ===== *)
theory Flat
  imports Cstring
begin

text \<open>
  Structures in a flat memory of bytes: reading and writing 16-bit and 32-bit fields at an address,
  and the offsets of the fields of a structure, computed from their sizes as the compiler does for
  structures that need no padding between fields. The Ext2 theories use it: that code overlays
  structures on the ram disk with casts.
\<close>

section \<open>Fields\<close>

definition rd16 :: "mem \<Rightarrow> nat \<Rightarrow> u16" where
  "rd16 m a = le16 (m a) (m (a + 1))"

definition rd32 :: "mem \<Rightarrow> nat \<Rightarrow> u32" where
  "rd32 m a = le32 (m a) (m (a + 1)) (m (a + 2)) (m (a + 3))"

definition wr16 :: "mem \<Rightarrow> nat \<Rightarrow> u16 \<Rightarrow> mem" where
  "wr16 m a w = put_bytes m a (bytes16 w)"

definition wr32 :: "mem \<Rightarrow> nat \<Rightarrow> u32 \<Rightarrow> mem" where
  "wr32 m a w = put_bytes m a (bytes32 w)"

text \<open>A structure is the list of its fields with their sizes.\<close>

type_synonym struct = "(string \<times> nat) list"

fun offset_of :: "struct \<Rightarrow> string \<Rightarrow> nat" where
  "offset_of [] f = 0"
| "offset_of ((g, n) # fs) f = (if f = g then 0 else n + offset_of fs f)"

definition size_of :: "struct \<Rightarrow> nat" where
  "size_of fs = (sum_list (List.map snd fs) + 3) div 4 * 4"

text \<open>No padding is needed: a field of two or four bytes is aligned, arrays of words too.\<close>

fun packed_from :: "nat \<Rightarrow> struct \<Rightarrow> bool" where
  "packed_from k [] \<longleftrightarrow> True"
| "packed_from k ((f, n) # fs) \<longleftrightarrow>
     (n = 2 \<longrightarrow> even k) \<and> (n mod 4 = 0 \<longrightarrow> k mod 4 = 0) \<and> packed_from (k + n) fs"

definition packed :: "struct \<Rightarrow> bool" where
  "packed fs \<longleftrightarrow> packed_from 0 fs"

section \<open>Reading over writing\<close>

named_theorems flat "reads of a memory that has been written"

lemma put_bytes_outside: "x < p \<or> p + length xs \<le> x \<Longrightarrow> put_bytes m p xs x = m x"
  by (auto simp: put_bytes_def)

lemma byte_wr16 [flat]: "x < a \<or> a + 2 \<le> x \<Longrightarrow> wr16 m a w x = m x"
  by (simp add: wr16_def put_bytes_outside)

lemma byte_wr32 [flat]: "x < a \<or> a + 4 \<le> x \<Longrightarrow> wr32 m a w x = m x"
  by (simp add: wr32_def put_bytes_outside)

lemma rd16_cong: "m' a = m a \<Longrightarrow> m' (a + 1) = m (a + 1) \<Longrightarrow> rd16 m' a = rd16 m a"
  by (simp add: rd16_def)

lemma rd32_cong: "(\<And>x. a \<le> x \<Longrightarrow> x < a + 4 \<Longrightarrow> m' x = m x) \<Longrightarrow> rd32 m' a = rd32 m a"
  by (simp add: rd32_def)

lemma rd32_wr32 [flat]: "rd32 (wr32 m a w) a = w"
  by (simp add: rd32_def wr32_def put_bytes_def bytes32_def le32_bytes32)

lemma rd16_wr16 [flat]: "rd16 (wr16 m a w) a = w"
  by (simp add: rd16_def wr16_def put_bytes_def bytes16_def le16_bytes16)

lemma rd32_other [flat]:
  "a + 4 \<le> b \<or> b + 4 \<le> a \<Longrightarrow> rd32 (wr32 m a w) b = rd32 m b"
  "a + 2 \<le> b \<or> b + 4 \<le> a \<Longrightarrow> rd32 (wr16 m a v) b = rd32 m b"
  "a < b \<or> b + 4 \<le> a \<Longrightarrow> rd32 (m(a := c)) b = rd32 m b"
  by (rule rd32_cong; auto simp: flat)+

lemma rd16_other [flat]:
  "a + 4 \<le> b \<or> b + 2 \<le> a \<Longrightarrow> rd16 (wr32 m a w) b = rd16 m b"
  "a + 2 \<le> b \<or> b + 2 \<le> a \<Longrightarrow> rd16 (wr16 m a v) b = rd16 m b"
  "a < b \<or> b + 2 \<le> a \<Longrightarrow> rd16 (m(a := c)) b = rd16 m b"
  by (rule rd16_cong; auto simp: flat)+

lemma rd_memcpy [flat]:
  "b + 4 \<le> d \<or> d + n \<le> b \<Longrightarrow> rd32 (memcpy m d s n) b = rd32 m b"
  "b + 2 \<le> d \<or> d + n \<le> b \<Longrightarrow> rd16 (memcpy m d s n) b = rd16 m b"
  by (auto intro!: rd32_cong rd16_cong memcpy_outside)

lemma rd32_memcpy_inside:
  assumes "d \<le> s \<or> s + n \<le> d" and "k + 4 \<le> n"
  shows "rd32 (memcpy m d s n) (d + k) = rd32 m (s + k)"
  using assms memcpy_inside [of d s n k m] memcpy_inside [of d s n "k + 1" m] memcpy_inside [of d s n "k + 2" m]
    memcpy_inside [of d s n "k + 3" m] by (simp add: rd32_def add.assoc)

section \<open>Strings in memory\<close>

text \<open>\<^verbatim>\<open>strcmp\<close> and \<^verbatim>\<open>strlen\<close> on two addresses; a missing terminator is no result.\<close>

partial_function (option) strcmp_at :: "mem \<Rightarrow> nat \<Rightarrow> nat \<Rightarrow> int option" where
  "strcmp_at m a b =
     (if m a = m b \<and> m a \<noteq> 0 then strcmp_at m (a + 1) (b + 1) else Some (sint (m a) - sint (m b)))"

definition strlen_at :: "mem \<Rightarrow> nat \<Rightarrow> nat option" where
  "strlen_at m p = map_option (\<lambda>e. e - p) (str_end m p)"

lemma strlen_at_str [simp]: "str_at m p s \<Longrightarrow> strlen_at m p = Some (length s)"
  by (simp add: strlen_at_def str_end_correct)

lemma strcmp_at_str:
  "str_at m a s \<Longrightarrow> str_at m b t \<Longrightarrow> \<exists>r. strcmp_at m a b = Some r \<and> (r = 0 \<longleftrightarrow> s = t)"
proof (induction s arbitrary: a b t)
  case Nil
  then show ?case using sint_eq_iff [of 0 "m b"] by (subst strcmp_at.simps) (cases t; auto)
next
  case (Cons c s)
  show ?case
  proof (cases t)
    case Nil
    then show ?thesis using Cons.prems sint_eq_iff [of "m a" 0] by (subst strcmp_at.simps) auto
  next
    fix d u assume t: "t = d # u"
    show ?thesis
    proof (cases "c = d")
      case True
      with Cons t show ?thesis by (subst strcmp_at.simps) simp
    next
      case False
      with Cons.prems t show ?thesis by (subst strcmp_at.simps) auto
    qed
  qed
qed

text \<open>The two readings of \<^verbatim>\<open>strcmp\<close> agree.\<close>

lemma strcmp_at_eq:
  "strcmp (get_bytes m a n) (get_bytes m b n) = Some r \<Longrightarrow> strcmp_at m a b = Some r"
proof (induction n arbitrary: a b)
  case (Suc n)
  have g: "get_bytes m p (Suc n) = m p # get_bytes m (p + 1) n" for p
    by (simp add: get_bytes_def upt_rec [of 0] map_Suc_upt [symmetric] del: upt_Suc)
  show ?case using Suc by (subst strcmp_at.simps) (auto simp: g split: if_splits)
qed (simp add: get_bytes_def)

end
