(* ===== verification/Ext2.thy ===== *)
theory Ext2
  imports Flat Traps Bitops
begin

text \<open>
  The earlier file system of the kernel, Ext2 on a ram disk: \<^verbatim>\<open>fs/ext2/ramdisk.c\<close>, \<^verbatim>\<open>bitmap.c\<close>,
  \<^verbatim>\<open>ext2.c\<close>, \<^verbatim>\<open>balloc.c\<close>, \<^verbatim>\<open>ialloc.c\<close>, \<^verbatim>\<open>inode.c\<close>, \<^verbatim>\<open>ram_mke2fs.c\<close> and \<^verbatim>\<open>include/fs_ext2.h\<close>, in the
  variant that \<^verbatim>\<open>RAM_EXT2_FS\<close> selects. Everything lies in one memory of bytes: the disk from
  \<^verbatim>\<open>ram_start\<close> on, the copies of super block, group descriptors and bitmaps at fixed addresses, and
  the inodes, which are pointers into the inode table of the disk. A result is \<^term>\<open>Inl\<close> when the
  kernel stops in \<^verbatim>\<open>ext2_error\<close> or \<^verbatim>\<open>panic\<close>, with what is printed.
\<close>

section \<open>Structures on the disk: include/fs_ext2.h\<close>

definition ext2_super_block :: struct where
  "ext2_super_block =
    [(''s_inodes_count'', 4), (''s_blocks_count'', 4), (''s_r_blocks_count'', 4),
     (''s_free_blocks_count'', 4), (''s_free_inodes_count'', 4), (''s_first_data_block'', 4),
     (''s_log_block_size'', 4), (''s_log_frag_size'', 4), (''s_blocks_per_group'', 4),
     (''s_frags_per_group'', 4), (''s_inodes_per_group'', 4), (''s_mtime'', 4), (''s_wtime'', 4),
     (''s_mnt_count'', 2), (''s_max_mnt_count'', 2), (''s_magic'', 2), (''s_state'', 2),
     (''s_errors'', 2), (''s_pad'', 2), (''s_lastcheck'', 4), (''s_checkinterval'', 4),
     (''s_creator_os'', 4), (''s_rev_level'', 4), (''s_def_resuid'', 2), (''s_def_resgid'', 2),
     (''s_reserved'', 4 * 235)]"

definition ext2_group_desc :: struct where
  "ext2_group_desc =
    [(''bg_block_bitmap'', 4), (''bg_inode_bitmap'', 4), (''bg_inode_table'', 4),
     (''bg_free_blocks_count'', 2), (''bg_free_inodes_count'', 2), (''bg_used_dirs_count'', 2),
     (''bg_pad'', 2), (''bg_reserved'', 4 * 3)]"

definition EXT2_N_BLOCKS :: nat where "EXT2_N_BLOCKS = 15"

definition ext2_inode :: struct where
  "ext2_inode =
    [(''i_mode'', 2), (''i_uid'', 2), (''i_size'', 4), (''i_atime'', 4), (''i_ctime'', 4),
     (''i_mtime'', 4), (''i_dtime'', 4), (''i_gid'', 2), (''i_links_count'', 2), (''i_blocks'', 4),
     (''i_flags'', 4), (''osd1'', 4), (''i_block'', 4 * EXT2_N_BLOCKS), (''i_version'', 4),
     (''i_file_acl'', 4), (''i_dir_acl'', 4), (''i_faddr'', 4), (''osd2'', 1 + 1 + 2 + 4 * 2)]"

definition ext2_sb_info :: struct where
  "ext2_sb_info =
    [(''s_frag_size'', 4), (''s_frags_per_block'', 4), (''s_inodes_per_block'', 4),
     (''s_frags_per_group'', 4), (''s_blocks_per_group'', 4), (''s_inodes_per_group'', 4),
     (''s_itb_per_group'', 4), (''s_gdb_count'', 4), (''s_desc_per_block'', 4),
     (''s_groups_count'', 4), (''s_free_blocks_count'', 4), (''s_free_inodes_count'', 4),
     (''s_dirs_count'', 4)]"

definition m_inode :: struct where
  "m_inode =
    [(''inode'', size_of ext2_inode), (''i_mode'', 4), (''i_num'', 4), (''i_count'', 4),
     (''i_nlinks'', 4), (''i_atime'', 4), (''i_ctime'', 4), (''i_lock'', 1), (''i_dirt'', 1),
     (''i_mount'', 1), (''i_update'', 1)]"

definition EXT2_NAME_LEN :: nat where "EXT2_NAME_LEN = 255"

definition ext2_dir_entry :: struct where
  "ext2_dir_entry =
    [(''inode'', 4), (''rec_len'', 2), (''name_len'', 1), (''file_type'', 1), (''name'', EXT2_NAME_LEN)]"

definition S_IFREG :: u32 where "S_IFREG = 1"
definition S_IFDIR :: u32 where "S_IFDIR = 2"

definition S_ISDIR :: "u32 \<Rightarrow> bool" where "S_ISDIR m \<longleftrightarrow> m AND S_IFDIR = S_IFDIR"
definition S_ISREG :: "u32 \<Rightarrow> bool" where "S_ISREG m \<longleftrightarrow> m AND S_IFREG = S_IFREG"

definition EXT2_BUFFER :: u32 where "EXT2_BUFFER = 0x800000"
definition EXT2_GROUP_DESC_BUFFER :: u32 where "EXT2_GROUP_DESC_BUFFER = 0x800400"
definition EXT2_BITMAP_BUFFER :: u32 where "EXT2_BITMAP_BUFFER = 0x802000"

definition EXT2_SBI :: nat where "EXT2_SBI = unat EXT2_BUFFER"

definition EXT2_BLOCK_SIZE :: u32 where "EXT2_BLOCK_SIZE = 1024"
definition EXT2_INODE_SIZE :: nat where "EXT2_INODE_SIZE = size_of ext2_inode"
definition EXT2_BLOCKS_PER_GROUP :: u32 where "EXT2_BLOCKS_PER_GROUP = 8096"
definition EXT2_INODES_PER_GROUP :: u32 where "EXT2_INODES_PER_GROUP = 184"
definition EXT2_INODES_PER_BLOCK :: u32 where "EXT2_INODES_PER_BLOCK = 8"
definition EXT2_BLOCKS_PER_GROUP_BITS :: nat where "EXT2_BLOCKS_PER_GROUP_BITS = 13"

definition SUPER_BLOCK :: u32 where "SUPER_BLOCK = 1"
definition GROUP_DESC :: u32 where "GROUP_DESC = 2"
definition BLOCK_BITMAP :: u32 where "BLOCK_BITMAP = 8"
definition INODE_BITMAP :: u32 where "INODE_BITMAP = 9"
definition ROOT_INODE :: u32 where "ROOT_INODE = 2"
definition BLOCK :: int where "BLOCK = 1"
definition INODE :: int where "INODE = 2"

definition EXT2_DIR_REC_LEN :: "u32 \<Rightarrow> u32" where
  "EXT2_DIR_REC_LEN name_len = (name_len + 8 + (4 - 1)) AND NOT (4 - 1)"

lemmas ext2_consts = EXT2_BUFFER_def EXT2_GROUP_DESC_BUFFER_def EXT2_BITMAP_BUFFER_def EXT2_SBI_def
  EXT2_BLOCK_SIZE_def EXT2_INODE_SIZE_def EXT2_BLOCKS_PER_GROUP_def EXT2_INODES_PER_GROUP_def
  EXT2_INODES_PER_BLOCK_def EXT2_BLOCKS_PER_GROUP_BITS_def SUPER_BLOCK_def GROUP_DESC_def
  BLOCK_BITMAP_def INODE_BITMAP_def ROOT_INODE_def BLOCK_def INODE_def

section \<open>State and results\<close>

record e2 =
  bytes :: mem
  ram_start :: u32
  ram_end :: u32

datatype stop = Ext2_error string "u32 list" | Kernel_panic string

type_synonym 'a run = "(stop + 'a) option"

abbreviation ret :: "'a \<Rightarrow> 'a run" where "ret x \<equiv> Some (Inr x)"
abbreviation stops :: "stop \<Rightarrow> 'a run" where "stops e \<equiv> Some (Inl e)"

fun proceed :: "'a run \<Rightarrow> ('a \<Rightarrow> 'b run) \<Rightarrow> 'b run" where
  "proceed None f = None"
| "proceed (Some (Inl e)) f = stops e"
| "proceed (Some (Inr x)) f = f x"

definition upd :: "(mem \<Rightarrow> mem) \<Rightarrow> e2 \<Rightarrow> e2" where
  "upd f s = s\<lparr>bytes := f (bytes s)\<rparr>"

definition add16 :: "nat \<Rightarrow> u16 \<Rightarrow> e2 \<Rightarrow> e2" where
  "add16 a k = upd (\<lambda>m. wr16 m a (rd16 m a + k))"

definition add32 :: "nat \<Rightarrow> u32 \<Rightarrow> e2 \<Rightarrow> e2" where
  "add32 a k = upd (\<lambda>m. wr32 m a (rd32 m a + k))"

section \<open>The ram disk: ramdisk.c\<close>

definition RD_BLOCK_SIZE :: nat where "RD_BLOCK_SIZE = push_bit 10 1"

definition rd_read :: "nat \<Rightarrow> nat \<Rightarrow> int \<Rightarrow> e2 \<Rightarrow> e2" where
  "rd_read mem ram block = upd (\<lambda>m. memcpy m mem ram RD_BLOCK_SIZE)"

definition rd_write :: "nat \<Rightarrow> nat \<Rightarrow> int \<Rightarrow> e2 \<Rightarrow> e2" where
  "rd_write ram mem block = upd (\<lambda>m. memcpy m ram mem RD_BLOCK_SIZE)"

definition rd_read_block :: "nat \<Rightarrow> nat \<Rightarrow> e2 \<Rightarrow> e2" where
  "rd_read_block mem ram = rd_read mem ram 1"

definition rd_write_block :: "nat \<Rightarrow> nat \<Rightarrow> e2 \<Rightarrow> e2" where
  "rd_write_block ram mem = rd_write ram mem 1"

text \<open>The address of a block: reading one copies nothing.\<close>

definition bread :: "u32 \<Rightarrow> e2 \<Rightarrow> nat" where
  "bread block s = unat (ram_start s + block * EXT2_BLOCK_SIZE)"

definition bwrite :: "u32 \<Rightarrow> nat \<Rightarrow> e2 \<Rightarrow> e2" where
  "bwrite block buf s = upd (\<lambda>m. memcpy m (unat (ram_start s + block * EXT2_BLOCK_SIZE)) buf (unat EXT2_BLOCK_SIZE)) s"

definition rd_init :: "e2 \<Rightarrow> e2" where
  "rd_init s = s\<lparr>ram_start := 0x400000, ram_end := 0x400000 + 1440 * 1024\<rparr>"

section \<open>Bits: bitmap.c\<close>

definition ext2_set_bit :: "mem \<Rightarrow> nat \<Rightarrow> u32 \<Rightarrow> mem" where
  "ext2_set_bit m addr i =
     (let v = addr + unat (drop_bit 3 i) in m(v := m v OR push_bit (7 - unat (i mod 8)) 1))"

definition ext2_clear_bit :: "mem \<Rightarrow> nat \<Rightarrow> u32 \<Rightarrow> mem" where
  "ext2_clear_bit m addr i =
     (let v = addr + unat (drop_bit 3 i) in m(v := m v AND NOT (push_bit (7 - unat (i mod 8)) 1)))"

definition ext2_test_bit :: "mem \<Rightarrow> nat \<Rightarrow> u32 \<Rightarrow> bool" where
  "ext2_test_bit m addr i =
     (let v = addr + unat (drop_bit 3 i) in m v AND push_bit (7 - unat (i mod 8)) 1 \<noteq> 0)"

text \<open>The comparison of \<^verbatim>\<open>i\<close> with \<^verbatim>\<open>max - 1\<close> is unsigned.\<close>

function ext2_find_first_zero :: "mem \<Rightarrow> nat \<Rightarrow> u32 \<Rightarrow> u32 \<Rightarrow> u32" where
  "ext2_find_first_zero m v i mx =
     (if i < mx - 1
      then if \<not> ext2_test_bit m v i then i else ext2_find_first_zero m v (i + 1) mx
      else 0)"
  by auto

lemma unat_Suc_less: "(i :: u32) < j \<Longrightarrow> unat (i + 1) = Suc (unat i)"
  using unsigned_less [of j, where ?'a = nat] by (simp add: word_less_nat_alt unat_word_ariths)

termination ext2_find_first_zero
  by (relation "measure (\<lambda>(m, v, i, mx). unat (mx - 1) - unat i)") (auto simp: unat_Suc_less word_less_nat_alt)

declare ext2_find_first_zero.simps [simp del]

section \<open>Groups and errors: ext2.c\<close>

definition copy_block :: "nat \<Rightarrow> nat \<Rightarrow> e2 \<Rightarrow> e2" where
  "copy_block dest src = upd (\<lambda>m. memcpy m dest src (unat EXT2_BLOCK_SIZE))"

definition is_print :: "u8 \<Rightarrow> bool" where
  "is_print c \<longleftrightarrow> 33 \<le> sint c \<and> sint c \<le> 126"

text \<open>\<open>size\<close> bytes, which is taken not to be negative.\<close>

fun dump_from_addr :: "mem \<Rightarrow> nat \<Rightarrow> nat \<Rightarrow> con \<Rightarrow> con option" where
  "dump_from_addr m addr 0 c = Some c"
| "dump_from_addr m addr (Suc sz) c =
     (case printk m (lit (if is_print (m addr) then ''%c'' else ''%02x'')) [scast (m addr)] c of
        None \<Rightarrow> None
      | Some (_, c) \<Rightarrow> dump_from_addr m (addr + 1) sz c)"

definition ext2_get_group_num :: "u32 \<Rightarrow> int \<Rightarrow> u32" where
  "ext2_get_group_num num t =
     (if t = BLOCK then drop_bit EXT2_BLOCKS_PER_GROUP_BITS num
      else if t = INODE then (num - 1) div EXT2_INODES_PER_GROUP
      else 0)"

text \<open>\<^verbatim>\<open>1 << 13 - 1\<close> is \<^verbatim>\<open>1 << 12\<close>.\<close>

definition ext2_get_group_offset :: "u32 \<Rightarrow> int \<Rightarrow> u32" where
  "ext2_get_group_offset num t =
     (if t = BLOCK then num AND push_bit (EXT2_BLOCKS_PER_GROUP_BITS - 1) 1
      else if t = INODE then (num - 1) AND (EXT2_INODES_PER_GROUP - 1)
      else 0)"

text \<open>
  The console on which \<^verbatim>\<open>ext2_error\<close> loops: \<open>buf\<close> is its array of 1024 bytes, \<open>msg\<close> points to the text
  of the panic. Its callers stop with the format and the arguments.
\<close>

definition ext2_error :: "u32 \<Rightarrow> u32 \<Rightarrow> mem \<Rightarrow> u8 list \<Rightarrow> u32 list \<Rightarrow> con \<Rightarrow> con option" where
  "ext2_error buf msg m fmt args c =
     (case sprintk m fmt args of
        None \<Rightarrow> None
      | Some (_, out) \<Rightarrow>
          if length out > 1024 then None
          else
            let m = put_bytes m (unat buf) out in
            Option.bind (prints m [(''%s'' @ nl, [buf])] c) (panic m msg))"

definition ext2_fs_init :: "e2 \<Rightarrow> e2" where
  "ext2_fs_init s =
     (let sb = bread SUPER_BLOCK s; s = copy_block (unat EXT2_BUFFER) sb s;
          desc = bread GROUP_DESC s; s = copy_block (unat EXT2_GROUP_DESC_BUFFER) desc s;
          bitmap = bread BLOCK_BITMAP s; s = copy_block (unat EXT2_BITMAP_BUFFER) bitmap s;
          bitmap = bread INODE_BITMAP s
      in copy_block (unat (EXT2_BITMAP_BUFFER + EXT2_BLOCK_SIZE)) bitmap s)"

section \<open>Blocks: balloc.c\<close>

text \<open>The format of the first error has no directive; its other arguments are not looked at.\<close>

definition ext2_get_group_desc :: "u32 \<Rightarrow> nat" where
  "ext2_get_group_desc block_group =
     unat (EXT2_GROUP_DESC_BUFFER + block_group * word_of_nat (size_of ext2_group_desc))"

definition ext2_read_block_bitmap :: "u32 \<Rightarrow> mem \<Rightarrow> nat run" where
  "ext2_read_block_bitmap block_group m =
     (let desc = ext2_get_group_desc block_group in
      if desc = 0 then ret 0
      else
        let bitmap = unat (EXT2_BITMAP_BUFFER + push_bit 1 block_group * EXT2_BLOCK_SIZE) in
        if bitmap = 0
        then stops (Ext2_error ''read_block_bitmap'' [])
        else ret bitmap)"

text \<open>
  \<^verbatim>\<open>ext2_clear_bit\<close> has no result; \<^verbatim>\<open>balloc.c\<close>, which does not see its definition, tests what the call
  leaves in \<^verbatim>\<open>eax\<close>.
\<close>

definition ext2_free_block :: "u32 \<Rightarrow> u32 \<Rightarrow> e2 \<Rightarrow> e2 run" where
  "ext2_free_block eax block s =
     (let block_group = ext2_get_group_num block BLOCK;
          bit = ext2_get_group_offset block BLOCK;
          desc = ext2_get_group_desc block_group
      in proceed (ext2_read_block_bitmap block_group (bytes s)) (\<lambda>bitmap.
        let s = upd (\<lambda>m. ext2_clear_bit m bitmap bit) s in
        if eax = 0 then stops (Ext2_error ''bit %d (%d) alread cleard'' [bit, block_group])
        else
          let s = add16 (desc + offset_of ext2_group_desc ''bg_free_blocks_count'') 1 s in
          ret (add32 (EXT2_SBI + offset_of ext2_sb_info ''s_free_blocks_count'') 1 s)))"

definition ext2_grab_block :: "mem \<Rightarrow> nat \<Rightarrow> u32 \<Rightarrow> u32" where
  "ext2_grab_block m bitmap goal =
     (if \<not> ext2_test_bit m bitmap goal then goal
      else ext2_find_first_zero m bitmap (goal + 1) EXT2_BLOCKS_PER_GROUP)"

definition ext2_alloc_block :: "u32 \<Rightarrow> e2 \<Rightarrow> (u32 \<times> e2) run" where
  "ext2_alloc_block goal s =
     (let block_group = ext2_get_group_num goal BLOCK;
          bit = ext2_get_group_offset goal BLOCK
      in proceed (ext2_read_block_bitmap block_group (bytes s)) (\<lambda>bitmap.
        let block = ext2_grab_block (bytes s) bitmap bit in
        if block = 0 then stops (Ext2_error ''no free blocks any more'' [])
        else
          let desc = ext2_get_group_desc block_group;
              s = add16 (desc + offset_of ext2_group_desc ''bg_free_blocks_count'') (- 1) s;
              s = add32 (EXT2_SBI + offset_of ext2_sb_info ''s_free_blocks_count'') (- 1) s;
              s = upd (\<lambda>m. ext2_set_bit m bitmap block) s
          in ret (block, s)))"

section \<open>Inode numbers: ialloc.c\<close>

definition ext2_read_inode_bitmap :: "u32 \<Rightarrow> nat" where
  "ext2_read_inode_bitmap block_group =
     unat (EXT2_BITMAP_BUFFER + (push_bit 1 block_group + 1) * EXT2_BLOCK_SIZE)"

text \<open>The pointer \<open>bitmap\<close> is never set: it is a parameter, like the register tested.\<close>

definition ext2_free_inode :: "u32 \<Rightarrow> nat \<Rightarrow> u32 \<Rightarrow> e2 \<Rightarrow> e2 run" where
  "ext2_free_inode eax bitmap inr s =
     (let inode_group = ext2_get_group_num inr INODE;
          bit = ext2_get_group_offset inr INODE;
          s = upd (\<lambda>m. ext2_clear_bit m bitmap bit) s
      in
        if eax = 0 then stops (Ext2_error ''bit %d is alread cleared'' [bit])
        else
          let desc = ext2_get_group_desc inode_group;
              s = add16 (desc + offset_of ext2_group_desc ''bg_free_inodes_count'') 1 s
          in ret (add32 (EXT2_SBI + offset_of ext2_sb_info ''s_free_inodes_count'') 1 s))"

definition ext2_grab_inode :: "mem \<Rightarrow> nat \<Rightarrow> u32 \<Rightarrow> u32" where
  "ext2_grab_inode m bitmap goal =
     (if \<not> ext2_test_bit m bitmap goal then goal
      else ext2_find_first_zero m bitmap (goal + 1) EXT2_INODES_PER_GROUP)"

definition ext2_alloc_inode :: "u32 \<Rightarrow> u32 \<Rightarrow> e2 \<Rightarrow> (u32 \<times> e2) run" where
  "ext2_alloc_inode goal mode s =
     (let inode_group = ext2_get_group_num goal INODE;
          bit = ext2_get_group_offset goal INODE;
          bitmap = ext2_read_inode_bitmap inode_group;
          inode = ext2_grab_inode (bytes s) bitmap bit
      in
        if inode = 0 then stops (Ext2_error ''no free inodes any more'' [])
        else
          let desc = ext2_get_group_desc inode_group;
              s = add16 (desc + offset_of ext2_group_desc ''bg_free_inodes_count'') (- 1) s;
              s = (if S_ISDIR mode
                   then add32 (EXT2_SBI + offset_of ext2_sb_info ''s_dirs_count'') 1
                          (add16 (desc + offset_of ext2_group_desc ''bg_used_dirs_count'') 1 s)
                   else s);
              s = add32 (EXT2_SBI + offset_of ext2_sb_info ''s_free_inodes_count'') (- 1) s;
              s = upd (\<lambda>m. ext2_set_bit m bitmap inode) s
          in ret (inode, s))"

section \<open>Offsets\<close>

lemma ext2_offsets [simp]:
  "offset_of ext2_group_desc ''bg_inode_table'' = 8"
  "offset_of ext2_group_desc ''bg_free_blocks_count'' = 12"
  "offset_of ext2_group_desc ''bg_free_inodes_count'' = 14"
  "offset_of ext2_group_desc ''bg_used_dirs_count'' = 16"
  "offset_of ext2_sb_info ''s_free_blocks_count'' = 40"
  "offset_of ext2_sb_info ''s_free_inodes_count'' = 44"
  "offset_of ext2_sb_info ''s_dirs_count'' = 48"
  "offset_of ext2_super_block ''s_free_blocks_count'' = 12"
  "offset_of ext2_super_block ''s_inodes_per_group'' = 40"
  "offset_of ext2_super_block ''s_mtime'' = 44"
  by (simp_all add: ext2_group_desc_def ext2_sb_info_def ext2_super_block_def)

lemma ext2_inode_offsets [simp]:
  "offset_of ext2_inode ''i_size'' = 4"
  "offset_of ext2_inode ''i_links_count'' = 26"
  "offset_of ext2_inode ''i_blocks'' = 28"
  "offset_of ext2_inode ''i_block'' = 40"
  by (simp_all add: ext2_inode_def)

lemma ext2_sizes [simp]:
  "size_of ext2_group_desc = 32" "size_of ext2_inode = 128" "size_of ext2_super_block = 1024"
  "size_of ext2_dir_entry = 264" "size_of m_inode = 156"
  by (simp_all add: size_of_def ext2_group_desc_def ext2_inode_def EXT2_N_BLOCKS_def ext2_super_block_def
      ext2_dir_entry_def EXT2_NAME_LEN_def m_inode_def)

lemma m_inode_offsets [simp]:
  "offset_of m_inode ''i_mode'' = 128" "offset_of m_inode ''i_num'' = 132" "offset_of m_inode ''i_count'' = 136"
  "offset_of m_inode ''i_nlinks'' = 140" "offset_of m_inode ''i_atime'' = 144" "offset_of m_inode ''i_ctime'' = 148"
  "offset_of m_inode ''i_dirt'' = 153"
  by (simp_all add: m_inode_def)

lemma ext2_dir_offsets [simp]:
  "offset_of ext2_dir_entry ''inode'' = 0" "offset_of ext2_dir_entry ''rec_len'' = 4"
  "offset_of ext2_dir_entry ''name_len'' = 6" "offset_of ext2_dir_entry ''file_type'' = 7"
  "offset_of ext2_dir_entry ''name'' = 8"
  by (simp_all add: ext2_dir_entry_def)

text \<open>The compiler adds no padding between the fields, so the offsets are those of the C structures.\<close>

lemma structures_packed:
  "packed ext2_super_block" "packed ext2_group_desc" "packed ext2_inode" "packed ext2_sb_info"
  "packed m_inode" "packed ext2_dir_entry"
  by (simp_all add: packed_def size_of_def ext2_super_block_def ext2_group_desc_def ext2_inode_def EXT2_N_BLOCKS_def
      ext2_sb_info_def m_inode_def ext2_dir_entry_def EXT2_NAME_LEN_def)

section \<open>Bitmaps as sets of numbers\<close>

text \<open>The first number is the highest bit of the first byte.\<close>

definition bit_set :: "mem \<Rightarrow> nat \<Rightarrow> nat \<Rightarrow> bool" where
  "bit_set m addr i \<longleftrightarrow> bit (m (addr + i div 8)) (7 - i mod 8)"

lemma u32_bytes_bits: "unat (drop_bit 3 (i :: u32)) = unat i div 8" "unat (i mod 8) = unat i mod 8"
  by (simp_all only: unat_drop3 unat_mod) simp

lemma test_bit_set: "ext2_test_bit m addr i \<longleftrightarrow> bit_set m addr (unat i)"
proof -
  have "w AND push_bit n 1 \<noteq> 0 \<longleftrightarrow> bit w n" if "n < 8" for w :: u8 and n
    using that and_exp_eq_0_iff_not_bit [of w n] by (simp add: push_bit_eq_mult)
  then show ?thesis by (simp add: ext2_test_bit_def bit_set_def u32_bytes_bits)
qed

lemma div_mod_8: "i div 8 = j div 8 \<Longrightarrow> (7 - i mod 8 = 7 - j mod 8) = (i = (j :: nat))"
proof -
  assume d: "i div 8 = j div 8"
  have c: "7 - a = 7 - b \<longleftrightarrow> a = b" if "a < 8" "b < 8" for a b :: nat using that by arith
  have "7 - i mod 8 = 7 - j mod 8 \<longleftrightarrow> i mod 8 = j mod 8" by (rule c) simp_all
  then show ?thesis using d div_mult_mod_eq [of i 8] div_mult_mod_eq [of j 8] by metis
qed

lemma set_bit_set [flat]: "bit_set (ext2_set_bit m addr i) addr j \<longleftrightarrow> j = unat i \<or> bit_set m addr j"
  using div_mod_8 [of j "unat i"]
  by (auto simp: ext2_set_bit_def bit_set_def u32_bytes_bits bit_simps Let_def)

lemma clear_bit_set [flat]: "bit_set (ext2_clear_bit m addr i) addr j \<longleftrightarrow> j \<noteq> unat i \<and> bit_set m addr j"
  using div_mod_8 [of j "unat i"]
  by (auto simp: ext2_clear_bit_def bit_set_def u32_bytes_bits bit_simps Let_def)

lemma find_first_zero_cases:
  fixes m v i mx
  defines "r \<equiv> ext2_find_first_zero m v i mx"
  shows "(r = 0 \<and> (\<forall>j. unat i \<le> j \<and> j < unat (mx - 1) \<longrightarrow> bit_set m v j)) \<or>
    (unat i \<le> unat r \<and> unat r < unat (mx - 1) \<and> \<not> bit_set m v (unat r) \<and>
      (\<forall>j. unat i \<le> j \<and> j < unat r \<longrightarrow> bit_set m v j))"
  unfolding r_def
proof (induction m v i mx rule: ext2_find_first_zero.induct)
  case (1 m v i mx)
  show ?case
  proof (cases "i < mx - 1 \<and> bit_set m v (unat i)")
    case True
    then have t: "i < mx - 1" "\<not> \<not> ext2_test_bit m v i" by (simp_all add: test_bit_set)
    have s: "unat i \<le> j \<longleftrightarrow> j = unat i \<or> unat (i + 1) \<le> j" for j using unat_Suc_less [OF t(1)] by auto
    have e: "ext2_find_first_zero m v i mx = ext2_find_first_zero m v (i + 1) mx"
      using t by (subst ext2_find_first_zero.simps) simp
    show ?thesis using 1 [OF t] True unfolding e s by blast
  next
    case False
    then have "ext2_find_first_zero m v i mx = (if i < mx - 1 then i else 0)"
      by (subst ext2_find_first_zero.simps) (simp add: test_bit_set)
    with False show ?thesis by (auto simp: word_less_nat_alt)
  qed
qed

text \<open>These bitmaps keep the contract of the byte buffers of \<^verbatim>\<open>lib/bitopts.c\<close>; one has the bits of a block.\<close>

interpretation ext2_bits: bit_buffer
  "\<lambda>m i. Some (ext2_set_bit m addr i)" "\<lambda>m i. Some (ext2_clear_bit m addr i)"
  "\<lambda>_. 8 * unat EXT2_BLOCK_SIZE" "\<lambda>m. bit_set m addr" for addr
  by unfold_locales (simp_all add: flat)

section \<open>Taking a block\<close>

lemma ext2_addresses [simp]:
  "unat EXT2_BUFFER = 0x800000" "unat EXT2_GROUP_DESC_BUFFER = 0x800400" "unat EXT2_BITMAP_BUFFER = 0x802000"
  "EXT2_SBI = 0x800000" "unat (EXT2_BITMAP_BUFFER + EXT2_BLOCK_SIZE) = 0x802400"
  "ext2_get_group_desc 0 = 0x800400" "ext2_read_inode_bitmap 0 = 0x802400"
  "ext2_read_block_bitmap 0 m = ret 0x802000"
  by (simp_all add: ext2_consts ext2_get_group_desc_def ext2_read_inode_bitmap_def ext2_read_block_bitmap_def)

text \<open>Every block of the disk is in group 0, and the offset in the group is always 0.\<close>

lemma block_group_0:
  assumes "goal < 4096"
  shows "ext2_get_group_num goal BLOCK = 0" "ext2_get_group_offset goal BLOCK = 0"
proof -
  from assms have u: "unat goal < 4096" by (simp add: word_less_nat_alt)
  then have "unat (drop_bit 13 goal) = 0" by (simp only: unat_drop_bit_eq) (simp add: drop_bit_eq_div)
  then show "ext2_get_group_num goal BLOCK = 0"
    by (simp add: ext2_get_group_num_def EXT2_BLOCKS_PER_GROUP_BITS_def unsigned_eq_0_iff)
  have "\<not> bit (unat goal) 12" using u by (simp add: bit_iff_odd)
  then have "\<not> bit goal 12" by (simp add: bit_unsigned_iff)
  then show "ext2_get_group_offset goal BLOCK = 0"
    using and_exp_eq_0_iff_not_bit [of goal 12]
    by (simp add: ext2_get_group_offset_def EXT2_BLOCKS_PER_GROUP_BITS_def push_bit_eq_mult)
qed

lemma bit_set_flat [flat]:
  "x < addr \<Longrightarrow> bit_set (m(x := c)) addr j = bit_set m addr j"
  "x + 2 \<le> addr \<Longrightarrow> bit_set (wr16 m x v) addr j = bit_set m addr j"
  "x + 4 \<le> addr \<Longrightarrow> bit_set (wr32 m x w) addr j = bit_set m addr j"
  by (simp_all add: bit_set_def flat)

lemma set_bit_outside [flat]: "x \<noteq> addr + unat i div 8 \<Longrightarrow> ext2_set_bit m addr i x = m x"
  by (simp add: ext2_set_bit_def Let_def u32_bytes_bits)

lemma rd_set_bit [flat]:
  "a + 4 \<le> addr \<Longrightarrow> rd32 (ext2_set_bit m addr i) a = rd32 m a"
  "a + 2 \<le> addr \<Longrightarrow> rd16 (ext2_set_bit m addr i) a = rd16 m a"
  by (auto intro!: rd32_cong rd16_cong set_bit_outside)

text \<open>The search for a free number from 0 on, as both allocators do it.\<close>

lemma grab_cases:
  assumes "r = (if \<not> ext2_test_bit m a 0 then 0 else ext2_find_first_zero m a (0 + 1) mx)"
  shows "(r = 0 \<and> (\<not> bit_set m a 0 \<or> (\<forall>j < unat (mx - 1). bit_set m a j))) \<or>
    (r \<noteq> 0 \<and> unat r < unat (mx - 1) \<and> \<not> bit_set m a (unat r) \<and> (\<forall>j < unat r. bit_set m a j))"
proof (cases "bit_set m a 0")
  case True
  then have r: "r = ext2_find_first_zero m a 1 mx" by (simp add: assms test_bit_set)
  have b: "bit_set m a j" if "\<forall>j. 1 \<le> j \<and> j < n \<longrightarrow> bit_set m a j" "j < n" for j n
    using that True by (cases j) auto
  have n0: "r \<noteq> 0" if "unat (1 :: u32) \<le> unat r" using that by auto
  show ?thesis using find_first_zero_cases [of m a 1 mx] b n0 unfolding r [symmetric] by auto
qed (simp add: assms test_bit_set)

lemma ext2_alloc_block_eq:
  fixes s :: e2
  assumes "goal < 4096"
  defines "b \<equiv> ext2_grab_block (bytes s) 0x802000 0"
  shows "ext2_alloc_block goal s =
    (if b = 0 then stops (Ext2_error ''no free blocks any more'' [])
     else ret (b, upd (\<lambda>m. ext2_set_bit m 0x802000 b) (add32 0x800028 (- 1) (add16 0x80040C (- 1) s))))"
  by (simp add: ext2_alloc_block_def block_group_0 [OF assms(1)] b_def Let_def)

lemma ext2_alloc_block_stop:
  "goal < 4096 \<Longrightarrow> ext2_alloc_block goal s = stops e \<Longrightarrow>
   e = Ext2_error ''no free blocks any more'' [] \<and>
     (\<not> bit_set (bytes s) 0x802000 0 \<or> (\<forall>j < 8095. bit_set (bytes s) 0x802000 j))"
  using grab_cases [OF refl, of "bytes s" "0x802000" EXT2_BLOCKS_PER_GROUP]
  by (auto simp: ext2_alloc_block_eq ext2_grab_block_def EXT2_BLOCKS_PER_GROUP_def split: if_splits)

lemma ext2_alloc_block_done:
  assumes "goal < 4096" and "ext2_alloc_block goal s = ret (b, s')"
  shows "0 < b" "b < 8095" "\<not> bit_set (bytes s) 0x802000 (unat b)" "\<forall>j < unat b. bit_set (bytes s) 0x802000 j"
    "s' = upd (\<lambda>m. ext2_set_bit m 0x802000 b) (add32 0x800028 (- 1) (add16 0x80040C (- 1) s))"
  using assms(2) grab_cases [OF refl, of "bytes s" "0x802000" EXT2_BLOCKS_PER_GROUP]
  by (auto simp: ext2_alloc_block_eq [OF assms(1)] ext2_grab_block_def EXT2_BLOCKS_PER_GROUP_def word_less_nat_alt
      unat_gt_0 split: if_splits)

text \<open>An allocation makes the marked blocks one more.\<close>

lemma ext2_alloc_block_count:
  assumes "goal < 4096" and "ext2_alloc_block goal s = ret (b, s')"
  shows "card {k. k < 8192 \<and> bit_set (bytes s') 0x802000 k} = Suc (card {k. k < 8192 \<and> bit_set (bytes s) 0x802000 k})"
proof -
  note d = ext2_alloc_block_done [OF assms]
  let ?m = "bytes (add32 0x800028 (- 1) (add16 0x80040C (- 1) s))"
  have same: "bit_set ?m 0x802000 k = bit_set (bytes s) 0x802000 k" for k
    by (simp add: upd_def add16_def add32_def flat)
  have "unat b < 8 * unat EXT2_BLOCK_SIZE" using d(2) by (simp add: word_less_nat_alt ext2_consts)
  moreover have "\<not> bit_set ?m 0x802000 (unat b)" using d(3) same by simp
  ultimately show ?thesis
    using ext2_bits.card_used_set [of b ?m "0x802000"] same by (simp add: d(5) upd_def ext2_consts)
qed

text \<open>C33: For every goal on the disk \<^verbatim>\<open>ext2_alloc_block\<close> gives the least block that is free, marks it and no
  other, so that the marked blocks are one more, and counts it in the group descriptor. It stops when no block below 8095 is free, or when
  block 0 is, however many others are. Its count of free blocks in the super block lies where the copy
  of the super block has the number of inodes per group: that number is decremented, the free count of
  the super block stays. Nothing else in memory changes.\<close>

theorem ext2_alloc_block_takes_least:
  assumes "goal < 4096"
  defines "bm \<equiv> unat EXT2_BITMAP_BUFFER"
  defines "free_count \<equiv> unat EXT2_GROUP_DESC_BUFFER + offset_of ext2_group_desc ''bg_free_blocks_count''"
  defines "per_group \<equiv> EXT2_SBI + offset_of ext2_super_block ''s_inodes_per_group''"
  shows "case ext2_alloc_block goal s of
      Some (Inr (b, s')) \<Rightarrow>
        0 < b \<and> b < 8095 \<and> \<not> bit_set (bytes s) bm (unat b) \<and> (\<forall>j < unat b. bit_set (bytes s) bm j) \<and>
        (\<forall>j. bit_set (bytes s') bm j \<longleftrightarrow> j = unat b \<or> bit_set (bytes s) bm j) \<and>
        card {j. j < 8192 \<and> bit_set (bytes s') bm j} = Suc (card {j. j < 8192 \<and> bit_set (bytes s) bm j}) \<and>
        rd16 (bytes s') free_count = rd16 (bytes s) free_count - 1 \<and>
        rd32 (bytes s') per_group = rd32 (bytes s) per_group - 1 \<and>
        (\<forall>x. x \<notin> {free_count ..< free_count + 2} \<union> {per_group ..< per_group + 4} \<union> {bm + unat b div 8} \<longrightarrow>
          bytes s' x = bytes s x)
    | Some (Inl e) \<Rightarrow> e = Ext2_error ''no free blocks any more'' [] \<and>
        (\<not> bit_set (bytes s) bm 0 \<or> (\<forall>j < 8095. bit_set (bytes s) bm j))
    | None \<Rightarrow> False"
proof (cases "ext2_alloc_block goal s")
  case None
  then show ?thesis by (simp add: ext2_alloc_block_eq [OF assms(1)] split: if_splits)
next
  case (Some r)
  show ?thesis
  proof (cases r)
    case (Inl e)
    with Some ext2_alloc_block_stop [OF assms(1), of s e] show ?thesis by (simp add: bm_def)
  next
    case (Inr p)
    then obtain b s' where p: "ext2_alloc_block goal s = ret (b, s')" using Some by (cases p) auto
    note d = ext2_alloc_block_done [OF assms(1) p]
    show ?thesis
      using d(1-4) ext2_alloc_block_count [OF assms(1) p] unfolding p bm_def free_count_def per_group_def
      by (simp add: d(5) upd_def add16_def add32_def flat) (auto simp: flat)
  qed
qed

definition small_disk :: e2 where
  "small_disk = \<lparr>bytes = (\<lambda>x. if x = 0x802000 then 0xE0 else 0), ram_start = 0x400000, ram_end = 0\<rparr>"

lemma small_disk_first: "ext2_grab_block (bytes small_disk) 0x802000 0 = 3"
proof -
  have "ext2_test_bit (bytes small_disk) 0x802000 0" "ext2_test_bit (bytes small_disk) 0x802000 1"
    "ext2_test_bit (bytes small_disk) 0x802000 2" "\<not> ext2_test_bit (bytes small_disk) 0x802000 3"
    by (simp_all add: test_bit_set bit_set_def small_disk_def)
  then show ?thesis by (simp add: ext2_grab_block_def ext2_find_first_zero.simps EXT2_BLOCKS_PER_GROUP_def)
qed

theorem ext2_alloc_block_takes_least_witness:
  "\<exists>s'. ext2_alloc_block 34 small_disk = ret (3, s') \<and> rd32 (bytes s') 0x800028 = - 1 \<and> bit_set (bytes s') 0x802000 3"
proof -
  have g: "(34 :: u32) < 4096" by simp
  then obtain s' where s': "ext2_alloc_block 34 small_disk = ret (3, s')"
    by (simp add: ext2_alloc_block_eq small_disk_first)
  have "rd32 (bytes small_disk) 0x800028 = 0" by (simp add: small_disk_def rd32_def le32_def)
  with ext2_alloc_block_takes_least [OF g, of small_disk] s' show ?thesis by simp
qed

section \<open>Giving a block back\<close>

text \<open>\<^verbatim>\<open>ext2_free_block\<close> clears the bit of block 0 for every block of the disk, so the block stays taken;
  and block 0 being free, every later allocation stops with the error that no block is.\<close>

theorem ext2_free_block_ends_allocation:
  assumes "block < 4096" and "goal < 4096" and "eax \<noteq> 0"
  shows "\<exists>s'. ext2_free_block eax block s = ret s' \<and>
    (\<forall>j. bit_set (bytes s') (unat EXT2_BITMAP_BUFFER) j \<longleftrightarrow> j \<noteq> 0 \<and> bit_set (bytes s) (unat EXT2_BITMAP_BUFFER) j) \<and>
    ext2_alloc_block goal s' = stops (Ext2_error ''no free blocks any more'' [])"
proof -
  let ?s = "add32 0x800028 1 (add16 0x80040C 1 (upd (\<lambda>m. ext2_clear_bit m 0x802000 0) s))"
  have f: "ext2_free_block eax block s = ret ?s"
    using assms(3) by (simp add: ext2_free_block_def block_group_0 [OF assms(1)] Let_def)
  have b: "bit_set (bytes ?s) 0x802000 j \<longleftrightarrow> j \<noteq> 0 \<and> bit_set (bytes s) 0x802000 j" for j
    by (simp add: upd_def add16_def add32_def flat)
  have "ext2_grab_block (bytes ?s) 0x802000 0 = 0"
    using b [of 0] by (simp add: ext2_grab_block_def test_bit_set)
  then show ?thesis using f b ext2_alloc_block_eq [OF assms(2), of ?s] by simp
qed

theorem ext2_free_block_ends_allocation_witness:
  "\<exists>s'. ext2_free_block 1 3 small_disk = ret s' \<and> ext2_alloc_block 34 s' = stops (Ext2_error ''no free blocks any more'' [])"
  using ext2_free_block_ends_allocation [of 3 34 1 small_disk] by auto

end
