(* ===== verification/Ext2_Inode.thy ===== *)
theory Ext2_Inode
  imports Ext2
begin

text \<open>
  Inodes of the Ext2 code and the making of its disk: \<^verbatim>\<open>fs/ext2/inode.c\<close>, \<^verbatim>\<open>ext2_new_inode\<close> of
  \<^verbatim>\<open>ialloc.c\<close>, and \<^verbatim>\<open>ram_mke2fs.c\<close>. An inode is the address of a \<^verbatim>\<open>struct m_inode\<close>, which
  \<^verbatim>\<open>ext2_iget\<close> lays over the inode table of the disk, though it is longer than an entry of the table.
\<close>

section \<open>Block numbers of a file: _bmap\<close>

definition i_block :: "nat \<Rightarrow> nat \<Rightarrow> nat" where
  "i_block inode k = inode + offset_of ext2_inode ''i_block'' + 4 * k"

text \<open>A new block for pointer \<open>k\<close> of the inode. The order of the last two writes differs in the source.\<close>

definition new_slot :: "nat \<Rightarrow> nat \<Rightarrow> u32 \<Rightarrow> e2 \<Rightarrow> e2 run" where
  "new_slot inode k goal s =
     proceed (ext2_alloc_block goal s) (\<lambda>(b, s).
       let s = upd (\<lambda>m. wr32 m (i_block inode k) b) s in
       ret (if b \<noteq> 0
            then upd (\<lambda>m. (wr32 m (inode + offset_of m_inode ''i_ctime'') 0)
                             (inode + offset_of m_inode ''i_dirt'' := 1)) s
            else s))"

definition need_slot :: "nat \<Rightarrow> nat \<Rightarrow> u32 \<Rightarrow> bool \<Rightarrow> e2 \<Rightarrow> e2 run" where
  "need_slot inode k goal create s =
     (if create \<and> rd32 (bytes s) (i_block inode k) = 0 then new_slot inode k goal s else ret s)"

text \<open>Entry \<open>r\<close> of a block of pointers; a new one is stored as entry \<open>w\<close>.\<close>

definition need_entry :: "nat \<Rightarrow> u32 \<Rightarrow> u32 \<Rightarrow> nat \<Rightarrow> bool \<Rightarrow> nat \<Rightarrow> e2 \<Rightarrow> (u32 \<times> e2) run" where
  "need_entry buf r w k create inode s =
     (let i = rd32 (bytes s) (buf + 4 * unat r) in
      if create \<and> i = 0
      then proceed (ext2_alloc_block (rd32 (bytes s) (i_block inode k)) s) (\<lambda>(i, s).
             ret (i, if i \<noteq> 0 then upd (\<lambda>m. wr32 m (buf + 4 * unat w) i) s else s))
      else ret (i, s))"

text \<open>The block of pointers that \<open>p\<close> names, when there is one.\<close>

definition with_buffer :: "u32 \<Rightarrow> e2 \<Rightarrow> (nat \<Rightarrow> (u32 \<times> e2) run) \<Rightarrow> (u32 \<times> e2) run" where
  "with_buffer p s f =
     (if p = 0 then ret (0, s)
      else let block_buffer = bread p s in if block_buffer = 0 then ret (0, s) else f block_buffer)"

definition do_bmap :: "nat \<Rightarrow> u32 \<Rightarrow> bool \<Rightarrow> e2 \<Rightarrow> (u32 \<times> e2) run" where
  "do_bmap inode block create s =
     (if sint block < 0 then stops (Kernel_panic ''_bmap: block<0'')
      else if sint block \<ge> 12 + 256 + 256 * 256 then stops (Kernel_panic ''_bmap: block>big'')
      else if block < 12
      then proceed (need_slot inode (unat block) 34 create s) (\<lambda>s.
             ret (rd32 (bytes s) (i_block inode (unat block)), s))
      else
        let block = block - 12 in
        if block < 256
        then proceed (need_slot inode 12 (rd32 (bytes s) (i_block inode 12)) create s) (\<lambda>s.
               with_buffer (rd32 (bytes s) (i_block inode 12)) s (\<lambda>buf.
                 need_entry buf block block 12 create inode s))
        else
          let block = block - 256 in
          proceed (need_slot inode 13 (rd32 (bytes s) (i_block inode 13)) create s) (\<lambda>s.
            with_buffer (rd32 (bytes s) (i_block inode 13)) s (\<lambda>buf.
              proceed (need_entry buf (drop_bit 8 block) (drop_bit 8 block) 13 create inode s) (\<lambda>(i, s).
                with_buffer i s (\<lambda>buf.
                  need_entry buf (block AND 255) (block AND 511) 13 create inode s)))))"

definition bmap :: "nat \<Rightarrow> u32 \<Rightarrow> e2 \<Rightarrow> (u32 \<times> e2) run" where
  "bmap inode block s = do_bmap inode block False s"

definition create_block :: "nat \<Rightarrow> u32 \<Rightarrow> e2 \<Rightarrow> (u32 \<times> e2) run" where
  "create_block inode block s = do_bmap inode block True s"

section \<open>Inodes on the disk and in memory\<close>

text \<open>The index in the block is added to a \<^verbatim>\<open>void *\<close>: it counts bytes.\<close>

definition ext2_get_inode :: "u32 \<Rightarrow> e2 \<Rightarrow> nat" where
  "ext2_get_inode inr s =
     (let group_num = ext2_get_group_num inr INODE;
          group_offset = ext2_get_group_offset inr INODE;
          desc = ext2_get_group_desc group_num;
          inode_block = group_num * EXT2_BLOCKS_PER_GROUP
            + rd32 (bytes s) (desc + offset_of ext2_group_desc ''bg_inode_table'')
            + group_offset div EXT2_INODES_PER_BLOCK;
          block_buffer = bread inode_block s;
          offset = group_offset AND (EXT2_INODES_PER_BLOCK - 1)
      in block_buffer + unat offset)"

definition ext2_read_inode :: "nat \<Rightarrow> e2 \<Rightarrow> e2" where
  "ext2_read_inode inode s =
     (let raw_inode = ext2_get_inode (rd32 (bytes s) (inode + offset_of m_inode ''i_num'')) s
      in upd (\<lambda>m. memcpy m inode raw_inode (size_of ext2_inode)) s)"

definition ext2_write_inode :: "nat \<Rightarrow> e2 \<Rightarrow> e2" where
  "ext2_write_inode inode s =
     (let raw_inode = ext2_get_inode (rd32 (bytes s) (inode + offset_of m_inode ''i_num'')) s
      in upd (\<lambda>m. memcpy m raw_inode inode (size_of ext2_inode)) s)"

definition ext2_iget :: "u32 \<Rightarrow> e2 \<Rightarrow> nat \<times> e2" where
  "ext2_iget inr s =
     (let inode_table = ram_start s + EXT2_BLOCK_SIZE * 10;
          inode = unat (inode_table + (inr - 1) * word_of_nat (size_of ext2_inode))
      in (inode, upd (\<lambda>m. wr32 m (inode + offset_of m_inode ''i_num'') inr) s))"

text \<open>\<^verbatim>\<open>ext2_free_inode\<close> is given the pointer for a number.\<close>

definition ext2_iput :: "u32 \<Rightarrow> nat \<Rightarrow> nat \<Rightarrow> e2 \<Rightarrow> e2 run" where
  "ext2_iput eax bitmap inode s =
     (if inode = 0 then ret s
      else
        let s = add32 (inode + offset_of m_inode ''i_count'') (- 1) s in
        if rd32 (bytes s) (inode + offset_of m_inode ''i_count'') = 0
        then stops (Kernel_panic ''iput: trying to free free inode'')
        else if rd32 (bytes s) (inode + offset_of m_inode ''i_nlinks'') = 0
        then ext2_free_inode eax bitmap (word_of_nat inode) s
        else if bytes s (inode + offset_of m_inode ''i_dirt'') \<noteq> 0
        then ret (add32 (inode + offset_of m_inode ''i_count'') (- 1) (ext2_write_inode inode s))
        else ret s)"

definition ext2_new_inode :: "nat \<Rightarrow> u32 \<Rightarrow> e2 \<Rightarrow> (nat \<times> e2) run" where
  "ext2_new_inode dir mode s =
     proceed (ext2_alloc_inode (rd32 (bytes s) (dir + offset_of m_inode ''i_num'')) mode s) (\<lambda>(inr, s).
       let (inode, s) = ext2_iget inr s;
           s = upd (\<lambda>m. wr32 m (inode + offset_of m_inode ''i_count'') 1) s;
           s = upd (\<lambda>m. wr32 m (inode + offset_of m_inode ''i_nlinks'') 1) s;
           s = upd (\<lambda>m. wr32 m (inode + offset_of m_inode ''i_atime'') 0) s;
           s = upd (\<lambda>m. wr32 m (inode + offset_of m_inode ''i_ctime'') 0) s;
           s = upd (\<lambda>m. wr32 m (inode + offset_of m_inode ''i_mode'') mode) s
       in ret (inode, s))"

section \<open>Making the disk: ram_mke2fs.c\<close>

definition put_field :: "struct \<Rightarrow> nat \<Rightarrow> string \<times> u32 \<Rightarrow> e2 \<Rightarrow> e2" where
  "put_field fs p fw = upd (\<lambda>m. wr32 m (p + offset_of fs (fst fw)) (snd fw))"

definition put_field16 :: "struct \<Rightarrow> nat \<Rightarrow> string \<times> u16 \<Rightarrow> e2 \<Rightarrow> e2" where
  "put_field16 fs p fw = upd (\<lambda>m. wr16 m (p + offset_of fs (fst fw)) (snd fw))"

definition ram_ext2_init_super_block :: "e2 \<Rightarrow> e2" where
  "ram_ext2_init_super_block s =
     (let sb = unat (ram_start s + EXT2_BLOCK_SIZE);
          s = fold (put_field ext2_super_block sb)
            [(''s_inodes_count'', 184), (''s_blocks_count'', 1440), (''s_r_blocks_count'', 72),
             (''s_free_blocks_count'', 1393), (''s_free_inodes_count'', 173), (''s_first_data_block'', 1),
             (''s_log_block_size'', 0), (''s_log_frag_size'', 0), (''s_blocks_per_group'', 8192),
             (''s_frags_per_group'', 8192), (''s_inodes_per_group'', 184)] s
      in put_field16 ext2_super_block sb (''s_magic'', 0xEF53) s)"

definition ram_ext2_init_group_desc :: "e2 \<Rightarrow> e2" where
  "ram_ext2_init_group_desc s =
     (let desc = unat (ram_start s + EXT2_BLOCK_SIZE * 2);
          s = fold (put_field ext2_group_desc desc)
            [(''bg_block_bitmap'', 8), (''bg_inode_bitmap'', 9), (''bg_inode_table'', 10)] s
      in fold (put_field16 ext2_group_desc desc)
            [(''bg_free_blocks_count'', 1393), (''bg_free_inodes_count'', 173), (''bg_used_dirs_count'', 2)] s)"

definition ram_ext2_init_bitmap :: "e2 \<Rightarrow> e2" where
  "ram_ext2_init_bitmap s =
     (let block_bitmap = unat (ram_start s + EXT2_BLOCK_SIZE * 8);
          inode_bitmap = unat (ram_start s + EXT2_BLOCK_SIZE * 9);
          s = upd (\<lambda>m. wr32 m block_bitmap 0xFFFFFFFF) s;
          s = upd (\<lambda>m. wr32 m (block_bitmap + 4) 0x3FFF) s;
          s = upd (\<lambda>m. m(inode_bitmap := 0xFF)) s
      in upd (\<lambda>m. m(inode_bitmap + 1 := 0xF0)) s)"

definition root_inode_address :: "e2 \<Rightarrow> nat" where
  "root_inode_address s =
     unat (ram_start s + EXT2_BLOCK_SIZE * 10 + word_of_nat (size_of ext2_inode) * (ROOT_INODE - 1))"

definition ram_ext2_init_root_inode :: "e2 \<Rightarrow> e2" where
  "ram_ext2_init_root_inode s =
     (let root_inode = root_inode_address s;
          s = upd (\<lambda>m. memset m root_inode 0 (size_of ext2_inode)) s;
          s = put_field ext2_inode root_inode (''i_size'', 0x400) s;
          s = put_field16 ext2_inode root_inode (''i_links_count'', 3) s;
          s = put_field ext2_inode root_inode (''i_blocks'', 2) s
      in upd (\<lambda>m. wr32 m (i_block root_inode 0) 33) s)"

definition ram_ext2fs_init :: "e2 \<Rightarrow> e2" where
  "ram_ext2fs_init s =
     ram_ext2_init_root_inode (ram_ext2_init_bitmap (ram_ext2_init_group_desc (ram_ext2_init_super_block s)))"

definition ram_ext2_get_root_inode :: "e2 \<Rightarrow> nat" where
  "ram_ext2_get_root_inode s = root_inode_address s"

text \<open>The bytes of an entry that is initialised with a literal.\<close>

definition ext2_entry_bytes :: "u32 \<Rightarrow> u16 \<Rightarrow> u8 \<Rightarrow> u8 \<Rightarrow> string \<Rightarrow> u8 list" where
  "ext2_entry_bytes inode rec_len name_len file_type name =
     bytes32 inode @ bytes16 rec_len @ [name_len, file_type] @
     map of_char name @ replicate (EXT2_NAME_LEN - length name) 0"

definition ram_mke2fs :: "e2 \<Rightarrow> e2" where
  "ram_mke2fs s =
     (let root_inode = ram_ext2_get_root_inode s;
          block = rd32 (bytes s) (i_block root_inode 0);
          block_buffer = unat (ram_start s + EXT2_BLOCK_SIZE * block);
          put = (\<lambda>p n e. upd (\<lambda>m. put_bytes m p (take (unat (EXT2_DIR_REC_LEN n)) e)));
          s = put block_buffer 1 (ext2_entry_bytes 2 12 1 2 ''.'') s;
          block_buffer = block_buffer + unat (EXT2_DIR_REC_LEN 1);
          s = put block_buffer 1 (ext2_entry_bytes 2 12 2 2 ''..'') s;
          block_buffer = block_buffer + unat (EXT2_DIR_REC_LEN 2)
      in put block_buffer 10 (ext2_entry_bytes 11 20 10 2 ''lost+found'') s)"

section \<open>A disk with free blocks\<close>

text \<open>
  The disk is at its place, its first 33 blocks (the tables) are taken, and \<open>n\<close> blocks below the copies
  of the tables are free. An inode lies in the inode table.
\<close>

definition free_blocks :: "e2 \<Rightarrow> nat set" where
  "free_blocks s = {j. j < 4096 \<and> \<not> bit_set (bytes s) 0x802000 j}"

definition disk_ok :: "nat \<Rightarrow> e2 \<Rightarrow> bool" where
  "disk_ok n s \<longleftrightarrow> ram_start s = 0x400000 \<and> (\<forall>j < 33. bit_set (bytes s) 0x802000 j) \<and> n \<le> card (free_blocks s)"

definition in_table :: "nat \<Rightarrow> bool" where
  "in_table inode \<longleftrightarrow> 0x402800 \<le> inode \<and> inode + 156 \<le> 0x408400"

definition data_block :: "u32 \<Rightarrow> bool" where
  "data_block p \<longleftrightarrow> 33 \<le> p \<and> p < 4096"

text \<open>Two states that agree below the copies of the tables.\<close>

definition same_disk :: "e2 \<Rightarrow> e2 \<Rightarrow> bool" where
  "same_disk s t \<longleftrightarrow> ram_start s = ram_start t \<and> (\<forall>x < 0x800000. bytes s x = bytes t x)"

lemma same_disk_rd32: "same_disk s t \<Longrightarrow> a + 4 \<le> 0x800000 \<Longrightarrow> rd32 (bytes s) a = rd32 (bytes t) a"
  by (rule rd32_cong) (simp add: same_disk_def)

declare upd_def [simp]

lemma disk_ok_cong: "(\<And>x. 0x800000 \<le> x \<Longrightarrow> f (bytes s) x = bytes s x) \<Longrightarrow> disk_ok n (upd f s) = disk_ok n s"
  by (simp add: disk_ok_def free_blocks_def bit_set_def)

lemma disk_ok_low [simp]:
  "a + 4 \<le> 0x800000 \<Longrightarrow> disk_ok n (upd (\<lambda>m. wr32 m a w) s) = disk_ok n s"
  "a < 0x800000 \<Longrightarrow> disk_ok n (upd (\<lambda>m. m(a := c)) s) = disk_ok n s"
  by (rule disk_ok_cong; simp add: flat)+

lemma bread_data: "ram_start s = 0x400000 \<Longrightarrow> data_block p \<Longrightarrow> bread p s = 0x400000 + unat p * 1024 \<and> unat p < 4096 \<and> 33 \<le> unat p"
proof -
  assume r: "ram_start s = 0x400000" and d: "data_block p"
  then have u: "unat p < 4096" "33 \<le> unat p" by (simp_all add: data_block_def word_less_nat_alt word_le_nat_alt)
  have "0x400000 + p * 1024 = (word_of_nat (0x400000 + unat p * 1024) :: u32)" by simp
  then have "unat (0x400000 + p * 1024) = 0x400000 + unat p * 1024" using u by (simp only:) (subst unat_of_nat_u32; simp)
  then show ?thesis using r u by (simp add: bread_def EXT2_BLOCK_SIZE_def)
qed

text \<open>With a free block left, allocation gives a data block and changes nothing below the copies.\<close>

lemma ext2_alloc_block_ok:
  assumes "disk_ok (Suc n) s" and "goal < 4096"
  obtains b s' where "ext2_alloc_block goal s = ret (b, s')" "data_block b" "same_disk s' s" "disk_ok n s'"
    "\<not> bit_set (bytes s) 0x802000 (unat b)" "bit_set (bytes s') 0x802000 (unat b)"
proof -
  from assms(1) have "free_blocks s \<noteq> {}" by (auto simp: disk_ok_def)
  then obtain j where j: "j < 4096" "\<not> bit_set (bytes s) 0x802000 j" by (auto simp: free_blocks_def)
  have "\<nexists>e. ext2_alloc_block goal s = stops e"
    using ext2_alloc_block_stop [OF assms(2), of s] assms(1) j by (auto simp: disk_ok_def)
  moreover have "ext2_alloc_block goal s \<noteq> None" by (simp add: ext2_alloc_block_eq [OF assms(2)])
  ultimately obtain b s' where a: "ext2_alloc_block goal s = ret (b, s')"
    by (metis option.exhaust sum.exhaust surj_pair)
  note d = ext2_alloc_block_done [OF assms(2) a]
  have u: "unat b \<le> j" "33 \<le> unat b" using d(3,4) j assms(1) by (force simp: disk_ok_def not_less [symmetric])+
  then have db: "data_block b" using j by (simp add: data_block_def word_less_nat_alt word_le_nat_alt)
  have bs: "bit_set (bytes s') 0x802000 k \<longleftrightarrow> k = unat b \<or> bit_set (bytes s) 0x802000 k" for k
    by (simp add: d(5) add16_def add32_def flat)
  then have "free_blocks s' = free_blocks s - {unat b}" by (auto simp: free_blocks_def)
  moreover have "unat b \<in> free_blocks s" using d(3) u j by (simp add: free_blocks_def)
  ultimately have "card (free_blocks s') = card (free_blocks s) - 1" by simp
  then have "n \<le> card (free_blocks s')" using assms(1) unfolding disk_ok_def by linarith
  then have "disk_ok n s'" using assms(1) by (simp add: disk_ok_def bs) (simp add: d(5) add16_def add32_def)
  moreover have "same_disk s' s" by (auto simp: same_disk_def d(5) add16_def add32_def flat)
  ultimately show thesis using that a db d(3) bs by blast
qed

section \<open>What create_block stores, bmap finds\<close>

lemma disk_ok_Suc: "disk_ok (Suc n) s \<Longrightarrow> disk_ok n s"
  by (simp add: disk_ok_def)

lemma i_block_in_table: "in_table inode \<Longrightarrow> k < 15 \<Longrightarrow> 0x402800 \<le> i_block inode k \<and> i_block inode k + 4 \<le> inode + 128"
  by (simp add: i_block_def in_table_def)

lemma need_slot_ok:
  assumes "disk_ok (Suc n) s" "in_table inode" "k < 15" "rd32 (bytes s) (i_block inode k) = 0 \<longrightarrow> goal < 4096"
  obtains s' where "need_slot inode k goal True s = ret s'" "disk_ok n s'" "rd32 (bytes s') (i_block inode k) \<noteq> 0"
    "rd32 (bytes s) (i_block inode k) \<noteq> 0 \<longrightarrow> s' = s"
    "rd32 (bytes s) (i_block inode k) = 0 \<longrightarrow> data_block (rd32 (bytes s') (i_block inode k)) \<and>
       \<not> bit_set (bytes s) 0x802000 (unat (rd32 (bytes s') (i_block inode k)))"
proof (cases "rd32 (bytes s) (i_block inode k) = 0")
  case False
  then show thesis using that [of s] disk_ok_Suc [OF assms(1)] by (simp add: need_slot_def)
next
  case True
  with assms(4) have "goal < 4096" by simp
  from ext2_alloc_block_ok [OF assms(1) this] obtain b t where
    t: "ext2_alloc_block goal s = ret (b, t)" "data_block b" "disk_ok n t" "\<not> bit_set (bytes s) 0x802000 (unat b)" by blast
  let ?t = "upd (\<lambda>m. (wr32 m (inode + 148) 0)(inode + 153 := 1)) (upd (\<lambda>m. wr32 m (i_block inode k) b) t)"
  have n: "b \<noteq> 0" using t(2) by (auto simp: data_block_def)
  have i: "inode + 156 \<le> 0x800000" "i_block inode k + 4 \<le> 0x800000" "i_block inode k + 4 \<le> inode + 148"
    using assms(2) i_block_in_table [OF assms(2,3)] by (simp_all add: in_table_def)
  have r: "rd32 (bytes ?t) (i_block inode k) = b" using i by (simp add: flat)
  have "disk_ok n ?t"
    using i t(3) by (intro iffD2 [OF disk_ok_cong]) (auto simp: flat intro!: iffD2 [OF disk_ok_cong])
  moreover have "need_slot inode k goal True s = ret ?t"
    using True t(1) n by (simp add: need_slot_def new_slot_def)
  ultimately show thesis using that [of ?t] r n True t(2,4) by simp
qed

lemma need_entry_ok:
  assumes "disk_ok (Suc n) s" "in_table inode" "data_block p" "unat r < 256"
    "rd32 (bytes s) (i_block inode k) < 4096"
  obtains b s' where "need_entry (bread p s) r r k True inode s = ret (b, s')"
    "need_entry (bread p s') r r k' False inode s' = ret (b, s')"
    "disk_ok n s'" "\<forall>x < 0x408400. bytes s' x = bytes s x" "bread p s' = bread p s"
proof -
  have rs: "ram_start s = 0x400000" using assms(1) by (simp add: disk_ok_def)
  note bp = bread_data [OF rs assms(3)]
  define a where "a = bread p s + 4 * unat r"
  have a: "0x408400 \<le> a" "a + 4 \<le> 0x800000" using bp assms(4) unfolding a_def by linarith+
  show thesis
  proof (cases "rd32 (bytes s) a = 0")
    case False
    then show thesis using that [of "rd32 (bytes s) a" s] disk_ok_Suc [OF assms(1)] by (simp add: need_entry_def a_def [symmetric])
  next
    case True
    from ext2_alloc_block_ok [OF assms(1,5)] obtain b t where
      t: "ext2_alloc_block (rd32 (bytes s) (i_block inode k)) s = ret (b, t)" "data_block b" "same_disk t s" "disk_ok n t" by blast
    have n: "b \<noteq> 0" using t(2) by (auto simp: data_block_def)
    let ?t = "upd (\<lambda>m. wr32 m a b) t"
    have br: "bread p ?t = bread p s" using t(3) by (simp add: bread_def same_disk_def)
    show thesis
    proof (rule that [of b ?t])
      show "need_entry (bread p s) r r k True inode s = ret (b, ?t)"
        using True t(1) n by (simp add: need_entry_def a_def [symmetric])
      show "need_entry (bread p ?t) r r k' False inode ?t = ret (b, ?t)"
        by (simp add: need_entry_def br [simplified] a_def [symmetric] flat)
      show "disk_ok n ?t" using a t(4) by (simp del: upd_def)
      show "\<forall>x<0x408400. bytes ?t x = bytes s x" using a t(3) by (simp add: flat same_disk_def)
      show "bread p ?t = bread p s" by (rule br)
    qed
  qed
qed


text \<open>A disk with 40 blocks taken, and in the inode at the start of the table a doubly indirect block.\<close>

definition disk40 :: e2 where
  "disk40 = \<lparr>bytes = (\<lambda>x. if 0x802000 \<le> x \<and> x < 0x802005 then 0xFF else
      if x = 0x40285C then 33 else if x = 0x408404 then 34 else 0), ram_start = 0x400000, ram_end = 0\<rparr>"

lemma full_byte: "bit (0xFF :: u8) (7 - j mod 8)"
proof -
  have "7 - j mod 8 < 8" by (rule le_less_trans [OF diff_le_self]) simp
  moreover have "(0xFF :: u8) = mask 8" by (simp add: mask_eq_exp_minus_1)
  ultimately show ?thesis by (simp only: bit_mask_iff) simp
qed

lemma disk40_bits: "bit_set (bytes disk40) 0x802000 j \<longleftrightarrow> j < 40"
proof -
  have "j div 8 < 5 \<longleftrightarrow> j < 40" by auto
  then show ?thesis using full_byte [of j] by (simp add: bit_set_def disk40_def)
qed

lemma disk40_ok: "disk_ok 2 disk40" "disk_ok 1 disk40"
proof -
  have "{40, 41} \<subseteq> free_blocks disk40" by (simp add: free_blocks_def disk40_bits)
  moreover have "finite (free_blocks disk40)" by (simp add: free_blocks_def)
  ultimately have "card {40 :: nat, 41} \<le> card (free_blocks disk40)" by (rule card_mono [rotated])
  then show "disk_ok 2 disk40" "disk_ok 1 disk40"
    by (simp_all add: disk_ok_def disk40_bits) (simp_all add: disk40_def)
qed


text \<open>The index in the second block of pointers is stored modulo 512 and looked up modulo 256.\<close>

lemma and_511:
  "unat ((k :: u32) AND 511) = unat (k AND 255) + (if k AND 256 = 0 then 0 else 256)" "unat (k AND 255) < 256"
proof -
  have m: "k AND 255 = take_bit 8 k" "k AND 511 = take_bit 9 k" by (simp_all add: take_bit_eq_mask mask_eq_exp_minus_1)
  have u: "unat (k AND 255) = unat k mod 256" "unat (k AND 511) = unat k mod 512"
    unfolding m by (simp_all only: unsigned_take_bit_eq) (simp_all add: take_bit_eq_mod)
  have "k AND 256 = 0 \<longleftrightarrow> \<not> bit (unat k) 8" using and_exp_eq_0_iff_not_bit [of k 8] by (simp add: bit_unsigned_iff)
  then have e: "k AND 256 = 0 \<longleftrightarrow> even (unat k div 256)" by (simp add: bit_iff_odd)
  have "unat k mod 512 = 256 * (unat k div 256 mod 2) + unat k mod 256" using mod_mult2_eq [of "unat k" 256 2] by simp
  then show "unat (k AND 511) = unat (k AND 255) + (if k AND 256 = 0 then 0 else 256)"
    by (simp add: u e even_iff_mod_2_eq_zero)
  show "unat (k AND 255) < 256" by (simp add: u)
qed

lemma bread_next:
  assumes "ram_start s = 0x400000" and "data_block q" and "q < 4095"
  shows "bread (q + 1) s = bread q s + 1024"
proof -
  have "data_block (q + 1)" "unat (q + 1) = unat q + 1"
    using assms(2,3) unat_Suc_less [OF assms(3)] by (simp_all add: data_block_def word_less_nat_alt word_le_nat_alt)
  then show ?thesis using bread_data [OF assms(1), of "q + 1"] bread_data [OF assms(1,2)] by simp
qed

text \<open>Entry \<open>n\<close> of the block \<open>p\<close> and entry \<open>w\<close> of \<open>q\<close> or of the block behind it.\<close>

lemma pointer_places:
  assumes rs: "ram_start s = 0x400000" and "data_block p" "data_block q" "q < 4095" "q \<noteq> p" "q + 1 \<noteq> p"
    and "n < 256" "r < 256" "w = r + (if c then 0 else 256)"
  shows "0x408400 \<le> bread q s + 4 * w" "bread q s + 4 * w + 4 \<le> 0x800000"
    "bread p s + 4 * n + 4 \<le> 0x800000" "bread q s + 4 * r + 4 \<le> 0x800000"
    "bread p s + 4 * n + 4 \<le> bread q s + 4 * w \<or> bread q s + 4 * w + 4 \<le> bread p s + 4 * n"
proof -
  note bp = bread_data [OF rs assms(2)] and bq = bread_data [OF rs assms(3)]
  have uq: "unat q < 4095" using assms(4) by (simp add: word_less_nat_alt)
  show "0x408400 \<le> bread q s + 4 * w" "bread q s + 4 * w + 4 \<le> 0x800000"
    "bread p s + 4 * n + 4 \<le> 0x800000" "bread q s + 4 * r + 4 \<le> 0x800000"
    using bp bq assms(7-9) uq by (auto split: if_splits)
  have "unat p \<noteq> unat q" "unat p \<noteq> unat q + 1"
    using assms(5,6) unat_Suc_less [OF assms(4)] by (simp_all add: word_unat_eq_iff)
  then consider "unat p < unat q" | "unat q + 2 \<le> unat p" by linarith
  then show "bread p s + 4 * n + 4 \<le> bread q s + 4 * w \<or> bread q s + 4 * w + 4 \<le> bread p s + 4 * n"
    using bp bq assms(7-9) by cases (auto split: if_splits)
qed

text \<open>Where a file has its doubly indirect blocks set up, \<^verbatim>\<open>create_block\<close> stores the new block at the place
  where \<^verbatim>\<open>bmap\<close> looks for it only if bit 8 of the index is clear. Otherwise the pointer goes into the
  block of the disk that follows, and \<^verbatim>\<open>bmap\<close> finds no block.\<close>

theorem double_indirect_entry:
  assumes "disk_ok 1 s" and "in_table inode" and "268 \<le> block" and "block < 65804"
    and "rd32 (bytes s) (i_block inode 13) = p" and "data_block p"
    and "rd32 (bytes s) (bread p s + 4 * unat (drop_bit 8 (block - 268))) = q" and "data_block q" and "q < 4095"
    and "q \<noteq> p" and "q + 1 \<noteq> p" and "rd32 (bytes s) (bread q s + 4 * unat ((block - 268) AND 255)) = 0"
  shows "\<exists>b s'. create_block inode block s = ret (b, s') \<and> data_block b \<and>
    bmap inode block s' = ret (if (block - 268) AND 256 = 0 then b else 0, s') \<and>
    rd32 (bytes s') (bread (if (block - 268) AND 256 = 0 then q else q + 1) s + 4 * unat ((block - 268) AND 255)) = b"
proof -
  define k where "k = block - 268"
  have ub: "unat block < 65804" "268 \<le> unat block" using assms(3,4) by (simp_all add: word_less_nat_alt word_le_nat_alt)
  have "sint block = int (unat block)" using ub by (intro sint_small) simp
  then have sb: "\<not> sint block < 0" "\<not> 65804 \<le> sint block" using ub by linarith+
  have nb: "\<not> block < 12" "\<not> block - 12 < 256" "block - 12 - 256 = k"
    using ub by (simp_all add: word_less_nat_alt unat_sub word_le_nat_alt k_def)
  have uk: "unat k = unat block - 268" using assms(3) by (simp add: k_def unat_sub)
  have rs: "ram_start s = 0x400000" using assms(1) by (simp add: disk_ok_def)
  note bp = bread_data [OF rs assms(6)] and bq = bread_data [OF rs assms(8)]
  note q1 = bread_next [OF rs assms(8,9)]
  define r where "r = unat (k AND 255)"
  define w where "w = unat (k AND 511)"
  have w: "w = r + (if k AND 256 = 0 then 0 else 256)" "r < 256" using and_511 [of k] by (simp_all add: r_def w_def)
  have p4: "p < 4096" and pn: "p \<noteq> 0" and qn: "q \<noteq> 0" using assms(6,8) by (auto simp: data_block_def)
  have d: "disk_ok (Suc 0) s" using assms(1) by simp
  obtain b t where t: "ext2_alloc_block p s = ret (b, t)" "data_block b" "same_disk t s"
    using ext2_alloc_block_ok [OF d p4] by blast
  have bn: "b \<noteq> 0" using t(2) by (auto simp: data_block_def)
  define a where "a = bread q s + 4 * w"
  define e where "e = bread p s + 4 * unat (drop_bit 8 k)"
  have "unat (drop_bit 8 k) = unat k div 256" by (simp only: unat_drop_bit_eq) (simp add: drop_bit_eq_div)
  then have dk: "unat (drop_bit 8 k) < 256" using uk ub by simp
  note al = pointer_places [OF rs assms(6,8,9,10,11) dk w(2,1), folded a_def e_def]
  let ?s = "t\<lparr>bytes := wr32 (bytes t) a b\<rparr>"
  have same: "rd32 (bytes ?s) x = rd32 (bytes s) x" if "x + 4 \<le> a \<or> a + 4 \<le> x" "x + 4 \<le> 0x800000" for x
    using that same_disk_rd32 [OF t(3), of x] by (auto simp: flat)
  have p': "rd32 (bytes ?s) (i_block inode 13) = p"
    using same [of "i_block inode 13"] i_block_in_table [OF assms(2), of 13] assms(2,5) al(1) by (simp add: in_table_def)
  have e': "rd32 (bytes ?s) e = q" using same [OF al(5,3)] assms(7) by (simp add: e_def k_def)
  have f: "rd32 (bytes ?s) (bread q s + 4 * r) = (if k AND 256 = 0 then b else 0)"
    using same [of "bread q s + 4 * r"] al(4) w assms(12) by (auto simp: flat a_def r_def k_def)
  have br: "bread x ?s = bread x s" for x using t(3) by (simp add: bread_def same_disk_def)
  have "create_block inode block s = ret (b, ?s)"
    using sb nb assms(5,7,12) bp bq pn qn t(1) bn
    by (simp add: create_block_def do_bmap_def need_slot_def with_buffer_def need_entry_def Let_def k_def [symmetric]
        r_def [symmetric] w_def [symmetric] a_def)
  moreover have "bmap inode block ?s = ret (if k AND 256 = 0 then b else 0, ?s)"
    using sb nb p' e' [unfolded e_def] f bp bq pn qn
    by (simp add: bmap_def do_bmap_def need_slot_def with_buffer_def need_entry_def Let_def br r_def [symmetric])
  moreover have "rd32 (bytes ?s) (bread (if k AND 256 = 0 then q else q + 1) s + 4 * r) = b"
  proof -
    have "bread (if k AND 256 = 0 then q else q + 1) s + 4 * r = a" using w by (simp add: a_def q1)
    then show ?thesis by (simp add: flat)
  qed
  ultimately show ?thesis using t(2) by (fold k_def, fold r_def) blast
qed

theorem double_indirect_entry_witness:
  "\<exists>b s'. create_block 0x402800 524 disk40 = ret (b, s') \<and> data_block b \<and> bmap 0x402800 524 s' = ret (0, s')"
proof -
  have b: "bread 33 disk40 = 0x408400" "bread 34 disk40 = 0x408800" "unat (drop_bit 8 (524 - 268 :: u32)) = 1"
    by (simp_all add: bread_def disk40_def EXT2_BLOCK_SIZE_def)
  have "rd32 (bytes disk40) (i_block 0x402800 13) = 33" "rd32 (bytes disk40) 0x408404 = 34" "rd32 (bytes disk40) 0x408800 = 0"
    by (simp_all add: i_block_def disk40_def rd32_def le32_def)
  with double_indirect_entry [OF disk40_ok(2), of "0x402800" 524 33 34] b show ?thesis
    by (auto simp: in_table_def data_block_def)
qed

section \<open>Inodes over the inode table\<close>

lemma ext2_iget_address:
  assumes "ram_start s = 0x400000" and "0 < inr" and "inr \<le> 184"
  shows "fst (ext2_iget inr s) = 0x402800 + (unat inr - 1) * 128"
proof -
  have u: "1 \<le> unat inr" "unat inr \<le> 184" using assms(2,3) by (simp_all add: word_less_nat_alt word_le_nat_alt)
  define n where "n = unat inr - 1"
  have n: "n \<le> 183" "inr - 1 = word_of_nat n" using u by (simp_all add: n_def of_nat_diff)
  have "0x402800 + (inr - 1) * 128 = (word_of_nat (0x402800 + n * 128) :: u32)" by (simp add: n(2))
  then have "unat (0x402800 + (inr - 1) * 128) = 0x402800 + n * 128" using n(1) by (simp only:) (subst unat_of_nat_u32; simp)
  then show ?thesis by (simp add: ext2_iget_def assms(1) EXT2_BLOCK_SIZE_def Let_def n_def)
qed

text \<open>Getting inode \<open>inr\<close> of the table writes the number into the table: it becomes the size of the file
  that the next inode describes. Nothing else changes.\<close>

theorem ext2_iget_changes_next_size:
  assumes "ram_start s = 0x400000" and "0 < inr" and "inr < 184"
  shows "rd32 (bytes (snd (ext2_iget inr s))) (fst (ext2_iget (inr + 1) s) + offset_of ext2_inode ''i_size'') = inr \<and>
    (\<forall>x. bytes (snd (ext2_iget inr s)) x \<noteq> bytes s x \<longrightarrow>
       fst (ext2_iget (inr + 1) s) + 4 \<le> x \<and> x < fst (ext2_iget (inr + 1) s) + 8)"
proof -
  have u: "unat (inr + 1) = Suc (unat inr)" "1 \<le> unat inr" "unat inr < 184"
    using unat_Suc_less [OF assms(3)] assms(2,3) by (simp_all add: word_less_nat_alt word_le_nat_alt)
  have n: "fst (ext2_iget (inr + 1) s) = 0x402800 + unat inr * 128"
    using ext2_iget_address [OF assms(1), of "inr + 1"] u by (simp add: word_less_nat_alt word_le_nat_alt)
  have "fst (ext2_iget inr s) = 0x402800 + (unat inr - 1) * 128"
    using ext2_iget_address [OF assms(1,2)] assms(3) by simp
  then have w: "fst (ext2_iget inr s) + 132 = fst (ext2_iget (inr + 1) s) + 4" using u(2) n by (simp add: diff_mult_distrib)
  have s: "bytes (snd (ext2_iget inr s)) = wr32 (bytes s) (fst (ext2_iget (inr + 1) s) + 4) inr"
    unfolding w [symmetric] by (simp add: ext2_iget_def Let_def)
  let ?a = "fst (ext2_iget (inr + 1) s) + 4"
  have "?a \<le> x \<and> x < ?a + 4" if "wr32 (bytes s) ?a inr x \<noteq> bytes s x" for x
    using that byte_wr32 [of x ?a "bytes s" inr] by (metis not_le)
  then show ?thesis unfolding s by (force simp: flat)
qed

theorem ext2_iget_changes_next_size_witness:
  "rd32 (bytes (snd (ext2_iget 2 disk40))) (fst (ext2_iget 3 disk40) + 4) = 2"
  using ext2_iget_changes_next_size [of disk40 2] by (simp add: disk40_def)

section \<open>The disk as it is made\<close>

text \<open>The order of the calls in \<^verbatim>\<open>init\<close>, where they are commented out.\<close>

definition fresh_disk :: "e2 \<Rightarrow> e2" where
  "fresh_disk s = ext2_fs_init (ram_ext2fs_init (rd_init s))"

definition made_disk :: "e2 \<Rightarrow> e2" where
  "made_disk s = ram_ext2fs_init (rd_init s)"

lemma memset_outside: "x < d \<or> d + n \<le> x \<Longrightarrow> memset m d c n x = m x"
  by (induction m d c n rule: memset.induct) auto

lemmas ram_disk_defs = made_disk_def ram_ext2fs_init_def ram_ext2_init_super_block_def ram_ext2_init_group_desc_def
  ram_ext2_init_bitmap_def ram_ext2_init_root_inode_def rd_init_def root_inode_address_def put_field_def put_field16_def
  EXT2_BLOCK_SIZE_def ROOT_INODE_def i_block_def

lemma made_disk_bytes:
  "ram_start (made_disk s) = 0x400000"
  "bytes (made_disk s) 0x402000 = 0xFF" "bytes (made_disk s) 0x402001 = 0xFF" "bytes (made_disk s) 0x402002 = 0xFF"
  "bytes (made_disk s) 0x402003 = 0xFF" "bytes (made_disk s) 0x402004 = 0xFF" "bytes (made_disk s) 0x402005 = 0x3F"
  "bytes (made_disk s) 0x402400 = 0xFF" "bytes (made_disk s) 0x402401 = 0xF0"
  "rd32 (bytes (made_disk s)) 0x4028A8 = 33"
  by (simp_all add: ram_disk_defs Let_def flat memset_outside, simp_all add: wr32_def put_bytes_def bytes32_def)

lemma fresh_disk_bytes:
  assumes "x < 1024"
  shows "bytes (fresh_disk s) (0x802000 + x) = bytes (made_disk s) (0x402000 + x)"
    "bytes (fresh_disk s) (0x802400 + x) = bytes (made_disk s) (0x402400 + x)"
  using assms
  by (simp_all add: fresh_disk_def ext2_fs_init_def made_disk_def [symmetric] bread_def made_disk_bytes(1) copy_block_def
      ext2_consts memcpy_inside memcpy_outside)

text \<open>The second word of the block bitmap is written for the other order of bits in a byte.\<close>

lemma fresh_disk_bits:
  "j < 48 \<Longrightarrow> bit_set (bytes (fresh_disk s)) 0x802000 j \<longleftrightarrow> j \<noteq> 40 \<and> j \<noteq> 41"
  "j < 16 \<Longrightarrow> bit_set (bytes (fresh_disk s)) 0x802400 j \<longleftrightarrow> j < 12"
proof -
  have b: "bytes (fresh_disk s) (0x802000 + k) = (if k < 5 then 0xFF else 0x3F)" if "k < 6" for k
  proof -
    have "k \<in> {0, 1, 2, 3, 4, 5}" using that by auto
    then show ?thesis using fresh_disk_bytes(1) [of k s] by (auto simp: made_disk_bytes)
  qed
  have i: "bytes (fresh_disk s) (0x802400 + k) = (if k = 0 then 0xFF else 0xF0)" if "k < 2" for k
  proof -
    have "k \<in> {0, 1}" using that by auto
    then show ?thesis using fresh_disk_bytes(2) [of k s] by (auto simp: made_disk_bytes)
  qed
  show "bit_set (bytes (fresh_disk s)) 0x802000 j \<longleftrightarrow> j \<noteq> 40 \<and> j \<noteq> 41" if "j < 48"
  proof (cases "j < 40")
    case True
    then have "j div 8 < 5" by auto
    then show ?thesis using True b [of "j div 8"] full_byte [of j] by (simp add: bit_set_def)
  next
    case False
    then have "j \<in> {40, 41, 42, 43, 44, 45, 46, 47}" using that by auto
    then show ?thesis using b [of 5] by (auto simp: bit_set_def)
  qed
  show "bit_set (bytes (fresh_disk s)) 0x802400 j \<longleftrightarrow> j < 12" if "j < 16"
  proof (cases "j < 8")
    case True
    then show ?thesis using i [of 0] full_byte [of j] by (simp add: bit_set_def)
  next
    case False
    then have "j \<in> {8, 9, 10, 11, 12, 13, 14, 15}" using that by auto
    then show ?thesis using i [of 1] by (auto simp: bit_set_def)
  qed
qed

text \<open>On the disk as it is made, the 46 blocks of the tables are not what is taken: the first block that
  is given out is 40, then comes 41, which both are meant to be in use. The first inode given out has
  the number 12, which by the numbering from 1 has its bit already set.\<close>

theorem fresh_disk_allocates:
  "\<exists>s1 s2. ext2_alloc_block 34 (fresh_disk s) = ret (40, s1) \<and> ext2_alloc_block 34 s1 = ret (41, s2) \<and>
     (\<exists>s3. ext2_alloc_inode ROOT_INODE S_IFDIR (fresh_disk s) = ret (12, s3)) \<and>
     bit_set (bytes (fresh_disk s)) (ext2_read_inode_bitmap 0) (unat (ext2_get_group_offset 12 INODE))"
proof -
  let ?f = "fresh_disk s"
  have g: "(34 :: u32) < 4096" by simp
  have least: "b = c" if "\<not> bit_set m a (unat b)" "\<forall>j < unat b. bit_set m a j" "\<not> bit_set m a (unat c)"
    "\<forall>j < unat c. bit_set m a j" for m a and b c :: u32
    using that by (metis linorder_neqE_nat word_unat_eq_iff)
  have some: "\<exists>b t. ext2_alloc_block 34 u = ret (b, t)" if "bit_set (bytes u) 0x802000 0" "\<not> bit_set (bytes u) 0x802000 41" for u
  proof -
    have "\<not> (\<exists>e. ext2_alloc_block 34 u = stops e)" using ext2_alloc_block_stop [OF g, of u] that by force
    moreover have "ext2_alloc_block 34 u \<noteq> None" by (simp add: ext2_alloc_block_eq [OF g])
    ultimately show ?thesis by (metis option.exhaust sum.exhaust surj_pair)
  qed
  obtain b s1 where 1: "ext2_alloc_block 34 ?f = ret (b, s1)" using some [of ?f] by (auto simp: fresh_disk_bits)
  note d = ext2_alloc_block_done [OF g 1]
  have b: "b = 40" using least [OF d(3,4), of 40] by (simp add: fresh_disk_bits)
  have bs: "bit_set (bytes s1) 0x802000 j \<longleftrightarrow> j = 40 \<or> bit_set (bytes ?f) 0x802000 j" for j
    by (simp add: d(5) b add16_def add32_def flat)
  obtain c s2 where 2: "ext2_alloc_block 34 s1 = ret (c, s2)" using some [of s1] by (auto simp: bs fresh_disk_bits)
  note e = ext2_alloc_block_done [OF g 2]
  have c: "c = 41" using least [OF e(3,4), of 41] by (simp add: bs fresh_disk_bits)
  have grp: "ext2_get_group_num ROOT_INODE INODE = 0" "ext2_get_group_offset ROOT_INODE INODE = 1"
    by (simp_all add: ext2_get_group_num_def ext2_get_group_offset_def ext2_consts)
  have "ext2_grab_inode (bytes ?f) 0x802400 1 = 12"
    by (simp add: ext2_grab_inode_def ext2_find_first_zero.simps test_bit_set fresh_disk_bits EXT2_INODES_PER_GROUP_def)
  then have "\<exists>s3. ext2_alloc_inode ROOT_INODE S_IFDIR ?f = ret (12, s3)"
    by (simp add: ext2_alloc_inode_def grp Let_def)
  moreover have "bit_set (bytes ?f) (ext2_read_inode_bitmap 0) (unat (ext2_get_group_offset 12 INODE))"
    by (simp add: ext2_get_group_offset_def BLOCK_def INODE_def EXT2_INODES_PER_GROUP_def fresh_disk_bits)
  ultimately show ?thesis using 1 2 b c by blast
qed

end
