(* ===== verification/Ext2_Dir.thy ===== *)
theory Ext2_Dir
  imports Ext2_Inode
begin

text \<open>
  Directories and paths of the Ext2 code: \<^verbatim>\<open>fs/ext2/namei.c\<close>, \<^verbatim>\<open>dir.c\<close> and \<^verbatim>\<open>ls.c\<close>. A directory entry is
  an address in memory. \<open>junk\<close> is what \<^verbatim>\<open>ext2_iput\<close> finds in the register and in the pointer that are
  never set. Loops over entries may not end, when a length is 0: they are partial functions.
  Structures on the stack are stretches of memory whose addresses are parameters.
\<close>

section \<open>Entries: namei.c\<close>

definition ext2_next_entry :: "mem \<Rightarrow> nat \<Rightarrow> nat" where
  "ext2_next_entry m p = p + unat (rd16 m (p + offset_of ext2_dir_entry ''rec_len''))"

definition entry_inode :: "mem \<Rightarrow> nat \<Rightarrow> u32" where
  "entry_inode m de = rd32 m (de + offset_of ext2_dir_entry ''inode'')"

definition dirent_name :: "nat \<Rightarrow> nat" where
  "dirent_name de = de + offset_of ext2_dir_entry ''name''"

text \<open>
  The name sought is an array with its terminator. No comparison reads further in the entry than the
  terminator is in the array.
\<close>

definition ext2_match_entry :: "int \<Rightarrow> u8 list \<Rightarrow> mem \<Rightarrow> nat \<Rightarrow> bool option" where
  "ext2_match_entry len name m de =
     (if len \<noteq> int (unat (m (de + offset_of ext2_dir_entry ''name_len''))) then Some False
      else if entry_inode m de = 0 then Some False
      else map_option (\<lambda>r. r = 0) (strncmp name (get_bytes m (dirent_name de) (length name)) len))"

text \<open>Going to the next block at the end of one; \<open>narrow\<close> is the conversion to the type of \<^verbatim>\<open>block\<close>.\<close>

definition turn_page :: "nat \<Rightarrow> (u32 \<Rightarrow> u32) \<Rightarrow> nat \<Rightarrow> nat \<Rightarrow> u32 \<Rightarrow> e2 \<Rightarrow> (nat \<times> nat \<times> u32 \<times> e2) run" where
  "turn_page dir narrow dir_data de dir_block s =
     (if de \<ge> unat EXT2_BLOCK_SIZE + dir_data
      then proceed (bmap dir dir_block s) (\<lambda>(block, s).
        let dir_data = bread (narrow block) s in ret (dir_data, dir_data, dir_block + 1, s))
      else ret (dir_data, de, dir_block, s))"

text \<open>The address of an array in the entry is never null.\<close>

partial_function (option) find_loop ::
    "nat \<Rightarrow> u8 list \<Rightarrow> int \<Rightarrow> nat \<Rightarrow> nat \<Rightarrow> u32 \<Rightarrow> e2 \<Rightarrow> (nat \<times> e2) run" where
  "find_loop dir name namelen dir_data de dir_block s =
     (case turn_page dir (\<lambda>b. b) dir_data de dir_block s of
        None \<Rightarrow> None
      | Some (Inl e) \<Rightarrow> stops e
      | Some (Inr (dir_data, de, dir_block, s)) \<Rightarrow>
          if entry_inode (bytes s) de = 0 then ret (0, s)
          else
            (case ext2_match_entry namelen name (bytes s) de of
               None \<Rightarrow> None
             | Some matches \<Rightarrow>
                 if matches then ret (de, s)
                 else find_loop dir name namelen dir_data (ext2_next_entry (bytes s) de) dir_block s))"

definition ext2_find_entry :: "nat \<Rightarrow> u8 list \<Rightarrow> int \<Rightarrow> e2 \<Rightarrow> (nat \<times> e2) run" where
  "ext2_find_entry dir name namelen s =
     (let block = rd32 (bytes s) (i_block dir 0) in
      if block = 0 then ret (0, s)
      else let dir_data = bread block s in find_loop dir name namelen dir_data dir_data 1 s)"

text \<open>
  The next block is sought with the entry \<open>dir\<close> in the place of the inode. The result is where the new
  entry goes, or \<^term>\<open>None\<close> when its name is there.
\<close>

partial_function (option) add_loop :: "nat \<Rightarrow> nat \<Rightarrow> nat \<Rightarrow> u32 \<Rightarrow> e2 \<Rightarrow> (nat option \<times> e2) run" where
  "add_loop dir dir_data de dir_block s =
     (case turn_page dir (\<lambda>b. b) dir_data de dir_block s of
        None \<Rightarrow> None
      | Some (Inl e) \<Rightarrow> stops e
      | Some (Inr (dir_data, de, dir_block, s)) \<Rightarrow>
          if entry_inode (bytes s) de = 0 then ret (Some de, s)
          else
            (case strcmp_at (bytes s) (dirent_name de) (dirent_name dir) of
               None \<Rightarrow> None
             | Some r \<Rightarrow>
                 if r = 0 then ret (None, s)
                 else add_loop dir dir_data (ext2_next_entry (bytes s) de) dir_block s))"

text \<open>The fields of an entry with the name at \<open>name\<close>.\<close>

definition fill_entry :: "nat \<Rightarrow> u32 \<Rightarrow> nat \<Rightarrow> mem \<Rightarrow> mem option" where
  "fill_entry de inode name m =
     (let m = wr32 m (de + offset_of ext2_dir_entry ''inode'') inode in
      case strlen_at m name of
        None \<Rightarrow> None
      | Some n \<Rightarrow>
          let m = m(de + offset_of ext2_dir_entry ''name_len'' := word_of_nat n);
              m = wr16 m (de + offset_of ext2_dir_entry ''rec_len'')
                    (ucast (EXT2_DIR_REC_LEN (ucast (m (de + offset_of ext2_dir_entry ''name_len'')))))
          in strcpy m (dirent_name de) name)"

definition ext2_add_entry :: "nat \<Rightarrow> nat \<Rightarrow> e2 \<Rightarrow> con \<Rightarrow> (e2 \<times> con) run" where
  "ext2_add_entry dir_inode dir s c =
     (let block = rd32 (bytes s) (i_block dir_inode 0) in
      if block = 0 then ret (s, c)
      else
        let dir_data = bread block s in
        proceed (add_loop dir dir_data dir_data 1 s) (\<lambda>(de, s).
          case de of
            None \<Rightarrow>
              (case printk (bytes s) (lit (''%s: already exist'' @ nl)) [word_of_nat (dirent_name dir)] c of
                 None \<Rightarrow> None
               | Some (_, c) \<Rightarrow> ret (s, c))
          | Some de \<Rightarrow>
              (case fill_entry de (entry_inode (bytes s) dir) (dirent_name dir) (bytes s) of
                 None \<Rightarrow> None
               | Some m \<Rightarrow> ret (s\<lparr>bytes := m\<rparr>, c))))"

section \<open>Paths\<close>

text \<open>The end of the component that begins at \<open>p\<close>.\<close>

partial_function (option) component_end :: "mem \<Rightarrow> nat \<Rightarrow> nat option" where
  "component_end m p = (if m p \<noteq> 47 \<and> m p \<noteq> 0 then component_end m (p + 1) else Some p)"

text \<open>
  One turn: the name is copied to an array of 20 bytes, beyond which there is no result. The slash
  behind a component is not skipped.
\<close>

definition ext2_namei_step :: "(e2 \<Rightarrow> u32 \<times> nat) \<Rightarrow> nat \<Rightarrow> nat \<Rightarrow> e2 \<Rightarrow> (nat \<times> nat option \<times> e2) run" where
  "ext2_namei_step junk p working_inode s =
     (case component_end (bytes s) p of
        None \<Rightarrow> None
      | Some pathname \<Rightarrow>
          if pathname - p \<ge> 20 then None
          else
            let thisname = get_bytes (bytes s) p (pathname - p) @ [0] in
            (case strlen thisname of
               None \<Rightarrow> None
             | Some n \<Rightarrow>
                 proceed (ext2_find_entry working_inode thisname (int n) s) (\<lambda>(de, s).
                   if de = 0 then ret (pathname, None, s)
                   else
                     let (inode, s) = ext2_iget (entry_inode (bytes s) de) s;
                         (eax, bitmap) = junk s
                     in proceed (ext2_iput eax bitmap working_inode s) (\<lambda>s. ret (pathname, Some inode, s)))))"

partial_function (option) ext2_namei_loop :: "(e2 \<Rightarrow> u32 \<times> nat) \<Rightarrow> nat \<Rightarrow> nat \<Rightarrow> e2 \<Rightarrow> (nat \<times> e2) run" where
  "ext2_namei_loop junk pathname working_inode s =
     (if bytes s pathname = 0 then ret (working_inode, s)
      else
        (case ext2_namei_step junk pathname working_inode s of
           None \<Rightarrow> None
         | Some (Inl e) \<Rightarrow> stops e
         | Some (Inr (pathname, None, s)) \<Rightarrow> ret (0, s)
         | Some (Inr (pathname, Some inode, s)) \<Rightarrow> ext2_namei_loop junk pathname inode s))"

definition ext2_namei :: "(e2 \<Rightarrow> u32 \<times> nat) \<Rightarrow> nat \<Rightarrow> e2 \<Rightarrow> con \<Rightarrow> (nat \<times> e2 \<times> con) run" where
  "ext2_namei junk pathname s c =
     (if bytes s pathname \<noteq> 47
      then
        (case printk (bytes s) (lit (''error: we don'' @ [CHR 0x27] @ ''t support relatetive searching now, sorry!'' @ nl)) [] c of
           None \<Rightarrow> None
         | Some (_, c) \<Rightarrow> ret (0, s, c))
      else
        let (working_inode, s) = ext2_iget ROOT_INODE s in
        proceed (ext2_namei_loop junk (pathname + 1) working_inode s) (\<lambda>(i, s). ret (i, s, c)))"

section \<open>Directories: dir.c\<close>

text \<open>The fields of an entry on the stack, the name a literal.\<close>

definition dot_entry :: "nat \<Rightarrow> u32 \<Rightarrow> u32 \<Rightarrow> string \<Rightarrow> mem \<Rightarrow> mem" where
  "dot_entry de inode n name m =
     (let m = wr32 m (de + offset_of ext2_dir_entry ''inode'') inode;
          m = m(de + offset_of ext2_dir_entry ''name_len'' := ucast n);
          m = wr16 m (de + offset_of ext2_dir_entry ''rec_len'') (ucast (EXT2_DIR_REC_LEN n))
      in put_bytes m (dirent_name de) (lit name))"

definition ext2_make_empty_dir :: "nat \<Rightarrow> nat \<Rightarrow> nat \<Rightarrow> nat \<Rightarrow> e2 \<Rightarrow> con \<Rightarrow> (e2 \<times> con) run" where
  "ext2_make_empty_dir dot ddot dir parent s c =
     proceed (create_block dir 0 s) (\<lambda>(block, s).
       let s = upd (dot_entry dot (rd32 (bytes s) (dir + offset_of m_inode ''i_num'')) 1 ''.'') s;
           s = upd (dot_entry ddot (rd32 (bytes s) (parent + offset_of m_inode ''i_num'')) 2 ''..'') s
       in proceed (ext2_add_entry dir dot s c) (\<lambda>(s, c). ext2_add_entry dir ddot s c))"

text \<open>\<^verbatim>\<open>strcmp\<close> with a literal reads no further than the literal goes.\<close>

definition strcmp_lit :: "mem \<Rightarrow> nat \<Rightarrow> string \<Rightarrow> int option" where
  "strcmp_lit m p t = strcmp (get_bytes m p (length (lit t))) (lit t)"

text \<open>The second comparison takes the number of the inode for a pointer.\<close>

partial_function (option) empty_loop :: "nat \<Rightarrow> nat \<Rightarrow> nat \<Rightarrow> u32 \<Rightarrow> int \<Rightarrow> e2 \<Rightarrow> (int \<times> e2) run" where
  "empty_loop dir dir_data de dir_block i s =
     (case turn_page dir (\<lambda>b. b) dir_data de dir_block s of
        None \<Rightarrow> None
      | Some (Inl e) \<Rightarrow> stops e
      | Some (Inr (dir_data, de, dir_block, s)) \<Rightarrow>
          (case strcmp_lit (bytes s) (dirent_name de) ''.'' of
             None \<Rightarrow> None
           | Some r \<Rightarrow>
               if r \<noteq> 0 then ret (0, s)
               else
                 (case strcmp_lit (bytes s) (unat (entry_inode (bytes s) de)) ''..'' of
                    None \<Rightarrow> None
                  | Some r \<Rightarrow>
                      if r \<noteq> 0 then ret (0, s)
                      else if i + 1 > 2 then ret (1, s)
                      else empty_loop dir dir_data (ext2_next_entry (bytes s) de) dir_block (i + 1) s)))"

definition ext2_dir_empty :: "nat \<Rightarrow> e2 \<Rightarrow> (int \<times> e2) run" where
  "ext2_dir_empty dir s =
     (let block = rd32 (bytes s) (i_block dir 0) in
      if block = 0 then ret (2, s)
      else let dir_data = bread block s in empty_loop dir dir_data dir_data 1 0 s)"

partial_function (option) strchr_at :: "mem \<Rightarrow> nat \<Rightarrow> u8 \<Rightarrow> nat option option" where
  "strchr_at m p ch =
     (if m p = 0 then Some None else if m p = ch then Some (Some p) else strchr_at m (p + 1) ch)"

text \<open>\<open>mode\<close> is used before it is set.\<close>

definition ext2_mkdir :: "(e2 \<Rightarrow> u32 \<times> nat) \<Rightarrow> u32 \<Rightarrow> nat \<Rightarrow> nat \<Rightarrow> nat \<Rightarrow> nat \<Rightarrow> nat \<Rightarrow> e2 \<Rightarrow> con \<Rightarrow> (e2 \<times> con) run" where
  "ext2_mkdir junk mode entry temp_dir dot ddot pathname s c =
     (let s = upd (\<lambda>m. put_bytes m temp_dir (47 # replicate 7 0)) s in
      case strchr_at (bytes s) pathname 47 of
        None \<Rightarrow> None
      | Some None \<Rightarrow>
          (case printk (bytes s) (lit (''error: please input the absolute pathname'' @ nl)) [] c of
             None \<Rightarrow> None
           | Some (_, c) \<Rightarrow> ret (s, c))
      | Some (Some file_name) \<Rightarrow>
          let s = upd (\<lambda>m. m(file_name := 0)) s; file_name = file_name + 1 in
          proceed (ext2_namei junk temp_dir s c) (\<lambda>(dir, s, c).
          let mode = mode OR S_IFDIR in
          proceed (ext2_new_inode dir mode s) (\<lambda>(inode, s).
            case fill_entry entry (rd32 (bytes s) (inode + offset_of m_inode ''i_num'')) file_name (bytes s) of
              None \<Rightarrow> None
            | Some m \<Rightarrow>
                proceed (ext2_add_entry dir entry (s\<lparr>bytes := m\<rparr>) c) (\<lambda>(s, c).
                  ext2_make_empty_dir dot ddot inode dir s c))))"

definition ext2_rmdir :: "(e2 \<Rightarrow> u32 \<times> nat) \<Rightarrow> nat \<Rightarrow> e2 \<Rightarrow> con \<Rightarrow> (e2 \<times> con) run" where
  "ext2_rmdir junk dir s c =
     proceed (ext2_dir_empty dir s) (\<lambda>(e, s).
       if e = 0
       then
         (case printk (bytes s) (lit (''dir not empty'' @ nl)) [] c of
            None \<Rightarrow> None
          | Some (_, c) \<Rightarrow> ret (s, c))
       else let (eax, bitmap) = junk s in proceed (ext2_iput eax bitmap dir s) (\<lambda>s. ret (s, c)))"

section \<open>Listing: ls.c\<close>

text \<open>Here \<^verbatim>\<open>block\<close> has 16 bits. The entry is tested before the end of the block is.\<close>

definition cut16 :: "u32 \<Rightarrow> u32" where
  "cut16 b = ucast (ucast b :: u16)"

partial_function (option) ls_entries ::
    "nat \<Rightarrow> bool \<Rightarrow> nat \<Rightarrow> nat \<Rightarrow> u32 \<Rightarrow> e2 \<Rightarrow> con \<Rightarrow> (e2 \<times> con) run" where
  "ls_entries dir long dir_data de dir_block s c =
     (if entry_inode (bytes s) de = 0 then ret (s, c)
      else
        (case turn_page dir cut16 dir_data de dir_block s of
           None \<Rightarrow> None
         | Some (Inl e) \<Rightarrow> stops e
         | Some (Inr (dir_data, de, dir_block, s)) \<Rightarrow>
             (case (if long
                    then printk (bytes s) (lit (''%-16s%d'' @ nl)) [word_of_nat (dirent_name de), entry_inode (bytes s) de] c
                    else printk (bytes s) (lit (''%s'' @ nl)) [word_of_nat (dirent_name de)] c) of
                None \<Rightarrow> None
              | Some (_, c) \<Rightarrow> ls_entries dir long dir_data (ext2_next_entry (bytes s) de) dir_block s c)))"

definition ext2_ls :: "(e2 \<Rightarrow> u32 \<times> nat) \<Rightarrow> nat \<Rightarrow> nat \<Rightarrow> e2 \<Rightarrow> con \<Rightarrow> (e2 \<times> con) run" where
  "ext2_ls junk pathname arg s c =
     proceed (ext2_namei junk pathname s c) (\<lambda>(dir, s, c).
       if dir = 0
       then
         (case printk (bytes s) (lit (''error: dir or file %s not found'' @ nl)) [word_of_nat pathname] c of
            None \<Rightarrow> None
          | Some (_, c) \<Rightarrow> ret (s, c))
       else
         let block = cut16 (rd32 (bytes s) (i_block dir 0)); dir_data = bread block s in
         (case strcmp_lit (bytes s) arg ''-l'' of
            None \<Rightarrow> None
          | Some r \<Rightarrow>
              (case (if r = 0
                     then printk (bytes s) (lit (nl @ ''file name'' @ tab @ ''inode number'' @ nl)) [] c
                     else Some (0, c)) of
                 None \<Rightarrow> None
               | Some (_, c) \<Rightarrow> ls_entries dir (r = 0) dir_data dir_data 1 s c)))"

section \<open>A directory of one block as a list\<close>

text \<open>
  The entries from \<open>p\<close> to \<open>q\<close>, each with room for its name and the terminator; a directory ends with
  an entry without an inode.
\<close>

abbreviation rec_len :: "mem \<Rightarrow> nat \<Rightarrow> nat" where
  "rec_len m p \<equiv> unat (rd16 m (p + 4))"

fun entries_to :: "mem \<Rightarrow> nat \<Rightarrow> nat \<Rightarrow> (u32 \<times> u8 list) list \<Rightarrow> nat \<Rightarrow> bool" where
  "entries_to m lim p [] q \<longleftrightarrow> p = q"
| "entries_to m lim p ((i, t) # es) q \<longleftrightarrow>
     p < lim \<and> i \<noteq> 0 \<and> entry_inode m p = i \<and> unat (m (p + 6)) = length t \<and> str_at m (p + 8) t \<and>
     8 + length t < rec_len m p \<and> entries_to m lim (p + rec_len m p) es q"

definition dir_holds :: "mem \<Rightarrow> nat \<Rightarrow> (u32 \<times> u8 list) list \<Rightarrow> nat \<Rightarrow> bool" where
  "dir_holds m d es q \<longleftrightarrow> entries_to m (1024 + d) d es q \<and> q < 1024 + d \<and> entry_inode m q = 0"

lemma entries_to_le: "entries_to m lim p es q \<Longrightarrow> p \<le> q"
  by (induction es arbitrary: p) force+

lemma entries_to_append:
  "entries_to m lim p (es @ fs) r \<longleftrightarrow> (\<exists>q. entries_to m lim p es q \<and> entries_to m lim q fs r)"
  by (induction es arbitrary: p) auto

lemma entries_to_cong:
  "entries_to m lim p es q \<Longrightarrow> (\<And>x. p \<le> x \<Longrightarrow> x < q \<Longrightarrow> m' x = m x) \<Longrightarrow> entries_to m' lim p es q"
proof (induction es arbitrary: p)
  case (Cons e es)
  obtain i t where e: "e = (i, t)" by force
  have q: "p + rec_len m p \<le> q" "8 + length t < rec_len m p" using Cons.prems(1) entries_to_le by (auto simp: e)
  have r: "rec_len m' p = rec_len m p" using q Cons.prems(2) by (simp add: rd16_def)
  moreover have "entry_inode m' p = entry_inode m p" using q Cons.prems(2) by (simp add: entry_inode_def rd32_def)
  moreover have "str_at m' (p + 8) t"
  proof (rule str_at_cong)
    show "str_at m (p + 8) t" using Cons.prems(1) by (simp add: e)
    show "m' x = m x" if "p + 8 \<le> x" "x \<le> p + 8 + length t" for x using that q by (intro Cons.prems(2)) linarith+
  qed
  moreover have "entries_to m' lim (p + rec_len m p) es q"
  proof (rule Cons.IH)
    show "entries_to m lim (p + rec_len m p) es q" using Cons.prems(1) by (simp add: e)
    show "m' x = m x" if "p + rec_len m p \<le> x" "x < q" for x using that by (intro Cons.prems(2)) linarith+
  qed
  moreover have "m' (p + 6) = m (p + 6)" using q by (intro Cons.prems(2)) linarith+
  ultimately show ?case using Cons.prems(1) by (simp add: e)
qed simp

lemma dir_holds_cong:
  assumes "dir_holds m d es q" and "\<And>x. d \<le> x \<Longrightarrow> x < q + 4 \<Longrightarrow> m' x = m x"
  shows "dir_holds m' d es q"
proof -
  have e: "entries_to m (1024 + d) d es q" using assms(1) by (simp add: dir_holds_def)
  have "entry_inode m' q = entry_inode m q"
    using entries_to_le [OF e] by (auto simp: entry_inode_def intro!: rd32_cong assms(2))
  moreover have "entries_to m' (1024 + d) d es q" using e assms(2) by (auto intro: entries_to_cong)
  ultimately show ?thesis using assms(1) by (simp add: dir_holds_def)
qed

lemma turn_page_inside [simp]: "p < 1024 + d \<Longrightarrow> turn_page dir f d p k s = ret (d, p, k, s)"
  by (simp add: turn_page_def EXT2_BLOCK_SIZE_def)

lemma ext2_next_entry_rec_len: "ext2_next_entry m p = p + rec_len m p"
  by (simp add: ext2_next_entry_def)

lemma ext2_match_entry_name:
  assumes "str_at m (p + 8) t" and "unat (m (p + 6)) = length t" and "entry_inode m p \<noteq> 0"
    and "0 \<notin> set n" and "n \<noteq> []"
  shows "ext2_match_entry (int (length n)) (n @ [0]) m p = Some (t = n)"
proof (cases "length n = length t")
  case False
  then show ?thesis using assms(2) by (auto simp: ext2_match_entry_def)
next
  case True
  have "is_str (n @ [0]) n" using assms(4) by (auto simp: is_str_def)
  moreover have "get_bytes m (p + 8) (Suc (length t)) = t @ [0]"
    using assms(1) by (intro nth_equalityI) (auto simp: get_bytes_def str_at_def nth_append less_Suc_eq simp del: upt_Suc)
  moreover have "is_str (t @ [0]) t" using assms(1) by (auto simp: is_str_def str_at_def)
  moreover have tn: "t \<noteq> []" "n \<noteq> []" using assms(5) True by auto
  ultimately obtain r where "strncmp (n @ [0]) (get_bytes m (p + 8) (Suc (length t))) (int (length n)) = Some r"
    "r = 0 \<longleftrightarrow> n = t" using strncmp_is_str [of "n @ [0]" n "t @ [0]" t "int (length n)"] tn True by (auto simp: take_all)
  then show ?thesis using assms(2,3) True by (auto simp: ext2_match_entry_def dirent_name_def)
qed

text \<open>The address of the first entry with the name, 0 when there is none.\<close>

fun locate :: "mem \<Rightarrow> nat \<Rightarrow> (u32 \<times> u8 list) list \<Rightarrow> u8 list \<Rightarrow> nat" where
  "locate m p [] n = 0"
| "locate m p ((i, t) # es) n = (if t = n then p else locate m (p + rec_len m p) es n)"

lemma find_loop_locates:
  assumes "0 \<notin> set n" and "n \<noteq> []"
  shows "entries_to (bytes s) (1024 + d) p es q \<Longrightarrow> q < 1024 + d \<Longrightarrow> entry_inode (bytes s) q = 0 \<Longrightarrow>
    find_loop dir (n @ [0]) (int (length n)) d p k s = ret (locate (bytes s) p es n, s)"
proof (induction es arbitrary: p)
  case Nil
  then show ?case by (subst find_loop.simps) simp
next
  case (Cons e es)
  then show ?case
    using ext2_match_entry_name [OF _ _ _ assms, of "bytes s" p "snd e"]
    by (subst find_loop.simps) (cases e; simp add: ext2_next_entry_rec_len)
qed

lemma locate_find:
  "entries_to m lim p es q \<Longrightarrow>
   (case List.find (\<lambda>(i, t). t = n) es of
      None \<Rightarrow> locate m p es n = 0
    | Some (i, t) \<Rightarrow> p \<le> locate m p es n \<and> entry_inode m (locate m p es n) = i)"
proof (induction es arbitrary: p)
  case (Cons e es)
  then show ?case by (cases e) (force split: option.splits)
qed simp

text \<open>In a directory of one block \<^verbatim>\<open>ext2_find_entry\<close> finds the first entry with the name, and nothing when
  there is none; the search ends.\<close>

theorem ext2_find_entry_finds:
  assumes "rd32 (bytes s) (i_block dir 0) = b" and "b \<noteq> 0" and "dir_holds (bytes s) (bread b s) es q"
    and "0 \<notin> set n" and "n \<noteq> []"
  shows "case List.find (\<lambda>(i, t). t = n) es of
      None \<Rightarrow> ext2_find_entry dir (n @ [0]) (int (length n)) s = ret (0, s)
    | Some (i, t) \<Rightarrow> \<exists>de. ext2_find_entry dir (n @ [0]) (int (length n)) s = ret (de, s) \<and>
        bread b s \<le> de \<and> entry_inode (bytes s) de = i"
proof -
  have h: "entries_to (bytes s) (1024 + bread b s) (bread b s) es q" "q < 1024 + bread b s" "entry_inode (bytes s) q = 0"
    using assms(3) by (simp_all add: dir_holds_def)
  have "ext2_find_entry dir (n @ [0]) (int (length n)) s = ret (locate (bytes s) (bread b s) es n, s)"
    using find_loop_locates [OF assms(4,5) h] assms(1,2) by (simp add: ext2_find_entry_def)
  then show ?thesis using locate_find [of "bytes s" _ "bread b s" es q n] assms(3)
    by (auto simp: dir_holds_def split: option.splits)
qed

section \<open>The directory as it is made\<close>

definition root_entries :: "(u32 \<times> u8 list) list" where
  "root_entries = [(2, [46]), (2, [46, 46]), (11, map of_char ''lost+found'')]"

lemma first_entries:
  "take 12 (ext2_entry_bytes 2 12 1 2 ''.'') = [2, 0, 0, 0, 12, 0, 1, 2, 46, 0, 0, 0]"
  "take 12 (ext2_entry_bytes 2 12 2 2 ''..'') = [2, 0, 0, 0, 12, 0, 2, 2, 46, 46, 0, 0]"
  "take 20 (ext2_entry_bytes 11 20 10 2 ''lost+found'') =
    [11, 0, 0, 0, 20, 0, 10, 2, 108, 111, 115, 116, 43, 102, 111, 117, 110, 100, 0, 0]"
  by (simp_all add: ext2_entry_bytes_def bytes32_def bytes16_def EXT2_NAME_LEN_def) (simp_all add: eval_nat_numeral)

lemma mke2fs_bytes:
  fixes s :: e2
  defines "t \<equiv> ram_mke2fs (made_disk s)"
  shows "bytes t = put_bytes (put_bytes (put_bytes (bytes (made_disk s))
      0x408400 [2, 0, 0, 0, 12, 0, 1, 2, 46, 0, 0, 0])
      0x40840C [2, 0, 0, 0, 12, 0, 2, 2, 46, 46, 0, 0])
      0x408418 [11, 0, 0, 0, 20, 0, 10, 2, 108, 111, 115, 116, 43, 102, 111, 117, 110, 100, 0, 0]"
proof -
  have l: "unat (EXT2_DIR_REC_LEN 1) = 12" "unat (EXT2_DIR_REC_LEN 2) = 12" "unat (EXT2_DIR_REC_LEN 10) = 20"
    by (simp_all add: EXT2_DIR_REC_LEN_def)
  have b: "i_block (ram_ext2_get_root_inode (made_disk s)) 0 = 0x4028A8"
    by (simp add: ram_ext2_get_root_inode_def root_inode_address_def i_block_def made_disk_bytes ext2_consts)
  show ?thesis unfolding t_def ram_mke2fs_def Let_def b made_disk_bytes l first_entries
    by (simp add: EXT2_BLOCK_SIZE_def)
qed

lemma mke2fs_outside: "x < 0x408400 \<or> 0x40842C \<le> x \<Longrightarrow> bytes (ram_mke2fs (made_disk s)) x = bytes (made_disk s) x"
  by (auto simp: mke2fs_bytes put_bytes_def)

lemma made_disk_outside: "x < 0x400400 \<or> 0x403000 \<le> x \<Longrightarrow> bytes (made_disk s) x = bytes s x"
  by (auto simp: ram_disk_defs Let_def flat memset_outside ext2_super_block_def ext2_group_desc_def)

lemma root_holds:
  fixes s :: e2
  defines "t \<equiv> ram_mke2fs (made_disk s)"
  assumes "rd32 (bytes (made_disk s)) 0x40842C = 0"
  shows "dir_holds (bytes t) 0x408400 root_entries 0x40842C" "rd32 (bytes t) (i_block (ram_ext2_get_root_inode t) 0) = 33"
    "bread 33 t = 0x408400"
proof -
  have z: "rd32 (bytes t) 0x40842C = 0"
    using assms(2) unfolding t_def by (subst rd32_cong [OF mke2fs_outside]) simp_all
  show "dir_holds (bytes t) 0x408400 root_entries 0x40842C"
    using z unfolding dir_holds_def root_entries_def t_def mke2fs_bytes
    by (simp add: entry_inode_def rd32_def rd16_def put_bytes_def le32_def le16_def)
  have r: "ram_start t = 0x400000" by (simp add: t_def ram_mke2fs_def Let_def made_disk_bytes)
  then show "bread 33 t = 0x408400" by (simp add: bread_def ext2_consts)
  have "rd32 (bytes t) 0x4028A8 = 33"
    unfolding t_def by (subst rd32_cong [OF mke2fs_outside]) (simp_all add: made_disk_bytes)
  then show "rd32 (bytes t) (i_block (ram_ext2_get_root_inode t) 0) = 33"
    using r by (simp add: ram_ext2_get_root_inode_def root_inode_address_def i_block_def ext2_consts)
qed

definition zero_disk :: e2 where
  "zero_disk = \<lparr>bytes = (\<lambda>x. 0), ram_start = 0, ram_end = 0\<rparr>"

definition root_disk :: e2 where
  "root_disk = ram_mke2fs (made_disk zero_disk)"

lemma zero_disk_behind: "rd32 (bytes (made_disk zero_disk)) 0x40842C = 0"
  by (simp add: rd32_def made_disk_outside) (simp add: zero_disk_def le32_def)

lemmas root_disk_holds = root_holds [OF zero_disk_behind, folded root_disk_def]

theorem ext2_find_entry_finds_witness:
  "\<exists>de. ext2_find_entry (ram_ext2_get_root_inode root_disk) [46, 46, 0] 2 root_disk = ret (de, root_disk) \<and>
    entry_inode (bytes root_disk) de = 2"
  using ext2_find_entry_finds [of root_disk "ram_ext2_get_root_inode root_disk" 33 root_entries "0x40842C" "[46, 46]"]
    root_disk_holds unfolding root_entries_def by auto

text \<open>On the disk as it is made, with nothing behind its last entry, the root directory holds the entries
  for itself, its parent and \<^verbatim>\<open>lost+found\<close>, and the search for the latter gives inode 11.\<close>

theorem ram_mke2fs_root:
  fixes s :: e2
  defines "t \<equiv> ram_mke2fs (made_disk s)"
  assumes "rd32 (bytes (made_disk s)) 0x40842C = 0"
  shows "dir_holds (bytes t) 0x408400 root_entries 0x40842C \<and>
    (\<exists>de. ext2_find_entry (ram_ext2_get_root_inode t) (lit ''lost+found'') 10 t = ret (de, t) \<and> entry_inode (bytes t) de = 11)"
  using root_holds [OF assms(2)] find_loop_locates [of "map of_char ''lost+found''" t "0x408400" "0x408400" root_entries "0x40842C"
      "ram_ext2_get_root_inode t" 1] locate_find [of "bytes t" _ "0x408400" root_entries "0x40842C" "map of_char ''lost+found''"]
  by (auto simp: t_def ext2_find_entry_def lit_def dir_holds_def root_entries_def split: if_splits)

theorem ram_mke2fs_root_witness:
  "\<exists>de. ext2_find_entry (ram_ext2_get_root_inode (ram_mke2fs (made_disk zero_disk))) (lit ''lost+found'') 10
     (ram_mke2fs (made_disk zero_disk)) = ret (de, ram_mke2fs (made_disk zero_disk))"
  using ram_mke2fs_root [OF zero_disk_behind] by blast

section \<open>Adding an entry\<close>

lemma add_loop_end:
  assumes "str_at (bytes s) (dirent_name e) t"
  shows "entries_to (bytes s) (1024 + d) p es q \<Longrightarrow> q < 1024 + d \<Longrightarrow> entry_inode (bytes s) q = 0 \<Longrightarrow>
    add_loop e d p k s = ret (if t \<in> snd ` set es then None else Some q, s)"
proof (induction es arbitrary: p)
  case Nil
  then show ?case by (subst add_loop.simps) simp
next
  case (Cons f es)
  obtain i n where f: "f = (i, n)" by force
  obtain r where "strcmp_at (bytes s) (dirent_name p) (dirent_name e) = Some r" "r = 0 \<longleftrightarrow> n = t"
    using strcmp_at_str [of "bytes s" "dirent_name p" n "dirent_name e" t] Cons.prems(1) assms by (auto simp: f dirent_name_def)
  then show ?case using Cons by (subst add_loop.simps) (auto simp: f ext2_next_entry_rec_len)
qed

lemma EXT2_DIR_REC_LEN_unat: "n < 256 \<Longrightarrow> unat (EXT2_DIR_REC_LEN (word_of_nat n)) = (n + 11) div 4 * 4"
proof -
  assume n: "n < 256"
  define w where "w = (word_of_nat n + 8 + (4 - 1) :: u32)"
  have w: "unat w = n + 11"
  proof -
    have "w = word_of_nat (n + 11)" by (simp add: w_def)
    then show ?thesis using n by (simp only:) (subst unat_of_nat_u32; simp)
  qed
  have "w AND NOT 3 = push_bit 2 (drop_bit 2 w)"
  proof -
    have "w AND NOT (mask k) = push_bit k (drop_bit k w)" for k by (rule bit_eqI) (auto simp: bit_simps)
    from this [of 2] show ?thesis by (simp add: mask_eq_exp_minus_1)
  qed
  moreover have "unat (drop_bit 2 w) = (n + 11) div 4" by (simp only: unat_drop_bit_eq w) (simp add: drop_bit_eq_div)
  moreover have "push_bit 2 (drop_bit 2 w) = (word_of_nat (unat (drop_bit 2 w) * 4) :: u32)"
    by (simp add: push_bit_eq_mult)
  ultimately have "w AND NOT 3 = word_of_nat ((n + 11) div 4 * 4)" by simp
  then have "unat (w AND NOT 3) = (n + 11) div 4 * 4" using n by (simp only:) (subst unat_of_nat_u32; simp)
  then show ?thesis by (simp add: EXT2_DIR_REC_LEN_def w_def)
qed

lemma fill_entry_fills:
  assumes "str_at m name t" and "length t < 248" and "p + 8 + length t < name \<or> name + length t < p"
  obtains m' where "fill_entry p i name m = Some m'" "entry_inode m' p = i" "unat (m' (p + 6)) = length t"
    "rec_len m' p = (length t + 11) div 4 * 4" "str_at m' (p + 8) t" "\<forall>x. x < p \<or> p + 8 + length t < x \<longrightarrow> m' x = m x"
proof -
  let ?n = "length t"
  let ?m1 = "wr32 m p i"
  let ?m2 = "?m1(p + 6 := word_of_nat ?n)"
  let ?m3 = "wr16 ?m2 (p + 4) (ucast (EXT2_DIR_REC_LEN (word_of_nat ?n)))"
  let ?m4 = "memcpy ?m3 (p + 8) name (?n + 1)"
  have out: "?m1 x = m x" "?m3 x = m x" if "x < p \<or> p + 8 \<le> x" for x using that by (auto simp: flat)
  have s: "str_at m' name t" if "\<And>x. x < p \<or> p + 8 \<le> x \<Longrightarrow> m' x = m x" for m'
    using assms(3) by (intro str_at_cong [OF assms(1)] that) auto
  have u: "unat (word_of_nat ?n :: u8) = ?n" using assms(2) by (simp add: unat_of_nat)
  have c: "(ucast (word_of_nat ?n :: u8) :: u32) = word_of_nat ?n"
    using assms(2) by (simp add: unsigned_of_nat take_bit_nat_eq_self)
  have rec: "unat (EXT2_DIR_REC_LEN (word_of_nat ?n)) = (?n + 11) div 4 * 4" using assms(2) by (intro EXT2_DIR_REC_LEN_unat) simp
  have apart: "p + 8 + ?n < name \<or> name + ?n < p + 8" using assms(3) by auto
  have "fill_entry p i name m = Some ?m4"
    using s [of ?m1] s [of ?m3] out u c by (simp add: fill_entry_def dirent_name_def Let_def strcpy_correct [OF _ apart])
  moreover have "entry_inode ?m4 p = i" by (simp add: entry_inode_def flat)
  moreover have "unat (?m4 (p + 6)) = ?n" using u by (simp add: memcpy_outside flat)
  moreover have "rec_len ?m4 p = (?n + 11) div 4 * 4"
  proof -
    have "(?n + 11) div 4 * 4 < 2 ^ 16" using assms(2) by simp
    then show ?thesis using rec by (simp add: flat unsigned_ucast_eq take_bit_nat_eq_self)
  qed
  moreover have "str_at ?m4 (p + 8) t" by (rule str_at_memcpy [OF s apart]) (rule out(2))
  moreover have "\<forall>x. x < p \<or> p + 8 + ?n < x \<longrightarrow> ?m4 x = m x" using out by (auto simp: memcpy_outside)
  ultimately show thesis using that by blast
qed

text \<open>C35: In a directory of one block, \<^verbatim>\<open>ext2_add_entry\<close> appends an entry whose name is new, and changes
  nothing outside it; a name that is there is reported and nothing changes. The name must be outside
  the block and fit it, with another entry behind, and its length not be a multiple of four: then the
  length of the record has no room for the terminator.\<close>

theorem ext2_add_entry_appends:
  assumes "rd32 (bytes s) (i_block dir 0) = b" and "b \<noteq> 0" and "dir_holds (bytes s) (bread b s) es q"
    and "str_at (bytes s) (dirent_name e) t" and "entry_inode (bytes s) e \<noteq> 0"
    and "length t < 248" and "length t mod 4 \<noteq> 0"
    and "q' = q + (length t + 11) div 4 * 4" and "q' < 1024 + bread b s" and "entry_inode (bytes s) q' = 0"
    and "1024 + bread b s < dirent_name e \<or> dirent_name e + length t < bread b s"
  shows "if t \<in> snd ` set es
    then ext2_add_entry dir e s c =
      map_option (\<lambda>(_, c). Inr (s, c)) (printk (bytes s) (lit (''%s: already exist'' @ nl)) [word_of_nat (dirent_name e)] c)
    else \<exists>s'. ext2_add_entry dir e s c = ret (s', c) \<and>
      dir_holds (bytes s') (bread b s) (es @ [(entry_inode (bytes s) e, t)]) q' \<and>
      (\<forall>x. x < q \<or> q' \<le> x \<longrightarrow> bytes s' x = bytes s x)"
proof (cases "t \<in> snd ` set es")
  case True
  then show ?thesis
    using add_loop_end [OF assms(4), of "bread b s" "bread b s" es q 1] assms(1-3)
    by (simp add: ext2_add_entry_def dir_holds_def split: option.splits)
next
  case False
  let ?d = "bread b s"
  have h: "entries_to (bytes s) (1024 + ?d) ?d es q" "q < 1024 + ?d" "entry_inode (bytes s) q = 0"
    using assms(3) by (simp_all add: dir_holds_def)
  have room: "q + 8 + length t < q'" using assms(7,8) by presburger
  have "?d \<le> q" using h(1) by (rule entries_to_le)
  then have "q + 8 + length t < dirent_name e \<or> dirent_name e + length t < q" using assms(9,11) room by linarith
  from fill_entry_fills [OF assms(4,6) this, of "entry_inode (bytes s) e"] obtain m where
    m: "fill_entry q (entry_inode (bytes s) e) (dirent_name e) (bytes s) = Some m" "entry_inode m q = entry_inode (bytes s) e"
      "unat (m (q + 6)) = length t" "rec_len m q = (length t + 11) div 4 * 4" "str_at m (q + 8) t"
      "\<forall>x. x < q \<or> q + 8 + length t < x \<longrightarrow> m x = bytes s x" by blast
  have a: "ext2_add_entry dir e s c = ret (s\<lparr>bytes := m\<rparr>, c)"
    using add_loop_end [OF assms(4) h] False assms(1,2) m(1) by (simp add: ext2_add_entry_def)
  have "entries_to m (1024 + ?d) ?d es q" using h(1) m(6) by (intro entries_to_cong [OF h(1)]) auto
  moreover have "entries_to m (1024 + ?d) q [(entry_inode (bytes s) e, t)] q'"
    using h(2) assms(5,8) m(2-5) room by simp
  moreover have "entry_inode m q' = 0"
    using assms(10) m(6) room by (simp add: entry_inode_def rd32_def)
  ultimately have "dir_holds m ?d (es @ [(entry_inode (bytes s) e, t)]) q'"
    using assms(9) by (auto simp: dir_holds_def entries_to_append)
  then show ?thesis using a False m(6) room by auto
qed

lemma root_disk_zero: "x < 0x400400 \<or> 0x40842C \<le> x \<Longrightarrow> bytes root_disk x = 0"
  by (auto simp: root_disk_def mke2fs_outside made_disk_outside) (simp_all add: zero_disk_def)

lemma root_disk_slot: "i_block (ram_ext2_get_root_inode root_disk) 0 = 0x4028A8"
proof -
  have "ram_start root_disk = 0x400000" by (simp add: root_disk_def ram_mke2fs_def Let_def made_disk_bytes)
  then show ?thesis by (simp add: ram_ext2_get_root_inode_def root_inode_address_def i_block_def ext2_consts)
qed

text \<open>The disk as it is made, with an entry \<open>x\<close> at the address 0.\<close>

definition new_name_disk :: e2 where
  "new_name_disk = root_disk\<lparr>bytes := (bytes root_disk)(0 := 12, 8 := 120, 9 := 0)\<rparr>"

theorem ext2_add_entry_appends_witness:
  "\<forall>c. \<exists>s'. ext2_add_entry (ram_ext2_get_root_inode root_disk) 0 new_name_disk c = ret (s', c) \<and>
     dir_holds (bytes s') 0x408400 (root_entries @ [(12, [120])]) 0x408438"
proof
  fix c
  let ?s = new_name_disk
  let ?dir = "ram_ext2_get_root_inode root_disk"
  have same: "bytes ?s x = bytes root_disk x" if "10 \<le> x" for x using that by (simp add: new_name_disk_def)
  have d: "dir_holds (bytes ?s) 0x408400 root_entries 0x40842C"
    using root_disk_holds(1) by (rule dir_holds_cong) (simp add: same)
  have b: "bread 33 ?s = 0x408400" using root_disk_holds(3) by (simp add: bread_def new_name_disk_def)
  have "rd32 (bytes ?s) (i_block ?dir 0) = rd32 (bytes root_disk) (i_block ?dir 0)"
    by (intro rd32_cong same) (simp add: root_disk_slot)
  then have n: "rd32 (bytes ?s) (i_block ?dir 0) = 33" using root_disk_holds(2) by simp
  have e: "str_at (bytes ?s) (dirent_name 0) [120]" "entry_inode (bytes ?s) 0 = 12" "entry_inode (bytes ?s) 0x408438 = 0"
    by (simp_all add: root_disk_zero new_name_disk_def dirent_name_def entry_inode_def rd32_def le32_def)
  show "\<exists>s'. ext2_add_entry ?dir 0 ?s c = ret (s', c) \<and> dir_holds (bytes s') 0x408400 (root_entries @ [(12, [120])]) 0x408438"
    using ext2_add_entry_appends [OF n _ _ e(1), of root_entries "0x40842C" "0x408438" c] d b e(2,3)
    unfolding root_entries_def by (auto simp: dirent_name_def)
qed

section \<open>Paths and listings\<close>

lemma find_loop_empty_name:
  "entries_to (bytes s) (1024 + d) p es q \<Longrightarrow> q < 1024 + d \<Longrightarrow> entry_inode (bytes s) q = 0 \<Longrightarrow> [] \<notin> snd ` set es \<Longrightarrow>
    find_loop dir [0] 0 d p k s = ret (0, s)"
proof (induction es arbitrary: p)
  case Nil
  then show ?case by (subst find_loop.simps) simp
next
  case (Cons e es)
  then show ?case
    by (subst find_loop.simps) (cases e; auto simp: ext2_next_entry_rec_len ext2_match_entry_def)
qed

text \<open>The slash behind a component is not skipped: when a path goes on behind a component that was found,
  the next name sought is the empty one, and the path is not found, whatever the directory holds.\<close>

theorem ext2_namei_second_component:
  assumes "bytes s p = 47" and "rd32 (bytes s) (i_block dir 0) = b" and "b \<noteq> 0"
    and "dir_holds (bytes s) (bread b s) es q" and "[] \<notin> snd ` set es"
  shows "ext2_namei_loop junk p dir s = ret (0, s)"
proof -
  have "component_end (bytes s) p = Some p" using assms(1) by (subst component_end.simps) simp
  moreover have "ext2_find_entry dir [0] 0 s = ret (0, s)"
    using find_loop_empty_name [of s "bread b s" "bread b s" es q dir 1] assms(2-5)
    by (simp add: ext2_find_entry_def dir_holds_def)
  ultimately have "ext2_namei_step junk p dir s = ret (p, None, s)" by (simp add: ext2_namei_step_def get_bytes_def)
  then show ?thesis using assms(1) by (subst ext2_namei_loop.simps) simp
qed

theorem ext2_namei_second_component_witness:
  "\<forall>junk. ext2_namei_loop junk 0 (ram_ext2_get_root_inode root_disk) (root_disk\<lparr>bytes := (bytes root_disk)(0 := 47)\<rparr>) =
    ret (0, root_disk\<lparr>bytes := (bytes root_disk)(0 := 47)\<rparr>)"
proof
  fix junk
  let ?s = "root_disk\<lparr>bytes := (bytes root_disk)(0 := 47)\<rparr>"
  have "dir_holds (bytes ?s) 0x408400 root_entries 0x40842C" using root_disk_holds(1) by (rule dir_holds_cong) simp
  moreover have "bread 33 ?s = 0x408400" using root_disk_holds(3) by (simp add: bread_def)
  moreover have "rd32 (bytes ?s) (i_block (ram_ext2_get_root_inode root_disk) 0) = 33"
    using root_disk_holds(2) by (simp add: root_disk_slot flat)
  ultimately show "ext2_namei_loop junk 0 (ram_ext2_get_root_inode root_disk) ?s = ret (0, ?s)"
    using ext2_namei_second_component [of ?s 0 "ram_ext2_get_root_inode root_disk" 33 root_entries "0x40842C" junk]
    unfolding root_entries_def by auto
qed

text \<open>Without \<^verbatim>\<open>-l\<close>, \<^verbatim>\<open>ls\<close> prints the names of a directory of one block, a line for each, in the order in which
  they lie in the block.\<close>

theorem ls_entries_names:
  assumes "1024 + d \<le> 2 ^ 32" and "dir_holds (bytes s) d es q" and "\<forall>(i, t) \<in> set es. length t < 1000"
  shows "ls_entries dir False d d k s c = ret (s, fold con_write (map (\<lambda>(i, t). t @ [10]) es) c)"
proof -
  have "ls_entries dir False d p k s c = ret (s, fold con_write (map (\<lambda>(i, t). t @ [10]) es) c)"
    if "entries_to (bytes s) (1024 + d) p es q" "q < 1024 + d" "entry_inode (bytes s) q = 0"
      "\<forall>(i, t) \<in> set es. length t < 1000" for p es c
    using that
  proof (induction es arbitrary: p c)
    case Nil
    then show ?case by (subst ls_entries.simps) simp
  next
    case (Cons e es)
    obtain i t where e: "e = (i, t)" by force
    have p: "p < 1024 + d" "entry_inode (bytes s) p \<noteq> 0" "str_at (bytes s) (p + 8) t" "length t < 1000"
      "8 + length t < rec_len (bytes s) p" "entries_to (bytes s) (1024 + d) (p + rec_len (bytes s) p) es q"
      using Cons.prems(1,4) by (auto simp: e)
    have "p + 8 < 2 ^ 32" using entries_to_le [OF p(6)] p(5) Cons.prems(2) assms(1) by linarith
    then have u: "unat (word_of_nat (p + 8) :: u32) = p + 8" by (rule unat_of_nat_u32)
    have "printk (bytes s) (lit (''%s'' @ nl)) [word_of_nat (p + 8)] c = Some (int (length t + 1), con_write (t @ [10]) c)"
      using printk_string [of "bytes s" "word_of_nat (p + 8)" t "[]" nl c] p(3,4) u by (simp add: printk_buf_def)
    then show ?case
      using Cons.IH [OF p(6) Cons.prems(2,3), of "con_write (t @ [10]) c"] Cons.prems(4) p(1,2)
      by (subst ls_entries.simps) (simp add: e dirent_name_def ext2_next_entry_rec_len)
  qed
  then show ?thesis using assms(2,3) by (simp add: dir_holds_def)
qed

theorem ls_entries_names_witness:
  "\<forall>dir c. ls_entries dir False 0x408400 0x408400 1 root_disk c =
    ret (root_disk, con_write (map of_char (''lost+found'' @ nl)) (con_write [46, 46, 10] (con_write [46, 10] c)))"
proof (intro allI)
  fix dir c
  show "ls_entries dir False 0x408400 0x408400 1 root_disk c =
    ret (root_disk, con_write (map of_char (''lost+found'' @ nl)) (con_write [46, 46, 10] (con_write [46, 10] c)))"
    using ls_entries_names [of "0x408400" root_disk root_entries "0x40842C" dir 1 c] root_disk_holds(1)
    unfolding root_entries_def by simp
qed

end
