(* ===== verification/Spec2Isabelle.thy ===== *)
theory Spec2Isabelle
  imports Bitops Cstring Fdc Tfs_Copy Keyboard Paging User Ext2_Dir
begin

text \<open>
  \<^bold>\<open>Thunix\<close>, a small 32-bit kernel for the i386, modelled and verified.

  \<^bold>\<open>The program.\<close> The kernel boots from a floppy disk, sets up a text console, a keyboard and a timer,
  mounts the file system TFS on the rest of the disk and runs a shell. Its parts and how they
  interact:

    \<^item> the shell reads keys with \<^verbatim>\<open>get_key\<close>, echoes them with \<^verbatim>\<open>putchar\<close>, splits a line into words and
      calls a command, which uses the system calls of the VFS;
    \<^item> the VFS resolves paths (\<^verbatim>\<open>namei\<close>), keeps inode objects and a table of open files, and calls the
      operations of TFS;
    \<^item> TFS keeps its bitmaps, inodes, directories and files in blocks that it reads and writes through
      the buffer cache;
    \<^item> the buffer cache moves blocks with \<^verbatim>\<open>tfs_bread\<close> and \<^verbatim>\<open>tfs_bwrite\<close>, which are runs of sector
      transfers of the floppy driver;
    \<^item> all of them take memory from \<^verbatim>\<open>malloc\<close> and print with \<^verbatim>\<open>printk\<close>, that is, \<^verbatim>\<open>vsprintf\<close> and the
      console;
    \<^item> keyboard, timer and floppy are served through the interrupt table, which \<^verbatim>\<open>trap_init\<close> fills; programs
      call the kernel through a gate of the same table;
    \<^item> \<^verbatim>\<open>init\<close> starts the components one after the other and enters the shell;
    \<^item> an earlier file system, Ext2 on a ram disk, with its own formatting, allocation, block map, path
      lookup and directory listing, is kept beside TFS and uses only string functions and \<^verbatim>\<open>printk\<close>.

  \<^bold>\<open>The theories.\<close> Each opens with what it holds; names are those of the code.

    \<^item> \<open>Prelude\<close>: the machine integers, \<^verbatim>\<open>include/errno-base.h\<close>, \<^verbatim>\<open>include/err.h\<close>, little-endian
      fields, and lemmas that the others share.
    \<^item> \<open>Bitops\<close>: \<^verbatim>\<open>lib/bitopts.c\<close> on byte lists. Interface \<open>bit_buffer\<close>, interpreted on
      them and on the bitmaps of Ext2.
    \<^item> \<open>Malloc\<close>: \<^verbatim>\<open>mm/malloc.c\<close> on a heap of block headers. The invariant \<open>tiled\<close> says that the blocks
      tile the arena.
    \<^item> \<open>Cstring\<close>: \<^verbatim>\<open>lib/string.c\<close>; readers work on what the pointer sees, writers on a store.
    \<^item> \<open>Floppy\<close>: the sector interface of \<^verbatim>\<open>kernel/fd.c\<close> over a disk that can fail; \<open>Fdc\<close>: the same
      transfers as port accesses, a refinement of it.
    \<^item> \<open>Tfs_Super\<close>: \<^verbatim>\<open>fs/tfs/super.c\<close>, \<^verbatim>\<open>fs/tfs/tfs_diskio.c\<close>. Interface \<open>block_dev\<close>, interpreted on
      the volume and used by the cache.
    \<^item> \<open>Cache\<close>: \<^verbatim>\<open>fs/cache.c\<close> with its pointers. It refines a list in the order of use and stays
      coherent with the disk.
    \<^item> \<open>Tfs_Fs\<close>: the state of a mounted volume. Interface \<open>block_cache\<close>, interpreted on cache and disk
      together and used by everything above.
    \<^item> \<open>Tfs_Alloc\<close>, \<open>Tfs_Inode\<close>, \<open>Tfs_Dir\<close>, \<open>Tfs_Dir_Add\<close>, \<open>Tfs_File\<close>: \<^verbatim>\<open>fs/tfs/balloc.c\<close>,
      \<^verbatim>\<open>ialloc.c\<close>, \<^verbatim>\<open>inode.c\<close>, \<^verbatim>\<open>dir.c\<close> and \<^verbatim>\<open>file.c\<close>. A directory is seen as its \<open>listing\<close>, a file
      as the bytes of its blocks.
    \<^item> \<open>Vfs\<close>: \<^verbatim>\<open>fs/namei.c\<close>, \<^verbatim>\<open>fs/fslib.c\<close>, \<^verbatim>\<open>fs/inode.c\<close>, \<^verbatim>\<open>fs/super.c\<close>; \<open>Vfs_Walk\<close>: what a path lookup
      does, as the inductive relation \<open>walk\<close> over the listings; \<open>Vfs_File\<close>: \<^verbatim>\<open>fs/file.c\<close>,
      \<^verbatim>\<open>fs/dir.c\<close>, \<^verbatim>\<open>fs/exec.c\<close>; \<open>Tfs_Readdir\<close>: the entries that reading a directory gives.
    \<^item> \<open>Tfs_Cmd\<close>, \<open>Tfs_Copy\<close>: \<^verbatim>\<open>fs/tfs/tfs_cmd.c\<close>, the commands of the shell on files, over the VFS and
      the printer.
    \<^item> \<open>Keyboard\<close>: \<^verbatim>\<open>kernel/kb.c\<close>. The interrupts are a list of what the controller gives.
    \<^item> \<open>Console\<close>: \<^verbatim>\<open>kernel/console.c\<close>, with the memory that it writes. Interface \<open>text_device\<close>, used by
      the shell.
    \<^item> \<open>Vsprintf\<close>: \<^verbatim>\<open>lib/vsprintf.c\<close> with the arguments as a list of words; \<open>Printk\<close>:
      \<^verbatim>\<open>kernel/printk.c\<close>, which joins it with the console.
    \<^item> \<open>Hexdump\<close>: \<^verbatim>\<open>kernel/hexdump.c\<close> on a memory of bytes.
    \<^item> \<open>Traps\<close>: \<^verbatim>\<open>kernel/traps.c\<close>, \<^verbatim>\<open>include/asm/system.h\<close>, the functions that install the interrupts of
      keyboard, timer and floppy, \<^verbatim>\<open>halt\<close>, \<^verbatim>\<open>reboot\<close>, \<^verbatim>\<open>panic\<close>; the state is the interrupt table as pairs of
      words and the bytes sent to ports.
    \<^item> \<open>Syscall\<close>: \<^verbatim>\<open>kernel/sys.c\<close>, the entry \<^verbatim>\<open>syscall_interrupt\<close> of \<^verbatim>\<open>kernel/asm.s\<close> with its stack, the
      stubs of \<^verbatim>\<open>include/syscall.h\<close> and \<^verbatim>\<open>user/printf.c\<close>.
    \<^item> \<open>Paging\<close>: \<^verbatim>\<open>mm/mm.c\<close> on a store of words, with the use counts of pages.
    \<^item> \<open>Shell\<close>: \<^verbatim>\<open>kernel/shell.c\<close> up to the choice of the command; \<open>Commands\<close>: what the command does, and
      \<^verbatim>\<open>init\<close>, on the state of the whole kernel; \<open>Session\<close>: keys typed at the prompt, through the shell
      to the commands; \<open>User\<close>: \<^verbatim>\<open>user/user-test.c\<close>, a program that the shell starts.
    \<^item> \<open>Flat\<close>: fields and packed structures in one flat memory; \<open>Ext2\<close>: \<^verbatim>\<open>include/fs_ext2.h\<close>,
      \<^verbatim>\<open>fs/ext2/ramdisk.c\<close>, \<^verbatim>\<open>bitmap.c\<close>, \<^verbatim>\<open>ext2.c\<close>, \<^verbatim>\<open>balloc.c\<close>, \<^verbatim>\<open>ialloc.c\<close>; \<open>Ext2_Inode\<close>: \<^verbatim>\<open>inode.c\<close>
      and \<^verbatim>\<open>ram_mke2fs.c\<close>; \<open>Ext2_Dir\<close>: \<^verbatim>\<open>namei.c\<close>, \<^verbatim>\<open>dir.c\<close>, \<^verbatim>\<open>ls.c\<close>. Every object of this file system,
      its disk included, is at its address in that memory, so that buffers and inodes overlap where
      they do in the code.
    \<^item> \<open>Clock\<close>: \<^verbatim>\<open>kernel/mktime.c\<close>, \<^verbatim>\<open>kernel/timer.c\<close> and the clock reading of \<^verbatim>\<open>init/init.c\<close>.

  \<^bold>\<open>How the code is read.\<close> A structure is a record, its functions are functions from state to state
  in the order of the source, with every early return. An error number is a negative integer, a
  pointer that may carry one is a sum. \<^term>\<open>None\<close> is a run that has no result: it goes through a null
  pointer, leaves an object, or does not end. Integers have the width of the C type wherever they can
  wrap; sizes and addresses that an invariant bounds are \<^typ>\<open>nat\<close> or \<^typ>\<open>int\<close>.

  \<^bold>\<open>What is shown.\<close>

    \<^item> Memory: \<^verbatim>\<open>malloc\<close> returns memory that overlaps nothing in use and keeps the arena tiled when the
      search finds a free block; \<^verbatim>\<open>free\<close> merges neighbours. When it finds none, it can hand out a block
      in use, or go through a null pointer.
    \<^item> Disk: a transfer sends the right command and address and refines the sector interface; sectors
      written are read back; the cache gives the disk's bytes for a block, in every
      order of use, and evicts the least recently used entry; a write through the cache changes its
      block only.
    \<^item> TFS: allocation takes the least free bit and release gives back exactly what was taken; an inode
      written is read back and no other changes; directory search and insertion are membership and
      insertion on the listing; what is written to a file is read back.
    \<^item> VFS: a lookup follows the listings; descriptors are the least free ones; \<^verbatim>\<open>sys_read\<close> delivers the
      bytes of the file as long as its block count covers them; loading a program ends.
    \<^item> File commands: \<^verbatim>\<open>cp\<close> copies the bytes of a file, rounded up to whole blocks; \<^verbatim>\<open>cat\<close> prints a small
      file; \<^verbatim>\<open>ls\<close> prints the entries of the listing in their order.
    \<^item> Console and printing: the cursor stays in a screen that stays in the video memory, for all keys
      but three; text appears where the cursor was; printed numbers read back and have a bounded
      length.
    \<^item> Keyboard, shell, clock: keys come out in the order typed until the ring wraps; the line typed is
      the line edited, and is split into its words; dates are those of a calendar, but for leap years;
      the newest timer request is served at its tick.

    \<^item> Interrupts, system calls, start: every gate is well formed and leads to its handler; which lines
      the start leaves enabled; a system call returns its number; \<^verbatim>\<open>printf\<close> of a program prints what
      \<^verbatim>\<open>printk\<close> prints; a dump has one row for 16 bytes; the start reaches the prompt.
    \<^item> The whole: typing \<^verbatim>\<open>cat\<close> and a name at the prompt shows that file, through shell, choice of the
      command, VFS, TFS, cache and console; typing \<^verbatim>\<open>exec\<close>, the test program and its arguments loads it
      and shows what it prints through its system calls.
    \<^item> Paging: copy on write leaves the old page alone; the tables set up map memory to itself.
    \<^item> Ext2: a block taken is the least free one and its counts change; a block that \<^verbatim>\<open>create_block\<close> adds
      is the one \<^verbatim>\<open>bmap\<close> finds; the formatted disk has the root directory that was meant; a
      directory search finds the entry; a new entry is put behind the last one.

  Many of these state where the code departs from what it is meant to do: the conclusions then say
  what it does instead, and the exact inputs.

  \<^bold>\<open>Bounds and termination.\<close> No definition uses fuel. Loops are structural, or end by a measure: the
  eight blocks of an inode, the ten arguments of a command, the rest of a path or a format, the
  interrupts still to come. Loops over pointers (the search of \<^verbatim>\<open>malloc\<close>, the lists of timers, the copy of
  a string, the loading of a program, the entries of an Ext2 directory) are partial functions, and the theorems about them show that
  they have a result.

  \<^bold>\<open>Parameters.\<close> The floppy medium is a \<open>disk\<close>, its controller the values that port reads give, the CMOS clock a list of readings, the
  keyboard controller a list of interrupts, the argument list of \<^verbatim>\<open>vsprintf\<close> a list of words, and the
  outcome of the next calls of \<^verbatim>\<open>malloc\<close> a list in the state of the file system. The bytes that ports
  answer when the interrupts are installed, the addresses of handlers, and the addresses of arrays
  and literals whose order in memory the compiler chooses, are arguments; so are the register or
  pointer that a function of Ext2 leaves undefined, and the place of its local buffers on the stack.

  \<^bold>\<open>Not modelled.\<close> The saving of registers at the entry of interrupts and page faults (\<^verbatim>\<open>kernel/asm.s\<close>,
  \<^verbatim>\<open>mm/page.s\<close>) and the boot sector, which are assembly. \<^verbatim>\<open>user/string.c\<close> and \<^verbatim>\<open>user/vsprintf.c\<close>
  repeat the text of \<^verbatim>\<open>lib/\<close> and share its definitions. \<^verbatim>\<open>mm/mm.c\<close> and \<^verbatim>\<open>fs/ext2/\<close> are
  modelled, though they are not linked into the kernel. But for Ext2, memory is not one flat store:
  the heap of \<^verbatim>\<open>malloc\<close>, the buffers of the cache and the store of the string functions are separate,
  so an overflow of one into another is the absence of a result, not a changed neighbour.
\<close>

end
